(* ===== verification/Prelude.thy ===== *)
theory Prelude
  imports Main "HOL-Library.Word" "HOL-Library.Monad_Syntax"
begin

text \<open>
  Shared vocabulary of the development.

  The machine types of the kernel, the status codes every fallible operation returns, the
  reading of a failed \<^verbatim>\<open>KM_CHECK\<close> or \<^verbatim>\<open>KM_ASSERT\<close>, and the generic facts about words,
  options, lists and maps that the component theories use.

  Effects are modelled by explicit state passing in the option monad: an operation of the
  source is a function from a state to \<open>(result \<times> state) option\<close>. The value
  \<open>None\<close> stands for \<^verbatim>\<open>km::BugCheck\<close> (a failed \<^verbatim>\<open>KM_CHECK\<close> or \<^verbatim>\<open>KM_ASSERT\<close>, which
  does not return), for a null or dangling dereference and for an access outside an array;
  an \<open>OsStatus\<close> failure is an ordinary result. A theorem that an operation returns
  \<open>Some\<close> therefore says that no such fault happens.
\<close>

unbundle bit_operations_syntax

section \<open>Machine types\<close>

type_synonym u8 = "8 word"
type_synonym u16 = "16 word"
type_synonym u32 = "32 word"
type_synonym u64 = "64 word"
type_synonym size_t = "64 word"
type_synonym uintptr_t = "64 word"

section \<open>Status codes\<close>

text \<open>The enumeration \<^verbatim>\<open>OsStatusId\<close> of \<^verbatim>\<open>sysapi/include/bezos/status.h\<close>, in its order.\<close>

datatype OsStatus =
    OsStatusSuccess
  | OsStatusOutOfMemory
  | OsStatusNotFound
  | OsStatusInvalidInput
  | OsStatusNotSupported
  | OsStatusAlreadyExists
  | OsStatusTraverseNonFolder
  | OsStatusInvalidType
  | OsStatusHandleLocked
  | OsStatusInvalidPath
  | OsStatusInvalidFunction
  | OsStatusEndOfFile
  | OsStatusInvalidData
  | OsStatusInvalidVersion
  | OsStatusTimeout
  | OsStatusOutOfBounds
  | OsStatusMoreData
  | OsStatusChecksumError
  | OsStatusInvalidHandle
  | OsStatusInvalidAddress
  | OsStatusInvalidSpan
  | OsStatusDeviceFault
  | OsStatusDeviceBusy
  | OsStatusDeviceNotReady
  | OsStatusInterfaceNotSupported
  | OsStatusFunctionNotSupported
  | OsStatusOperationNotSupported
  | OsStatusCompleted
  | OsStatusAccessDenied
  | OsStatusProcessOrphaned
  | OsStatusNotAvailable
  | OsStatusThreadTerminated
  | OsStatusOutOfAddressSpace

section \<open>Checks\<close>

text \<open>
  \<^verbatim>\<open>KM_CHECK(expr, msg)\<close> and \<^verbatim>\<open>KM_ASSERT(expr)\<close> of \<^verbatim>\<open>kernel/include/panic.hpp\<close>: both call
  the non-returning \<^verbatim>\<open>km::BugCheck\<close> when the expression is false, in every build.
\<close>

definition KM_CHECK :: "bool \<Rightarrow> unit option" where
  "KM_CHECK b = (if b then Some () else None)"

lemma KM_CHECK_simps [simp]:
  "KM_CHECK True = Some ()"
  "KM_CHECK False = None"
  by (simp_all add: KM_CHECK_def)

lemma KM_CHECK_Some_iff [simp]: "KM_CHECK b = Some u \<longleftrightarrow> b"
  by (simp add: KM_CHECK_def)

lemma KM_CHECK_None_iff [simp]: "KM_CHECK b = None \<longleftrightarrow> \<not> b"
  by (simp add: KM_CHECK_def)

section \<open>Collections\<close>

named_theorems size_simps \<open>unsigned readings of word expressions under no-overflow bounds\<close>

section \<open>Options\<close>

lemma bind_Some_iff: "Option.bind m f = Some y \<longleftrightarrow> (\<exists>x. m = Some x \<and> f x = Some y)"
  by (cases m) auto

section \<open>Words read as natural numbers\<close>

lemma unat_add_small [size_simps]:
  fixes a b :: "'a::len word"
  assumes "unat a + unat b < 2 ^ LENGTH('a)"
  shows "unat (a + b) = unat a + unat b"
  using assms by (simp add: unat_word_ariths)

lemma unat_sub_le [size_simps]:
  fixes a b :: "'a::len word"
  assumes "unat b \<le> unat a"
  shows "unat (a - b) = unat a - unat b"
  using assms by (simp add: unat_sub word_le_nat_alt)

lemma unat_mult_small [size_simps]:
  fixes a b :: "'a::len word"
  assumes "unat a * unat b < 2 ^ LENGTH('a)"
  shows "unat (a * b) = unat a * unat b"
  using assms by (simp add: unat_word_ariths)

lemma unat_of_nat_small:
  assumes "n < 2 ^ LENGTH('a)"
  shows "unat (of_nat n :: 'a::len word) = n"
  using assms by (simp add: unat_of_nat take_bit_nat_eq_self)

lemma unat_power2_small:
  assumes "k < LENGTH('a)"
  shows "unat (2 ^ k :: 'a::len word) = 2 ^ k"
proof -
  have "unat (of_nat (2 ^ k) :: 'a word) = 2 ^ k"
    using assms by (intro unat_of_nat_small) simp
  then show ?thesis by simp
qed

lemma unat_ucast_widen:
  fixes x :: "'a::len word"
  assumes "LENGTH('a) \<le> LENGTH('b)"
  shows "unat (ucast x :: 'b::len word) = unat x"
proof -
  have "unat x < 2 ^ LENGTH('a)" by (rule unsigned_less)
  also have "\<dots> \<le> 2 ^ LENGTH('b)" using assms by simp
  finally show ?thesis by (simp add: unsigned_ucast_eq take_bit_nat_eq_self)
qed

lemma unat_drop_bit: "unat (drop_bit k (x :: 'a::len word)) = unat x div 2 ^ k"
proof -
  have "unat (drop_bit k x) = drop_bit k (unat x)"
    by (rule bit_eqI) (auto simp: bit_unsigned_iff bit_drop_bit_eq dest: bit_imp_le_length)
  then show ?thesis by (simp only: drop_bit_eq_div)
qed

lemma unat_lt_64: "unat (a :: 64 word) < 18446744073709551616"
  using unsigned_less [of a] by simp

lemma word_eqI_unat: "unat a = unat b \<Longrightarrow> a = b"
  by (simp add: word_unat_eq_iff)

end
