(* ===== verification/Bits.thy ===== *)
theory Bits
  imports Prelude
begin

text \<open>
  The integer helpers of \<^verbatim>\<open>common/include/common/util/util.hpp\<close> (rounding, alignment,
  powers of two) and the bit scans of \<^verbatim>\<open>kernel/include/memory/detail/tlsf.hpp\<close>, at an
  arbitrary word width. Shown here: rounding gives the nearest multiple on either side
  whenever it does not wrap, \<open>nextPowerOf2\<close> gives the least power of two that is not
  below its argument, and the scans return the positions of the highest and lowest set bit.
\<close>

section \<open>Definitions\<close>

definition roundpow2 :: "'a::len word \<Rightarrow> 'a word \<Rightarrow> 'a word" where
  "roundpow2 value multiple = (value + multiple - 1) AND NOT (multiple - 1)"

definition roundup :: "'a::len word \<Rightarrow> 'a word \<Rightarrow> 'a word" where
  "roundup value multiple = (value + multiple - 1) div multiple * multiple"

definition rounddown :: "'a::len word \<Rightarrow> 'a word \<Rightarrow> 'a word" where
  "rounddown value multiple = value div multiple * multiple"

definition isAlignedTo :: "'a::len word \<Rightarrow> 'a word \<Rightarrow> bool" where
  "isAlignedTo value alignment \<longleftrightarrow> value mod alignment = 0"

definition isPowerOf2 :: "'a::len word \<Rightarrow> bool" where
  "isPowerOf2 value \<longleftrightarrow> value \<noteq> 0 \<and> value AND (value - 1) = 0"

text \<open>The loop \<^verbatim>\<open>for (size_t i = 1; i < sizeof(T) * 8; i *= 2) value |= value >> i;\<close>.\<close>

function smear_loop :: "nat \<Rightarrow> 'a::len word \<Rightarrow> 'a word" where
  "smear_loop i value =
     (if 0 < i \<and> i < LENGTH('a) then smear_loop (i * 2) (value OR drop_bit i value) else value)"
  by pat_completeness auto
termination
  by (relation "measure (\<lambda>(i, value :: 'a word). LENGTH('a) - i)") auto

declare smear_loop.simps [simp del]

definition nextPowerOf2 :: "'a::len word \<Rightarrow> 'a word" where
  "nextPowerOf2 value = smear_loop 1 (value - 1) + 1"

definition nextMultiple :: "'a::len word \<Rightarrow> 'a word \<Rightarrow> 'a word" where
  "nextMultiple value multiple =
     (if value mod multiple = 0 then value + multiple
      else (value + multiple - 1) div multiple * multiple)"

text \<open>
  The number of significant bits of a natural number, from which the standard library's
  \<^verbatim>\<open>std::countl_zero\<close> and \<^verbatim>\<open>std::countr_zero\<close> are read off.
\<close>

fun bit_width :: "nat \<Rightarrow> nat" where
  "bit_width n = (if n = 0 then 0 else Suc (bit_width (n div 2)))"

declare bit_width.simps [simp del]

fun trailing_zeros :: "nat \<Rightarrow> nat" where
  "trailing_zeros n = (if n = 0 \<or> odd n then 0 else Suc (trailing_zeros (n div 2)))"

declare trailing_zeros.simps [simp del]

definition countl_zero :: "'a::len word \<Rightarrow> nat" where
  "countl_zero x = LENGTH('a) - bit_width (unat x)"

definition countr_zero :: "'a::len word \<Rightarrow> nat" where
  "countr_zero x = (if x = 0 then LENGTH('a) else trailing_zeros (unat x))"

definition BitScanLeading :: "'a::len word \<Rightarrow> u8" where
  "BitScanLeading msk =
     (if msk = 0 then 255 else of_nat (LENGTH('a) - 1 - countl_zero msk))"

definition BitScanTrailing :: "'a::len word \<Rightarrow> u8" where
  "BitScanTrailing msk = (if msk = 0 then 255 else of_nat (countr_zero msk))"

text \<open>Evaluation on integers: naturals evaluate in unary.\<close>

fun bit_width_int :: "int \<Rightarrow> nat" where
  "bit_width_int i = (if i \<le> 0 then 0 else Suc (bit_width_int (i div 2)))"

declare bit_width_int.simps [simp del]

fun trailing_zeros_int :: "int \<Rightarrow> nat" where
  "trailing_zeros_int i = (if i \<le> 0 \<or> odd i then 0 else Suc (trailing_zeros_int (i div 2)))"

declare trailing_zeros_int.simps [simp del]

lemma bit_width_int: "bit_width_int (int n) = bit_width n"
proof (induction n rule: bit_width.induct)
  case (1 n)
  then show ?case by (subst bit_width_int.simps, subst bit_width.simps) (simp add: zdiv_int)
qed

lemma trailing_zeros_int: "trailing_zeros_int (int n) = trailing_zeros n"
proof (induction n rule: trailing_zeros.induct)
  case (1 n)
  then show ?case by (subst trailing_zeros_int.simps, subst trailing_zeros.simps) (simp add: zdiv_int)
qed

lemma countl_zero_code [code]: "countl_zero (x :: 'a::len word) = LENGTH('a) - bit_width_int (uint x)"
  unfolding countl_zero_def bit_width_int [symmetric] by simp

lemma countr_zero_code [code]: "countr_zero (x :: 'a::len word) = (if x = 0 then LENGTH('a) else trailing_zeros_int (uint x))"
  unfolding countr_zero_def trailing_zeros_int [symmetric] by simp

section \<open>Rounding\<close>

lemma unat_rounddown: "unat (rounddown v m) = unat v div unat m * unat m"
proof -
  have "unat v div unat m * unat m \<le> unat v" by simp
  also have "\<dots> < 2 ^ LENGTH('a)" for v :: "'a word" by (rule unsigned_less)
  finally show ?thesis
    by (simp add: rounddown_def unat_mult_small unat_div)
qed

lemma unat_roundup:
  fixes v m :: "'a::len word"
  assumes m: "0 < unat m" and fits: "unat v + unat m \<le> 2 ^ LENGTH('a)"
  shows "unat (roundup v m) = (unat v + unat m - 1) div unat m * unat m"
proof -
  have one: "unat (1 :: 'a word) = 1" by simp
  have "unat (v + (m - 1)) = unat v + (unat m - 1)"
    using assms by (simp add: unat_add_small unat_sub_le)
  then have s: "unat (v + m - 1) = unat v + unat m - 1"
    using m by (simp add: algebra_simps)
  have "(unat v + unat m - 1) div unat m * unat m \<le> unat v + unat m - 1" by simp
  also have "\<dots> < 2 ^ LENGTH('a)" using assms by simp
  finally show ?thesis
    by (simp add: roundup_def unat_mult_small unat_div s)
qed

lemma roundup_nat_ge: "0 < m \<Longrightarrow> v \<le> (v + m - 1) div m * (m :: nat)"
proof -
  assume m: "0 < m"
  have "(v + m - 1) div m * m + (v + m - 1) mod m = v + m - 1" by simp
  moreover have "(v + m - 1) mod m \<le> m - 1" using m by (simp add: less_Suc_eq_le [symmetric])
  ultimately show ?thesis using m by linarith
qed

lemma roundup_nat_lt: "0 < m \<Longrightarrow> (v + m - 1) div m * (m :: nat) < v + m"
proof -
  assume m: "0 < m"
  have "(v + m - 1) div m * m \<le> v + m - 1" by simp
  with m show ?thesis by linarith
qed

lemma rounddown_nat_gt: "0 < m \<Longrightarrow> v < v div m * (m :: nat) + m"
  using div_mult_mod_eq [of v m] mod_less_divisor [of m v] by linarith

section \<open>Bit scans\<close>

lemma bit_width_bounds: "0 < n \<Longrightarrow> 2 ^ (bit_width n - 1) \<le> n \<and> n < 2 ^ bit_width n \<and> 0 < bit_width n"
proof (induction n rule: bit_width.induct)
  case (1 n)
  have unf: "bit_width n = Suc (bit_width (n div 2))"
    using \<open>0 < n\<close> by (subst bit_width.simps) simp
  show ?case
  proof (cases "n div 2 = 0")
    case True
    then have "n = 1" using \<open>0 < n\<close> by linarith
    then show ?thesis by (simp add: bit_width.simps)
  next
    case False
    then have IH: "2 ^ (bit_width (n div 2) - 1) \<le> n div 2" "n div 2 < 2 ^ bit_width (n div 2)"
      "0 < bit_width (n div 2)"
      using "1.IH" \<open>0 < n\<close> by auto
    obtain w where w: "bit_width (n div 2) = Suc w" using IH(3) by (cases "bit_width (n div 2)") auto
    show ?thesis using IH unf w by auto
  qed
qed

lemma bit_width_le: "n < 2 ^ k \<Longrightarrow> bit_width n \<le> k"
proof (cases "n = 0")
  case False
  assume n: "n < 2 ^ k"
  have "(2::nat) ^ (bit_width n - 1) < 2 ^ k" using bit_width_bounds [of n] n False by linarith
  then show ?thesis using bit_width_bounds [of n] False by (auto dest: power_less_imp_less_exp)
qed (simp add: bit_width.simps)

lemma bit_width_unique:
  assumes "2 ^ k \<le> n" "n < 2 ^ Suc k"
  shows "bit_width n = Suc k"
proof -
  have n: "0 < n" using assms(1) by (rule less_le_trans [rotated]) simp
  have "(2::nat) ^ (bit_width n - 1) < 2 ^ Suc k" using bit_width_bounds [OF n] assms(2) by linarith
  then have "bit_width n - 1 < Suc k" by (rule power_less_imp_less_exp [rotated]) simp
  moreover have "(2::nat) ^ k < 2 ^ bit_width n" using bit_width_bounds [OF n] assms(1) by linarith
  then have "k < bit_width n" by (rule power_less_imp_less_exp [rotated]) simp
  ultimately show ?thesis by linarith
qed

lemma unat_BitScanLeading:
  fixes m :: "'a::len word"
  assumes "m \<noteq> 0" and "LENGTH('a) \<le> 256"
  shows "unat (BitScanLeading m) = bit_width (unat m) - 1"
proof -
  have "bit_width (unat m) \<le> LENGTH('a)" by (rule bit_width_le) (rule unsigned_less)
  moreover have "0 < bit_width (unat m)" using bit_width_bounds [of "unat m"] assms(1)
    by (simp add: unat_gt_0)
  ultimately have "LENGTH('a) - 1 - countl_zero m = bit_width (unat m) - 1"
    and "bit_width (unat m) - 1 < 256"
    using assms(2) by (auto simp: countl_zero_def)
  then show ?thesis
    using assms(1) unat_of_nat_small [of "bit_width (unat m) - 1", where 'a = 8]
    by (simp add: BitScanLeading_def del: of_nat_diff)
qed

lemma BitScanLeading_bounds:
  fixes m :: "'a::len word"
  assumes "m \<noteq> 0" and "LENGTH('a) \<le> 256"
  shows "2 ^ unat (BitScanLeading m) \<le> unat m" and "unat m < 2 ^ Suc (unat (BitScanLeading m))"
  using bit_width_bounds [of "unat m"] assms
  by (simp_all add: unat_BitScanLeading unat_gt_0)

lemma trailing_zeros_bit:
  "0 < n \<Longrightarrow> bit n (trailing_zeros n) \<and> (\<forall>j < trailing_zeros n. \<not> bit n j)"
proof (induction n rule: trailing_zeros.induct)
  case (1 n)
  show ?case
  proof (cases "odd n")
    case True
    then show ?thesis by (simp add: trailing_zeros.simps [of n] bit_0)
  next
    case False
    then have IH: "bit (n div 2) (trailing_zeros (n div 2))"
      "\<forall>j < trailing_zeros (n div 2). \<not> bit (n div 2) j"
      using 1 by auto
    have unf: "trailing_zeros n = Suc (trailing_zeros (n div 2))"
      using False \<open>0 < n\<close> by (subst trailing_zeros.simps) simp
    have "\<not> bit n j" if "j < trailing_zeros n" for j
      using that IH(2) False by (cases j) (auto simp: unf bit_0 bit_Suc)
    then show ?thesis using IH(1) by (auto simp: unf bit_Suc)
  qed
qed

lemma countr_zero_bit:
  fixes m :: "'a::len word"
  assumes "m \<noteq> 0"
  shows "bit m (countr_zero m)" and "j < countr_zero m \<Longrightarrow> \<not> bit m j"
    and "countr_zero m < LENGTH('a)"
proof -
  have b: "bit m k = bit (unat m) k" for k by (simp add: bit_unsigned_iff)
  have "0 < unat m" using assms by (simp add: unat_gt_0)
  note tz = trailing_zeros_bit [OF this]
  show 1: "bit m (countr_zero m)" and "j < countr_zero m \<Longrightarrow> \<not> bit m j"
    using tz assms by (simp_all add: b countr_zero_def)
  show "countr_zero m < LENGTH('a)" using 1 by (rule bit_imp_le_length)
qed

lemma unat_BitScanTrailing:
  fixes m :: "'a::len word"
  assumes "m \<noteq> 0" and "LENGTH('a) \<le> 256"
  shows "unat (BitScanTrailing m) = countr_zero m"
  using countr_zero_bit(3) [OF assms(1)] assms
  by (simp add: BitScanTrailing_def unat_of_nat_small)

section \<open>Powers of two\<close>

lemma bit_smear_loop:
  fixes v w :: "'a::len word"
  assumes "0 < i" and "\<And>n. bit v n \<longleftrightarrow> (\<exists>k < i. bit w (n + k))"
  shows "bit (smear_loop i v) n \<longleftrightarrow> (\<exists>k. bit w (n + k))"
  using assms
proof (induction i v arbitrary: n rule: smear_loop.induct)
  case (1 i v)
  show ?case
  proof (cases "i < LENGTH('a)")
    case True
    have "bit (v OR drop_bit i v) n \<longleftrightarrow> (\<exists>k < i * 2. bit w (n + k))" for n
    proof -
      have "bit (v OR drop_bit i v) n \<longleftrightarrow> (\<exists>k < i. bit w (n + k)) \<or> (\<exists>k < i. bit w (n + (i + k)))"
        by (simp add: bit_or_iff bit_drop_bit_eq 1(3) ac_simps)
      also have "\<dots> \<longleftrightarrow> (\<exists>k < i * 2. bit w (n + k))"
      proof
        assume "\<exists>k < i * 2. bit w (n + k)"
        then obtain k where k: "k < i * 2" "bit w (n + k)" by blast
        show "(\<exists>k < i. bit w (n + k)) \<or> (\<exists>k < i. bit w (n + (i + k)))"
        proof (cases "k < i")
          case True
          with k(2) show ?thesis by blast
        next
          case False
          then have "k - i < i" "n + (i + (k - i)) = n + k" using k(1) by auto
          with k(2) show ?thesis by metis
        qed
      next
        assume "(\<exists>k < i. bit w (n + k)) \<or> (\<exists>k < i. bit w (n + (i + k)))"
        then show "\<exists>k < i * 2. bit w (n + k)"
        proof
          assume "\<exists>k < i. bit w (n + k)"
          then obtain k where "k < i" "bit w (n + k)" by blast
          then show ?thesis by (intro exI [of _ k]) simp
        next
          assume "\<exists>k < i. bit w (n + (i + k))"
          then obtain k where "k < i" "bit w (n + (i + k))" by blast
          then show ?thesis by (intro exI [of _ "i + k"]) simp
        qed
      qed
      finally show ?thesis .
    qed
    then show ?thesis using True 1(1) [of n] 1(2) by (simp add: smear_loop.simps [of i v])
  next
    case False
    have "bit w (n + k) \<Longrightarrow> k < i" for n k using False bit_imp_le_length [of w "n + k"] by linarith
    then show ?thesis using False 1(3) by (auto simp: smear_loop.simps [of i v])
  qed
qed

lemma bit_nat_bit_width: "bit x n \<Longrightarrow> n < bit_width (x :: nat)"
proof -
  assume b: "bit x n"
  then have "2 ^ n \<le> x" by (metis drop_bit_eq_div bit_iff_odd_drop_bit even_zero div_less not_le)
  moreover from this have "0 < x" by (rule less_le_trans [rotated]) simp
  ultimately have "(2::nat) ^ n < 2 ^ bit_width x" using bit_width_bounds [of x] by linarith
  then show ?thesis by (rule power_less_imp_less_exp [rotated]) simp
qed

lemma bit_top_bit_width: "0 < x \<Longrightarrow> bit x (bit_width x - 1)" for x :: nat
proof -
  assume x: "0 < x"
  let ?k = "bit_width x - 1"
  have b: "2 ^ ?k \<le> x" "x < 2 ^ bit_width x" "bit_width x = Suc ?k"
    using bit_width_bounds [OF x] by auto
  have "x < 2 * 2 ^ ?k" using b(2,3) by (metis power_Suc)
  then have "x div 2 ^ ?k = 1"
    using b(1) by (intro div_nat_eqI) simp_all
  then show ?thesis by (simp add: bit_iff_odd)
qed

lemma smear_loop_mask:
  fixes v :: "'a::len word"
  shows "smear_loop 1 v = mask (bit_width (unat v))"
proof (rule bit_word_eqI)
  fix n assume n: "n < LENGTH('a)"
  have "bit (smear_loop 1 v) n \<longleftrightarrow> (\<exists>k. bit (unat v) (n + k))"
    by (subst bit_smear_loop [where w = v]) (auto simp: bit_unsigned_iff)
  also have "\<dots> \<longleftrightarrow> n < bit_width (unat v)"
  proof
    assume "\<exists>k. bit (unat v) (n + k)"
    then show "n < bit_width (unat v)" using bit_nat_bit_width by fastforce
  next
    assume l: "n < bit_width (unat v)"
    then have "0 < unat v" by (cases "unat v = 0") (auto simp: bit_width.simps)
    from bit_top_bit_width [OF this] l show "\<exists>k. bit (unat v) (n + k)"
      by (intro exI [of _ "bit_width (unat v) - 1 - n"]) simp
  qed
  finally show "bit (smear_loop 1 v) n \<longleftrightarrow> bit (mask (bit_width (unat v)) :: 'a word) n"
    using n by (simp add: bit_mask_iff)
qed

lemma nextPowerOf2_eq:
  fixes v :: "'a::len word"
  shows "nextPowerOf2 v = 2 ^ bit_width (unat (v - 1))"
  unfolding nextPowerOf2_def smear_loop_mask by (simp add: mask_eq_decr_exp)

text \<open>
  C40. \<open>nextPowerOf2\<close> returns the least power of two that is not below its argument,
  for every argument that has such a power at its width: the shift-and-or loop of the source
  is equivalent to that specification.
\<close>

theorem nextPowerOf2_least:
  fixes v :: "'a::len word"
  assumes "0 < unat v" and "unat v \<le> 2 ^ (LENGTH('a) - 1)"
  shows "\<exists>k. unat (nextPowerOf2 v) = 2 ^ k \<and> unat v \<le> 2 ^ k \<and> (\<forall>j. unat v \<le> 2 ^ j \<longrightarrow> k \<le> j)"
proof -
  define n where "n = unat (v - 1)"
  have n: "unat v = Suc n" using assms(1) by (simp add: n_def unat_sub_le)
  have "n < 2 ^ (LENGTH('a) - 1)" using assms(2) n by simp
  then have "bit_width n \<le> LENGTH('a) - 1" by (rule bit_width_le)
  then have "bit_width n < LENGTH('a)" using len_gt_0 [where 'a = 'a] by linarith
  then have "unat (nextPowerOf2 v) = 2 ^ bit_width n"
    by (simp add: nextPowerOf2_eq n_def unat_power2_small)
  moreover have "unat v \<le> 2 ^ bit_width n"
    using bit_width_bounds [of n] n by (cases "n = 0") (auto simp: bit_width.simps)
  moreover have "bit_width n \<le> j" if "unat v \<le> 2 ^ j" for j
    using that n by (intro bit_width_le) simp
  ultimately show ?thesis by blast
qed

theorem nextPowerOf2_least_witness:
  "\<exists>k. unat (nextPowerOf2 (100 :: size_t)) = 2 ^ k \<and> unat (100 :: size_t) \<le> 2 ^ k \<and> k \<le> 7"
proof -
  have "\<exists>k. unat (nextPowerOf2 (100 :: size_t)) = 2 ^ k \<and> unat (100 :: size_t) \<le> 2 ^ k
     \<and> (\<forall>j. unat (100 :: size_t) \<le> 2 ^ j \<longrightarrow> k \<le> j)"
    by (rule nextPowerOf2_least) simp_all
  then obtain k where k: "unat (nextPowerOf2 (100 :: size_t)) = 2 ^ k" "unat (100 :: size_t) \<le> 2 ^ k"
    "\<forall>j. unat (100 :: size_t) \<le> 2 ^ j \<longrightarrow> k \<le> j" by blast
  then have "k \<le> 7" by simp
  with k(1,2) show ?thesis by blast
qed

lemma isPowerOf2_iff:
  fixes v :: "'a::len word"
  shows "isPowerOf2 v \<longleftrightarrow> (\<exists>k < LENGTH('a). v = 2 ^ k)"
proof
  assume p: "isPowerOf2 v"
  then have v: "v \<noteq> 0" and a: "v AND (v - 1) = 0" by (auto simp: isPowerOf2_def)
  let ?t = "bit_width (unat v) - 1"
  have pos: "0 < unat v" using v by (simp add: unat_gt_0)
  have w: "bit_width (unat v) \<le> LENGTH('a)" by (rule bit_width_le) (rule unsigned_less)
  have b: "2 ^ ?t \<le> unat v" "unat v < 2 ^ bit_width (unat v)" "0 < bit_width (unat v)"
    using bit_width_bounds [OF pos] by auto
  have t: "?t < LENGTH('a)" using w b(3) by linarith
  have "unat v = 2 ^ ?t"
  proof (rule ccontr)
    assume "unat v \<noteq> 2 ^ ?t"
    then have lo: "2 ^ ?t \<le> unat (v - 1)" using b(1) pos by (simp add: unat_sub_le)
    have "unat (v - 1) < 2 ^ bit_width (unat v)" using b(2) pos by (simp add: unat_sub_le)
    then have "bit_width (unat (v - 1)) = Suc ?t"
      using lo b(3) by (intro bit_width_unique) simp_all
    moreover have "0 < unat (v - 1)" using lo by (rule less_le_trans [rotated]) simp
    ultimately have "bit (unat (v - 1)) ?t" using bit_top_bit_width [of "unat (v - 1)"] by simp
    moreover have "bit (unat v) ?t" by (rule bit_top_bit_width [OF pos])
    ultimately have "bit (v AND (v - 1)) ?t" by (simp add: bit_and_iff bit_unsigned_iff)
    with a show False by simp
  qed
  then have "v = 2 ^ ?t" using t by (intro word_eqI_unat) (simp add: unat_power2_small)
  with t show "\<exists>k < LENGTH('a). v = 2 ^ k" by blast
next
  assume "\<exists>k < LENGTH('a). v = 2 ^ k"
  then obtain k where k: "k < LENGTH('a)" "v = 2 ^ k" by blast
  have "v AND (v - 1) = 0"
    by (rule bit_word_eqI) (auto simp: k(2) bit_and_iff bit_exp_iff mask_eq_decr_exp [symmetric] bit_mask_iff)
  moreover have "v \<noteq> 0" using k by (metis unat_power2_small unat_0 power_eq_0_iff zero_neq_numeral)
  ultimately show "isPowerOf2 v" by (simp add: isPowerOf2_def)
qed

text \<open>
  The mask form of rounding up agrees with the division form for every power-of-two
  multiple, wrap-around included.
\<close>

lemma roundpow2_eq_roundup:
  fixes v m :: "'a::len word"
  assumes "isPowerOf2 m"
  shows "roundpow2 v m = roundup v m"
proof -
  obtain k where k: "k < LENGTH('a)" "m = 2 ^ k" using assms by (auto simp: isPowerOf2_iff)
  have "(v + m - 1) div m * m = push_bit k (drop_bit k (v + m - 1))"
    by (simp add: k(2) push_bit_eq_mult drop_bit_eq_div)
  also have "\<dots> = (v + m - 1) AND NOT (m - 1)"
    by (rule bit_word_eqI) (auto simp: k(2) bit_push_bit_iff bit_drop_bit_eq bit_and_iff bit_not_iff
      mask_eq_decr_exp [symmetric] bit_mask_iff)
  finally show ?thesis by (simp add: roundpow2_def roundup_def)
qed

lemma roundup_aligned:
  fixes v m :: "'a::len word"
  assumes "0 < unat m" and "unat v + unat m \<le> 2 ^ LENGTH('a)"
  shows "isAlignedTo (roundup v m) m"
  using assms by (simp add: isAlignedTo_def unat_roundup word_unat_eq_iff unat_mod)

lemma roundup_bounds:
  fixes v m :: "'a::len word"
  assumes "0 < unat m" and "unat v + unat m \<le> 2 ^ LENGTH('a)"
  shows "unat v \<le> unat (roundup v m)" and "unat (roundup v m) < unat v + unat m"
  using assms by (simp_all add: unat_roundup roundup_nat_ge roundup_nat_lt del: One_nat_def)

text \<open>
  Rounding up returns the least multiple that is not below the value, whenever the sum
  does not wrap.
\<close>

theorem roundup_least_multiple:
  fixes v m :: "'a::len word"
  assumes "0 < unat m" and "unat v + unat m \<le> 2 ^ LENGTH('a)"
  shows "isAlignedTo (roundup v m) m \<and> unat v \<le> unat (roundup v m)
    \<and> unat (roundup v m) < unat v + unat m"
  using roundup_bounds [OF assms] roundup_aligned [OF assms] by blast

theorem roundup_least_multiple_witness:
  "isAlignedTo (roundup (5000 :: size_t) 4096) 4096 \<and> unat (5000 :: size_t) \<le> unat (roundup (5000 :: size_t) 4096)
    \<and> unat (roundup (5000 :: size_t) 4096) < unat (5000 :: size_t) + unat (4096 :: size_t)"
  by (rule roundup_least_multiple) simp_all

lemma rounddown_greatest_multiple:
  fixes v m :: "'a::len word"
  assumes "0 < unat m"
  shows "isAlignedTo (rounddown v m) m" and "unat (rounddown v m) \<le> unat v"
    and "unat v < unat (rounddown v m) + unat m"
  using assms rounddown_nat_gt [of "unat m" "unat v"]
  by (simp_all add: isAlignedTo_def unat_rounddown word_unat_eq_iff unat_mod)

lemma unat_nextMultiple:
  fixes v m :: "'a::len word"
  assumes "0 < unat m" and "unat v + unat m < 2 ^ LENGTH('a)"
  shows "unat (nextMultiple v m) = (unat v div unat m + 1) * unat m"
proof (cases "v mod m = 0")
  case True
  then have "unat v mod unat m = 0" by (metis unat_mod unat_0)
  then have "unat v div unat m * unat m = unat v" by (metis div_mult_mod_eq add_0_right)
  then show ?thesis using True assms by (simp add: nextMultiple_def unat_add_small)
next
  case False
  then have r: "0 < unat v mod unat m" by (metis unat_mod unat_gt_0)
  have v: "unat v + unat m - 1 = (unat v mod unat m - 1) + (unat v div unat m + 1) * unat m"
  proof -
    have "unat v = unat v div unat m * unat m + unat v mod unat m" by simp
    with r show ?thesis unfolding add_mult_distrib by linarith
  qed
  have "unat v mod unat m - 1 < unat m" using assms(1) by (metis less_imp_diff_less mod_less_divisor)
  then have "(unat v + unat m - 1) div unat m = unat v div unat m + 1"
    unfolding v using assms(1) by (subst div_mult_self1) simp_all
  then show ?thesis
    using False assms by (simp add: nextMultiple_def roundup_def [symmetric] unat_roundup)
qed

end
