(* ===== verification/Range.thy ===== *)
theory Range
  imports Bits
begin

text \<open>
  Address ranges: \<^verbatim>\<open>km::AnyRange\<close> and the free functions of
  \<^verbatim>\<open>kernel/include/memory/range.hpp\<close>. Every instance of the template is a pair of 64-bit
  addresses compared as unsigned integers, so the model is a record of two words. The
  abstraction \<open>addresses\<close> reads a range as the set of addresses it covers; the lemmas
  relate the predicates and the range-valued operations to that set.
\<close>

section \<open>The range type and its member functions\<close>

record range =
  rfront :: uintptr_t
  rback :: uintptr_t

definition range_size :: "range \<Rightarrow> uintptr_t" where
  "range_size r = rback r - rfront r"

definition isEmpty :: "range \<Rightarrow> bool" where
  "isEmpty r \<longleftrightarrow> rfront r = rback r"

definition isValid :: "range \<Rightarrow> bool" where
  "isValid r \<longleftrightarrow> rfront r \<le> rback r"

definition contains_addr :: "range \<Rightarrow> uintptr_t \<Rightarrow> bool" where
  "contains_addr r addr \<longleftrightarrow> rfront r \<le> addr \<and> addr < rback r"

definition contains :: "range \<Rightarrow> range \<Rightarrow> bool" where
  "contains r other \<longleftrightarrow> rfront r \<le> rfront other \<and> rback other \<le> rback r"

definition overlaps :: "range \<Rightarrow> range \<Rightarrow> bool" where
  "overlaps r other \<longleftrightarrow>
     (if rfront other = rfront r \<and> rback other \<le> rback r then True
      else if rback other = rback r \<and> rfront r \<le> rfront other then True
      else contains_addr r (rfront other) \<noteq> contains_addr r (rback other))"

definition intersects :: "range \<Rightarrow> range \<Rightarrow> bool" where
  "intersects r other \<longleftrightarrow>
     (if rfront other = rback r \<or> rback other = rfront r then False
      else contains r other \<or> contains_addr r (rfront other) \<or> contains_addr r (rback other)
           \<or> rback other = rback r)"

definition isBefore :: "range \<Rightarrow> uintptr_t \<Rightarrow> bool" where
  "isBefore r address \<longleftrightarrow> rback r \<le> address"

definition isAfter_addr :: "range \<Rightarrow> uintptr_t \<Rightarrow> bool" where
  "isAfter_addr r address \<longleftrightarrow> address \<le> rfront r"

definition isAfter :: "range \<Rightarrow> range \<Rightarrow> bool" where
  "isAfter r other \<longleftrightarrow> rback other \<le> rfront r"

definition offsetBy :: "range \<Rightarrow> uintptr_t \<Rightarrow> range" where
  "offsetBy r offset = \<lparr>rfront = rfront r + offset, rback = rback r + offset\<rparr>"

definition withExtraHead :: "range \<Rightarrow> uintptr_t \<Rightarrow> range" where
  "withExtraHead r sz = \<lparr>rfront = rfront r - sz, rback = rback r\<rparr>"

definition withExtraTail :: "range \<Rightarrow> uintptr_t \<Rightarrow> range" where
  "withExtraTail r sz = \<lparr>rfront = rfront r, rback = rback r + sz\<rparr>"

definition withExtraBounds2 :: "range \<Rightarrow> uintptr_t \<Rightarrow> uintptr_t \<Rightarrow> range" where
  "withExtraBounds2 r extraHead extraTail =
     \<lparr>rfront = rfront r - extraHead, rback = rback r + extraTail\<rparr>"

definition withExtraBounds :: "range \<Rightarrow> uintptr_t \<Rightarrow> range" where
  "withExtraBounds r extra = withExtraBounds2 r extra extra"

definition subrange :: "range \<Rightarrow> uintptr_t \<Rightarrow> uintptr_t \<Rightarrow> range option" where
  "subrange r offset sz =
     (let newFront = rfront r + offset; newBack = newFront + sz
      in do { _ \<leftarrow> KM_CHECK (newBack \<le> rback r); Some \<lparr>rfront = newFront, rback = newBack\<rparr> })"

definition subrange_from :: "range \<Rightarrow> uintptr_t \<Rightarrow> range option" where
  "subrange_from r offset =
     (let newFront = rfront r + offset
      in do { _ \<leftarrow> KM_CHECK (newFront \<le> rback r); Some \<lparr>rfront = newFront, rback = rback r\<rparr> })"

definition range_first :: "range \<Rightarrow> uintptr_t \<Rightarrow> range option" where
  "range_first r newSize =
     do { _ \<leftarrow> KM_CHECK (newSize \<le> range_size r);
          Some \<lparr>rfront = rfront r, rback = rfront r + newSize\<rparr> }"

definition range_last :: "range \<Rightarrow> uintptr_t \<Rightarrow> range option" where
  "range_last r newSize =
     do { _ \<leftarrow> KM_CHECK (newSize \<le> range_size r);
          Some \<lparr>rfront = rback r - newSize, rback = rback r\<rparr> }"

definition mergedWith :: "range \<Rightarrow> range \<Rightarrow> range" where
  "mergedWith r other = \<lparr>rfront = min (rfront r) (rfront other), rback = max (rback r) (rback other)\<rparr>"

definition startsWith :: "range \<Rightarrow> range \<Rightarrow> bool" where
  "startsWith r other \<longleftrightarrow> rfront r = rfront other \<and> rback other \<le> rback r"

definition endsWith :: "range \<Rightarrow> range \<Rightarrow> bool" where
  "endsWith r other \<longleftrightarrow> rback r = rback other \<and> rfront r \<le> rfront other"

definition cut :: "range \<Rightarrow> range \<Rightarrow> range" where
  "cut r other =
     (if \<not> overlaps r other then r
      else if rfront other \<le> rfront r then
        \<lparr>rfront = min (rback r) (rback other), rback = max (rback r) (rback other)\<rparr>
      else if rback r \<le> rback other then
        \<lparr>rfront = min (rfront r) (rfront other), rback = max (rfront r) (rfront other)\<rparr>
      else r)"

definition intersection_with :: "range \<Rightarrow> range \<Rightarrow> range" where
  "intersection_with r other =
     (let newFront = max (rfront r) (rfront other); newBack = min (rback r) (rback other)
      in if newBack \<le> newFront then \<lparr>rfront = newFront, rback = newFront\<rparr>
         else \<lparr>rfront = newFront, rback = newBack\<rparr>)"

definition range_of :: "uintptr_t \<Rightarrow> uintptr_t \<Rightarrow> range" where
  "range_of f sz = \<lparr>rfront = f, rback = f + sz\<rparr>"

section \<open>Free functions\<close>

text \<open>\<^verbatim>\<open>AnyRange<T>{}\<close> value-initialises both addresses to zero.\<close>

definition empty_range :: range where
  "empty_range = \<lparr>rfront = 0, rback = 0\<rparr>"

definition intersection :: "range \<Rightarrow> range \<Rightarrow> range" where
  "intersection a b =
     (let f = max (rfront a) (rfront b); bk = min (rback a) (rback b)
      in if bk \<le> f then empty_range else \<lparr>rfront = f, rback = bk\<rparr>)"

definition merge :: "range \<Rightarrow> range \<Rightarrow> range" where
  "merge a b = \<lparr>rfront = min (rfront a) (rfront b), rback = max (rback a) (rback b)\<rparr>"

definition outerAdjacent :: "range \<Rightarrow> range \<Rightarrow> bool" where
  "outerAdjacent a b \<longleftrightarrow> rback a = rfront b \<or> rback b = rfront a"

definition innerAdjacent :: "range \<Rightarrow> range \<Rightarrow> bool" where
  "innerAdjacent a b \<longleftrightarrow> rfront a = rfront b \<or> rback a = rback b"

definition borderContains :: "range \<Rightarrow> range \<Rightarrow> bool" where
  "borderContains a b =
     (if rfront a = rfront b then rback b \<le> rback a
      else if rback a = rback b then rfront a \<le> rfront b
      else contains a b)"

definition contiguous :: "range \<Rightarrow> range \<Rightarrow> bool" where
  "contiguous a b \<longleftrightarrow> outerAdjacent a b \<or> overlaps a b"

definition interval :: "range \<Rightarrow> range \<Rightarrow> bool" where
  "interval a b \<longleftrightarrow> outerAdjacent a b \<or> overlaps a b \<or> contains a b \<or> contains b a"

fun combinedInterval :: "range list \<Rightarrow> range" where
  "combinedInterval [] = empty_range"
| "combinedInterval (r # ranges) = foldl merge r ranges"

definition aligned :: "range \<Rightarrow> size_t \<Rightarrow> range" where
  "aligned r align =
     (let f = roundup (rfront r) align; b = rounddown (rback r) align
      in if b \<le> f then empty_range else \<lparr>rfront = f, rback = b\<rparr>)"

definition alignedOut :: "range \<Rightarrow> size_t \<Rightarrow> range" where
  "alignedOut r align =
     \<lparr>rfront = rounddown (rfront r) align, rback = roundup (rback r) align\<rparr>"

definition split_at :: "range \<Rightarrow> uintptr_t \<Rightarrow> (range \<times> range) option" where
  "split_at r midpoint =
     do { _ \<leftarrow> KM_CHECK (contains_addr r midpoint);
          Some (\<lparr>rfront = rfront r, rback = midpoint\<rparr>, \<lparr>rfront = midpoint, rback = rback r\<rparr>) }"

definition split_on :: "range \<Rightarrow> range \<Rightarrow> (range \<times> range) option" where
  "split_on r other =
     do { _ \<leftarrow> KM_CHECK (contains r other);
          Some (\<lparr>rfront = rfront r, rback = rfront other\<rparr>, \<lparr>rfront = rback other, rback = rback r\<rparr>) }"

section \<open>The set of addresses a range covers\<close>

definition addresses :: "range \<Rightarrow> uintptr_t set" where
  "addresses r = {a. rfront r \<le> a \<and> a < rback r}"

lemma mem_addresses [simp]: "a \<in> addresses r \<longleftrightarrow> contains_addr r a"
  by (simp add: addresses_def contains_addr_def)

lemma addresses_empty_iff: "addresses r = {} \<longleftrightarrow> rback r \<le> rfront r"
  by (auto simp: addresses_def)

lemma addresses_atLeastLessThan: "addresses r = {rfront r..<rback r}"
  by (auto simp: addresses_def)

lemma front_mem: "rfront r < rback r \<Longrightarrow> contains_addr r (rfront r)"
  by (simp add: contains_addr_def)

lemmas range_predicates =
  contains_addr_def contains_def overlaps_def intersects_def isEmpty_def isValid_def
  isBefore_def isAfter_def isAfter_addr_def startsWith_def endsWith_def
  outerAdjacent_def innerAdjacent_def contiguous_def interval_def

text \<open>
  A range contains a non-empty range exactly when it covers all its addresses.
\<close>

theorem contains_iff_subset:
  assumes "rfront s < rback s"
  shows "contains r s \<longleftrightarrow> addresses s \<subseteq> addresses r"
proof
  assume "contains r s"
  then show "addresses s \<subseteq> addresses r" by (auto simp: range_predicates)
next
  assume sub: "addresses s \<subseteq> addresses r"
  have "{rfront s..<rback s} \<subseteq> {rfront r..<rback r}"
    using sub by (simp add: addresses_atLeastLessThan)
  then have f: "rfront r \<le> rfront s" "rfront s < rback r" using assms by auto
  have "rback s \<le> rback r"
  proof (rule ccontr)
    assume "\<not> rback s \<le> rback r"
    then have "rback r \<in> addresses s" using f by (simp add: contains_addr_def not_le less_imp_le)
    with sub show False by (auto simp: contains_addr_def)
  qed
  with f show "contains r s" by (simp add: contains_def)
qed

theorem contains_iff_subset_witness:
  "contains \<lparr>rfront = 0x1000, rback = 0x2000\<rparr> \<lparr>rfront = 0x1100, rback = 0x1200\<rparr>
     \<longleftrightarrow> addresses \<lparr>rfront = 0x1100, rback = 0x1200\<rparr> \<subseteq> addresses \<lparr>rfront = 0x1000, rback = 0x2000\<rparr>"
  by (rule contains_iff_subset) simp

text \<open>
  Both intersection functions return a range covering exactly the common addresses.
\<close>

lemma intersection_exact:
  "addresses (intersection a b) = addresses a \<inter> addresses b
   \<and> addresses (intersection_with a b) = addresses a \<inter> addresses b"
  by (auto simp: intersection_def intersection_with_def empty_range_def addresses_def Let_def
    max_def min_def split: if_splits)

lemma disjoint_iff_separated:
  assumes "rfront a < rback a" and "rfront b < rback b"
  shows "addresses a \<inter> addresses b = {} \<longleftrightarrow> rback a \<le> rfront b \<or> rback b \<le> rfront a"
proof -
  have "addresses a \<inter> addresses b = {max (rfront a) (rfront b)..<min (rback a) (rback b)}"
    by (auto simp: addresses_def)
  also have "\<dots> = {} \<longleftrightarrow> rback a \<le> rfront b \<or> rback b \<le> rfront a"
    using assms by (auto simp: max_def min_def)
  finally show ?thesis .
qed

text \<open>
  On non-empty ranges \<open>intersects\<close> holds exactly when the ranges share an address,
  except for the case it misses: the argument extends beyond the receiver on both sides.
\<close>

lemma intersects_exact:
  assumes "rfront a < rback a" and "rfront b < rback b"
  shows "intersects a b \<longleftrightarrow>
    addresses a \<inter> addresses b \<noteq> {} \<and> \<not> (rfront b < rfront a \<and> rback a < rback b)"
  using assms by (auto simp: disjoint_iff_separated range_predicates)

text \<open>
  \<open>cut\<close> removes exactly the addresses of the other range, when that range neither
  covers the receiver nor lies strictly inside it (the documented precondition).
\<close>

lemma cut_exact:
  assumes "rfront a < rback a" and "rfront b < rback b"
    and "\<not> contains b a" and "\<not> (rfront a < rfront b \<and> rback b < rback a)"
  shows "addresses (cut a b) = addresses a - addresses b"
  using assms
  by (auto simp: cut_def range_predicates addresses_def max_def min_def split: if_splits)

text \<open>
  A range that merely touches the receiver from below is reported as overlapping it,
  although the two share no address.
\<close>

theorem overlaps_touching_below:
  assumes "rfront a < rback a" and "rfront b < rback b" and "rback b = rfront a"
  shows "overlaps a b \<and> addresses a \<inter> addresses b = {} \<and> \<not> overlaps b a"
  using assms by (auto simp: range_predicates addresses_def)

theorem overlaps_touching_below_witness:
  "overlaps \<lparr>rfront = 0x1000, rback = 0x2000\<rparr> \<lparr>rfront = 0, rback = 0x1000\<rparr>
   \<and> addresses \<lparr>rfront = 0x1000, rback = 0x2000\<rparr> \<inter> addresses \<lparr>rfront = 0, rback = 0x1000\<rparr> = {}
   \<and> \<not> overlaps \<lparr>rfront = 0, rback = 0x1000\<rparr> \<lparr>rfront = 0x1000, rback = 0x2000\<rparr>"
  by (rule overlaps_touching_below) simp_all

text \<open>
  Splitting at an address of the range never panics and gives two ranges that partition
  its addresses; the sizes add up.
\<close>

theorem split_at_partitions:
  assumes "contains_addr r m"
  shows "\<exists>lo hi. split_at r m = Some (lo, hi) \<and> addresses lo \<union> addresses hi = addresses r
    \<and> addresses lo \<inter> addresses hi = {} \<and> range_size lo + range_size hi = range_size r"
  using assms
  by (auto simp: split_at_def range_predicates addresses_def range_size_def)

theorem split_at_partitions_witness:
  "\<exists>lo hi. split_at \<lparr>rfront = 0x1000, rback = 0x2000\<rparr> 0x1500 = Some (lo, hi)
    \<and> addresses lo \<union> addresses hi = addresses \<lparr>rfront = 0x1000, rback = 0x2000\<rparr>
    \<and> addresses lo \<inter> addresses hi = {}
    \<and> range_size lo + range_size hi = range_size \<lparr>rfront = 0x1000, rback = 0x2000\<rparr>"
  by (rule split_at_partitions) (simp add: contains_addr_def)

lemma split_on_partitions:
  assumes "contains r s" and "isValid s"
  obtains lo hi where "split_on r s = Some (lo, hi)"
    and "addresses lo \<union> addresses s \<union> addresses hi = addresses r"
    and "addresses lo \<inter> addresses s = {}" and "addresses s \<inter> addresses hi = {}"
    and "addresses lo \<inter> addresses hi = {}"
proof
  show "split_on r s = Some (\<lparr>rfront = rfront r, rback = rfront s\<rparr>, \<lparr>rfront = rback s, rback = rback r\<rparr>)"
    using assms by (simp add: split_on_def)
qed (use assms in \<open>auto simp: range_predicates addresses_def\<close>)

section \<open>Alignment and hulls\<close>

lemma contains_trans: "contains a b \<Longrightarrow> contains b c \<Longrightarrow> contains a c"
  by (auto simp: contains_def)

lemma contains_merge_iff: "contains r (merge a b) \<longleftrightarrow> contains r a \<and> contains r b"
  by (auto simp: contains_def merge_def)

lemma merge_contains: "contains (merge a b) a" "contains (merge a b) b"
  by (auto simp: contains_def merge_def)

lemma contains_foldl_merge:
  "contains r (foldl merge a rs) \<longleftrightarrow> contains r a \<and> (\<forall>x\<in>set rs. contains r x)"
  by (induction rs arbitrary: a) (auto simp: contains_merge_iff)

text \<open>
  The combined interval of a non-empty list of ranges is their hull: a range contains it
  exactly when it contains every range of the list.
\<close>

theorem combinedInterval_hull:
  assumes "rs \<noteq> []"
  shows "contains r (combinedInterval rs) \<longleftrightarrow> (\<forall>x\<in>set rs. contains r x)"
  using assms by (cases rs) (auto simp: contains_foldl_merge)

theorem combinedInterval_hull_witness:
  "contains \<lparr>rfront = 0, rback = 0x6000\<rparr>
     (combinedInterval [\<lparr>rfront = 0x1000, rback = 0x2000\<rparr>, \<lparr>rfront = 0x4000, rback = 0x5000\<rparr>])"
  by (subst combinedInterval_hull) (simp_all add: contains_def)

lemma multiple_between_ge:
  "0 < m \<Longrightarrow> (v :: nat) \<le> k * m \<Longrightarrow> (v + m - 1) div m * m \<le> k * m"
proof -
  assume m: "0 < m" and v: "v \<le> k * m"
  have "v + m - 1 < (k + 1) * m" using m v by (simp add: algebra_simps)
  then have "(v + m - 1) div m < k + 1" by (rule less_mult_imp_div_less)
  then show ?thesis by (intro mult_le_mono1) simp
qed

lemma multiple_between_le: "k * m \<le> (v :: nat) \<Longrightarrow> k * m \<le> v div m * m"
  by (metis div_le_mono div_mult_self_is_m le_zero_eq mult_0_right mult_le_mono1 neq0_conv)

text \<open>
  \<open>aligned\<close> shrinks a range to the largest aligned range inside it: what it returns
  has aligned bounds and lies inside the range, and every non-empty range with aligned bounds
  inside the original lies inside the result.
\<close>

lemma aligned_largest:
  assumes "0 < unat al" and "unat (rfront r) + unat al \<le> 2 ^ 64" and "rfront r \<le> rback r"
  shows "addresses (aligned r al) \<subseteq> addresses r
    \<and> isAlignedTo (rfront (aligned r al)) al \<and> isAlignedTo (rback (aligned r al)) al
    \<and> (\<forall>s. rfront s < rback s \<and> contains r s \<and> isAlignedTo (rfront s) al \<and> isAlignedTo (rback s) al
          \<longrightarrow> contains (aligned r al) s)"
proof -
  have fits: "unat (rfront r) + unat al \<le> 2 ^ LENGTH(64)" using assms(2) by simp
  note up = roundup_bounds [OF assms(1) fits] roundup_aligned [OF assms(1) fits]
  note down = rounddown_greatest_multiple [OF assms(1), of "rback r"]
  have sub: "addresses (aligned r al) \<subseteq> addresses r"
    using up down by (auto simp: aligned_def Let_def addresses_def empty_range_def
      word_le_nat_alt word_less_nat_alt split: if_splits)
  have al: "isAlignedTo (rfront (aligned r al)) al \<and> isAlignedTo (rback (aligned r al)) al"
    using up down by (auto simp: aligned_def Let_def empty_range_def isAlignedTo_def)
  have "contains (aligned r al) s"
    if s: "rfront s < rback s" "contains r s" "isAlignedTo (rfront s) al" "isAlignedTo (rback s) al" for s
  proof -
    obtain i j where i: "unat (rfront s) = i * unat al" and j: "unat (rback s) = j * unat al"
      using s(3,4) unfolding isAlignedTo_def word_unat_eq_iff unat_mod
      by (metis unat_0 mod_0_imp_dvd dvd_div_mult_self)
    have f: "unat (roundup (rfront r) al) \<le> unat (rfront s)"
      using s(2) i multiple_between_ge [OF assms(1), of "unat (rfront r)" i]
      by (simp add: unat_roundup [OF assms(1) fits] contains_def word_le_nat_alt)
    have b: "unat (rback s) \<le> unat (rounddown (rback r) al)"
      using s(2) j multiple_between_le [of j "unat al" "unat (rback r)"]
      by (simp add: unat_rounddown contains_def word_le_nat_alt)
    show ?thesis using f b s(1)
      by (auto simp: aligned_def Let_def contains_def empty_range_def word_le_nat_alt word_less_nat_alt)
  qed
  with sub al show ?thesis by blast
qed

end
