(* ===== verification/Pool.thy ===== *)
theory Pool
  imports Prelude
begin

text \<open>
  The pool allocator of \<^verbatim>\<open>kernel/include/memory/detail/pool.hpp\<close>, from which the heap takes
  its control blocks. A magazine (\<^verbatim>\<open>detail::PoolBlock\<close>) is an array of slots whose free slots
  form a list threaded through the slots themselves; the pool (\<^verbatim>\<open>PoolAllocator\<close>) is a vector
  of magazines, searched from the newest to the oldest.

  A slot's address names its magazine and its index. The storage of a slot holds
  either the index of the next free slot or the object; the model keeps the former in the
  magazine (\<open>nexts\<close>) and leaves the object to the client. Requests to the system allocator
  (\<^verbatim>\<open>new (std::nothrow)\<close> for a magazine, the growth of the vector) may fail: \<open>sysmem\<close> lists
  their outcomes, and every theorem holds for every list of outcomes.

  Specification: the abstract state of a pool is the set of live slots. Allocating adds a slot
  that was not live, or fails; releasing a live slot removes it; compacting changes nothing.
\<close>

section \<open>Magazines\<close>

datatype ptr = Slot (slot_magazine: nat) (slot_index: nat)

record magazine =
  mag_id :: nat
  mag_count :: u32
  firstFreeIndex :: u32
  nexts :: "u32 list"

definition mag_take :: "magazine \<Rightarrow> (nat \<times> magazine) option" where
  "mag_take m =
     (if firstFreeIndex m < mag_count m
      then Some (unat (firstFreeIndex m),
                 m\<lparr>firstFreeIndex := nexts m ! unat (firstFreeIndex m)\<rparr>)
      else None)"

definition mag_give :: "magazine \<Rightarrow> nat \<Rightarrow> magazine" where
  "mag_give m i =
     m\<lparr>nexts := (nexts m)[i := firstFreeIndex m], firstFreeIndex := of_nat i\<rparr>"

definition mag_contains :: "magazine \<Rightarrow> ptr \<Rightarrow> bool" where
  "mag_contains m p \<longleftrightarrow> slot_magazine p = mag_id m \<and> slot_index p < unat (mag_count m)"

definition mag_reclaim :: "magazine \<Rightarrow> ptr \<Rightarrow> magazine option" where
  "mag_reclaim m p = (if mag_contains m p then Some (mag_give m (slot_index p)) else None)"

text \<open>
  The loop of \<^verbatim>\<open>countFreeSlots\<close>; \<open>None\<close> is a loop that does not end or leaves the array.
\<close>

partial_function (option) count_free_loop :: "magazine \<Rightarrow> u32 \<Rightarrow> nat \<Rightarrow> nat option" where
  "count_free_loop m index result =
     (if index < mag_count m
      then if unat index < length (nexts m)
           then count_free_loop m (nexts m ! unat index) (result + 1)
           else None
      else Some result)"

definition countFreeSlots :: "magazine \<Rightarrow> nat option" where
  "countFreeSlots m = count_free_loop m (firstFreeIndex m) 0"

definition mag_capacity :: "magazine \<Rightarrow> size_t" where
  "mag_capacity m = ucast (mag_count m)"

definition mag_isEmpty :: "magazine \<Rightarrow> bool option" where
  "mag_isEmpty m = do { n \<leftarrow> countFreeSlots m; Some (n = unat (mag_capacity m)) }"

text \<open>\<^verbatim>\<open>init\<close>: slot \<open>i\<close> links to \<open>i + 1\<close>, the last one to \<^verbatim>\<open>UINT32_MAX\<close>.\<close>

definition mag_init :: "nat \<Rightarrow> size_t \<Rightarrow> magazine" where
  "mag_init ident blockCount =
     \<lparr>mag_id = ident, mag_count = ucast blockCount, firstFreeIndex = 0,
      nexts = map (\<lambda>i. of_nat (i + 1)) [0..<unat blockCount - 1] @ [0xFFFFFFFF]\<rparr>"

section \<open>The pool\<close>

record pool =
  mBlocks :: "magazine list"
  next_id :: nat
  sysmem :: "bool list"

definition empty_pool :: "bool list \<Rightarrow> pool" where
  "empty_pool outcomes = \<lparr>mBlocks = [], next_id = 0, sysmem = outcomes\<rparr>"

text \<open>One request to the system allocator.\<close>

definition sys_request :: "pool \<Rightarrow> bool \<times> pool" where
  "sys_request p =
     (case sysmem p of [] \<Rightarrow> (False, p) | ok # rest \<Rightarrow> (ok, p\<lparr>sysmem := rest\<rparr>))"

definition nextBlockCapacity :: "pool \<Rightarrow> size_t" where
  "nextBlockCapacity p =
     (if mBlocks p = [] then 16 else mag_capacity (last (mBlocks p)) * 3 div 2)"

text \<open>
  \<^verbatim>\<open>newBlock\<close>: the magazine's storage is requested first, then room in the vector; when the
  second request fails the storage is given back. The boolean is \<^verbatim>\<open>block != nullptr\<close>.
\<close>

definition newBlock :: "pool \<Rightarrow> bool \<times> pool" where
  "newBlock p =
     (let nextCapacity = nextBlockCapacity p; (memory, p1) = sys_request p
      in if \<not> memory then (False, p1)
         else let (added, p2) = sys_request p1
              in if \<not> added then (False, p2)
                 else (True, p2\<lparr>mBlocks := mBlocks p2 @ [mag_init (next_id p2) nextCapacity],
                                next_id := next_id p2 + 1\<rparr>))"

text \<open>The loop of \<^verbatim>\<open>allocate\<close>, from the last magazine to the first.\<close>

fun take_scan :: "nat \<Rightarrow> magazine list \<Rightarrow> (ptr \<times> magazine list) option" where
  "take_scan 0 ms = None"
| "take_scan (Suc i) ms =
     (case mag_take (ms ! i) of
        Some (slot, m) \<Rightarrow> Some (Slot (mag_id (ms ! i)) slot, ms[i := m])
      | None \<Rightarrow> take_scan i ms)"

definition allocate :: "pool \<Rightarrow> ptr option \<times> pool" where
  "allocate p =
     (case take_scan (length (mBlocks p)) (mBlocks p) of
        Some (q, ms) \<Rightarrow> (Some q, p\<lparr>mBlocks := ms\<rparr>)
      | None \<Rightarrow>
          (let (ok, p1) = newBlock p
           in if \<not> ok then (None, p1)
              else case mag_take (last (mBlocks p1)) of
                     Some (slot, m) \<Rightarrow>
                       (Some (Slot (mag_id (last (mBlocks p1))) slot),
                        p1\<lparr>mBlocks := (mBlocks p1)[length (mBlocks p1) - 1 := m]\<rparr>)
                   | None \<Rightarrow> (None, p1)))"

text \<open>The loop of \<^verbatim>\<open>release\<close>; running off its end is \<^verbatim>\<open>std::unreachable()\<close>.\<close>

fun reclaim_scan :: "nat \<Rightarrow> ptr \<Rightarrow> magazine list \<Rightarrow> magazine list option" where
  "reclaim_scan 0 q ms = None"
| "reclaim_scan (Suc i) q ms =
     (case mag_reclaim (ms ! i) q of
        Some m \<Rightarrow> Some (ms[i := m])
      | None \<Rightarrow> reclaim_scan i q ms)"

definition release :: "pool \<Rightarrow> ptr \<Rightarrow> pool option" where
  "release p q =
     do { ms \<leftarrow> reclaim_scan (length (mBlocks p)) q (mBlocks p); Some (p\<lparr>mBlocks := ms\<rparr>) }"

record PoolCompactStats =
  compact_magazines :: nat
  compact_slots :: nat

text \<open>The loop of \<^verbatim>\<open>compact\<close>: \<open>index\<close>, the vector, and the two counters.\<close>

function compact_loop ::
  "nat \<Rightarrow> magazine list \<Rightarrow> PoolCompactStats \<Rightarrow> (PoolCompactStats \<times> magazine list) option" where
  "compact_loop index ms st =
     (if index < length ms
      then case mag_isEmpty (ms ! index) of
             None \<Rightarrow> None
           | Some True \<Rightarrow>
               compact_loop index (take index ms @ drop (Suc index) ms)
                 (st\<lparr>compact_slots := compact_slots st + unat (mag_capacity (ms ! index)),
                     compact_magazines := compact_magazines st + 1\<rparr>)
           | Some False \<Rightarrow> compact_loop (index + 1) ms st
      else Some (st, ms))"
  by pat_completeness auto
termination
  by (relation "measure (\<lambda>(index, ms, st). length ms - index)") auto

declare compact_loop.simps [simp del]

definition pool_compact :: "pool \<Rightarrow> (PoolCompactStats \<times> pool) option" where
  "pool_compact p =
     do { (st, ms) \<leftarrow> compact_loop 0 (mBlocks p) \<lparr>compact_magazines = 0, compact_slots = 0\<rparr>;
          Some (st, p\<lparr>mBlocks := ms\<rparr>) }"

text \<open>\<^verbatim>\<open>clear\<close>: every magazine is freed.\<close>

definition pool_clear :: "pool \<Rightarrow> pool" where
  "pool_clear p = p\<lparr>mBlocks := []\<rparr>"

record PoolAllocatorStats =
  stat_magazines :: nat
  freeSlots :: nat
  totalSlots :: nat
  controlMemory :: nat

text \<open>
  \<^verbatim>\<open>stats\<close>. The sizes of the C++ objects are arguments: \<open>sizeofPtr\<close>, \<open>sizeofBlock\<close> and
  \<open>sizeofItem\<close> stand for \<^verbatim>\<open>sizeof(Block*)\<close>, \<^verbatim>\<open>sizeof(Block)\<close> and \<^verbatim>\<open>sizeof(Item)\<close>.
\<close>

fun stats_loop :: "nat \<Rightarrow> nat \<Rightarrow> magazine list \<Rightarrow> PoolAllocatorStats \<Rightarrow> PoolAllocatorStats option" where
  "stats_loop sizeofBlock sizeofItem [] st = Some st"
| "stats_loop sizeofBlock sizeofItem (m # ms) st =
     do { freeBlocks \<leftarrow> countFreeSlots m;
          stats_loop sizeofBlock sizeofItem ms
            (st\<lparr>freeSlots := freeSlots st + freeBlocks,
                totalSlots := totalSlots st + unat (mag_count m),
                controlMemory := controlMemory st + (sizeofBlock + sizeofItem * freeBlocks)\<rparr>) }"

definition pool_stats :: "nat \<Rightarrow> nat \<Rightarrow> nat \<Rightarrow> pool \<Rightarrow> PoolAllocatorStats option" where
  "pool_stats sizeofPtr sizeofBlock sizeofItem p =
     stats_loop sizeofBlock sizeofItem (mBlocks p)
       \<lparr>stat_magazines = length (mBlocks p), freeSlots = 0, totalSlots = 0,
        controlMemory = length (mBlocks p) * sizeofPtr\<rparr>"

section \<open>The free list of a magazine\<close>

text \<open>\<open>chain m i xs\<close>: following the links from index \<open>i\<close> visits exactly \<open>xs\<close>.\<close>

fun chain :: "magazine \<Rightarrow> u32 \<Rightarrow> nat list \<Rightarrow> bool" where
  "chain m i [] \<longleftrightarrow> \<not> i < mag_count m"
| "chain m i (x # xs) \<longleftrightarrow>
     i < mag_count m \<and> unat i = x \<and> x < length (nexts m) \<and> chain m (nexts m ! x) xs"

definition slots :: "magazine \<Rightarrow> ptr set" where
  "slots m = Slot (mag_id m) ` {..<unat (mag_count m)}"

lemma card_slots: "card (slots m) = unat (mag_count m)" "finite (slots m)"
  by (simp_all add: slots_def card_image inj_on_def)

definition mag_rel :: "magazine \<Rightarrow> ptr set \<Rightarrow> bool" where
  "mag_rel m live \<longleftrightarrow>
     length (nexts m) = unat (mag_count m)
     \<and> (\<exists>xs. chain m (firstFreeIndex m) xs \<and> distinct xs
          \<and> set xs = {i. i < unat (mag_count m) \<and> Slot (mag_id m) i \<notin> live})"

lemma chain_frame:
  "chain m i xs \<Longrightarrow> j \<notin> set xs \<Longrightarrow> chain (m\<lparr>nexts := (nexts m)[j := v], firstFreeIndex := f\<rparr>) i xs"
  by (induction xs arbitrary: i) auto

lemma chain_first [simp]: "chain (m\<lparr>firstFreeIndex := f\<rparr>) i xs = chain m i xs"
  by (induction xs arbitrary: i) auto

lemma count_free_loop_chain:
  "chain m i xs \<Longrightarrow> count_free_loop m i acc = Some (acc + length xs)"
  by (induction xs arbitrary: i acc) (simp_all add: count_free_loop.simps)

lemma mag_rel_cong:
  assumes "mag_rel m live" and "\<And>i. i < unat (mag_count m) \<Longrightarrow> Slot (mag_id m) i \<in> live \<longleftrightarrow> Slot (mag_id m) i \<in> live'"
  shows "mag_rel m live'"
  using assms unfolding mag_rel_def by (metis (mono_tags, lifting) Collect_cong)

lemma mag_take_None:
  assumes "mag_rel m live" and "mag_take m = None"
  shows "slots m \<subseteq> live"
proof -
  obtain xs where xs: "chain m (firstFreeIndex m) xs"
    "set xs = {i. i < unat (mag_count m) \<and> Slot (mag_id m) i \<notin> live}"
    using assms(1) by (auto simp: mag_rel_def)
  have "xs = []" using assms(2) xs(1) by (cases xs) (auto simp: mag_take_def split: if_splits)
  with xs(2) show ?thesis by (auto simp: slots_def)
qed

lemma mag_take_Some:
  assumes "mag_rel m live" and "mag_take m = Some (i, m')"
  shows "Slot (mag_id m) i \<in> slots m" and "Slot (mag_id m) i \<notin> live" and "mag_rel m' (insert (Slot (mag_id m) i) live)"
    and "mag_id m' = mag_id m" and "mag_count m' = mag_count m"
proof -
  obtain xs where xs: "chain m (firstFreeIndex m) xs" "distinct xs"
    "set xs = {i. i < unat (mag_count m) \<and> Slot (mag_id m) i \<notin> live}"
    and l: "length (nexts m) = unat (mag_count m)"
    using assms(1) by (auto simp: mag_rel_def)
  have f: "firstFreeIndex m < mag_count m" and i: "i = unat (firstFreeIndex m)"
    and m': "m' = m\<lparr>firstFreeIndex := nexts m ! i\<rparr>"
    using assms(2) by (auto simp: mag_take_def split: if_splits)
  obtain ys where ys: "xs = i # ys" using xs(1) f i by (cases xs) auto
  show "Slot (mag_id m) i \<in> slots m" "Slot (mag_id m) i \<notin> live" using xs(3) ys by (auto simp: slots_def)
  have "set ys = {j. j < unat (mag_count m) \<and> Slot (mag_id m) j \<notin> insert (Slot (mag_id m) i) live}"
    using xs(2,3) ys by auto
  moreover have "chain m (nexts m ! i) ys" using xs(1) ys by simp
  ultimately show "mag_rel m' (insert (Slot (mag_id m) i) live)"
    using l xs(2) ys by (auto simp: mag_rel_def m')
  show "mag_id m' = mag_id m" "mag_count m' = mag_count m" by (simp_all add: m')
qed

lemma mag_give_rel:
  assumes "mag_rel m live" and "Slot (mag_id m) i \<in> live" and "i < unat (mag_count m)"
  shows "mag_rel (mag_give m i) (live - {Slot (mag_id m) i})"
proof -
  obtain xs where xs: "chain m (firstFreeIndex m) xs" "distinct xs"
    "set xs = {i. i < unat (mag_count m) \<and> Slot (mag_id m) i \<notin> live}"
    and l: "length (nexts m) = unat (mag_count m)"
    using assms(1) by (auto simp: mag_rel_def)
  have ni: "i \<notin> set xs" using xs(3) assms(2) by auto
  have "unat (mag_count m) < 2 ^ 32" using unsigned_less [of "mag_count m"] by simp
  with assms(3) have "i < 2 ^ 32" by simp
  then have ui: "unat (of_nat i :: u32) = i" by (intro unat_of_nat_small) simp
  have "chain (mag_give m i) (of_nat i) (i # xs)"
    using chain_frame [OF xs(1) ni, where v = "firstFreeIndex m" and f = "of_nat i"] assms(3) l ui
    by (simp add: mag_give_def word_less_nat_alt)
  moreover have "set (i # xs) = {j. j < unat (mag_count m) \<and> Slot (mag_id m) j \<notin> live - {Slot (mag_id m) i}}"
    using xs(3) assms(2,3) by auto
  moreover have "length (nexts (mag_give m i)) = unat (mag_count (mag_give m i))"
    and "firstFreeIndex (mag_give m i) = of_nat i" and "mag_count (mag_give m i) = mag_count m"
    and "mag_id (mag_give m i) = mag_id m" and "distinct (i # xs)"
    using l xs(2) ni by (simp_all add: mag_give_def)
  ultimately show ?thesis unfolding mag_rel_def by metis
qed

lemma mag_give_sel [simp]:
  "mag_id (mag_give m i) = mag_id m" "mag_count (mag_give m i) = mag_count m"
  by (simp_all add: mag_give_def)

lemma chain_init:
  assumes "i \<le> n" and "0 < n" and "n < 2 ^ 32"
    and "nexts m = map (\<lambda>i. of_nat (i + 1)) [0..<n - 1] @ [0xFFFFFFFF]" and "mag_count m = of_nat n"
  shows "chain m (if i < n then of_nat i else 0xFFFFFFFF) [i..<n]"
  using assms(1)
proof (induction "n - i" arbitrary: i)
  case 0
  have "unat (of_nat n :: u32) = n" using assms(3) by (intro unat_of_nat_small) simp
  with assms(3) 0 show ?case by (simp add: assms(5) word_less_nat_alt)
next
  case (Suc k)
  then have lt: "i < n" by simp
  have un: "unat (of_nat n :: u32) = n" "unat (of_nat i :: u32) = i"
    using assms(3) lt by (auto intro!: unat_of_nat_small)
  have "nexts m ! i = (if Suc i < n then of_nat (Suc i) else 0xFFFFFFFF)"
    using lt by (auto simp: assms(4) nth_append)
  moreover have "chain m (if Suc i < n then of_nat (Suc i) else 0xFFFFFFFF) [Suc i..<n]"
    using Suc by (intro Suc.hyps) auto
  moreover have "length (nexts m) = n" using assms(2,4) by simp
  ultimately show ?case
    using lt un by (simp add: upt_conv_Cons assms(5) word_less_nat_alt)
qed

lemma mag_init_rel:
  assumes "0 < unat c" and "unat c < 2 ^ 32" and "\<And>i. Slot ident i \<notin> live"
  shows "mag_rel (mag_init ident c) live"
    and "unat (mag_count (mag_init ident c)) = unat c" and "mag_id (mag_init ident c) = ident"
proof -
  have cnt: "(ucast c :: u32) = of_nat (unat c)" by simp
  have un: "unat (ucast c :: u32) = unat c" using assms(2)
    unfolding cnt by (intro unat_of_nat_small) simp
  show "unat (mag_count (mag_init ident c)) = unat c" "mag_id (mag_init ident c) = ident"
    using un by (simp_all add: mag_init_def)
  have "chain (mag_init ident c) 0 [0..<unat c]"
    using chain_init [of 0 "unat c" "mag_init ident c"] assms(1,2) by (simp add: mag_init_def)
  then show "mag_rel (mag_init ident c) live"
    using assms(1,3) un by (auto simp: mag_rel_def mag_init_def intro!: exI [of _ "[0..<unat c]"])
qed

section \<open>Pools and their live slots\<close>

definition pool_rel :: "pool \<Rightarrow> ptr set \<Rightarrow> bool" where
  "pool_rel p live \<longleftrightarrow>
     distinct (map mag_id (mBlocks p))
     \<and> (\<forall>m \<in> set (mBlocks p). mag_id m < next_id p \<and> mag_rel m live \<and> 16 \<le> unat (mag_count m))
     \<and> live \<subseteq> (\<Union>m \<in> set (mBlocks p). slots m)"

text \<open>The next magazine can be indexed by 32 bits.\<close>

definition pool_ready :: "pool \<Rightarrow> bool" where
  "pool_ready p \<longleftrightarrow> unat (nextBlockCapacity p) < 2 ^ 32"

lemma pool_rel_empty: "pool_rel (empty_pool outcomes) {}"
  by (simp add: pool_rel_def empty_pool_def)

lemma slots_eqI: "mag_id m' = mag_id m \<Longrightarrow> mag_count m' = mag_count m \<Longrightarrow> slots m' = slots m"
  by (simp add: slots_def)

lemma map_update_same: "i < length xs \<Longrightarrow> f y = f (xs ! i) \<Longrightarrow> map f (xs[i := y]) = map f xs"
  by (metis list_update_id map_update nth_map)

lemma UN_update_same:
  "i < length xs \<Longrightarrow> f y = f (xs ! i) \<Longrightarrow> (\<Union>x \<in> set (xs[i := y]). f x) = (\<Union>x \<in> set xs. f x)"
  by (metis list.set_map map_update_same)

text \<open>Replacing one magazine by one that agrees with the new live set.\<close>

lemma pool_rel_update:
  assumes rel: "pool_rel p live" and i: "i < length (mBlocks p)"
    and same: "mag_id m' = mag_id (mBlocks p ! i)" "mag_count m' = mag_count (mBlocks p ! i)"
    and m': "mag_rel m' live'"
    and other: "\<And>q. slot_magazine q \<noteq> mag_id (mBlocks p ! i) \<Longrightarrow> q \<in> live' \<longleftrightarrow> q \<in> live"
    and bound: "live' \<subseteq> live \<union> slots m'"
  shows "pool_rel (p\<lparr>mBlocks := (mBlocks p)[i := m']\<rparr>) live'"
proof -
  let ?ms = "mBlocks p"
  have ids: "map mag_id (?ms[i := m']) = map mag_id ?ms" using i same(1) by (rule map_update_same)
  have d: "distinct (map mag_id ?ms)" using rel by (simp add: pool_rel_def)
  have "mag_id m < next_id p \<and> mag_rel m live' \<and> 16 \<le> unat (mag_count m)" if m: "m \<in> set (?ms[i := m'])" for m
  proof -
    obtain j where j: "j < length ?ms" "m = ?ms[i := m'] ! j"
      using m by (metis in_set_conv_nth length_list_update)
    have inv: "mag_id (?ms ! j) < next_id p \<and> mag_rel (?ms ! j) live \<and> 16 \<le> unat (mag_count (?ms ! j))"
      using rel j(1) by (auto simp: pool_rel_def)
    show ?thesis
    proof (cases "j = i")
      case True
      then show ?thesis using j i inv same m' by simp
    next
      case False
      then have ne: "mag_id (?ms ! j) \<noteq> mag_id (?ms ! i)"
        using d i j(1) by (simp add: distinct_conv_nth)
      have "mag_rel (?ms ! j) live'"
      proof (rule mag_rel_cong)
        show "mag_rel (?ms ! j) live" using inv by simp
        show "Slot (mag_id (?ms ! j)) k \<in> live \<longleftrightarrow> Slot (mag_id (?ms ! j)) k \<in> live'" for k
          using other [of "Slot (mag_id (?ms ! j)) k"] ne by simp
      qed
      then show ?thesis using False j inv by simp
    qed
  qed
  moreover have "(\<Union>m \<in> set (?ms[i := m']). slots m) = (\<Union>m \<in> set ?ms. slots m)"
    using i same by (intro UN_update_same slots_eqI) auto
  moreover have "slots m' \<subseteq> (\<Union>m \<in> set ?ms. slots m)"
    using i same slots_eqI [of m' "?ms ! i"] by (metis UN_upper nth_mem)
  ultimately show ?thesis
    using rel bound ids d by (auto simp: pool_rel_def)
qed

lemma take_scan_Some:
  assumes "pool_rel p live" and "n \<le> length (mBlocks p)" and "take_scan n (mBlocks p) = Some (q, ms)"
  shows "q \<notin> live" and "pool_rel (p\<lparr>mBlocks := ms\<rparr>) (insert q live)"
  using assms(2,3)
proof (induction n)
  case (Suc n)
  let ?m = "mBlocks p ! n"
  { case 1
    show ?case
    proof (cases "mag_take ?m")
      case None
      then show ?thesis using Suc.IH(1) 1 by simp
    next
      case (Some r)
      obtain slot m' where r: "r = (slot, m')" by (cases r)
      have "mag_rel ?m live" using assms(1) 1 by (auto simp: pool_rel_def)
      with mag_take_Some(2) Some 1 r show ?thesis by auto
    qed
  }
  { case 2
    show ?case
    proof (cases "mag_take ?m")
      case None
      then show ?thesis using Suc.IH(2) 2 by simp
    next
      case (Some r)
      obtain slot m' where r: "r = (slot, m')" by (cases r)
      have rel: "mag_rel ?m live" using assms(1) 2 by (auto simp: pool_rel_def)
      note t = mag_take_Some [OF rel Some [unfolded r]]
      have "pool_rel (p\<lparr>mBlocks := (mBlocks p)[n := m']\<rparr>) (insert (Slot (mag_id ?m) slot) live)"
        using 2 t slots_eqI [OF t(4,5)] by (intro pool_rel_update [OF assms(1)]) auto
      then show ?thesis using 2 Some r by simp
    qed
  }
qed simp_all

lemma take_scan_None:
  "n \<le> length ms \<Longrightarrow> take_scan n ms = None \<Longrightarrow> i < n \<Longrightarrow> mag_take (ms ! i) = None"
  by (induction n) (auto split: option.splits simp: less_Suc_eq)

lemma sys_request_sel:
  "sys_request p = (b, p') \<Longrightarrow> mBlocks p' = mBlocks p \<and> next_id p' = next_id p"
  by (auto simp: sys_request_def split: list.splits)

lemma newBlock_False:
  "newBlock p = (False, p') \<Longrightarrow> mBlocks p' = mBlocks p \<and> next_id p' = next_id p"
  by (auto simp: newBlock_def Let_def split: prod.splits if_splits dest!: sys_request_sel)

lemma newBlock_True:
  "newBlock p = (True, p') \<Longrightarrow>
     mBlocks p' = mBlocks p @ [mag_init (next_id p) (nextBlockCapacity p)] \<and> next_id p' = Suc (next_id p)"
  by (auto simp: newBlock_def Let_def split: prod.splits if_splits dest!: sys_request_sel)

lemma pool_rel_fields:
  "mBlocks p' = mBlocks p \<Longrightarrow> next_id p' = next_id p \<Longrightarrow> pool_rel p' live = pool_rel p live"
  by (simp add: pool_rel_def)

lemma pool_rel_snoc:
  assumes "pool_rel p live" and "16 \<le> unat c" and "unat c < 2 ^ 32"
    and "mBlocks p' = mBlocks p @ [mag_init (next_id p) c]" and "next_id p' = Suc (next_id p)"
  shows "pool_rel p' live"
proof -
  have fresh: "Slot (next_id p) i \<notin> live" for i
  proof
    assume "Slot (next_id p) i \<in> live"
    then obtain m where "m \<in> set (mBlocks p)" "mag_id m = next_id p"
      using assms(1) by (force simp: pool_rel_def slots_def)
    then show False using assms(1) by (auto simp: pool_rel_def)
  qed
  note init = mag_init_rel [where live = live, OF _ assms(3) fresh]
  have pos: "0 < unat c" using assms(2) by simp
  have "next_id p \<notin> mag_id ` set (mBlocks p)" using assms(1) by (auto simp: pool_rel_def)
  then show ?thesis
    using assms init [OF pos] by (auto simp: pool_rel_def less_Suc_eq)
qed

lemma nextBlockCapacity_ge_16:
  assumes "pool_rel p live" and "pool_ready p"
  shows "16 \<le> unat (nextBlockCapacity p)"
proof (cases "mBlocks p = []")
  case False
  let ?m = "last (mBlocks p)"
  have m: "16 \<le> unat (mag_count ?m)" using assms(1) False by (auto simp: pool_rel_def)
  have c: "unat (mag_capacity ?m) = unat (mag_count ?m)"
    by (simp add: mag_capacity_def unat_ucast_widen)
  have "unat (mag_count ?m) < 2 ^ 32" using unsigned_less [of "mag_count ?m"] by simp
  then have "unat (mag_capacity ?m * 3) = unat (mag_count ?m) * 3"
    using c by (simp add: unat_mult_small)
  then show ?thesis using m False by (simp add: nextBlockCapacity_def unat_div)
qed (simp add: nextBlockCapacity_def)

text \<open>What \<open>allocate\<close> does in each of its outcomes.\<close>

lemma allocate_Some:
  assumes rel: "pool_rel p live" and ready: "pool_ready p" and "allocate p = (Some q, p')"
  shows "q \<notin> live" and "pool_rel p' (insert q live)"
proof -
  have "q \<notin> live \<and> pool_rel p' (insert q live)"
  proof (cases "take_scan (length (mBlocks p)) (mBlocks p)")
    case (Some r)
    then show ?thesis
      using assms(3) take_scan_Some [OF rel order_refl] by (cases r) (auto simp: allocate_def)
  next
    case None
    obtain ok p1 where nb: "newBlock p = (ok, p1)" by (cases "newBlock p")
    have ok using assms(3) None nb by (auto simp: allocate_def split: if_splits)
    then have p1: "mBlocks p1 = mBlocks p @ [mag_init (next_id p) (nextBlockCapacity p)]"
      "next_id p1 = Suc (next_id p)"
      using newBlock_True nb by auto
    have cap: "unat (nextBlockCapacity p) < 2 ^ 32" using ready by (simp add: pool_ready_def)
    have rel1: "pool_rel p1 live"
      by (rule pool_rel_snoc [OF rel nextBlockCapacity_ge_16 [OF rel ready] cap p1])
    let ?i = "length (mBlocks p1) - 1"
    have l: "last (mBlocks p1) = mBlocks p1 ! ?i" "?i < length (mBlocks p1)" using p1 by auto
    obtain slot m where t: "mag_take (mBlocks p1 ! ?i) = Some (slot, m)"
      and q: "q = Slot (mag_id (mBlocks p1 ! ?i)) slot" and p': "p' = p1\<lparr>mBlocks := (mBlocks p1)[?i := m]\<rparr>"
      using assms(3) None nb \<open>ok\<close> l(1)
      by (auto simp: allocate_def split: option.splits prod.splits)
    have mr: "mag_rel (mBlocks p1 ! ?i) live" using rel1 l(2) by (auto simp: pool_rel_def)
    note mt = mag_take_Some [OF mr t]
    have "pool_rel p' (insert q live)"
      using mt slots_eqI [OF mt(4,5)] unfolding p' q
      by (intro pool_rel_update [OF rel1 l(2)]) auto
    then show ?thesis using mt(2) q by simp
  qed
  then show "q \<notin> live" "pool_rel p' (insert q live)" by auto
qed

lemma mag_init_take:
  assumes "0 < unat c" and "unat c < 2 ^ 32"
  shows "mag_take (mag_init ident c) \<noteq> None"
proof
  assume "mag_take (mag_init ident c) = None"
  then have "slots (mag_init ident c) = {}"
    using mag_take_None [OF mag_init_rel(1) [OF assms]] by blast
  then show False using assms(1) mag_init_rel(2) [OF assms, of ident "{}"] by (auto simp: slots_def lessThan_empty_iff)
qed

lemma allocate_None:
  assumes rel: "pool_rel p live" and ready: "pool_ready p" and "allocate p = (None, p')"
  shows "pool_rel p' live" and "mBlocks p' = mBlocks p"
proof -
  have scan: "take_scan (length (mBlocks p)) (mBlocks p) = None"
    using assms(3) by (auto simp: allocate_def split: option.splits prod.splits if_splits)
  obtain ok p1 where nb: "newBlock p = (ok, p1)" by (cases "newBlock p")
  have "\<not> ok"
  proof
    assume ok
    then have "mBlocks p1 = mBlocks p @ [mag_init (next_id p) (nextBlockCapacity p)]"
      using newBlock_True nb by auto
    moreover have "mag_take (mag_init (next_id p) (nextBlockCapacity p)) \<noteq> None"
      using nextBlockCapacity_ge_16 [OF rel ready] ready
      by (intro mag_init_take) (auto simp: pool_ready_def)
    ultimately show False
      using assms(3) scan nb \<open>ok\<close> by (auto simp: allocate_def)
  qed
  then have "p' = p1" using assms(3) scan nb by (auto simp: allocate_def)
  with \<open>\<not> ok\<close> nb newBlock_False have "mBlocks p' = mBlocks p" "next_id p' = next_id p" by auto
  then show "pool_rel p' live" "mBlocks p' = mBlocks p"
    using rel pool_rel_fields [of p' p live] by simp_all
qed

lemma release_live:
  assumes rel: "pool_rel p live" and q: "q \<in> live"
  shows "\<exists>p'. release p q = Some p' \<and> pool_rel p' (live - {q})"
proof -
  obtain k where k: "k < length (mBlocks p)" "q \<in> slots (mBlocks p ! k)"
    using rel q by (fastforce simp: pool_rel_def in_set_conv_nth)
  have c: "mag_contains (mBlocks p ! i) q \<longleftrightarrow> i = k" if "i < length (mBlocks p)" for i
  proof -
    have "distinct (map mag_id (mBlocks p))" using rel by (simp add: pool_rel_def)
    then have "mag_id (mBlocks p ! i) = mag_id (mBlocks p ! k) \<longleftrightarrow> i = k"
      using that k(1) by (metis (no_types, lifting) distinct_conv_nth length_map nth_map)
    then show ?thesis using k(2) by (auto simp: mag_contains_def slots_def)
  qed
  have scan: "reclaim_scan n q (mBlocks p) = Some ((mBlocks p)[k := mag_give (mBlocks p ! k) (slot_index q)])"
    if "k < n" "n \<le> length (mBlocks p)" for n
    using that
  proof (induction n)
    case (Suc n)
    then show ?case using c [of n] by (cases "n = k") (auto simp: mag_reclaim_def)
  qed simp
  let ?m = "mBlocks p ! k"
  have qq: "q = Slot (mag_id ?m) (slot_index q)" "slot_index q < unat (mag_count ?m)" using k(2) by (auto simp: slots_def)
  have "mag_rel ?m live" using rel k(1) by (auto simp: pool_rel_def)
  then have mr: "mag_rel (mag_give ?m (slot_index q)) (live - {q})"
    using mag_give_rel [of ?m live "slot_index q"] qq q by metis
  have "pool_rel (p\<lparr>mBlocks := (mBlocks p)[k := mag_give ?m (slot_index q)]\<rparr>) (live - {q})"
    using arg_cong [OF qq(1), of slot_magazine]
    by (intro pool_rel_update [OF rel k(1) _ _ mr]) auto
  then show ?thesis using scan [OF k(1) order_refl] by (simp add: release_def)
qed

section \<open>Room for several allocations\<close>

text \<open>
  Each allocation may add a magazine half as large again as the last one; with room for \<open>n\<close>
  allocations every one of \<open>n\<close> in a row finds the capacity below 32 bits.
\<close>

definition pool_room :: "nat \<Rightarrow> pool \<Rightarrow> bool" where
  "pool_room n p \<longleftrightarrow> unat (nextBlockCapacity p) * 2 ^ n < 2 ^ 32"

lemma pool_room_mono:
  assumes "pool_room n p" and "m \<le> n"
  shows "pool_room m p"
proof -
  have "(2::nat) ^ m \<le> 2 ^ n" using assms(2) by (intro power_increasing) simp_all
  then have "unat (nextBlockCapacity p) * 2 ^ m \<le> unat (nextBlockCapacity p) * 2 ^ n"
    by (rule mult_le_mono2)
  then show ?thesis using assms(1) unfolding pool_room_def by (rule le_less_trans)
qed

lemma pool_room_ready: "pool_room n p \<Longrightarrow> pool_ready p"
  using pool_room_mono [of n p 0] by (simp add: pool_room_def pool_ready_def)

lemma capacity_cong:
  assumes "map mag_count (mBlocks p') = map mag_count (mBlocks p)"
  shows "nextBlockCapacity p' = nextBlockCapacity p"
proof -
  have "mBlocks p' = [] \<longleftrightarrow> mBlocks p = []" using assms by auto
  moreover have "mag_count (last (mBlocks p')) = mag_count (last (mBlocks p))" if "mBlocks p \<noteq> []"
    using that calculation assms by (metis last_map)
  ultimately show ?thesis by (auto simp: nextBlockCapacity_def mag_capacity_def)
qed

lemma take_scan_counts:
  "n \<le> length ms \<Longrightarrow> take_scan n ms = Some (q, ms') \<Longrightarrow> map mag_count ms' = map mag_count ms"
  by (induction n) (auto simp: mag_take_def map_update_same split: option.splits if_splits prod.splits)

lemma allocate_room:
  assumes rel: "pool_rel p live" and room: "pool_room (Suc n) p" and al: "allocate p = (r, p')"
  shows "pool_room n p'"
proof (cases "r = None \<or> take_scan (length (mBlocks p)) (mBlocks p) \<noteq> None")
  case True
  have "map mag_count (mBlocks p') = map mag_count (mBlocks p)"
  proof (cases "take_scan (length (mBlocks p)) (mBlocks p)")
    case None
    then show ?thesis using True al allocate_None(2) [OF rel pool_room_ready [OF room]] by simp
  next
    case (Some x)
    then show ?thesis using al take_scan_counts [OF order_refl] by (cases x) (auto simp: allocate_def)
  qed
  then have "pool_room (Suc n) p'" using room capacity_cong [of p' p] by (simp add: pool_room_def)
  then show ?thesis by (rule pool_room_mono) simp
next
  case False
  let ?c = "unat (nextBlockCapacity p)"
  obtain ok p1 where nb: "newBlock p = (ok, p1)" by (cases "newBlock p")
  have sc: "take_scan (length (mBlocks p)) (mBlocks p) = None" using False by blast
  have ok using al False nb sc by (auto simp: allocate_def split: if_splits)
  then have p1: "mBlocks p1 = mBlocks p @ [mag_init (next_id p) (nextBlockCapacity p)]"
    using newBlock_True nb by auto
  have "map mag_count (mBlocks p') = map mag_count (mBlocks p1)"
    using al False nb sc \<open>ok\<close> p1 by (auto simp: allocate_def mag_take_def split: option.splits if_splits)
  then have c: "nextBlockCapacity p' = nextBlockCapacity p1" by (rule capacity_cong)
  have lt: "?c < 2 ^ 32" using pool_room_ready [OF room] by (simp add: pool_ready_def)
  then have "unat (mag_capacity (mag_init (next_id p) (nextBlockCapacity p))) = ?c"
    using nextBlockCapacity_ge_16 [OF rel pool_room_ready [OF room]]
      mag_init_rel(2) [of "nextBlockCapacity p" "next_id p" "{}"]
    by (simp add: mag_capacity_def unat_ucast_widen)
  then have "unat (nextBlockCapacity p1) = ?c * 3 div 2"
    using p1 lt by (simp add: nextBlockCapacity_def unat_div unat_mult_small)
  then have "unat (nextBlockCapacity p') * 2 ^ n \<le> ?c * 2 ^ Suc n"
    using mult_le_mono1 [of "?c * 3 div 2" "?c * 2" "2 ^ n"] c by (simp add: mult.assoc)
  then show ?thesis using room unfolding pool_room_def by (rule le_less_trans)
qed

lemma reclaim_scan_counts:
  "n \<le> length ms \<Longrightarrow> reclaim_scan n q ms = Some ms' \<Longrightarrow> map mag_count ms' = map mag_count ms"
  by (induction n) (auto simp: mag_reclaim_def map_update_same split: option.splits if_splits)

lemma release_room:
  assumes "release p q = Some p'"
  shows "pool_room n p' = pool_room n p"
proof -
  have "map mag_count (mBlocks p') = map mag_count (mBlocks p)"
    using assms reclaim_scan_counts [OF order_refl] by (auto simp: release_def bind_Some_iff)
  then show ?thesis using capacity_cong [of p' p] by (simp add: pool_room_def)
qed

definition slot_counts :: "pool \<Rightarrow> u32 list" where
  "slot_counts p = map mag_count (mBlocks p)"

lemma slot_counts_room: "slot_counts p' = slot_counts p \<Longrightarrow> pool_room n p' = pool_room n p"
  using capacity_cong [of p' p] by (simp add: slot_counts_def pool_room_def)

lemma release_counts: "release p q = Some p' \<Longrightarrow> slot_counts p' = slot_counts p"
  using reclaim_scan_counts [OF order_refl] by (auto simp: slot_counts_def release_def bind_Some_iff)

text \<open>
  An allocation leaves the magazines as they are, or adds one that has a second free slot.
\<close>

lemma allocate_counts:
  assumes rel: "pool_rel p live" and ready: "pool_ready p" and al: "allocate p = (r, p')"
  shows "slot_counts p' = slot_counts p \<or> fst (allocate p') \<noteq> None"
proof (cases "take_scan (length (mBlocks p)) (mBlocks p)")
  case (Some x)
  then show ?thesis
    using al take_scan_counts [OF order_refl] by (cases x) (auto simp: allocate_def slot_counts_def)
next
  case sc: None
  show ?thesis
  proof (cases r)
    case None
    then show ?thesis using allocate_None(2) [OF rel ready al [unfolded None]] by (simp add: slot_counts_def)
  next
    case (Some q)
    obtain ok p1 where nb: "newBlock p = (ok, p1)" by (cases "newBlock p")
    have ok using al Some nb sc by (auto simp: allocate_def split: if_splits)
    let ?c = "nextBlockCapacity p" and ?m = "mag_init (next_id p) (nextBlockCapacity p)"
    have p1: "mBlocks p1 = mBlocks p @ [?m]" using newBlock_True nb \<open>ok\<close> by auto
    have c: "16 \<le> unat ?c" "unat ?c < 2 ^ 32"
      using nextBlockCapacity_ge_16 [OF rel ready] ready by (auto simp: pool_ready_def)
    have cnt: "unat (mag_count ?m) = unat ?c" using mag_init_rel(2) [of ?c "next_id p" "{}"] c by simp
    have t1: "mag_take ?m = Some (0, ?m\<lparr>firstFreeIndex := 1\<rparr>)"
      using cnt c by (simp add: mag_take_def word_less_nat_alt mag_init_def nth_append)
    then have p': "mBlocks p' = mBlocks p @ [?m\<lparr>firstFreeIndex := 1\<rparr>]"
      using al sc nb \<open>ok\<close> p1 by (auto simp: allocate_def)
    have "mag_take (?m\<lparr>firstFreeIndex := 1\<rparr>) \<noteq> None" using cnt c by (simp add: mag_take_def word_less_nat_alt)
    then have "fst (allocate p') \<noteq> None" using p' by (auto simp: allocate_def)
    then show ?thesis by simp
  qed
qed

section \<open>The interface the heap relies on\<close>

text \<open>
  An object pool promises three laws over the set of live objects. Clients reason from these
  alone; what they need of repeated allocation is proved once here.
\<close>

locale object_pool =
  fixes alloc :: "'p \<Rightarrow> 'q option \<times> 'p"
    and free_obj :: "'p \<Rightarrow> 'q \<Rightarrow> 'p option"
    and rel :: "'p \<Rightarrow> 'q set \<Rightarrow> bool"
    and ready :: "'p \<Rightarrow> bool"
  assumes alloc_fresh: "rel p live \<Longrightarrow> ready p \<Longrightarrow> alloc p = (Some q, p') \<Longrightarrow> q \<notin> live"
    and alloc_rel: "rel p live \<Longrightarrow> ready p \<Longrightarrow> alloc p = (Some q, p') \<Longrightarrow> rel p' (insert q live)"
    and alloc_fail: "rel p live \<Longrightarrow> ready p \<Longrightarrow> alloc p = (None, p') \<Longrightarrow> rel p' live"
    and free_rel: "rel p live \<Longrightarrow> q \<in> live \<Longrightarrow> \<exists>p'. free_obj p q = Some p' \<and> rel p' (live - {q})"
begin

lemma alloc_free_roundtrip:
  assumes "rel p live" and "ready p" and "alloc p = (Some q, p')"
  shows "\<exists>p''. free_obj p' q = Some p'' \<and> rel p'' live"
proof -
  have "rel p' (insert q live)" "q \<notin> live" using assms alloc_fresh alloc_rel by blast+
  then show ?thesis using free_rel [of p' "insert q live" q] by simp
qed

lemma free_all:
  assumes "rel p live" and "distinct qs" and "set qs \<subseteq> live"
  shows "\<exists>p'. foldr (\<lambda>q r. Option.bind r (\<lambda>p. free_obj p q)) qs (Some p) = Some p'
    \<and> rel p' (live - set qs)"
  using assms(2,3)
proof (induction qs)
  case Nil
  then show ?case using assms(1) by simp
next
  case (Cons q qs)
  then obtain p1 where p1: "foldr (\<lambda>q r. Option.bind r (\<lambda>p. free_obj p q)) qs (Some p) = Some p1"
    "rel p1 (live - set qs)" by auto
  moreover have "q \<in> live - set qs" using Cons.prems by simp
  ultimately obtain p2 where "free_obj p1 q = Some p2" "rel p2 (live - set qs - {q})"
    using free_rel by blast
  moreover have "live - set qs - {q} = live - set (q # qs)" by auto
  ultimately show ?case using p1(1) by simp
qed

end

interpretation block_pool: object_pool allocate release pool_rel pool_ready
  by unfold_locales (rule allocate_Some allocate_None release_live; assumption)+

text \<open>
  C36. An allocation from a well-formed pool returns a slot that was not live and leaves a
  well-formed pool in which exactly that slot has become live; releasing it again succeeds
  and restores the set of live slots.
\<close>

theorem pool_allocate_fresh:
  assumes "pool_rel p live" and "pool_ready p" and "allocate p = (Some q, p')"
  shows "q \<notin> live \<and> pool_rel p' (insert q live)
    \<and> (\<exists>p''. release p' q = Some p'' \<and> pool_rel p'' live)"
  using block_pool.alloc_fresh [OF assms] block_pool.alloc_rel [OF assms]
    block_pool.alloc_free_roundtrip [OF assms] by blast

text \<open>A pool with one live slot, for the witnesses.\<close>

definition example_pool :: pool where
  "example_pool = snd (allocate (empty_pool [True, True]))"

lemma example_pool_allocate: "allocate (empty_pool [True, True]) = (Some (Slot 0 0), example_pool)"
  by (simp add: example_pool_def allocate_def empty_pool_def newBlock_def sys_request_def
    nextBlockCapacity_def mag_init_def mag_take_def)

lemma empty_pool_ready: "pool_ready (empty_pool outcomes)"
  by (simp add: pool_ready_def nextBlockCapacity_def empty_pool_def)

lemma example_pool_rel: "pool_rel example_pool {Slot 0 0}"
  using allocate_Some(2) [OF pool_rel_empty empty_pool_ready example_pool_allocate] by simp

theorem pool_allocate_fresh_witness:
  "Slot 0 0 \<notin> ({} :: ptr set) \<and> pool_rel example_pool (insert (Slot 0 0) {})
    \<and> (\<exists>p''. release example_pool (Slot 0 0) = Some p'' \<and> pool_rel p'' {})"
  by (rule pool_allocate_fresh [OF pool_rel_empty empty_pool_ready example_pool_allocate])

text \<open>
  C37. Releasing a live slot never reaches the unreachable end of the search and removes
  exactly that slot.
\<close>

theorem pool_release_live:
  assumes "pool_rel p live" and "q \<in> live"
  shows "\<exists>p'. release p q = Some p' \<and> pool_rel p' (live - {q})"
  using assms by (rule block_pool.free_rel)

theorem pool_release_live_witness:
  "\<exists>p'. release example_pool (Slot 0 0) = Some p' \<and> pool_rel p' ({Slot 0 0} - {Slot 0 0})"
  by (rule pool_release_live [OF example_pool_rel]) simp

section \<open>Statistics and compaction\<close>

lemma countFreeSlots_rel:
  assumes "mag_rel m live"
  shows "countFreeSlots m = Some (card (slots m - live))"
proof -
  obtain xs where xs: "chain m (firstFreeIndex m) xs" "distinct xs"
    "set xs = {i. i < unat (mag_count m) \<and> Slot (mag_id m) i \<notin> live}"
    using assms by (auto simp: mag_rel_def)
  have "slots m - live = Slot (mag_id m) ` set xs" using xs(3) by (auto simp: slots_def)
  then have "card (slots m - live) = length xs"
    using xs(2) card_image [of "Slot (mag_id m)" "set xs"] by (simp add: inj_on_def distinct_card)
  then show ?thesis using count_free_loop_chain [OF xs(1), of 0] by (simp add: countFreeSlots_def)
qed

lemma mag_isEmpty_rel:
  assumes "mag_rel m live"
  shows "mag_isEmpty m = Some (slots m \<inter> live = {})"
proof -
  have fin: "finite (slots m)" and c: "card (slots m) = unat (mag_count m)"
    by (simp_all add: card_slots)
  have "card (slots m - live) = card (slots m) \<longleftrightarrow> slots m \<inter> live = {}"
    using fin by (metis Diff_Int_distrib2 Diff_cancel Diff_triv Int_Diff Int_absorb card_subset_eq
      Diff_subset Int_commute Diff_disjoint)
  then show ?thesis
    using countFreeSlots_rel [OF assms] c
    by (simp add: mag_isEmpty_def mag_capacity_def unat_ucast_widen)
qed

text \<open>Compaction as a filter: the magazines without a live slot are dropped.\<close>

lemma compact_loop_filter:
  assumes "\<forall>m \<in> set ms. mag_rel m live" and "i \<le> length ms"
  shows "\<exists>st'. compact_loop i ms st
    = Some (st', take i ms @ filter (\<lambda>m. slots m \<inter> live \<noteq> {}) (drop i ms))"
  using assms
proof (induction i ms st rule: compact_loop.induct)
  case (1 i ms st)
  show ?case
  proof (cases "i < length ms")
    case False
    with "1.prems" show ?thesis by (subst compact_loop.simps) simp
  next
    case True
    note dr = Cons_nth_drop_Suc [OF True, symmetric]
    have emp: "mag_isEmpty (ms ! i) = Some (slots (ms ! i) \<inter> live = {})"
      using "1.prems" True by (simp add: mag_isEmpty_rel)
    show ?thesis
    proof (cases "slots (ms ! i) \<inter> live = {}")
      case empty: True
      let ?ms = "take i ms @ drop (Suc i) ms"
      have "\<forall>m \<in> set ?ms. mag_rel m live" using "1.prems"(1) by (auto dest: in_set_takeD in_set_dropD)
      moreover have "i \<le> length ?ms" using True by simp
      moreover have "take i ?ms = take i ms" "drop i ?ms = drop (Suc i) ms" using True by simp_all
      ultimately show ?thesis
        using "1.IH"(1) [OF True emp [unfolded empty, simplified] refl] emp empty True
        by (subst compact_loop.simps) (simp add: dr)
    next
      case False
      have "take (i + 1) ms = take i ms @ [ms ! i]" using True by (simp add: take_Suc_conv_app_nth)
      then show ?thesis
        using "1.IH"(2) [OF True] emp False True "1.prems"(1)
        by (subst compact_loop.simps) (simp add: dr)
    qed
  qed
qed

text \<open>
  Compaction of a well-formed pool terminates without a fault, frees exactly the magazines
  that hold no live slot, and keeps every live slot.
\<close>

lemma pool_compact_keeps_live:
  assumes "pool_rel p live"
  shows "\<exists>st p'. pool_compact p = Some (st, p') \<and> pool_rel p' live
    \<and> mBlocks p' = filter (\<lambda>m. slots m \<inter> live \<noteq> {}) (mBlocks p)"
proof -
  have "\<forall>m \<in> set (mBlocks p). mag_rel m live" using assms by (simp add: pool_rel_def)
  from compact_loop_filter [OF this, of 0]
  obtain st where c: "compact_loop 0 (mBlocks p) \<lparr>compact_magazines = 0, compact_slots = 0\<rparr>
      = Some (st, filter (\<lambda>m. slots m \<inter> live \<noteq> {}) (mBlocks p))" by auto
  let ?p = "p\<lparr>mBlocks := filter (\<lambda>m. slots m \<inter> live \<noteq> {}) (mBlocks p)\<rparr>"
  have "live \<subseteq> (\<Union>m \<in> set (mBlocks ?p). slots m)"
  proof
    fix q assume q: "q \<in> live"
    then obtain m where "m \<in> set (mBlocks p)" "q \<in> slots m" using assms by (auto simp: pool_rel_def)
    with q show "q \<in> (\<Union>m \<in> set (mBlocks ?p). slots m)" by auto
  qed
  then have "pool_rel ?p live"
    using assms by (simp add: pool_rel_def distinct_map_filter)
  with c show ?thesis by (simp add: pool_compact_def)
qed

lemma stats_loop_sum:
  assumes "\<forall>m \<in> set ms. mag_rel m live" and "distinct (map mag_id ms)"
  shows "\<exists>st'. stats_loop sb si ms st = Some st'
    \<and> freeSlots st' + card (live \<inter> (\<Union>m \<in> set ms. slots m)) + totalSlots st
      = totalSlots st' + freeSlots st"
  using assms
proof (induction ms arbitrary: st)
  case (Cons m ms)
  let ?rest = "\<Union>m \<in> set ms. slots m"
  let ?st = "st\<lparr>freeSlots := freeSlots st + card (slots m - live),
                totalSlots := totalSlots st + unat (mag_count m),
                controlMemory := controlMemory st + (sb + si * card (slots m - live))\<rparr>"
  have cf: "countFreeSlots m = Some (card (slots m - live))"
    using Cons.prems(1) by (simp add: countFreeSlots_rel)
  obtain st' where st': "stats_loop sb si ms ?st = Some st'"
    "freeSlots st' + card (live \<inter> ?rest) + totalSlots ?st = totalSlots st' + freeSlots ?st"
    using Cons.IH [of ?st] Cons.prems by auto
  have fin: "finite (slots m)" "finite ?rest" by (auto simp: slots_def)
  have disj: "slots m \<inter> ?rest = {}" using Cons.prems(2) by (force simp: slots_def)
  have "card (live \<inter> (slots m \<union> ?rest)) = card (live \<inter> slots m) + card (live \<inter> ?rest)"
    using fin disj by (subst card_Un_disjoint [symmetric]) (auto simp: Int_Un_distrib)
  moreover have "card (slots m - live) + card (live \<inter> slots m) = unat (mag_count m)"
  proof -
    have "card (slots m - live) + card (live \<inter> slots m) = card (slots m)"
      using fin(1) by (subst card_Un_disjoint [symmetric]) (auto intro: arg_cong [where f = card])
    then show ?thesis by (simp add: card_slots)
  qed
  ultimately show ?case using st' cf by (auto simp: Int_Un_distrib)
qed simp

text \<open>
  The statistics of a well-formed pool never diverge, and every slot is counted either as
  free or as live.
\<close>

lemma pool_stats_account:
  assumes "pool_rel p live"
  shows "\<exists>st. pool_stats sp sb si p = Some st \<and> freeSlots st + card live = totalSlots st"
proof -
  have "live \<inter> (\<Union>m \<in> set (mBlocks p). slots m) = live" using assms by (auto simp: pool_rel_def)
  moreover have "\<forall>m \<in> set (mBlocks p). mag_rel m live" "distinct (map mag_id (mBlocks p))"
    using assms by (simp_all add: pool_rel_def)
  ultimately show ?thesis
    using stats_loop_sum [of "mBlocks p" live sb si] by (fastforce simp: pool_stats_def)
qed

end
