(* ===== verification/TlsfIndex.thy ===== *)
theory TlsfIndex
  imports Bits
begin

text \<open>
  The size classes of the two-level segregated-fit heap:
  \<^verbatim>\<open>SizeToMemoryClass\<close>, \<^verbatim>\<open>SizeToSecondIndex\<close>, \<^verbatim>\<open>GetListIndex\<close>, \<^verbatim>\<open>GetFreeListSize\<close> and
  \<^verbatim>\<open>GetNextBlockSize\<close> of \<^verbatim>\<open>kernel/include/memory/detail/tlsf.hpp\<close>. The reference
  \<open>list_index\<close> says in natural numbers which free list a size belongs to; the lemmas show
  that the bit arithmetic computes it, that it is monotone in the size (so a block of a later
  list is larger), and that the list array of a heap is long enough for every block in it.
\<close>

definition kSmallBufferSize :: size_t where "kSmallBufferSize = 0x100"
definition kMemoryClassShift :: nat where "kMemoryClassShift = 7"
definition kSecondLevelIndex :: nat where "kSecondLevelIndex = 5"
definition kMaxMemoryClass :: nat where "kMaxMemoryClass = 64 - kMemoryClassShift"
definition kSmallSizeStep :: size_t where
  "kSmallSizeStep = kSmallBufferSize div push_bit kSecondLevelIndex 1"

lemmas tlsf_constants =
  kSmallBufferSize_def kMemoryClassShift_def kSecondLevelIndex_def kMaxMemoryClass_def
  kSmallSizeStep_def

definition SizeToMemoryClass :: "size_t \<Rightarrow> u8" where
  "SizeToMemoryClass sz =
     (if sz > kSmallBufferSize then BitScanLeading sz - of_nat kMemoryClassShift else 0)"

definition SizeToSecondIndex :: "size_t \<Rightarrow> u8 \<Rightarrow> u16" where
  "SizeToSecondIndex sz memoryClass =
     (if memoryClass = 0 then ucast ((sz - 1) div 8)
      else ucast (drop_bit (unat memoryClass + kMemoryClassShift - kSecondLevelIndex) sz
                    XOR push_bit kSecondLevelIndex 1))"

definition GetFreeListSize :: "u8 \<Rightarrow> u16 \<Rightarrow> size_t" where
  "GetFreeListSize memoryClass secondIndex =
     (if memoryClass = 0 then 0
      else (ucast memoryClass - 1) * push_bit kSecondLevelIndex 1 + ucast secondIndex + 1
             + push_bit kSecondLevelIndex 1)"

definition GetListIndex2 :: "u8 \<Rightarrow> u16 \<Rightarrow> size_t" where
  "GetListIndex2 memoryClass secondIndex =
     (if memoryClass = 0 then ucast secondIndex
      else let index = (ucast memoryClass - 1) * push_bit kSecondLevelIndex 1 + ucast secondIndex
           in index + push_bit kSecondLevelIndex 1)"

definition GetListIndex :: "size_t \<Rightarrow> size_t" where
  "GetListIndex sz =
     (let memoryClass = SizeToMemoryClass sz; secondIndex = SizeToSecondIndex sz memoryClass
      in GetListIndex2 memoryClass secondIndex)"

definition GetNextBlockSize :: "size_t \<Rightarrow> size_t" where
  "GetNextBlockSize sz =
     (if sz > kSmallBufferSize then push_bit (unat (BitScanLeading sz) - kSecondLevelIndex) 1
      else if sz > kSmallBufferSize - kSmallSizeStep then kSmallBufferSize + 1
      else sz + kSmallSizeStep)"

section \<open>Reference: classes in natural numbers\<close>

definition top_bit :: "nat \<Rightarrow> nat" where
  "top_bit n = bit_width n - 1"

definition class_of :: "nat \<Rightarrow> nat" where
  "class_of n = (if n \<le> 256 then 0 else top_bit n - 7)"

definition second_of :: "nat \<Rightarrow> nat" where
  "second_of n = (if n \<le> 256 then (n - 1) div 8 else n div 2 ^ (top_bit n - 5) - 32)"

definition list_index :: "nat \<Rightarrow> nat" where
  "list_index n = class_of n * 32 + second_of n"

lemma top_bit_bounds: "0 < n \<Longrightarrow> 2 ^ top_bit n \<le> n \<and> n < 2 ^ Suc (top_bit n)"
  using bit_width_bounds [of n] by (simp add: top_bit_def)

lemma top_bit_unique: "2 ^ k \<le> n \<Longrightarrow> n < 2 ^ Suc k \<Longrightarrow> top_bit n = k"
  using bit_width_unique [of k n] by (simp add: top_bit_def)

lemma top_bit_mono: "0 < n \<Longrightarrow> n \<le> m \<Longrightarrow> top_bit n \<le> top_bit m"
proof -
  assume n: "0 < n" "n \<le> m"
  then have "(2::nat) ^ top_bit n < 2 ^ Suc (top_bit m)"
    using top_bit_bounds [of n] top_bit_bounds [of m] by linarith
  then have "top_bit n < Suc (top_bit m)" by (rule power_less_imp_less_exp [rotated]) simp
  then show ?thesis by simp
qed

lemma top_bit_ge_8: "256 < n \<Longrightarrow> 8 \<le> top_bit n"
  using top_bit_mono [of 256 n] top_bit_unique [of 8 256] by simp

lemma top_bit_le_63: "n < 2 ^ 64 \<Longrightarrow> top_bit n \<le> 63"
  using bit_width_le [of n 64] by (simp add: top_bit_def)

lemma leading_digits_bounds:
  assumes "256 < n"
  shows "32 \<le> n div 2 ^ (top_bit n - 5)" and "n div 2 ^ (top_bit n - 5) < 64"
proof -
  have k: "8 \<le> top_bit n" using assms by (rule top_bit_ge_8)
  have pw: "(2::nat) ^ top_bit n = 32 * 2 ^ (top_bit n - 5)"
    using k power_add [of "2::nat" 5 "top_bit n - 5"] by simp
  have b: "32 * 2 ^ (top_bit n - 5) \<le> n" "n < 64 * 2 ^ (top_bit n - 5)"
    using top_bit_bounds [of n] assms pw by simp_all
  show "32 \<le> n div 2 ^ (top_bit n - 5)" using b(1) by (simp add: less_eq_div_iff_mult_less_eq)
  show "n div 2 ^ (top_bit n - 5) < 64" using b(2) by (simp add: div_less_iff_less_mult)
qed

lemma second_of_less: "second_of n < 32"
  using leading_digits_bounds [of n] by (auto simp: second_of_def)

lemma class_of_le: "n < 2 ^ 64 \<Longrightarrow> class_of n \<le> 56"
proof -
  assume "n < 2 ^ 64"
  then have "top_bit n \<le> 63" by (rule top_bit_le_63)
  then show ?thesis by (auto simp: class_of_def)
qed

text \<open>A class and a second index determine each other's list: the pair is a list's coordinates.\<close>

lemma list_index_div: "list_index n div 32 = class_of n"
  and list_index_mod: "list_index n mod 32 = second_of n"
  using second_of_less [of n] by (simp_all add: list_index_def)

lemma list_index_mono: "0 < n \<Longrightarrow> n \<le> m \<Longrightarrow> list_index n \<le> list_index m"
proof -
  assume n: "0 < n" "n \<le> m"
  consider "m \<le> 256" | "n \<le> 256" "256 < m" | "256 < n" "top_bit n = top_bit m"
    | "256 < n" "top_bit n < top_bit m"
    using n top_bit_mono [of n m] by linarith
  then show ?thesis
  proof cases
    case 1
    then have "(n - 1) div 8 \<le> (m - 1) div 8" using n by (intro div_le_mono) simp
    with 1 show ?thesis using n by (simp add: list_index_def class_of_def second_of_def)
  next
    case 2
    then have "class_of m \<ge> 1" using top_bit_ge_8 [of m] by (simp add: class_of_def)
    then show ?thesis using 2 second_of_less [of n] by (simp add: list_index_def class_of_def)
  next
    case 3
    then have "n div 2 ^ (top_bit n - 5) \<le> m div 2 ^ (top_bit n - 5)" using n by (intro div_le_mono) simp
    then show ?thesis using 3 n by (simp add: list_index_def class_of_def second_of_def)
  next
    case 4
    then have "class_of n < class_of m" using top_bit_ge_8 [of n] n by (simp add: class_of_def)
    then show ?thesis using second_of_less [of n] by (simp add: list_index_def)
  qed
qed

lemma list_index_less_imp: "0 < m \<Longrightarrow> list_index n < list_index m \<Longrightarrow> n < m"
  using list_index_mono [of m n] by fastforce

section \<open>The bit arithmetic computes the classes\<close>

lemma unat_BitScanLeading_size:
  fixes sz :: size_t
  assumes "sz \<noteq> 0"
  shows "unat (BitScanLeading sz) = top_bit (unat sz)"
  using assms by (simp add: unat_BitScanLeading top_bit_def)

lemma unat_SizeToMemoryClass: "unat (SizeToMemoryClass sz) = class_of (unat sz)"
proof (cases "sz > 0x100")
  case True
  then have n: "256 < unat sz" by (simp add: word_less_nat_alt)
  then have "sz \<noteq> 0" by auto
  then have "unat (BitScanLeading sz) = top_bit (unat sz)" by (rule unat_BitScanLeading_size)
  moreover have "unat (BitScanLeading sz - 7) = unat (BitScanLeading sz) - 7"
    using calculation top_bit_ge_8 [OF n] by (intro trans [OF unat_sub_le]) simp_all
  ultimately show ?thesis
    using True n by (simp add: SizeToMemoryClass_def class_of_def tlsf_constants)
next
  case False
  then show ?thesis
    by (simp add: SizeToMemoryClass_def class_of_def tlsf_constants word_less_nat_alt)
qed

lemma xor_32_small:
  fixes x :: size_t
  assumes "32 \<le> unat x" and "unat x < 64"
  shows "unat (x XOR 32) = unat x - 32"
proof -
  define y where "y = unat x - 32"
  have y: "unat x = 32 + y" "y < 32" using assms by (auto simp: y_def)
  have "x = of_nat (unat x)" by simp
  then have x: "x = 32 + of_nat y" unfolding y(1) by simp
  have "\<forall>j \<in> {0..<32 :: nat}. (32 + of_nat j XOR 32 :: size_t) = of_nat j"
    by (simp add: atLeastLessThan_nat_numeral)
  then have "x XOR 32 = of_nat y" using x y(2) by simp
  then show ?thesis using y by (simp add: unat_of_nat_small)
qed

lemma unat_SizeToSecondIndex:
  assumes "0 < unat sz"
  shows "unat (SizeToSecondIndex sz (SizeToMemoryClass sz)) = second_of (unat sz)"
proof (cases "unat sz \<le> 256")
  case True
  then have mc: "SizeToMemoryClass sz = 0"
    using unat_SizeToMemoryClass [of sz] by (simp add: class_of_def unat_eq_0)
  have "unat ((sz - 1) div 8) = (unat sz - 1) div 8"
    using assms by (simp add: unat_div unat_sub_le)
  moreover have "(unat sz - 1) div 8 < 2 ^ 16" using True by simp
  ultimately show ?thesis
    using True mc by (simp add: SizeToSecondIndex_def second_of_def unsigned_ucast_eq take_bit_nat_eq_self)
next
  case False
  let ?n = "unat sz"
  have n: "256 < ?n" using False by simp
  have mc: "unat (SizeToMemoryClass sz) = top_bit ?n - 7" "SizeToMemoryClass sz \<noteq> 0"
    using unat_SizeToMemoryClass [of sz] n top_bit_ge_8 [OF n] by (auto simp: class_of_def)
  have sh: "unat (SizeToMemoryClass sz) + 7 - 5 = top_bit ?n - 5" using mc(1) top_bit_ge_8 [OF n] by simp
  have d: "unat (drop_bit (top_bit ?n - 5) sz) = ?n div 2 ^ (top_bit ?n - 5)"
    by (simp only: unat_drop_bit)
  note lead = leading_digits_bounds [OF n]
  have "unat (drop_bit (top_bit ?n - 5) sz XOR 32) = ?n div 2 ^ (top_bit ?n - 5) - 32"
    using lead by (simp add: xor_32_small d)
  then show ?thesis
    using n mc(2) lead sh
    by (simp add: SizeToSecondIndex_def second_of_def tlsf_constants unsigned_ucast_eq take_bit_nat_eq_self)
qed

lemma unat_GetListIndex2:
  assumes "unat mc \<le> 57" and "unat si < 32"
  shows "unat (GetListIndex2 mc si) = unat mc * 32 + unat si"
proof (cases "mc = 0")
  case True
  then show ?thesis by (simp add: GetListIndex2_def unat_ucast_widen)
next
  case False
  have u: "unat (ucast mc :: size_t) = unat mc" "unat (ucast si :: size_t) = unat si"
    by (simp_all add: unat_ucast_widen)
  have pos: "0 < unat mc" using False by (simp add: unat_gt_0)
  have 1: "unat (ucast mc - 1 :: size_t) = unat mc - 1" using u(1) pos by (simp add: unat_sub_le)
  have 2: "unat ((ucast mc - 1) * 32 :: size_t) = (unat mc - 1) * 32"
    using 1 assms by (subst unat_mult_small) simp_all
  have 3: "unat ((ucast mc - 1) * 32 + ucast si :: size_t) = (unat mc - 1) * 32 + unat si"
    using 2 u(2) assms by (subst unat_add_small) simp_all
  have "unat ((ucast mc - 1) * 32 + ucast si + 32 :: size_t) = (unat mc - 1) * 32 + unat si + 32"
    using 3 assms by (subst unat_add_small) simp_all
  then show ?thesis using False pos by (simp add: GetListIndex2_def tlsf_constants Let_def)
qed

lemma unat_GetListIndex:
  assumes "0 < unat sz"
  shows "unat (GetListIndex sz) = list_index (unat sz)"
proof -
  have "unat sz < 2 ^ 64" using unsigned_less [of sz] by simp
  then have "unat (SizeToMemoryClass sz) \<le> 57"
    unfolding unat_SizeToMemoryClass using class_of_le by fastforce
  then show ?thesis
    using second_of_less [of "unat sz"]
    by (simp add: GetListIndex_def Let_def unat_GetListIndex2 unat_SizeToMemoryClass
      unat_SizeToSecondIndex [OF assms] list_index_def)
qed

text \<open>The length of the list array of a heap of \<open>heapsize\<close> bytes (\<^verbatim>\<open>TlsfHeap::create\<close>).\<close>

definition free_list_count :: "size_t \<Rightarrow> size_t" where
  "free_list_count heapsize =
     GetFreeListSize (SizeToMemoryClass heapsize) (SizeToSecondIndex heapsize (SizeToMemoryClass heapsize))"

lemma unat_free_list_count:
  assumes "256 < unat heapsize"
  shows "unat (free_list_count heapsize) = Suc (list_index (unat heapsize))"
proof -
  let ?mc = "SizeToMemoryClass heapsize" and ?si = "SizeToSecondIndex heapsize (SizeToMemoryClass heapsize)"
  have "unat ?mc = top_bit (unat heapsize) - 7"
    using assms by (simp add: unat_SizeToMemoryClass class_of_def)
  then have mc: "?mc \<noteq> 0" using top_bit_ge_8 [OF assms] by auto
  have g: "GetFreeListSize ?mc ?si = GetListIndex heapsize + 1"
    using mc by (simp add: GetFreeListSize_def GetListIndex_def GetListIndex2_def Let_def)
  have i: "unat (GetListIndex heapsize) = list_index (unat heapsize)"
    using assms by (intro unat_GetListIndex) simp
  have "unat heapsize < 2 ^ 64" using unsigned_less [of heapsize] by simp
  then have "list_index (unat heapsize) < 57 * 32"
    using class_of_le [of "unat heapsize"] second_of_less [of "unat heapsize"] unfolding list_index_def by linarith
  then show ?thesis using i by (simp add: free_list_count_def g unat_add_small)
qed

text \<open>
  C38. Larger sizes never belong to an earlier free list, so every block of a list after the one
  of the requested size is large enough for the request.
\<close>

theorem GetListIndex_good_fit:
  assumes "sz \<noteq> 0" and "GetListIndex sz < GetListIndex blk" and "blk \<noteq> 0"
  shows "sz < blk"
proof -
  have "0 < unat sz" "0 < unat blk" using assms(1,3) by (simp_all add: unat_gt_0)
  then show ?thesis
    using assms(2) list_index_less_imp [of "unat blk" "unat sz"]
    by (simp add: word_less_nat_alt unat_GetListIndex)
qed

theorem GetListIndex_good_fit_witness: "GetListIndex 0x100 < GetListIndex 0x200 \<and> (0x100 :: size_t) < 0x200"
proof
  show lists: "GetListIndex 0x100 < GetListIndex 0x200"
    by (simp add: word_less_nat_alt unat_GetListIndex list_index_def class_of_def second_of_def
      top_bit_def bit_width.simps)
  show "(0x100 :: size_t) < 0x200" by (rule GetListIndex_good_fit [OF _ lists]) simp_all
qed

text \<open>
  In a heap of more than 256 bytes the array of free lists has an entry for the list of
  every block that fits in the heap.
\<close>

lemma free_list_count_covers:
  assumes "256 < heapsize" and "sz \<noteq> 0" and "sz \<le> heapsize"
  shows "GetListIndex sz < free_list_count heapsize"
proof -
  have n: "256 < unat heapsize" using assms(1) by (simp add: word_less_nat_alt)
  have s: "0 < unat sz" "unat sz \<le> unat heapsize" using assms(2,3) by (simp_all add: unat_gt_0 word_le_nat_alt)
  show ?thesis
    using list_index_mono [OF s]
    by (simp add: word_less_nat_alt unat_GetListIndex [OF s(1)] unat_free_list_count [OF n])
qed

text \<open>
  The size that starts the second search of the best-fit allocation is in the list right
  after the requested one for requests of at most 256 bytes; for larger requests it is smaller
  than the request itself.
\<close>

lemma GetNextBlockSize_exact:
  assumes "sz \<noteq> 0"
  shows "(sz \<le> 256 \<longrightarrow> GetListIndex (GetNextBlockSize sz) = GetListIndex sz + 1)
    \<and> (256 < sz \<longrightarrow> GetNextBlockSize sz < sz)"
proof (intro conjI impI)
  assume small: "sz \<le> 256"
  have n: "0 < unat sz" "unat sz \<le> 256" using assms small by (simp_all add: unat_gt_0 word_le_nat_alt)
  show "GetListIndex (GetNextBlockSize sz) = GetListIndex sz + 1"
  proof (rule word_eqI_unat)
    have i: "unat (GetListIndex sz) = (unat sz - 1) div 8"
      using n by (simp add: unat_GetListIndex list_index_def class_of_def second_of_def)
    have r: "unat (GetListIndex sz + 1) = (unat sz - 1) div 8 + 1"
      using i n by (simp add: unat_add_small)
    show "unat (GetListIndex (GetNextBlockSize sz)) = unat (GetListIndex sz + 1)"
    proof (cases "unat sz \<le> 248")
      case True
      have "GetNextBlockSize sz = sz + 8"
        using n True by (simp add: GetNextBlockSize_def tlsf_constants word_less_nat_alt)
      moreover have "unat (sz + 8) = unat sz + 8" using n by (simp add: unat_add_small)
      ultimately show ?thesis
        using r True n by (simp add: unat_GetListIndex list_index_def class_of_def second_of_def)
    next
      case False
      then have "GetNextBlockSize sz = 257"
        using n by (simp add: GetNextBlockSize_def tlsf_constants word_less_nat_alt)
      moreover have "(unat sz - 1) div 8 = 31" using False n by (intro div_nat_eqI) simp_all
      ultimately show ?thesis
        using r by (simp add: unat_GetListIndex list_index_def class_of_def second_of_def
          top_bit_def bit_width.simps)
    qed
  qed
next
  assume big: "256 < sz"
  then have n: "256 < unat sz" by (simp add: word_less_nat_alt)
  then have "unat (BitScanLeading sz) = top_bit (unat sz)"
    using assms by (simp add: unat_BitScanLeading_size)
  moreover have "unat sz < 2 ^ 64" using unsigned_less [of sz] by simp
  ultimately have "unat (GetNextBlockSize sz) = 2 ^ (top_bit (unat sz) - 5)"
    using big top_bit_le_63 [of "unat sz"] unat_power2_small [of "top_bit (unat sz) - 5", where 'a = 64]
    by (simp add: GetNextBlockSize_def tlsf_constants)
  moreover have "(2::nat) ^ (top_bit (unat sz) - 5) < 2 ^ top_bit (unat sz)"
    using top_bit_ge_8 [OF n] by (intro power_strict_increasing) simp_all
  moreover have "2 ^ top_bit (unat sz) \<le> unat sz" using top_bit_bounds [of "unat sz"] n by simp
  ultimately show "GetNextBlockSize sz < sz" unfolding word_less_nat_alt by linarith
qed

end
