(* ===== verification/TlsfHeap.thy ===== *)
theory TlsfHeap
  imports Range Pool TlsfIndex
begin

text \<open>
  The two-level segregated-fit heap: \<^verbatim>\<open>TlsfBlock\<close>, \<^verbatim>\<open>TlsfBlockList\<close> and
  \<^verbatim>\<open>TlsfAllocation\<close> of \<^verbatim>\<open>kernel/include/memory/detail/tlsf.hpp\<close> and \<^verbatim>\<open>TlsfHeap\<close> of
  \<^verbatim>\<open>kernel/src/memory/heap.cpp\<close>, operation by operation.

  The heap manages a span of addresses it never touches; its control blocks come from a pool.
  They are kept in an explicit store \<open>blocks\<close> from slot addresses to block records, so that
  the aliasing of the doubly linked lists is the source's: the blocks in address order are linked by
  \<open>blk_prev\<close> and \<open>blk_next\<close>, the free blocks of one size class by \<open>blk_prevFree\<close> and
  \<open>blk_nextFree\<close>, and a block is in use when its \<open>blk_prevFree\<close> is its own address.
  Dereferencing a null pointer or the address of a destroyed block, indexing past an array, a
  shift by the width of the operand or more and a failed check all give \<open>None\<close>.
\<close>

section \<open>Blocks and heaps\<close>

record tlsf_block =
  blk_offset :: size_t
  blk_size :: size_t
  blk_prev :: "ptr option"
  blk_next :: "ptr option"
  blk_nextFree :: "ptr option"
  blk_prevFree :: "ptr option"

text \<open>The value-initialised block.\<close>

definition zero_block :: tlsf_block where
  "zero_block = \<lparr>blk_offset = 0, blk_size = 0, blk_prev = None, blk_next = None,
                 blk_nextFree = None, blk_prevFree = None\<rparr>"

definition isFree :: "ptr \<Rightarrow> tlsf_block \<Rightarrow> bool" where
  "isFree this b \<longleftrightarrow> blk_prevFree b \<noteq> Some this"

definition isUsed :: "ptr \<Rightarrow> tlsf_block \<Rightarrow> bool" where
  "isUsed this b \<longleftrightarrow> blk_prevFree b = Some this"

record tlsf_heap =
  mSize :: size_t
  mReserved :: size_t
  mMallocCount :: size_t
  mFreeCount :: size_t
  mBlockPool :: pool
  mNullBlock :: ptr
  mFreeListCount :: size_t
  mFreeList :: "ptr option list"
  mInnerFreeMap :: "u32 list"
  mTopLevelFreeMap :: u32
  blocks :: "ptr \<rightharpoonup> tlsf_block"

section \<open>Memory primitives\<close>

definition upd_block :: "ptr \<Rightarrow> (tlsf_block \<Rightarrow> tlsf_block) \<Rightarrow> tlsf_heap \<Rightarrow> tlsf_heap option" where
  "upd_block p f h = do { b \<leftarrow> blocks h p; Some (h\<lparr>blocks := (blocks h)(p \<mapsto> f b)\<rparr>) }"

definition upd_opt :: "ptr option \<Rightarrow> (tlsf_block \<Rightarrow> tlsf_block) \<Rightarrow> tlsf_heap \<Rightarrow> tlsf_heap option" where
  "upd_opt q f h = (case q of None \<Rightarrow> Some h | Some p \<Rightarrow> upd_block p f h)"

definition get_list :: "tlsf_heap \<Rightarrow> size_t \<Rightarrow> ptr option option" where
  "get_list h i = (if unat i < length (mFreeList h) then Some (mFreeList h ! unat i) else None)"

definition set_list :: "size_t \<Rightarrow> ptr option \<Rightarrow> tlsf_heap \<Rightarrow> tlsf_heap option" where
  "set_list i v h =
     (if unat i < length (mFreeList h) then Some (h\<lparr>mFreeList := (mFreeList h)[unat i := v]\<rparr>)
      else None)"

definition get_inner :: "tlsf_heap \<Rightarrow> u8 \<Rightarrow> u32 option" where
  "get_inner h mc =
     (if unat mc < length (mInnerFreeMap h) then Some (mInnerFreeMap h ! unat mc) else None)"

definition set_inner :: "u8 \<Rightarrow> u32 \<Rightarrow> tlsf_heap \<Rightarrow> tlsf_heap option" where
  "set_inner mc v h =
     (if unat mc < length (mInnerFreeMap h)
      then Some (h\<lparr>mInnerFreeMap := (mInnerFreeMap h)[unat mc := v]\<rparr>) else None)"

text \<open>A left shift of a 32-bit operand, undefined from 32 on.\<close>

definition shl32 :: "u32 \<Rightarrow> nat \<Rightarrow> u32 option" where
  "shl32 x n = (if n < 32 then Some (push_bit n x) else None)"

section \<open>Member functions of a block\<close>

definition markTaken :: "ptr \<Rightarrow> tlsf_heap \<Rightarrow> tlsf_heap option" where
  "markTaken p h = upd_block p (\<lambda>b. b\<lparr>blk_prevFree := Some p\<rparr>) h"

definition markFree :: "ptr \<Rightarrow> tlsf_heap \<Rightarrow> tlsf_heap option" where
  "markFree p h = upd_block p (\<lambda>b. b\<lparr>blk_prevFree := None\<rparr>) h"

text \<open>\<^verbatim>\<open>propNextFree\<close> as a read and as an assignment; both assert that the block is free.\<close>

definition propNextFree :: "tlsf_heap \<Rightarrow> ptr \<Rightarrow> ptr option option" where
  "propNextFree h p =
     do { b \<leftarrow> blocks h p; _ \<leftarrow> KM_CHECK (isFree p b); Some (blk_nextFree b) }"

definition set_propNextFree :: "ptr \<Rightarrow> ptr option \<Rightarrow> tlsf_heap \<Rightarrow> tlsf_heap option" where
  "set_propNextFree p v h =
     do { b \<leftarrow> blocks h p; _ \<leftarrow> KM_CHECK (isFree p b);
          upd_block p (\<lambda>b. b\<lparr>blk_nextFree := v\<rparr>) h }"

section \<open>The block pool of a heap\<close>

definition construct :: "tlsf_block \<Rightarrow> tlsf_heap \<Rightarrow> ptr option \<times> tlsf_heap" where
  "construct b h =
     (case allocate (mBlockPool h) of
        (Some q, p) \<Rightarrow> (Some q, h\<lparr>mBlockPool := p, blocks := (blocks h)(q \<mapsto> b)\<rparr>)
      | (None, p) \<Rightarrow> (None, h\<lparr>mBlockPool := p\<rparr>))"

definition destroy :: "ptr \<Rightarrow> tlsf_heap \<Rightarrow> tlsf_heap option" where
  "destroy q h =
     do { p \<leftarrow> release (mBlockPool h) q;
          Some (h\<lparr>mBlockPool := p, blocks := (blocks h)(q := None)\<rparr>) }"

text \<open>
  \<^verbatim>\<open>BlockBuffer<2>\<close>: blocks reserved in advance, taken from the back, and given back by the
  destructor when they were not taken.
\<close>

fun destroy_all :: "ptr list \<Rightarrow> tlsf_heap \<Rightarrow> tlsf_heap option" where
  "destroy_all [] h = Some h"
| "destroy_all (q # qs) h = do { h1 \<leftarrow> destroy q h; destroy_all qs h1 }"

fun buffer_reserve :: "nat \<Rightarrow> ptr list \<Rightarrow> tlsf_heap \<Rightarrow> (bool \<times> ptr list \<times> tlsf_heap) option" where
  "buffer_reserve 0 buf h = Some (True, buf, h)"
| "buffer_reserve (Suc n) buf h =
     do { _ \<leftarrow> KM_CHECK (length buf \<noteq> 2);
          (case construct zero_block h of
             (Some q, h1) \<Rightarrow> buffer_reserve n (buf @ [q]) h1
           | (None, h1) \<Rightarrow> Some (False, buf, h1)) }"

definition buffer_take :: "tlsf_block \<Rightarrow> ptr list \<Rightarrow> tlsf_heap \<Rightarrow> (ptr \<times> ptr list \<times> tlsf_heap) option" where
  "buffer_take init buf h =
     do { _ \<leftarrow> KM_CHECK (buf \<noteq> []);
          h1 \<leftarrow> upd_block (last buf) (\<lambda>_. init) h;
          Some (last buf, butlast buf, h1) }"

text \<open>The constructor of \<^verbatim>\<open>TlsfAllocation\<close>: an allocation handle is the address of a used block.\<close>

definition make_allocation :: "tlsf_heap \<Rightarrow> ptr \<Rightarrow> ptr option" where
  "make_allocation h p = do { b \<leftarrow> blocks h p; _ \<leftarrow> KM_CHECK (\<not> isFree p b); Some p }"

definition allocation_range :: "tlsf_heap \<Rightarrow> ptr \<Rightarrow> range option" where
  "allocation_range h p = do { b \<leftarrow> blocks h p; Some (range_of (blk_offset b) (blk_size b)) }"

section \<open>Free lists\<close>

definition findFreeBlock :: "tlsf_heap \<Rightarrow> size_t \<Rightarrow> (ptr option \<times> size_t) option" where
  "findFreeBlock h sz =
     do { _ \<leftarrow> KM_CHECK (sz > 0);
          let memoryClass = SizeToMemoryClass sz;
          let secondIndex = SizeToSecondIndex sz memoryClass;
          if unat memoryClass > 32 then Some (None, 0)
          else do {
            inner \<leftarrow> get_inner h memoryClass;
            msk \<leftarrow> shl32 (NOT 0) (unat secondIndex);
            let innerFreeMap = inner AND msk;
            if innerFreeMap = 0 then do {
              topmsk \<leftarrow> shl32 (NOT 0) (unat memoryClass + 1);
              let freeMap = mTopLevelFreeMap h AND topmsk;
              if freeMap = 0 then Some (None, 0)
              else do {
                let memoryClass = BitScanTrailing freeMap;
                innerFreeMap \<leftarrow> get_inner h memoryClass;
                _ \<leftarrow> KM_CHECK (innerFreeMap \<noteq> 0);
                let index = GetListIndex2 memoryClass (ucast (BitScanTrailing innerFreeMap));
                blk \<leftarrow> get_list h index;
                Some (blk, index) } }
            else do {
              let index = GetListIndex2 memoryClass (ucast (BitScanTrailing innerFreeMap));
              blk \<leftarrow> get_list h index;
              Some (blk, index) } } }"

definition takeBlockFromFreeList :: "ptr \<Rightarrow> tlsf_heap \<Rightarrow> tlsf_heap option" where
  "takeBlockFromFreeList block h =
     do { _ \<leftarrow> KM_CHECK (block \<noteq> mNullBlock h);
          b \<leftarrow> blocks h block;
          _ \<leftarrow> KM_CHECK (isFree block b);
          nf \<leftarrow> propNextFree h block;
          h \<leftarrow> upd_opt nf (\<lambda>n. n\<lparr>blk_prevFree := blk_prevFree b\<rparr>) h;
          b \<leftarrow> blocks h block;
          h \<leftarrow> (case blk_prevFree b of
                 Some q \<Rightarrow> do { nf \<leftarrow> propNextFree h block; set_propNextFree q nf h }
               | None \<Rightarrow> do {
                   let memoryClass = SizeToMemoryClass (blk_size b);
                   let secondIndex = SizeToSecondIndex (blk_size b) memoryClass;
                   let listIndex = GetListIndex2 memoryClass secondIndex;
                   nf \<leftarrow> propNextFree h block;
                   h \<leftarrow> set_list listIndex nf h;
                   nf \<leftarrow> propNextFree h block;
                   if nf = None then do {
                     bit2 \<leftarrow> shl32 1 (unat secondIndex);
                     inner \<leftarrow> get_inner h memoryClass;
                     h \<leftarrow> set_inner memoryClass (inner AND NOT bit2) h;
                     inner \<leftarrow> get_inner h memoryClass;
                     if inner = 0 then do {
                       bit1 \<leftarrow> shl32 1 (unat memoryClass);
                       Some (h\<lparr>mTopLevelFreeMap := mTopLevelFreeMap h AND NOT bit1\<rparr>) }
                     else Some h }
                   else Some h });
          markTaken block h }"

definition releaseBlockToFreeList :: "ptr \<Rightarrow> tlsf_heap \<Rightarrow> tlsf_heap option" where
  "releaseBlockToFreeList block h =
     do { _ \<leftarrow> KM_CHECK (block \<noteq> mNullBlock h);
          b \<leftarrow> blocks h block;
          _ \<leftarrow> KM_CHECK (\<not> isFree block b);
          let memoryClass = SizeToMemoryClass (blk_size b);
          let secondIndex = SizeToSecondIndex (blk_size b) memoryClass;
          let listIndex = GetListIndex2 memoryClass secondIndex;
          h \<leftarrow> markFree block h;
          head \<leftarrow> get_list h listIndex;
          h \<leftarrow> set_propNextFree block head h;
          h \<leftarrow> set_list listIndex (Some block) h;
          nf \<leftarrow> propNextFree h block;
          (case nf of
             Some n \<Rightarrow> upd_block n (\<lambda>n. n\<lparr>blk_prevFree := Some block\<rparr>) h
           | None \<Rightarrow> do {
               bit2 \<leftarrow> shl32 1 (unat secondIndex);
               inner \<leftarrow> get_inner h memoryClass;
               h \<leftarrow> set_inner memoryClass (inner OR bit2) h;
               bit1 \<leftarrow> shl32 1 (unat memoryClass);
               Some (h\<lparr>mTopLevelFreeMap := mTopLevelFreeMap h OR bit1\<rparr>) }) }"

definition detachBlock :: "ptr \<Rightarrow> size_t \<Rightarrow> tlsf_heap \<Rightarrow> tlsf_heap option" where
  "detachBlock block listIndex h =
     do { b \<leftarrow> blocks h block;
          (case (listIndex \<noteq> mFreeListCount h, blk_prevFree b) of
             (True, Some q) \<Rightarrow> do {
               nf \<leftarrow> propNextFree h block;
               h \<leftarrow> set_propNextFree q nf h;
               nf \<leftarrow> propNextFree h block;
               b \<leftarrow> blocks h block;
               h \<leftarrow> upd_opt nf (\<lambda>n. n\<lparr>blk_prevFree := blk_prevFree b\<rparr>) h;
               h \<leftarrow> upd_block block (\<lambda>b. b\<lparr>blk_prevFree := None\<rparr>) h;
               head \<leftarrow> get_list h listIndex;
               h \<leftarrow> set_propNextFree block head h;
               h \<leftarrow> set_list listIndex (Some block) h;
               nf \<leftarrow> propNextFree h block;
               upd_opt nf (\<lambda>n. n\<lparr>blk_prevFree := Some block\<rparr>) h }
           | _ \<Rightarrow> Some h) }"

section \<open>Merging and resizing blocks\<close>

definition mergeBlock :: "ptr \<Rightarrow> ptr \<Rightarrow> tlsf_heap \<Rightarrow> tlsf_heap option" where
  "mergeBlock block prv h =
     do { b \<leftarrow> blocks h block;
          _ \<leftarrow> KM_CHECK (blk_prev b = Some prv);
          pb \<leftarrow> blocks h prv;
          _ \<leftarrow> KM_CHECK (\<not> isFree prv pb);
          h \<leftarrow> upd_block block
                (\<lambda>b. b\<lparr>blk_offset := blk_offset pb, blk_size := blk_size b + blk_size pb,
                       blk_prev := blk_prev pb\<rparr>) h;
          h \<leftarrow> upd_opt (blk_prev pb) (\<lambda>x. x\<lparr>blk_next := Some block\<rparr>) h;
          destroy prv h }"

definition resizeBlock :: "ptr \<Rightarrow> size_t \<Rightarrow> tlsf_heap \<Rightarrow> tlsf_heap option" where
  "resizeBlock block newSize h =
     do { _ \<leftarrow> KM_CHECK (block \<noteq> mNullBlock h);
          b \<leftarrow> blocks h block;
          let oldListIndex = GetListIndex (blk_size b);
          let newListIndex = GetListIndex newSize;
          if oldListIndex \<noteq> newListIndex then do {
            h \<leftarrow> takeBlockFromFreeList block h;
            h \<leftarrow> upd_block block (\<lambda>b. b\<lparr>blk_size := newSize\<rparr>) h;
            releaseBlockToFreeList block h }
          else Some h }"

section \<open>Allocation\<close>

text \<open>
  \<^verbatim>\<open>reserveBlock\<close>: \<open>Some (None, h)\<close> is the result \<^verbatim>\<open>false\<close>, \<open>Some (Some a, h)\<close> is
  \<^verbatim>\<open>true\<close> with the allocation \<open>a\<close>.
\<close>

definition reserveBlock ::
  "ptr \<Rightarrow> size_t \<Rightarrow> size_t \<Rightarrow> size_t \<Rightarrow> tlsf_heap \<Rightarrow> (ptr option \<times> tlsf_heap) option" where
  "reserveBlock block sz alignedOffset listIndex h =
     do { b \<leftarrow> blocks h block;
          let missingAlignment = alignedOffset - blk_offset b;
          (need, innerSize) \<leftarrow>
            (if missingAlignment > 0 then do {
               prv \<leftarrow> blk_prev b;
               pb \<leftarrow> blocks h prv;
               Some (if \<not> isFree prv pb then 1 else 0, blk_size b - missingAlignment) }
             else Some (0, blk_size b));
          let requiredBlocks =
            (if \<not> (innerSize = sz \<and> block \<noteq> mNullBlock h) then need + 1 else need);
          (ok, buf, h) \<leftarrow> buffer_reserve requiredBlocks [] h;
          if \<not> ok then do { h \<leftarrow> destroy_all buf h; Some (None, h) }
          else do {
            h \<leftarrow> detachBlock block listIndex h;
            h \<leftarrow> (if block \<noteq> mNullBlock h then takeBlockFromFreeList block h else Some h);
            (buf, h) \<leftarrow>
              (if missingAlignment > 0 then do {
                 b \<leftarrow> blocks h block;
                 prv \<leftarrow> blk_prev b;
                 pb \<leftarrow> blocks h prv;
                 (buf, h) \<leftarrow>
                   (if isFree prv pb then do {
                      h \<leftarrow> resizeBlock prv (blk_size pb + missingAlignment) h;
                      Some (buf, h) }
                    else do {
                      (newBlk, buf, h) \<leftarrow> buffer_take
                        (zero_block\<lparr>blk_offset := blk_offset b, blk_size := missingAlignment,
                                    blk_prev := Some prv, blk_next := Some block\<rparr>) buf h;
                      h \<leftarrow> upd_block block (\<lambda>b. b\<lparr>blk_prev := Some newBlk\<rparr>) h;
                      h \<leftarrow> upd_block prv (\<lambda>b. b\<lparr>blk_next := Some newBlk\<rparr>) h;
                      h \<leftarrow> markTaken newBlk h;
                      h \<leftarrow> releaseBlockToFreeList newBlk h;
                      Some (buf, h) });
                 h \<leftarrow> upd_block block
                       (\<lambda>b. b\<lparr>blk_size := blk_size b - missingAlignment,
                              blk_offset := blk_offset b + missingAlignment\<rparr>) h;
                 Some (buf, h) }
               else Some (buf, h));
            b \<leftarrow> blocks h block;
            (buf, h) \<leftarrow>
              (if blk_size b = sz then
                 if block = mNullBlock h then do {
                   (newNull, buf, h) \<leftarrow> buffer_take
                     (zero_block\<lparr>blk_offset := blk_offset b + sz, blk_prev := Some block\<rparr>) buf h;
                   h \<leftarrow> upd_block block (\<lambda>b. b\<lparr>blk_next := Some newNull\<rparr>)
                         (h\<lparr>mNullBlock := newNull\<rparr>);
                   h \<leftarrow> markTaken block h;
                   Some (buf, h) }
                 else Some (buf, h)
               else do {
                 _ \<leftarrow> KM_CHECK (blk_size b > sz);
                 (newBlk, buf, h) \<leftarrow> buffer_take
                   (zero_block\<lparr>blk_offset := blk_offset b + sz, blk_size := blk_size b - sz,
                               blk_prev := Some block, blk_next := blk_next b\<rparr>) buf h;
                 h \<leftarrow> upd_block block (\<lambda>b. b\<lparr>blk_next := Some newBlk, blk_size := sz\<rparr>) h;
                 if block = mNullBlock h then do {
                   h \<leftarrow> markTaken block (h\<lparr>mNullBlock := newBlk\<rparr>);
                   Some (buf, h) }
                 else do {
                   nx \<leftarrow> blk_next b;
                   h \<leftarrow> upd_block nx (\<lambda>x. x\<lparr>blk_prev := Some newBlk\<rparr>) h;
                   h \<leftarrow> markTaken newBlk h;
                   h \<leftarrow> releaseBlockToFreeList newBlk h;
                   Some (buf, h) } });
            b \<leftarrow> blocks h block;
            _ \<leftarrow> KM_CHECK (\<not> isFree block b);
            a \<leftarrow> make_allocation h block;
            h \<leftarrow> destroy_all buf h;
            Some (Some a, h) } }"

text \<open>\<^verbatim>\<open>checkBlock\<close>; an alignment of zero divides by zero in \<^verbatim>\<open>sm::roundup\<close>.\<close>

definition checkBlock ::
  "ptr \<Rightarrow> size_t \<Rightarrow> size_t \<Rightarrow> size_t \<Rightarrow> tlsf_heap \<Rightarrow> (ptr option \<times> tlsf_heap) option" where
  "checkBlock block listIndex sz align h =
     do { b \<leftarrow> blocks h block;
          _ \<leftarrow> KM_CHECK (isFree block b);
          if align = 0 then None
          else do {
            let alignedOffset = roundup (blk_offset b) align;
            if blk_size b < sz + alignedOffset - blk_offset b then Some (None, h)
            else reserveBlock block sz alignedOffset listIndex h } }"

text \<open>The search of one free list in \<^verbatim>\<open>allocBestFit\<close>.\<close>

partial_function (option) search_list ::
  "ptr option \<Rightarrow> size_t \<Rightarrow> size_t \<Rightarrow> size_t \<Rightarrow> tlsf_heap \<Rightarrow> (ptr option \<times> tlsf_heap) option" where
  "search_list listBlock index sz align h =
     (case listBlock of
        None \<Rightarrow> Some (None, h)
      | Some block \<Rightarrow>
          Option.bind (checkBlock block index sz align h) (\<lambda>(r, h).
            case r of
              Some a \<Rightarrow> Some (Some a, h)
            | None \<Rightarrow> Option.bind (propNextFree h block) (\<lambda>nf. search_list nf index sz align h)))"

definition allocBestFit :: "size_t \<Rightarrow> size_t \<Rightarrow> tlsf_heap \<Rightarrow> (ptr option \<times> tlsf_heap) option" where
  "allocBestFit align sz h =
     do { (listBlock, index) \<leftarrow> findFreeBlock h sz;
          (r, h) \<leftarrow> search_list listBlock index sz align h;
          if r \<noteq> None then Some (r, h)
          else do {
            (r, h) \<leftarrow> checkBlock (mNullBlock h) (mFreeListCount h) sz align h;
            if r \<noteq> None then Some (r, h)
            else do {
              (listBlock, index) \<leftarrow> findFreeBlock h (GetNextBlockSize sz);
              search_list listBlock index sz align h } } }"

definition aligned_alloc :: "size_t \<Rightarrow> size_t \<Rightarrow> tlsf_heap \<Rightarrow> (ptr option \<times> tlsf_heap) option" where
  "aligned_alloc align sz h =
     do { (r, h) \<leftarrow> allocBestFit align sz h;
          Some (r, if r \<noteq> None then h\<lparr>mMallocCount := mMallocCount h + 1\<rparr> else h) }"

text \<open>\<^verbatim>\<open>alignof(std::max_align_t)\<close> is 16 on the x86-64 target.\<close>

definition max_align :: size_t where "max_align = 16"

definition malloc :: "size_t \<Rightarrow> tlsf_heap \<Rightarrow> (ptr option \<times> tlsf_heap) option" where
  "malloc sz h = aligned_alloc max_align sz h"

section \<open>Freeing\<close>

definition free :: "ptr option \<Rightarrow> tlsf_heap \<Rightarrow> tlsf_heap option" where
  "free address h =
     do { block \<leftarrow> address;
          b \<leftarrow> blocks h block;
          _ \<leftarrow> KM_CHECK (\<not> isFree block b);
          let prv = blk_prev b;
          let nxt = blk_next b;
          h \<leftarrow> (case prv of
                 None \<Rightarrow> Some h
               | Some q \<Rightarrow> do {
                   qb \<leftarrow> blocks h q;
                   if isFree q qb then do {
                     h \<leftarrow> takeBlockFromFreeList q h;
                     mergeBlock block q h }
                   else Some h });
          n \<leftarrow> nxt;
          nb \<leftarrow> blocks h n;
          h \<leftarrow> (if \<not> isFree n nb then releaseBlockToFreeList block h
                else if n = mNullBlock h then mergeBlock (mNullBlock h) block h
                else do {
                  h \<leftarrow> takeBlockFromFreeList n h;
                  h \<leftarrow> mergeBlock n block h;
                  releaseBlockToFreeList n h });
          Some (h\<lparr>mFreeCount := mFreeCount h + 1\<rparr>) }"

text \<open>The walk from the last block to the first, looking for a block that starts at an address.\<close>

partial_function (option) find_walk :: "tlsf_heap \<Rightarrow> size_t \<Rightarrow> ptr option \<Rightarrow> ptr option option" where
  "find_walk h address block =
     (case block of
        None \<Rightarrow> Some None
      | Some p \<Rightarrow>
          Option.bind (blocks h p) (\<lambda>b.
            if blk_offset b = address then Some (Some p)
            else find_walk h address (blk_prev b)))"

definition findAllocation :: "tlsf_heap \<Rightarrow> size_t \<Rightarrow> (OsStatus \<times> ptr option) option" where
  "findAllocation h address =
     do { r \<leftarrow> find_walk h address (Some (mNullBlock h));
          (case r of
             None \<Rightarrow> Some (OsStatusNotFound, None)
           | Some p \<Rightarrow> do { a \<leftarrow> make_allocation h p; Some (OsStatusSuccess, Some a) }) }"

definition freeAddress :: "size_t \<Rightarrow> tlsf_heap \<Rightarrow> tlsf_heap option" where
  "freeAddress address h =
     do { (status, a) \<leftarrow> findAllocation h address;
          _ \<leftarrow> KM_CHECK (status = OsStatusSuccess);
          free a h }"

section \<open>Splitting, growing and shrinking\<close>

definition splitBlock :: "ptr \<Rightarrow> size_t \<Rightarrow> ptr \<Rightarrow> tlsf_heap \<Rightarrow> (ptr \<times> ptr \<times> tlsf_heap) option" where
  "splitBlock block midpoint newBlk h =
     do { b \<leftarrow> blocks h block;
          let base = blk_offset b;
          let sz = midpoint - base;
          let extraSize = blk_size b - sz;
          _ \<leftarrow> KM_CHECK (sz > 0);
          _ \<leftarrow> KM_CHECK (extraSize > 0);
          h \<leftarrow> upd_block newBlk (\<lambda>_. zero_block\<lparr>blk_offset := midpoint, blk_size := extraSize,
                                     blk_prev := Some block, blk_next := blk_next b\<rparr>) h;
          h \<leftarrow> upd_block block (\<lambda>b. b\<lparr>blk_size := sz, blk_next := Some newBlk\<rparr>) h;
          nb \<leftarrow> blocks h newBlk;
          nx \<leftarrow> blk_next nb;
          h \<leftarrow> upd_block nx (\<lambda>x. x\<lparr>blk_prev := Some newBlk\<rparr>) h;
          h \<leftarrow> markTaken newBlk h;
          lo \<leftarrow> make_allocation h block;
          hi \<leftarrow> make_allocation h newBlk;
          Some (lo, hi, h) }"

definition split ::
  "ptr option \<Rightarrow> size_t \<Rightarrow> tlsf_heap \<Rightarrow> (OsStatus \<times> (ptr \<times> ptr) option \<times> tlsf_heap) option" where
  "split ptr midpoint h =
     do { block \<leftarrow> ptr;
          _ \<leftarrow> KM_CHECK (block \<noteq> mNullBlock h);
          b \<leftarrow> blocks h block;
          _ \<leftarrow> KM_CHECK (\<not> isFree block b);
          let base = blk_offset b;
          let fin = blk_offset b + blk_size b;
          if midpoint < base \<or> fin \<le> midpoint then Some (OsStatusInvalidInput, None, h)
          else do {
            let sz = midpoint - base;
            if sz = blk_size b \<or> sz > blk_size b \<or> sz = 0 then Some (OsStatusInvalidInput, None, h)
            else case construct zero_block h of
                   (None, h) \<Rightarrow> Some (OsStatusOutOfMemory, None, h)
                 | (Some newBlk, h) \<Rightarrow> do {
                     (lo, hi, h) \<leftarrow> splitBlock block midpoint newBlk h;
                     Some (OsStatusSuccess, Some (lo, hi), h) } } }"

definition shrink ::
  "ptr option \<Rightarrow> size_t \<Rightarrow> tlsf_heap \<Rightarrow> (OsStatus \<times> ptr option \<times> tlsf_heap) option" where
  "shrink ptr sz h =
     do { block \<leftarrow> ptr;
          b \<leftarrow> blocks h block;
          if sz = blk_size b then Some (OsStatusSuccess, ptr, h)
          else if sz > blk_size b then Some (OsStatusInvalidInput, None, h)
          else do {
            (status, r, h) \<leftarrow> split ptr (blk_offset b + sz) h;
            (case r of
               None \<Rightarrow> Some (status, None, h)
             | Some (lo, hi) \<Rightarrow> do {
                 h \<leftarrow> free (Some hi) h;
                 Some (OsStatusSuccess, Some lo, h) }) } }"

definition grow ::
  "ptr option \<Rightarrow> size_t \<Rightarrow> tlsf_heap \<Rightarrow> (OsStatus \<times> ptr option \<times> tlsf_heap) option" where
  "grow ptr sz h =
     do { block \<leftarrow> ptr;
          b \<leftarrow> blocks h block;
          _ \<leftarrow> KM_CHECK (\<not> isFree block b);
          if sz = blk_size b then Some (OsStatusSuccess, ptr, h)
          else if sz < blk_size b then Some (OsStatusInvalidInput, None, h)
          else case blk_next b of
            None \<Rightarrow> Some (OsStatusOutOfMemory, None, h)
          | Some nxt \<Rightarrow> do {
              nb \<leftarrow> blocks h nxt;
              if \<not> isFree nxt nb then Some (OsStatusOutOfMemory, None, h)
              else do {
                let extraSize = sz - blk_size b;
                if blk_size nb \<ge> extraSize then do {
                  h \<leftarrow> upd_block block (\<lambda>b. b\<lparr>blk_size := sz\<rparr>) h;
                  h \<leftarrow> upd_block nxt (\<lambda>x. x\<lparr>blk_offset := blk_offset x + extraSize\<rparr>) h;
                  if blk_size nb = extraSize then do {
                    _ \<leftarrow> KM_CHECK (nxt \<noteq> mNullBlock h);
                    h \<leftarrow> takeBlockFromFreeList nxt h;
                    h \<leftarrow> mergeBlock nxt block h;
                    a \<leftarrow> make_allocation h nxt;
                    Some (OsStatusSuccess, Some a, h) }
                  else do {
                    h \<leftarrow> (if nxt \<noteq> mNullBlock h
                          then resizeBlock nxt (blk_size nb - extraSize) h
                          else upd_block nxt (\<lambda>x. x\<lparr>blk_size := blk_size x - extraSize\<rparr>) h);
                    a \<leftarrow> make_allocation h block;
                    Some (OsStatusSuccess, Some a, h) } }
                else Some (OsStatusOutOfMemory, None, h) } } }"

definition resize ::
  "ptr option \<Rightarrow> size_t \<Rightarrow> tlsf_heap \<Rightarrow> (OsStatus \<times> ptr option \<times> tlsf_heap) option" where
  "resize ptr sz h =
     (if sz = 0 then Some (OsStatusInvalidInput, None, h)
      else do {
        block \<leftarrow> ptr;
        b \<leftarrow> blocks h block;
        if sz = blk_size b then Some (OsStatusSuccess, ptr, h)
        else if sz < blk_size b then shrink ptr sz h
        else grow ptr sz h })"

section \<open>Splitting at many points\<close>

fun is_sorted :: "size_t list \<Rightarrow> bool" where
  "is_sorted (x # y # ps) \<longleftrightarrow> x \<le> y \<and> is_sorted (y # ps)"
| "is_sorted _ \<longleftrightarrow> True"

fun adjacent_find :: "size_t list \<Rightarrow> bool" where
  "adjacent_find (x # y # ps) \<longleftrightarrow> x = y \<or> adjacent_find (y # ps)"
| "adjacent_find _ \<longleftrightarrow> False"

text \<open>A write to a span, undefined past its end.\<close>

definition span_set :: "nat \<Rightarrow> 'a \<Rightarrow> 'a list \<Rightarrow> 'a list option" where
  "span_set i v xs = (if i < length xs then Some (xs[i := v]) else None)"

definition span_get :: "nat \<Rightarrow> 'a list \<Rightarrow> 'a option" where
  "span_get i xs = (if i < length xs then Some (xs ! i) else None)"

text \<open>
  The two loops of \<^verbatim>\<open>splitv\<close>. The result buffer doubles as storage for the new blocks:
  entry \<open>i\<close> for \<open>1 \<le> i \<le> points.size()\<close>. When a block cannot be had, the blocks stored so
  far are destroyed, the latest first.
\<close>

fun destroy_down :: "nat \<Rightarrow> ptr option list \<Rightarrow> tlsf_heap \<Rightarrow> tlsf_heap option" where
  "destroy_down 0 results h = Some h"
| "destroy_down (Suc j) results h =
     (if j = 0 then Some h
      else do { q \<leftarrow> span_get j results;
                h \<leftarrow> (case q of None \<Rightarrow> Some h | Some q \<Rightarrow> destroy q h);
                destroy_down j results h })"

fun splitv_construct ::
  "nat \<Rightarrow> nat \<Rightarrow> ptr option list \<Rightarrow> tlsf_heap \<Rightarrow> (bool \<times> ptr option list \<times> tlsf_heap) option" where
  "splitv_construct 0 i results h = Some (True, results, h)"
| "splitv_construct (Suc n) i results h =
     (case construct zero_block h of
        (None, h) \<Rightarrow> do { h \<leftarrow> destroy_down i results h; Some (False, results, h) }
      | (Some q, h) \<Rightarrow> do {
          results \<leftarrow> span_set i (Some q) results;
          splitv_construct n (i + 1) results h })"

text \<open>The loop over all points but the last; \<open>lo\<close> is the part still to be split.\<close>

fun splitv_loop ::
  "size_t list \<Rightarrow> nat \<Rightarrow> ptr option \<Rightarrow> ptr \<Rightarrow> ptr option list \<Rightarrow> tlsf_heap
     \<Rightarrow> (ptr option \<times> ptr \<times> ptr option list \<times> tlsf_heap) option" where
  "splitv_loop [] i nxt lo results h = Some (nxt, lo, results, h)"
| "splitv_loop (p # ps) i nxt lo results h =
     do { newBlk \<leftarrow> nxt;
          (lo, hi, h) \<leftarrow> splitBlock lo p newBlk h;
          nxt \<leftarrow> span_get (i + 2) results;
          results \<leftarrow> span_set i (Some lo) results;
          splitv_loop ps (i + 1) nxt hi results h }"

definition splitv ::
  "ptr option \<Rightarrow> size_t list \<Rightarrow> ptr option list \<Rightarrow> tlsf_heap
     \<Rightarrow> (OsStatus \<times> ptr option list \<times> tlsf_heap) option" where
  "splitv ptr points results h =
     do { block \<leftarrow> ptr;
          r \<leftarrow> allocation_range h block;
          if points = [] then Some (OsStatusInvalidInput, results, h)
          else if length points \<ge> length results + 1 then Some (OsStatusInvalidInput, results, h)
          else if \<not> is_sorted points then Some (OsStatusInvalidInput, results, h)
          else if adjacent_find points then Some (OsStatusInvalidInput, results, h)
          else if list_ex (\<lambda>p. \<not> contains_addr r p \<or> rfront r = p \<or> rback r = p) points
          then Some (OsStatusInvalidInput, results, h)
          else do {
            (ok, results, h) \<leftarrow> splitv_construct (length points) 1 results h;
            if \<not> ok then Some (OsStatusOutOfMemory, results, h)
            else do {
              nxt \<leftarrow> span_get 1 results;
              (nxt, lo, results, h) \<leftarrow> splitv_loop (butlast points) 0 nxt block results h;
              newBlk \<leftarrow> nxt;
              (lo, hi, h) \<leftarrow> splitBlock lo (last points) newBlk h;
              results \<leftarrow> span_set (length points - 1) (Some lo) results;
              results \<leftarrow> span_set (length points) (Some hi) results;
              Some (OsStatusSuccess, results, h) } } }"

section \<open>Reserving a range\<close>

definition splitBlockForAllocationIfRequired ::
  "ptr \<Rightarrow> size_t \<Rightarrow> tlsf_heap \<Rightarrow> (OsStatus \<times> tlsf_heap) option" where
  "splitBlockForAllocationIfRequired block alignedOffset h =
     do { b \<leftarrow> blocks h block;
          if alignedOffset \<noteq> blk_offset b \<and> blk_prev b = None then
            case construct (zero_block\<lparr>blk_offset := blk_offset b,
                                       blk_size := alignedOffset - blk_offset b,
                                       blk_next := Some block\<rparr>) h of
              (None, h) \<Rightarrow> Some (OsStatusOutOfMemory, h)
            | (Some newBlk, h) \<Rightarrow> do {
                h \<leftarrow> upd_block block
                      (\<lambda>x. x\<lparr>blk_prev := Some newBlk, blk_offset := alignedOffset,
                             blk_size := blk_size x - (alignedOffset - blk_offset b)\<rparr>) h;
                h \<leftarrow> markTaken newBlk h;
                h \<leftarrow> releaseBlockToFreeList newBlk h;
                Some (OsStatusSuccess, h) }
          else Some (OsStatusSuccess, h) }"

text \<open>\<^verbatim>\<open>compact\<close>: adjacent free blocks are merged, from the last block down.\<close>

partial_function (option) compact_walk :: "ptr \<Rightarrow> tlsf_heap \<Rightarrow> tlsf_heap option" where
  "compact_walk block h =
     Option.bind (blocks h block) (\<lambda>b.
       case blk_prev b of
         None \<Rightarrow> Some h
       | Some prv \<Rightarrow>
           Option.bind (blocks h prv) (\<lambda>pb.
             if isFree block b \<and> isFree prv pb
             then Option.bind (mergeBlock block prv h) (compact_walk block)
             else compact_walk prv h))"

definition compact :: "tlsf_heap \<Rightarrow> (PoolCompactStats \<times> tlsf_heap) option" where
  "compact h =
     do { h \<leftarrow> compact_walk (mNullBlock h) h;
          (st, p) \<leftarrow> pool_compact (mBlockPool h);
          Some (st, h\<lparr>mBlockPool := p\<rparr>) }"

text \<open>The walk of \<^verbatim>\<open>reserve\<close>; its log lines have no effect on the heap.\<close>

partial_function (option) reserve_walk ::
  "range \<Rightarrow> ptr option \<Rightarrow> tlsf_heap \<Rightarrow> (OsStatus \<times> ptr option \<times> tlsf_heap) option" where
  "reserve_walk r block h =
     (case block of
        None \<Rightarrow> Some (OsStatusNotFound, None, h)
      | Some p \<Rightarrow>
          Option.bind (blocks h p) (\<lambda>b.
            let blockRange = \<lparr>rfront = blk_offset b, rback = blk_offset b + blk_size b\<rparr> in
            if contains blockRange r \<or> blockRange = r then
              if isUsed p b then Some (OsStatusNotAvailable, None, h)
              else Option.bind (splitBlockForAllocationIfRequired p (rfront r) h) (\<lambda>(status, h).
                if status \<noteq> OsStatusSuccess then Some (status, None, h)
                else Option.bind (blocks h p) (\<lambda>b.
                  Option.bind (reserveBlock p (range_size r) (rfront r) (GetListIndex (blk_size b)) h)
                    (\<lambda>(a, h). case a of
                        None \<Rightarrow> Some (OsStatusOutOfMemory, None, h)
                      | Some a \<Rightarrow> Some (OsStatusSuccess, Some a, h))))
            else if overlaps blockRange r then Some (OsStatusNotAvailable, None, h)
            else reserve_walk r (blk_prev b) h))"

definition reserve :: "range \<Rightarrow> tlsf_heap \<Rightarrow> (OsStatus \<times> ptr option \<times> tlsf_heap) option" where
  "reserve r h =
     do { (_, h) \<leftarrow> compact h;
          reserve_walk r (Some (mNullBlock h)) h }"

definition allocateAt :: "size_t \<Rightarrow> size_t \<Rightarrow> tlsf_heap \<Rightarrow> (ptr option \<times> tlsf_heap) option" where
  "allocateAt address sz h =
     (if address mod max_align \<noteq> 0 then Some (None, h)
      else if sz = 0 then Some (None, h)
      else do {
        (status, a, h) \<leftarrow> reserve (range_of address sz) h;
        if status \<noteq> OsStatusSuccess then Some (None, h) else Some (a, h) })"

definition allocateWithHint ::
  "size_t \<Rightarrow> size_t \<Rightarrow> size_t \<Rightarrow> tlsf_heap \<Rightarrow> (ptr option \<times> tlsf_heap) option" where
  "allocateWithHint align sz hint h =
     do { (a, h) \<leftarrow> allocateAt hint sz h;
          if a \<noteq> None then Some (a, h) else allocBestFit align sz h }"

section \<open>Validation, statistics, reset\<close>

partial_function (option) validate_list :: "tlsf_heap \<Rightarrow> ptr \<Rightarrow> ptr \<Rightarrow> unit option" where
  "validate_list h head block =
     Option.bind (propNextFree h block) (\<lambda>nf.
       case nf of
         None \<Rightarrow> Some ()
       | Some n \<Rightarrow>
           Option.bind (KM_CHECK (n \<noteq> head)) (\<lambda>_.
           Option.bind (blocks h n) (\<lambda>nb.
           Option.bind (KM_CHECK (isFree n nb)) (\<lambda>_.
           Option.bind (KM_CHECK (blk_prevFree nb = Some block)) (\<lambda>_.
           Option.bind (KM_CHECK (n \<noteq> block)) (\<lambda>_. validate_list h head n))))))"

fun validate_lists :: "tlsf_heap \<Rightarrow> nat \<Rightarrow> unit option" where
  "validate_lists h 0 = Some ()"
| "validate_lists h (Suc i) =
     do { _ \<leftarrow> validate_lists h i;
          head \<leftarrow> get_list h (of_nat i);
          (case head of
             None \<Rightarrow> Some ()
           | Some block \<Rightarrow> do {
               b \<leftarrow> blocks h block;
               _ \<leftarrow> KM_CHECK (isFree block b);
               _ \<leftarrow> KM_CHECK (blk_prevFree b = None);
               validate_list h block block }) }"

text \<open>The searches for a block in a free list: \<^verbatim>\<open>do ... while (!found && block != nullptr)\<close> and its dual.\<close>

partial_function (option) find_in_list :: "tlsf_heap \<Rightarrow> ptr \<Rightarrow> ptr \<Rightarrow> bool option" where
  "find_in_list h block target =
     Option.bind (propNextFree h block) (\<lambda>nf.
       if block = target then Some True
       else case nf of None \<Rightarrow> Some False | Some n \<Rightarrow> find_in_list h n target)"

partial_function (option) absent_from_list :: "tlsf_heap \<Rightarrow> ptr option \<Rightarrow> ptr \<Rightarrow> unit option" where
  "absent_from_list h block target =
     (case block of
        None \<Rightarrow> Some ()
      | Some p \<Rightarrow>
          Option.bind (KM_CHECK (p \<noteq> target)) (\<lambda>_.
          Option.bind (propNextFree h p) (\<lambda>nf. absent_from_list h nf target)))"

partial_function (option) validate_walk ::
  "tlsf_heap \<Rightarrow> ptr option \<Rightarrow> size_t \<Rightarrow> size_t \<Rightarrow> size_t option" where
  "validate_walk h prv nextOffset computedSize =
     (case prv of
        None \<Rightarrow> Some computedSize
      | Some p \<Rightarrow>
          Option.bind (blocks h p) (\<lambda>b.
          Option.bind (KM_CHECK (blk_offset b + blk_size b = nextOffset)) (\<lambda>_.
          Option.bind (get_list h (GetListIndex (blk_size b))) (\<lambda>block.
          Option.bind
            (if isFree p b
             then Option.bind block (\<lambda>q. Option.bind (find_in_list h q p) (\<lambda>found. KM_CHECK found))
             else absent_from_list h block p) (\<lambda>_.
          Option.bind
            (case blk_prev b of
               None \<Rightarrow> Some ()
             | Some q \<Rightarrow> Option.bind (blocks h q) (\<lambda>qb. KM_CHECK (blk_next qb = Some p))) (\<lambda>_.
          validate_walk h (blk_prev b) (blk_offset b) (computedSize + blk_size b)))))))"

definition validate :: "tlsf_heap \<Rightarrow> unit option" where
  "validate h =
     do { _ \<leftarrow> validate_lists h (unat (mFreeListCount h));
          b \<leftarrow> blocks h (mNullBlock h);
          _ \<leftarrow> KM_CHECK (blk_next b = None);
          _ \<leftarrow> KM_CHECK (isFree (mNullBlock h) b);
          _ \<leftarrow> (case blk_prev b of
                 None \<Rightarrow> Some ()
               | Some q \<Rightarrow> do { qb \<leftarrow> blocks h q; KM_CHECK (blk_next qb = Some (mNullBlock h)) });
          computedSize \<leftarrow> validate_walk h (blk_prev b) (blk_offset b) (blk_size b);
          KM_CHECK (computedSize = mSize h) }"

text \<open>The walk of \<^verbatim>\<open>stats\<close>: the number of blocks and the free memory.\<close>

partial_function (option) stats_walk ::
  "tlsf_heap \<Rightarrow> ptr option \<Rightarrow> size_t \<Rightarrow> size_t \<Rightarrow> (size_t \<times> size_t) option" where
  "stats_walk h it blockCount freeMemory =
     (case it of
        None \<Rightarrow> Some (blockCount, freeMemory)
      | Some p \<Rightarrow>
          Option.bind (blocks h p) (\<lambda>b.
            stats_walk h (blk_prev b) (blockCount + 1)
              (if isFree p b then freeMemory + blk_size b else freeMemory)))"

record TlsfHeapStats =
  st_pool :: PoolAllocatorStats
  st_freeListSize :: size_t
  st_usedMemory :: size_t
  st_freeMemory :: size_t
  st_blockCount :: size_t
  st_mallocCount :: size_t
  st_freeCount :: size_t

text \<open>A \<^verbatim>\<open>TlsfBlock\<close> takes 48 bytes on the x86-64 target, a magazine's header and a pointer 8.\<close>

definition stats :: "tlsf_heap \<Rightarrow> TlsfHeapStats option" where
  "stats h =
     do { (blockCount, freeMemory) \<leftarrow> stats_walk h (Some (mNullBlock h)) 0 0;
          ps \<leftarrow> pool_stats 8 8 48 (mBlockPool h);
          let usedMemory = mSize h - freeMemory;
          Some \<lparr>st_pool = ps, st_freeListSize = mFreeListCount h,
                st_usedMemory = usedMemory - mReserved h, st_freeMemory = freeMemory,
                st_blockCount = blockCount, st_mallocCount = mMallocCount h,
                st_freeCount = mFreeCount h\<rparr> }"

definition controlMemory_bytes :: "TlsfHeapStats \<Rightarrow> size_t" where
  "controlMemory_bytes st = 8 * st_freeListSize st + 48 * st_blockCount st"

text \<open>
  \<^verbatim>\<open>reset\<close>: each round merges the block with its predecessor and then moves on to the block
  before that one.
\<close>

partial_function (option) reset_walk :: "ptr option \<Rightarrow> tlsf_heap \<Rightarrow> tlsf_heap option" where
  "reset_walk block h =
     (case block of
        None \<Rightarrow> Some h
      | Some p \<Rightarrow>
          Option.bind (blocks h p) (\<lambda>b.
            case blk_prev b of
              None \<Rightarrow> Some h
            | Some q \<Rightarrow>
                Option.bind (blocks h q) (\<lambda>qb.
                Option.bind (KM_CHECK (blk_offset qb + blk_size qb = blk_offset b)) (\<lambda>_.
                Option.bind (upd_block p (\<lambda>b. b\<lparr>blk_offset := blk_offset qb,
                                 blk_size := blk_size b + blk_size qb, blk_prev := blk_prev qb\<rparr>) h) (\<lambda>h.
                Option.bind (destroy q h) (\<lambda>h. reset_walk (blk_prev qb) h))))))"

definition reset :: "tlsf_heap \<Rightarrow> tlsf_heap option" where
  "reset h =
     do { h \<leftarrow> reset_walk (Some (mNullBlock h)) h;
          Some (h\<lparr>mMallocCount := 0, mFreeCount := 0\<rparr>) }"

section \<open>Creating heaps\<close>

text \<open>
  The constructor of \<^verbatim>\<open>TlsfHeap\<close> with \<^verbatim>\<open>init\<close>: the single block is free and every list is empty.
\<close>

definition make_heap :: "pool \<Rightarrow> ptr \<Rightarrow> tlsf_block \<Rightarrow> size_t \<Rightarrow> tlsf_heap" where
  "make_heap p nullBlock b freeListCount =
     \<lparr>mSize = blk_size b, mReserved = 0, mMallocCount = 0, mFreeCount = 0, mBlockPool = p,
      mNullBlock = nullBlock, mFreeListCount = freeListCount,
      mFreeList = replicate (unat freeListCount) None,
      mInnerFreeMap = replicate kMaxMemoryClass 0, mTopLevelFreeMap = 0,
      blocks = [nullBlock \<mapsto> b\<lparr>blk_prevFree := None\<rparr>]\<rparr>"

text \<open>
  \<^verbatim>\<open>create\<close> for one range. The list of outcomes is that of the requests to the system
  allocator; a range of size 0 breaks the assumption of \<^verbatim>\<open>SizeToSecondIndex\<close>.
\<close>

definition create :: "bool list \<Rightarrow> range \<Rightarrow> (OsStatus \<times> tlsf_heap option) option" where
  "create outcomes r =
     (let sz = range_size r;
          memoryClass = SizeToMemoryClass sz;
          secondIndex = SizeToSecondIndex sz memoryClass;
          freeListCount = GetFreeListSize memoryClass secondIndex;
          nullBlk = zero_block\<lparr>blk_offset := rfront r, blk_size := range_size r\<rparr>
      in if sz = 0 then None
         else case allocate (empty_pool outcomes) of
                (None, p) \<Rightarrow> Some (OsStatusOutOfMemory, None)
              | (Some nullBlock, p) \<Rightarrow>
                  (let (ok, p) = sys_request p
                   in if \<not> ok then Some (OsStatusOutOfMemory, None)
                      else Some (OsStatusSuccess, Some (make_heap p nullBlock nullBlk freeListCount))))"

text \<open>The loop over the holes between consecutive ranges.\<close>

fun reserve_holes :: "range list \<Rightarrow> size_t \<Rightarrow> tlsf_heap \<Rightarrow> (OsStatus \<times> size_t \<times> tlsf_heap) option" where
  "reserve_holes (r # nxt # rs) reserved h =
     (if rback r < rfront nxt then do {
        let hole = \<lparr>rfront = rback r, rback = rfront nxt\<rparr>;
        (status, _, h) \<leftarrow> reserve hole h;
        if status \<noteq> OsStatusSuccess then Some (status, reserved, h)
        else reserve_holes (nxt # rs) (reserved + range_size hole) h }
      else reserve_holes (nxt # rs) reserved h)"
| "reserve_holes _ reserved h = Some (OsStatusSuccess, reserved, h)"

definition create_many :: "bool list \<Rightarrow> range list \<Rightarrow> (OsStatus \<times> tlsf_heap option) option" where
  "create_many outcomes rs =
     (if rs = [] then Some (OsStatusInvalidInput, None)
      else if list_ex isEmpty rs then Some (OsStatusInvalidInput, None)
      else if length rs = 1 then create outcomes (hd rs)
      else do {
        _ \<leftarrow> KM_CHECK (is_sorted (map rfront rs));
        (status, heap) \<leftarrow> create outcomes (combinedInterval rs);
        if status \<noteq> OsStatusSuccess then Some (status, heap)
        else do {
          h \<leftarrow> heap;
          (status, reserved, h) \<leftarrow> reserve_holes rs 0 h;
          if status \<noteq> OsStatusSuccess then Some (status, Some h)
          else do {
            let h = h\<lparr>mReserved := reserved\<rparr>;
            _ \<leftarrow> validate h;
            Some (OsStatusSuccess, Some h) } } })"

definition addPool :: "range \<Rightarrow> tlsf_heap \<Rightarrow> (OsStatus \<times> tlsf_heap) option" where
  "addPool r h =
     (if isEmpty r then Some (OsStatusInvalidInput, h)
      else do {
        (ok, buf, h) \<leftarrow> buffer_reserve 2 [] h;
        if \<not> ok then do { h \<leftarrow> destroy_all buf h; Some (OsStatusOutOfMemory, h) }
        else do {
          (block, buf, h) \<leftarrow> buffer_take
            (zero_block\<lparr>blk_offset := rfront r, blk_size := range_size r\<rparr>) buf h;
          (sentinel, buf, h) \<leftarrow> buffer_take
            (zero_block\<lparr>blk_offset := rback r, blk_size := 0, blk_prevFree := Some block\<rparr>) buf h;
          h \<leftarrow> markTaken block h;
          h \<leftarrow> upd_block block (\<lambda>b. b\<lparr>blk_next := Some sentinel\<rparr>) h;
          h \<leftarrow> releaseBlockToFreeList block (h\<lparr>mSize := mSize h + range_size r\<rparr>);
          h \<leftarrow> destroy_all buf h;
          Some (OsStatusSuccess, h) } })"

section \<open>Block lists and deferred splits\<close>

text \<open>
  \<^verbatim>\<open>TlsfBlockList\<close> is a list of spare blocks linked by \<open>blk_next\<close>; its state is the address of
  its head. \<^verbatim>\<open>next\<close> requires a non-empty list.
\<close>

definition list_add :: "ptr \<Rightarrow> ptr option \<Rightarrow> tlsf_heap \<Rightarrow> (ptr option \<times> tlsf_heap) option" where
  "list_add block head h =
     do { h \<leftarrow> upd_block block (\<lambda>b. b\<lparr>blk_next := head\<rparr>) h; Some (Some block, h) }"

definition list_drain :: "ptr option \<Rightarrow> tlsf_heap \<Rightarrow> (ptr option \<times> ptr option \<times> tlsf_heap) option" where
  "list_drain head h =
     (case head of
        None \<Rightarrow> Some (None, None, h)
      | Some block \<Rightarrow> do {
          b \<leftarrow> blocks h block;
          h \<leftarrow> upd_block block (\<lambda>b. b\<lparr>blk_next := None\<rparr>) h;
          Some (Some block, blk_next b, h) })"

definition list_next :: "ptr option \<Rightarrow> tlsf_heap \<Rightarrow> (ptr \<times> ptr option \<times> tlsf_heap) option" where
  "list_next head h =
     do { block \<leftarrow> head;
          b \<leftarrow> blocks h block;
          h \<leftarrow> upd_block block (\<lambda>b. b\<lparr>blk_next := None\<rparr>) h;
          Some (block, blk_next b, h) }"

partial_function (option) list_append ::
  "ptr option \<Rightarrow> ptr option \<Rightarrow> tlsf_heap \<Rightarrow> (ptr option \<times> tlsf_heap) option" where
  "list_append src head h =
     Option.bind (list_drain src h) (\<lambda>(block, src, h).
       case block of
         None \<Rightarrow> Some (head, h)
       | Some p \<Rightarrow> Option.bind (list_add p head h) (\<lambda>(head, h). list_append src head h))"

partial_function (option) list_count :: "ptr option \<Rightarrow> nat \<Rightarrow> tlsf_heap \<Rightarrow> nat option" where
  "list_count block n h =
     (case block of
        None \<Rightarrow> Some n
      | Some p \<Rightarrow> Option.bind (blocks h p) (\<lambda>b. list_count (blk_next b) (n + 1) h))"

partial_function (option) drainBlockList :: "ptr option \<Rightarrow> tlsf_heap \<Rightarrow> tlsf_heap option" where
  "drainBlockList head h =
     Option.bind (list_drain head h) (\<lambda>(block, head, h).
       case block of
         None \<Rightarrow> Some h
       | Some p \<Rightarrow> Option.bind (destroy p h) (drainBlockList head))"

fun split_blocks_loop :: "nat \<Rightarrow> ptr option \<Rightarrow> tlsf_heap \<Rightarrow> (bool \<times> ptr option \<times> tlsf_heap) option" where
  "split_blocks_loop 0 buffer h = Some (True, buffer, h)"
| "split_blocks_loop (Suc n) buffer h =
     (case construct zero_block h of
        (None, h) \<Rightarrow> do { h \<leftarrow> drainBlockList buffer h; Some (False, None, h) }
      | (Some q, h) \<Rightarrow> do { (buffer, h) \<leftarrow> list_add q buffer h; split_blocks_loop n buffer h })"

definition allocateSplitVectorBlocks ::
  "nat \<Rightarrow> ptr option \<Rightarrow> tlsf_heap \<Rightarrow> (OsStatus \<times> ptr option \<times> tlsf_heap) option" where
  "allocateSplitVectorBlocks points head h =
     do { (ok, buffer, h) \<leftarrow> split_blocks_loop points None h;
          if \<not> ok then Some (OsStatusOutOfMemory, head, h)
          else do { (head, h) \<leftarrow> list_append buffer head h; Some (OsStatusSuccess, head, h) } }"

definition allocateSplitBlocks ::
  "ptr option \<Rightarrow> tlsf_heap \<Rightarrow> (OsStatus \<times> ptr option \<times> tlsf_heap) option" where
  "allocateSplitBlocks head h = allocateSplitVectorBlocks 1 head h"

definition commitSplitBlock ::
  "ptr \<Rightarrow> size_t \<Rightarrow> ptr option \<Rightarrow> tlsf_heap \<Rightarrow> (ptr \<times> ptr \<times> ptr option \<times> tlsf_heap) option" where
  "commitSplitBlock ptr midpoint head h =
     do { (block, head, h) \<leftarrow> list_next head h;
          (lo, hi, h) \<leftarrow> splitBlock ptr midpoint block h;
          Some (lo, hi, head, h) }"

fun commit_loop ::
  "size_t list \<Rightarrow> nat \<Rightarrow> ptr \<Rightarrow> ptr \<Rightarrow> ptr option list \<Rightarrow> ptr option \<Rightarrow> tlsf_heap
     \<Rightarrow> (ptr \<times> ptr \<times> ptr option list \<times> ptr option \<times> tlsf_heap) option" where
  "commit_loop [] i nxt lo results head h = Some (nxt, lo, results, head, h)"
| "commit_loop (p # ps) i nxt lo results head h =
     do { (lo, hi, h) \<leftarrow> splitBlock lo p nxt h;
          results \<leftarrow> span_set i (Some lo) results;
          (nxt, head, h) \<leftarrow> list_next head h;
          commit_loop ps (i + 1) nxt hi results head h }"

definition commitSplitVectorBlocks ::
  "ptr \<Rightarrow> size_t list \<Rightarrow> ptr option list \<Rightarrow> ptr option \<Rightarrow> tlsf_heap
     \<Rightarrow> (ptr option list \<times> ptr option \<times> tlsf_heap) option" where
  "commitSplitVectorBlocks ptr points results head h =
     do { _ \<leftarrow> (if points = [] then None else Some ());
          (nxt, head, h) \<leftarrow> list_next head h;
          (nxt, lo, results, head, h) \<leftarrow> commit_loop (butlast points) 0 nxt ptr results head h;
          (lo, hi, h) \<leftarrow> splitBlock lo (last points) nxt h;
          results \<leftarrow> span_set (length points - 1) (Some lo) results;
          results \<leftarrow> span_set (length points) (Some hi) results;
          Some (results, head, h) }"

text \<open>The defining equations of the loops are their code.\<close>

declare
  search_list.simps [code] and
  find_walk.simps [code] and
  compact_walk.simps [code] and
  reserve_walk.simps [code] and
  validate_list.simps [code] and
  find_in_list.simps [code] and
  absent_from_list.simps [code] and
  validate_walk.simps [code] and
  stats_walk.simps [code] and
  reset_walk.simps [code] and
  list_append.simps [code] and
  list_count.simps [code] and
  drainBlockList.simps [code]

end
