(* ===== verification/Linked.thy ===== *)
theory Linked
  imports Prelude
begin

text \<open>
  Linked lists in a store, shared by the allocators: \<open>linked f xs e\<close> says that the link field
  \<open>f\<close> leads from each address of \<open>xs\<close> to the next one and from the last one to \<open>e\<close>.
\<close>

section \<open>Linked lists\<close>

definition hd_or :: "'k list \<Rightarrow> 'k option \<Rightarrow> 'k option" where
  "hd_or xs e = (case xs of [] \<Rightarrow> e | x # _ \<Rightarrow> Some x)"

lemma hd_or_simps [simp]: "hd_or [] e = e" "hd_or (x # xs) e = Some x"
  "hd_or (xs @ ys) e = hd_or xs (hd_or ys e)"
  by (auto simp: hd_or_def split: list.splits)

lemma hd_or_None_iff [simp]: "hd_or xs None = None \<longleftrightarrow> xs = []"
  by (cases xs) auto

fun linked :: "('k \<Rightarrow> 'k option) \<Rightarrow> 'k list \<Rightarrow> 'k option \<Rightarrow> bool" where
  "linked f [] e \<longleftrightarrow> True"
| "linked f (x # xs) e \<longleftrightarrow> f x = hd_or xs e \<and> linked f xs e"

lemma linked_append [simp]:
  "linked f (xs @ ys) e \<longleftrightarrow> linked f xs (hd_or ys e) \<and> linked f ys e"
  by (induction xs) auto

lemma linked_cong: "(\<And>x. x \<in> set xs \<Longrightarrow> f x = g x) \<Longrightarrow> linked f xs e = linked g xs e"
  by (induction xs) auto

lemma linked_upd [simp]: "p \<notin> set xs \<Longrightarrow> linked (f(p := v)) xs e = linked f xs e"
  by (rule linked_cong) auto

text \<open>A node of a distinct linked list never links to itself.\<close>

lemma linked_irrefl:
  assumes "linked f xs None" and "distinct xs" and "x \<in> set xs"
  shows "f x \<noteq> Some x"
proof -
  obtain ys zs where xs: "xs = ys @ x # zs" using assms(3) by (meson split_list)
  then show ?thesis using assms by (cases zs) auto
qed

end
