(* ===== verification/TlsfLists.thy ===== *)
theory TlsfLists
  imports TlsfHeap Linked
begin

text \<open>
  The free lists of the heap. The store of control blocks is read field by field, so that an
  assignment through a pointer is a point update of one function; a doubly linked list is a list
  of addresses along which the forward field is \<open>linked\<close> and whose reversal is \<open>linked\<close> by the
  backward field. \<open>lists_ok\<close> relates the array of heads, the two bitmaps and the links to one list
  of addresses per size class, and \<^verbatim>\<open>takeBlockFromFreeList\<close>, \<^verbatim>\<open>releaseBlockToFreeList\<close> and
  \<^verbatim>\<open>detachBlock\<close> are shown to be removal, insertion at the front and move to the front.
\<close>

section \<open>The store, field by field\<close>

type_synonym store = "ptr \<rightharpoonup> tlsf_block"

definition cell :: "store \<Rightarrow> ptr \<Rightarrow> tlsf_block" where "cell m p = the (m p)"
definition offs :: "store \<Rightarrow> ptr \<Rightarrow> size_t" where "offs m = (\<lambda>p. blk_offset (cell m p))"
definition sizs :: "store \<Rightarrow> ptr \<Rightarrow> size_t" where "sizs m = (\<lambda>p. blk_size (cell m p))"
definition prevs :: "store \<Rightarrow> ptr \<Rightarrow> ptr option" where "prevs m = (\<lambda>p. blk_prev (cell m p))"
definition succs :: "store \<Rightarrow> ptr \<Rightarrow> ptr option" where "succs m = (\<lambda>p. blk_next (cell m p))"
definition nfs :: "store \<Rightarrow> ptr \<Rightarrow> ptr option" where "nfs m = (\<lambda>p. blk_nextFree (cell m p))"
definition pfs :: "store \<Rightarrow> ptr \<Rightarrow> ptr option" where "pfs m = (\<lambda>p. blk_prevFree (cell m p))"

definition used :: "tlsf_heap \<Rightarrow> ptr \<Rightarrow> bool" where
  "used h p \<longleftrightarrow> pfs (blocks h) p = Some p"

lemma fields_cell [simp]:
  "blk_offset (cell m p) = offs m p" "blk_size (cell m p) = sizs m p"
  "blk_prev (cell m p) = prevs m p" "blk_next (cell m p) = succs m p"
  "blk_nextFree (cell m p) = nfs m p" "blk_prevFree (cell m p) = pfs m p"
  by (simp_all add: offs_def sizs_def prevs_def succs_def nfs_def pfs_def)

lemma fields_upd [simp]:
  "offs (m(p := b)) = (offs m)(p := blk_offset (the b))"
  "sizs (m(p := b)) = (sizs m)(p := blk_size (the b))"
  "prevs (m(p := b)) = (prevs m)(p := blk_prev (the b))"
  "succs (m(p := b)) = (succs m)(p := blk_next (the b))"
  "nfs (m(p := b)) = (nfs m)(p := blk_nextFree (the b))"
  "pfs (m(p := b)) = (pfs m)(p := blk_prevFree (the b))"
  by (auto simp: offs_def sizs_def prevs_def succs_def nfs_def pfs_def cell_def)

lemma cell_upd [simp]: "cell (m(p := b)) q = (if q = p then the b else cell m q)"
  by (simp add: cell_def)

lemma fun_upd_keep [simp]: "a \<noteq> p \<Longrightarrow> f(p := v, a := f a) = f(p := v)"
  by (auto simp: fun_eq_iff)

text \<open>Symbolic execution of accesses through addresses of live blocks.\<close>

lemma blocks_dom [simp]: "p \<in> dom (blocks h) \<Longrightarrow> blocks h p = Some (cell (blocks h) p)"
  by (auto simp: cell_def)

lemma upd_block_dom [simp]:
  "p \<in> dom (blocks h) \<Longrightarrow>
     upd_block p f h = Some (h\<lparr>blocks := (blocks h)(p \<mapsto> f (cell (blocks h) p))\<rparr>)"
  by (simp add: upd_block_def)

lemma upd_opt_simps [simp]: "upd_opt None f h = Some h" "upd_opt (Some p) f h = upd_block p f h"
  by (simp_all add: upd_opt_def)

lemma isFree_cell [simp]: "isFree p (cell m p) \<longleftrightarrow> pfs m p \<noteq> Some p"
  by (simp add: isFree_def)

lemma isUsed_cell [simp]: "isUsed p (cell m p) \<longleftrightarrow> pfs m p = Some p"
  by (simp add: isUsed_def)

lemma propNextFree_dom [simp]:
  "p \<in> dom (blocks h) \<Longrightarrow> pfs (blocks h) p \<noteq> Some p \<Longrightarrow> propNextFree h p = Some (nfs (blocks h) p)"
  by (simp add: propNextFree_def)

lemma set_propNextFree_dom [simp]:
  "p \<in> dom (blocks h) \<Longrightarrow> pfs (blocks h) p \<noteq> Some p \<Longrightarrow>
     set_propNextFree p v h
       = Some (h\<lparr>blocks := (blocks h)(p \<mapsto> (cell (blocks h) p)\<lparr>blk_nextFree := v\<rparr>)\<rparr>)"
  by (simp add: set_propNextFree_def)

lemma markTaken_dom [simp]:
  "p \<in> dom (blocks h) \<Longrightarrow>
     markTaken p h = Some (h\<lparr>blocks := (blocks h)(p \<mapsto> (cell (blocks h) p)\<lparr>blk_prevFree := Some p\<rparr>)\<rparr>)"
  by (simp add: markTaken_def)

lemma markFree_dom [simp]:
  "p \<in> dom (blocks h) \<Longrightarrow>
     markFree p h = Some (h\<lparr>blocks := (blocks h)(p \<mapsto> (cell (blocks h) p)\<lparr>blk_prevFree := None\<rparr>)\<rparr>)"
  by (simp add: markFree_def)

section \<open>The bitmaps\<close>

definition maps_ok :: "u32 list \<Rightarrow> u32 \<Rightarrow> (nat \<Rightarrow> bool) \<Rightarrow> bool" where
  "maps_ok inner tp ne \<longleftrightarrow>
     length inner = kMaxMemoryClass
     \<and> (\<forall>c < kMaxMemoryClass. \<forall>s < 32. bit (inner ! c) s \<longleftrightarrow> ne (c * 32 + s))
     \<and> (\<forall>c < 32. bit tp c \<longleftrightarrow> (\<exists>s < 32. ne (c * 32 + s)))"

lemma class_pair_eq_iff: "s < 32 \<Longrightarrow> s' < 32 \<Longrightarrow> c * 32 + s = c' * 32 + s' \<longleftrightarrow> c = c' \<and> s = (s'::nat)"
  by (metis add.commute div_less add_left_cancel div_mult_self3 zero_neq_numeral add_0)

lemma u32_eq_0_iff: "(x :: u32) = 0 \<longleftrightarrow> (\<forall>n < 32. \<not> bit x n)"
  using bit_imp_le_length [of x] by (auto simp: bit_eq_iff)

lemma bit_mask_u32: "bit (2 ^ s :: u32) n \<longleftrightarrow> n = s \<and> n < 32"
  by (auto simp: bit_exp_iff)

lemma fun_upd_class_pair:
  fixes s s' c c' :: nat
  shows "s < 32 \<Longrightarrow> s' < 32 \<Longrightarrow> (ne(c * 32 + s := v)) (c' * 32 + s')
     = (if c' = c \<and> s' = s then v else ne (c' * 32 + s'))"
  using class_pair_eq_iff [of s' s c' c] by simp

lemmas map_simps = kMaxMemoryClass_def kMemoryClassShift_def nth_list_update fun_upd_class_pair
  bit_and_iff bit_or_iff bit_not_iff bit_mask_u32

lemma maps_ok_set:
  assumes "maps_ok inner tp ne" and c: "c < 32" and s: "s < 32"
  shows "maps_ok (inner[c := inner ! c OR push_bit s 1]) (tp OR push_bit c 1) (ne(c * 32 + s := True))"
proof -
  have ok: "length inner = 57" "\<And>c s. c < 57 \<Longrightarrow> s < 32 \<Longrightarrow> bit (inner ! c) s = ne (c * 32 + s)"
    "\<And>c. c < 32 \<Longrightarrow> bit tp c = (\<exists>s < 32. ne (c * 32 + s))"
    using assms(1) by (auto simp: maps_ok_def map_simps)
  have "bit (tp OR 2 ^ c) c' = (\<exists>s' < 32. (ne(c * 32 + s := True)) (c' * 32 + s'))" if "c' < 32" for c'
    using that ok(3) [OF that] c s fun_upd_class_pair [OF s, of _ ne c True c'] by (auto simp: map_simps simp del: fun_upd_apply)
  then show ?thesis
    using ok(1,2) c s by (auto simp: maps_ok_def map_simps simp del: fun_upd_apply)
qed

lemma maps_ok_clear:
  assumes "maps_ok inner tp ne" and c: "c < 32" and s: "s < 32"
  defines "inner' \<equiv> inner[c := inner ! c AND NOT (push_bit s 1)]"
  shows "maps_ok inner' (if inner' ! c = 0 then tp AND NOT (push_bit c 1) else tp) (ne(c * 32 + s := False))"
    (is "maps_ok _ ?tp ?ne")
proof -
  have ok: "length inner = 57" "\<And>c s. c < 57 \<Longrightarrow> s < 32 \<Longrightarrow> bit (inner ! c) s = ne (c * 32 + s)"
    "\<And>c. c < 32 \<Longrightarrow> bit tp c = (\<exists>s < 32. ne (c * 32 + s))"
    using assms(1) by (auto simp: maps_ok_def map_simps)
  have i: "bit (inner' ! c') s' = ?ne (c' * 32 + s')" if "c' < 57" "s' < 32" for c' s'
    using that ok(1,2) c s by (auto simp: inner'_def map_simps simp del: fun_upd_apply)
  have z: "inner' ! c = 0 \<longleftrightarrow> (\<forall>s' < 32. \<not> ?ne (c * 32 + s'))"
    using i [of c] c by (simp add: u32_eq_0_iff del: fun_upd_apply)
  have "bit ?tp c' = (\<exists>s' < 32. ?ne (c' * 32 + s'))" if "c' < 32" for c'
  proof (cases "c' = c")
    case True
    then show ?thesis using z ok(3) [OF c] c fun_upd_class_pair [OF s, of _ ne c False c]
      by (auto simp: map_simps simp del: fun_upd_apply)
  next
    case False
    then have "\<And>s'. s' < 32 \<Longrightarrow> ?ne (c' * 32 + s') = ne (c' * 32 + s')" by (simp only: fun_upd_class_pair [OF s]) simp
    then show ?thesis using False ok(3) [OF that] that by (auto simp: map_simps simp del: fun_upd_apply)
  qed
  then show ?thesis
    using i ok(1) by (simp add: maps_ok_def map_simps inner'_def del: fun_upd_apply)
qed

section \<open>The free lists\<close>

definition lists_ok :: "tlsf_heap \<Rightarrow> (nat \<Rightarrow> ptr list) \<Rightarrow> bool" where
  "lists_ok h fl \<longleftrightarrow>
     length (mFreeList h) = unat (mFreeListCount h) \<and> length (mFreeList h) \<le> 1024
     \<and> (\<forall>i < length (mFreeList h). mFreeList h ! i = hd_or (fl i) None)
     \<and> (\<forall>i. distinct (fl i) \<and> linked (nfs (blocks h)) (fl i) None
            \<and> linked (pfs (blocks h)) (rev (fl i)) None)
     \<and> (\<forall>i. \<forall>p \<in> set (fl i). i < length (mFreeList h) \<and> p \<in> dom (blocks h) \<and> p \<noteq> mNullBlock h
            \<and> 0 < unat (sizs (blocks h) p) \<and> list_index (unat (sizs (blocks h) p)) = i)
     \<and> maps_ok (mInnerFreeMap h) (mTopLevelFreeMap h) (\<lambda>i. fl i \<noteq> [])"

text \<open>What the operations on free lists leave alone.\<close>

definition same_blocks :: "tlsf_heap \<Rightarrow> tlsf_heap \<Rightarrow> bool" where
  "same_blocks h h' \<longleftrightarrow>
     dom (blocks h') = dom (blocks h) \<and> offs (blocks h') = offs (blocks h)
     \<and> sizs (blocks h') = sizs (blocks h) \<and> prevs (blocks h') = prevs (blocks h)
     \<and> succs (blocks h') = succs (blocks h)
     \<and> mSize h' = mSize h \<and> mReserved h' = mReserved h \<and> mMallocCount h' = mMallocCount h
     \<and> mFreeCount h' = mFreeCount h \<and> mBlockPool h' = mBlockPool h \<and> mNullBlock h' = mNullBlock h
     \<and> mFreeListCount h' = mFreeListCount h"

lemma lists_okD:
  assumes "lists_ok h fl"
  shows "length (mFreeList h) = unat (mFreeListCount h)" and "length (mFreeList h) \<le> 1024"
    and "\<And>i. i < length (mFreeList h) \<Longrightarrow> mFreeList h ! i = hd_or (fl i) None"
    and "\<And>i. distinct (fl i)" and "\<And>i. linked (nfs (blocks h)) (fl i) None"
    and "\<And>i. linked (pfs (blocks h)) (rev (fl i)) None"
    and "\<And>i p. p \<in> set (fl i) \<Longrightarrow> i < length (mFreeList h)"
    and "\<And>i p. p \<in> set (fl i) \<Longrightarrow> p \<in> dom (blocks h)"
    and "\<And>i p. p \<in> set (fl i) \<Longrightarrow> p \<noteq> mNullBlock h"
    and "\<And>i p. p \<in> set (fl i) \<Longrightarrow> 0 < unat (sizs (blocks h) p)"
    and "\<And>i p. p \<in> set (fl i) \<Longrightarrow> list_index (unat (sizs (blocks h) p)) = i"
    and "maps_ok (mInnerFreeMap h) (mTopLevelFreeMap h) (\<lambda>i. fl i \<noteq> [])"
  using assms unfolding lists_ok_def by blast+

lemma lists_ok_free: "lists_ok h fl \<Longrightarrow> p \<in> set (fl i) \<Longrightarrow> \<not> used h p"
  using linked_irrefl [of "pfs (blocks h)" "rev (fl i)" p] by (auto simp: lists_ok_def used_def)

lemma lists_ok_index: "lists_ok h fl \<Longrightarrow> p \<in> set (fl i) \<Longrightarrow> p \<in> set (fl j) \<Longrightarrow> i = j"
  unfolding lists_ok_def by metis

lemma lists_ok_upd:
  assumes ok: "lists_ok h fl" and same: "same_blocks h h'" and i: "i < length (mFreeList h)"
    and heads: "mFreeList h' = (mFreeList h)[i := hd_or zs None]"
    and maps: "maps_ok (mInnerFreeMap h') (mTopLevelFreeMap h') (\<lambda>j. (fl(i := zs)) j \<noteq> [])"
    and zs: "distinct zs" "linked (nfs (blocks h')) zs None" "linked (pfs (blocks h')) (rev zs) None"
    and mem: "\<And>p. p \<in> set zs \<Longrightarrow> p \<in> dom (blocks h) \<and> p \<noteq> mNullBlock h
                 \<and> 0 < unat (sizs (blocks h) p) \<and> list_index (unat (sizs (blocks h) p)) = i"
    and frame: "\<And>q j. q \<in> set (fl j) \<Longrightarrow> j \<noteq> i \<Longrightarrow>
                 nfs (blocks h') q = nfs (blocks h) q \<and> pfs (blocks h') q = pfs (blocks h) q"
  shows "lists_ok h' (fl(i := zs))"
proof -
  have "linked (nfs (blocks h')) (fl j) None \<and> linked (pfs (blocks h')) (rev (fl j)) None"
    if "j \<noteq> i" for j
  proof -
    have "linked (nfs (blocks h')) (fl j) None = linked (nfs (blocks h)) (fl j) None"
      by (rule linked_cong) (use frame that in auto)
    moreover have "linked (pfs (blocks h')) (rev (fl j)) None = linked (pfs (blocks h)) (rev (fl j)) None"
      by (rule linked_cong) (use frame that in auto)
    ultimately show ?thesis using ok by (simp add: lists_ok_def)
  qed
  then show ?thesis
    using lists_okD [OF ok] same i heads maps zs mem unfolding lists_ok_def same_blocks_def
    by (auto simp: nth_list_update)
qed

lemma list_locate:
  assumes "0 < unat sz" and "list_index (unat sz) < 1024"
  shows "unat (SizeToMemoryClass sz) = class_of (unat sz)"
    and "unat (SizeToSecondIndex sz (SizeToMemoryClass sz)) = second_of (unat sz)"
    and "unat (GetListIndex2 (SizeToMemoryClass sz) (SizeToSecondIndex sz (SizeToMemoryClass sz)))
      = list_index (unat sz)"
    and "class_of (unat sz) < 32" and "second_of (unat sz) < 32"
proof -
  show "unat (SizeToMemoryClass sz) = class_of (unat sz)" by (rule unat_SizeToMemoryClass)
  show "unat (SizeToSecondIndex sz (SizeToMemoryClass sz)) = second_of (unat sz)"
    by (rule unat_SizeToSecondIndex [OF assms(1)])
  show "unat (GetListIndex2 (SizeToMemoryClass sz) (SizeToSecondIndex sz (SizeToMemoryClass sz)))
      = list_index (unat sz)"
    using unat_GetListIndex [OF assms(1)] by (simp add: GetListIndex_def Let_def)
  show "second_of (unat sz) < 32" by (rule second_of_less)
  show "class_of (unat sz) < 32" using assms(2) by (simp add: list_index_def)
qed

lemma shl32_small [simp]: "n < 32 \<Longrightarrow> shl32 x n = Some (push_bit n x)"
  by (simp add: shl32_def)

text \<open>
  Removing a block from its list. The first two lemmas execute the code, in the middle of a list
  and at its front; in both the block after the removed one gets its \<open>pfs\<close>.
\<close>

definition skip_prev :: "ptr list \<Rightarrow> ptr option \<Rightarrow> (ptr \<Rightarrow> ptr option) \<Rightarrow> ptr \<Rightarrow> ptr option" where
  "skip_prev ys v f = (case ys of [] \<Rightarrow> f | y # _ \<Rightarrow> f(y := v))"

lemma skip_prev_simps [simp]: "skip_prev [] v f = f" "skip_prev (y # ys) v f = f(y := v)"
  by (simp_all add: skip_prev_def)

lemma take_middle_exec:
  assumes "p \<in> dom (blocks h)" and "p \<noteq> mNullBlock h" and "pfs (blocks h) p = Some x" and "x \<noteq> p"
    and "x \<in> dom (blocks h)" and "pfs (blocks h) x \<noteq> Some x" and "nfs (blocks h) p = hd_or ys None"
    and "set ys \<subseteq> dom (blocks h)" and "x \<notin> set ys" and "p \<notin> set ys"
  shows "\<exists>h'. takeBlockFromFreeList p h = Some h' \<and> same_blocks h h'
    \<and> nfs (blocks h') = (nfs (blocks h))(x := hd_or ys None)
    \<and> pfs (blocks h') = (skip_prev ys (Some x) (pfs (blocks h)))(p := Some p)
    \<and> mFreeList h' = mFreeList h \<and> mInnerFreeMap h' = mInnerFreeMap h
    \<and> mTopLevelFreeMap h' = mTopLevelFreeMap h"
  using assms by (cases ys) (auto simp: takeBlockFromFreeList_def same_blocks_def)

lemma take_front_exec:
  assumes "p \<in> dom (blocks h)" and "p \<noteq> mNullBlock h" and "pfs (blocks h) p = None"
    and "nfs (blocks h) p = hd_or ys None" and "set ys \<subseteq> dom (blocks h)" and "p \<notin> set ys"
    and "0 < unat (sizs (blocks h) p)" and "list_index (unat (sizs (blocks h) p)) = i"
    and "i < length (mFreeList h)" and "length (mFreeList h) \<le> 1024"
    and "length (mInnerFreeMap h) = kMaxMemoryClass"
  defines "c \<equiv> class_of (unat (sizs (blocks h) p))" and "s \<equiv> second_of (unat (sizs (blocks h) p))"
  defines "inner \<equiv> (mInnerFreeMap h)[c := mInnerFreeMap h ! c AND NOT (push_bit s 1)]"
  shows "\<exists>h'. takeBlockFromFreeList p h = Some h' \<and> same_blocks h h'
    \<and> nfs (blocks h') = nfs (blocks h)
    \<and> pfs (blocks h') = (skip_prev ys None (pfs (blocks h)))(p := Some p)
    \<and> mFreeList h' = (mFreeList h)[i := hd_or ys None]
    \<and> mInnerFreeMap h' = (if ys = [] then inner else mInnerFreeMap h)
    \<and> mTopLevelFreeMap h' = (if ys = [] \<and> inner ! c = 0
         then mTopLevelFreeMap h AND NOT (push_bit c 1) else mTopLevelFreeMap h)"
proof -
  have "list_index (unat (sizs (blocks h) p)) < 1024" using assms(8-10) by simp
  note loc = list_locate [OF assms(7) this]
  have c: "c < length (mInnerFreeMap h)"
    using loc(4) assms(11) by (simp add: c_def kMaxMemoryClass_def kMemoryClassShift_def)
  show ?thesis
    using assms(1-11) loc c unfolding inner_def
    by (cases ys) (auto simp: takeBlockFromFreeList_def same_blocks_def set_list_def get_inner_def
        set_inner_def c_def s_def Let_def simp del: push_bit_of_1)
qed

lemma takeBlockFromFreeList_ok:
  assumes ok: "lists_ok h fl" and p: "p \<in> set (fl i)"
  shows "\<exists>h'. takeBlockFromFreeList p h = Some h' \<and> lists_ok h' (fl(i := remove1 p (fl i)))
    \<and> same_blocks h h' \<and> (\<forall>q. used h' q \<longleftrightarrow> used h q \<or> q = p)"
proof -
  obtain xs ys where f: "fl i = xs @ p # ys" using p by (meson split_list)
  have d: "distinct (xs @ p # ys)" "linked (nfs (blocks h)) (xs @ p # ys) None"
    "linked (pfs (blocks h)) (rev (xs @ p # ys)) None"
    using lists_okD(4-6) [OF ok, of i] unfolding f by auto
  have i: "i < length (mFreeList h)" using lists_okD(7) [OF ok p] .
  have mem: "\<And>q. q \<in> set (xs @ p # ys) \<Longrightarrow> q \<in> dom (blocks h) \<and> q \<noteq> mNullBlock h
       \<and> 0 < unat (sizs (blocks h) q) \<and> list_index (unat (sizs (blocks h) q)) = i"
    using lists_okD(8-11) [OF ok, of _ i] unfolding f by blast
  have fr: "\<And>q. q \<in> set (xs @ p # ys) \<Longrightarrow> pfs (blocks h) q \<noteq> Some q"
    using lists_ok_free [OF ok] by (auto simp: used_def simp flip: f)
  have other: "\<And>q j. q \<in> set (fl j) \<Longrightarrow> j \<noteq> i \<Longrightarrow> q \<notin> set (xs @ p # ys)"
    using lists_ok_index [OF ok] by (auto simp flip: f)
  have r: "remove1 p (fl i) = xs @ ys" using d(1) by (simp add: f remove1_append)
  have pf: "pfs (blocks h) p = hd_or (rev xs) None" and nf: "nfs (blocks h) p = hd_or ys None"
    using d by auto
  have ne: "(\<lambda>j. (fl(i := xs @ ys)) j \<noteq> []) = (if xs @ ys = [] then (\<lambda>j. fl j \<noteq> [])(i := False) else (\<lambda>j. fl j \<noteq> []))"
    by (auto simp: fun_eq_iff f)
  note maps = lists_okD(12) [OF ok]
  have pm: "p \<in> dom (blocks h)" "p \<noteq> mNullBlock h" using mem [of p] by simp_all
  have ysd: "set ys \<subseteq> dom (blocks h)" using mem by auto
  show ?thesis
  proof (cases xs rule: rev_cases)
    case Nil
    then have pfp: "pfs (blocks h) p = None" using pf by simp
    let ?n = "unat (sizs (blocks h) p)" and ?I = "mInnerFreeMap h"
    let ?c = "class_of ?n" and ?s = "second_of ?n"
    have n: "0 < ?n" "list_index ?n = i" "p \<notin> set ys" using mem [of p] d(1) by simp_all
    have cs: "?c < 32" "?s < 32" "i = ?c * 32 + ?s"
      using list_locate(4,5) [of "sizs (blocks h) p"] n i lists_okD(2) [OF ok] by (simp_all add: list_index_def)
    have l: "length ?I = kMaxMemoryClass" using maps by (simp add: maps_ok_def)
    obtain h' where h': "takeBlockFromFreeList p h = Some h'" "same_blocks h h'"
      "nfs (blocks h') = nfs (blocks h)"
      "pfs (blocks h') = (skip_prev ys None (pfs (blocks h)))(p := Some p)"
      "mFreeList h' = (mFreeList h)[i := hd_or ys None]"
      and m': "mInnerFreeMap h' = (if ys = [] then ?I[?c := ?I ! ?c AND NOT (push_bit ?s 1)] else ?I)"
      "mTopLevelFreeMap h' = (if ys = [] \<and> ?I[?c := ?I ! ?c AND NOT (push_bit ?s 1)] ! ?c = 0
         then mTopLevelFreeMap h AND NOT (push_bit ?c 1) else mTopLevelFreeMap h)"
      using take_front_exec [OF pm pfp nf ysd n(3,1,2) i lists_okD(2) [OF ok] l] by blast
    have m: "maps_ok (mInnerFreeMap h') (mTopLevelFreeMap h') (\<lambda>j. (fl(i := xs @ ys)) j \<noteq> [])"
      using m' Nil maps_ok_clear [OF maps cs(1,2)] maps cs(3) unfolding ne by (auto split: if_splits)
    have "lists_ok h' (fl(i := xs @ ys))"
    proof (rule lists_ok_upd [OF ok h'(2) i _ m])
      show "mFreeList h' = (mFreeList h)[i := hd_or (xs @ ys) None]" using h'(5) Nil by simp
      show "distinct (xs @ ys)" using d(1) by simp
      show "linked (nfs (blocks h')) (xs @ ys) None" using d(2) h'(3) Nil by simp
      show "linked (pfs (blocks h')) (rev (xs @ ys)) None" using d(1,3) h'(4) Nil by (cases ys) auto
      fix q j assume "q \<in> set (fl j)" "j \<noteq> i"
      then show "nfs (blocks h') q = nfs (blocks h) q \<and> pfs (blocks h') q = pfs (blocks h) q"
        using other [of q j] h'(3,4) by (cases ys) auto
    qed (use mem in simp)
    moreover have "used h' q \<longleftrightarrow> used h q \<or> q = p" for q
      using h'(4) d fr by (cases ys) (auto simp: used_def)
    ultimately show ?thesis using h'(1,2) r by auto
  next
    case (snoc zs x)
    have xp: "x \<in> dom (blocks h)" "pfs (blocks h) x \<noteq> Some x" "x \<noteq> p" "x \<notin> set ys" "p \<notin> set ys"
      using mem [of x] fr [of x] d(1) snoc by simp_all
    have pfx: "pfs (blocks h) p = Some x" using pf snoc by simp
    from take_middle_exec [OF pm pfx xp(3,1,2) nf ysd xp(4,5)]
    obtain h' where h': "takeBlockFromFreeList p h = Some h'" "same_blocks h h'"
      "nfs (blocks h') = (nfs (blocks h))(x := hd_or ys None)"
      "pfs (blocks h') = (skip_prev ys (Some x) (pfs (blocks h)))(p := Some p)"
      "mFreeList h' = mFreeList h" "mInnerFreeMap h' = mInnerFreeMap h"
      "mTopLevelFreeMap h' = mTopLevelFreeMap h" by blast
    have "lists_ok h' (fl(i := xs @ ys))"
    proof (rule lists_ok_upd [OF ok h'(2) i])
      show "mFreeList h' = (mFreeList h)[i := hd_or (xs @ ys) None]"
        using lists_okD(3) [OF ok i] h'(5) snoc f list_update_id [of "mFreeList h" i] by (cases zs) simp_all
      show "maps_ok (mInnerFreeMap h') (mTopLevelFreeMap h') (\<lambda>j. (fl(i := xs @ ys)) j \<noteq> [])"
        using maps h'(6,7) snoc unfolding ne by simp
      show "distinct (xs @ ys)" using d(1) by simp
      show "linked (nfs (blocks h')) (xs @ ys) None" using d(1,2) h'(3) snoc by simp
      show "linked (pfs (blocks h')) (rev (xs @ ys)) None" using d(1,3) h'(4) snoc by (cases ys) auto
    next
      fix q j assume "q \<in> set (fl j)" "j \<noteq> i"
      then show "nfs (blocks h') q = nfs (blocks h) q \<and> pfs (blocks h') q = pfs (blocks h) q"
        using other [of q j] h'(3,4) snoc by (cases ys) auto
    qed (use mem in simp)
    moreover have "used h' q \<longleftrightarrow> used h q \<or> q = p" for q
      using h'(4) d fr xp by (cases ys) (auto simp: used_def)
    ultimately show ?thesis using h'(1,2) r by auto
  qed
qed

text \<open>Inserting a block at the front of the list of its size.\<close>

lemma release_exec:
  assumes "p \<in> dom (blocks h)" and "p \<noteq> mNullBlock h" and "used h p"
    and "0 < unat (sizs (blocks h) p)" and "list_index (unat (sizs (blocks h) p)) = i"
    and "i < length (mFreeList h)" and "length (mFreeList h) \<le> 1024"
    and "mFreeList h ! i = hd_or ys None" and "set ys \<subseteq> dom (blocks h)" and "p \<notin> set ys"
    and "length (mInnerFreeMap h) = kMaxMemoryClass"
  defines "c \<equiv> class_of (unat (sizs (blocks h) p))" and "s \<equiv> second_of (unat (sizs (blocks h) p))"
  shows "\<exists>h'. releaseBlockToFreeList p h = Some h' \<and> same_blocks h h'
    \<and> nfs (blocks h') = (nfs (blocks h))(p := hd_or ys None)
    \<and> pfs (blocks h') = skip_prev ys (Some p) ((pfs (blocks h))(p := None))
    \<and> mFreeList h' = (mFreeList h)[i := Some p]
    \<and> mInnerFreeMap h' = (if ys = [] then (mInnerFreeMap h)[c := mInnerFreeMap h ! c OR push_bit s 1]
                          else mInnerFreeMap h)
    \<and> mTopLevelFreeMap h' = (if ys = [] then mTopLevelFreeMap h OR push_bit c 1 else mTopLevelFreeMap h)"
proof -
  have "list_index (unat (sizs (blocks h) p)) < 1024" using assms(5-7) by simp
  note loc = list_locate [OF assms(4) this]
  have c: "c < length (mInnerFreeMap h)"
    using loc(4) assms(11) by (simp add: c_def kMaxMemoryClass_def kMemoryClassShift_def)
  show ?thesis
    using assms(1-11) loc c
    by (cases ys) (auto simp: releaseBlockToFreeList_def same_blocks_def get_list_def set_list_def
        get_inner_def set_inner_def c_def s_def Let_def used_def simp del: push_bit_of_1)
qed

lemma releaseBlockToFreeList_ok:
  assumes ok: "lists_ok h fl" and pm: "p \<in> dom (blocks h)" "p \<noteq> mNullBlock h" and u: "used h p"
    and n: "0 < unat (sizs (blocks h) p)" "list_index (unat (sizs (blocks h) p)) = i"
    and i: "i < length (mFreeList h)"
  shows "\<exists>h'. releaseBlockToFreeList p h = Some h' \<and> lists_ok h' (fl(i := p # fl i))
    \<and> same_blocks h h' \<and> (\<forall>q. used h' q \<longleftrightarrow> used h q \<and> q \<noteq> p)"
proof -
  let ?n = "unat (sizs (blocks h) p)" and ?I = "mInnerFreeMap h"
  let ?c = "class_of ?n" and ?s = "second_of ?n"
  note maps = lists_okD(12) [OF ok]
  have np: "p \<notin> set (fl j)" for j using lists_ok_free [OF ok] u by blast
  have cs: "?c < 32" "?s < 32" "i = ?c * 32 + ?s"
    using list_locate(4,5) [of "sizs (blocks h) p"] n i lists_okD(2) [OF ok] by (simp_all add: list_index_def)
  have l: "length ?I = kMaxMemoryClass" using maps by (simp add: maps_ok_def)
  have ysd: "set (fl i) \<subseteq> dom (blocks h)" using lists_okD(8) [OF ok] by blast
  obtain h' where h': "releaseBlockToFreeList p h = Some h'" "same_blocks h h'"
    "nfs (blocks h') = (nfs (blocks h))(p := hd_or (fl i) None)"
    "pfs (blocks h') = skip_prev (fl i) (Some p) ((pfs (blocks h))(p := None))"
    "mFreeList h' = (mFreeList h)[i := Some p]"
    and m': "mInnerFreeMap h' = (if fl i = [] then ?I[?c := ?I ! ?c OR push_bit ?s 1] else ?I)"
    "mTopLevelFreeMap h' = (if fl i = [] then mTopLevelFreeMap h OR push_bit ?c 1 else mTopLevelFreeMap h)"
    using release_exec [OF pm u n i lists_okD(2,3) [OF ok] ysd np l] i by blast
  have ne: "(\<lambda>j. (fl(i := p # fl i)) j \<noteq> []) = (\<lambda>j. fl j \<noteq> [])(i := True)"
    by (auto simp: fun_eq_iff)
  have ne': "(\<lambda>j. fl j \<noteq> [])(i := True) = (\<lambda>j. fl j \<noteq> [])" if "fl i \<noteq> []"
    using that by (auto simp: fun_eq_iff)
  have m: "maps_ok (mInnerFreeMap h') (mTopLevelFreeMap h') (\<lambda>j. (fl(i := p # fl i)) j \<noteq> [])"
    using m' maps_ok_set [OF maps cs(1,2)] maps cs(3) ne' unfolding ne by (auto split: if_splits)
  have lk: "distinct (fl i)" "linked (nfs (blocks h)) (fl i) None" "linked (pfs (blocks h)) (rev (fl i)) None"
    using lists_okD(4-6) [OF ok] by auto
  have "lists_ok h' (fl(i := p # fl i))"
  proof (rule lists_ok_upd [OF ok h'(2) i _ m])
    show "mFreeList h' = (mFreeList h)[i := hd_or (p # fl i) None]" using h'(5) by simp
    show "distinct (p # fl i)" using lk(1) np by simp
    show "linked (nfs (blocks h')) (p # fl i) None" using lk(2) h'(3) np by simp
    show "linked (pfs (blocks h')) (rev (p # fl i)) None"
      using lk(1,3) h'(4) np [of i] by (cases "fl i") auto
    fix q j assume "q \<in> set (fl j)" "j \<noteq> i"
    then show "nfs (blocks h') q = nfs (blocks h) q \<and> pfs (blocks h') q = pfs (blocks h) q"
      using h'(3,4) np [of j] lists_ok_index [OF ok, of q j i] by (cases "fl i") auto
  qed (use lists_okD(8-11) [OF ok] pm n in auto)
  moreover have "used h' q \<longleftrightarrow> used h q \<and> q \<noteq> p" for q
    using h'(4) lists_ok_free [OF ok, of q i] np [of i] by (cases "fl i") (auto simp: used_def)
  ultimately show ?thesis using h'(1,2) by auto
qed

text \<open>Moving a block to the front of its list.\<close>

lemma detach_exec:
  assumes "p \<in> dom (blocks h)" and "pfs (blocks h) p = Some x" and "x \<noteq> p"
    and "x \<in> dom (blocks h)" and "pfs (blocks h) x \<noteq> Some x" and "nfs (blocks h) p = hd_or ys None"
    and "set ys \<subseteq> dom (blocks h)" and "x \<notin> set ys" and "p \<notin> set ys" and "a \<notin> set ys"
    and "mFreeList h ! unat li = Some a" and "a \<in> dom (blocks h)" and "a \<noteq> p"
    and "unat li < length (mFreeList h)" and "li \<noteq> mFreeListCount h"
  shows "\<exists>h'. detachBlock p li h = Some h' \<and> same_blocks h h'
    \<and> nfs (blocks h') = (nfs (blocks h))(x := hd_or ys None, p := Some a)
    \<and> pfs (blocks h') = (skip_prev ys (Some x) (pfs (blocks h)))(p := None, a := Some p)
    \<and> mFreeList h' = (mFreeList h)[unat li := Some p] \<and> mInnerFreeMap h' = mInnerFreeMap h
    \<and> mTopLevelFreeMap h' = mTopLevelFreeMap h"
  using assms by (cases ys) (auto simp: detachBlock_def same_blocks_def get_list_def set_list_def)

lemma detachBlock_ok:
  assumes ok: "lists_ok h fl" and p: "p \<in> set (fl i)" and li: "unat li = i \<or> li = mFreeListCount h"
  shows "\<exists>h'. detachBlock p li h = Some h' \<and> (\<exists>zs. set zs = set (fl i) \<and> lists_ok h' (fl(i := zs)))
    \<and> same_blocks h h' \<and> (\<forall>q. used h' q \<longleftrightarrow> used h q)"
proof -
  obtain xs ys where f: "fl i = xs @ p # ys" using p by (meson split_list)
  have d: "distinct (xs @ p # ys)" "linked (nfs (blocks h)) (xs @ p # ys) None"
    "linked (pfs (blocks h)) (rev (xs @ p # ys)) None"
    using lists_okD(4-6) [OF ok, of i] unfolding f by auto
  have i: "i < length (mFreeList h)" using lists_okD(7) [OF ok p] .
  have mem: "\<And>q. q \<in> set (xs @ p # ys) \<Longrightarrow> q \<in> dom (blocks h) \<and> q \<noteq> mNullBlock h
       \<and> 0 < unat (sizs (blocks h) q) \<and> list_index (unat (sizs (blocks h) q)) = i"
    using lists_okD(8-11) [OF ok, of _ i] unfolding f by blast
  have fr: "\<And>q. q \<in> set (xs @ p # ys) \<Longrightarrow> pfs (blocks h) q \<noteq> Some q"
    using lists_ok_free [OF ok] by (auto simp: used_def simp flip: f)
  have pm: "p \<in> dom (blocks h)" using mem [of p] by simp
  show ?thesis
  proof (cases "xs = [] \<or> li = mFreeListCount h")
    case True
    have "detachBlock p li h = Some h"
      using True pm d(3) by (auto simp: detachBlock_def split: prod.splits option.splits bool.splits)
    moreover have "fl(i := fl i) = fl" by simp
    ultimately show ?thesis using ok by (auto simp: same_blocks_def)
  next
    case False
    then obtain zs x where xs: "xs = zs @ [x]" by (cases xs rule: rev_cases) auto
    obtain a as where a: "xs = a # as" using False by (cases xs) auto
    have xa: "x \<in> set xs" "a \<in> set xs" using xs by simp (simp add: a)
    have li': "unat li = i" "li \<noteq> mFreeListCount h" using li False by auto
    have xp: "x \<in> dom (blocks h)" "pfs (blocks h) x \<noteq> Some x" "x \<noteq> p" "x \<notin> set ys" "p \<notin> set ys"
      using mem [of x] fr [of x] d(1) xs by auto
    have ap: "a \<in> dom (blocks h)" "a \<noteq> p" "a \<notin> set ys" using mem [of a] d(1) a by auto
    have pfx: "pfs (blocks h) p = Some x" and nf: "nfs (blocks h) p = hd_or ys None"
      and ysd: "set ys \<subseteq> dom (blocks h)" using d f xs mem by auto
    have head: "mFreeList h ! i = Some a" using lists_okD(3) [OF ok i] f a by simp
    from detach_exec [OF pm pfx xp(3,1,2) nf ysd xp(4,5) ap(3), of li] head ap i li'
    obtain h' where h': "detachBlock p li h = Some h'" "same_blocks h h'"
      "nfs (blocks h') = (nfs (blocks h))(x := hd_or ys None, p := Some a)"
      "pfs (blocks h') = (skip_prev ys (Some x) (pfs (blocks h)))(p := None, a := Some p)"
      "mFreeList h' = (mFreeList h)[i := Some p]" "mInnerFreeMap h' = mInnerFreeMap h"
      "mTopLevelFreeMap h' = mTopLevelFreeMap h" by auto
    have ne: "(\<lambda>j. (fl(i := p # xs @ ys)) j \<noteq> []) = (\<lambda>j. fl j \<noteq> [])" by (auto simp: fun_eq_iff f)
    have "lists_ok h' (fl(i := p # xs @ ys))"
    proof (rule lists_ok_upd [OF ok h'(2) i])
      show "mFreeList h' = (mFreeList h)[i := hd_or (p # xs @ ys) None]" using h'(5) by simp
      show "maps_ok (mInnerFreeMap h') (mTopLevelFreeMap h') (\<lambda>j. (fl(i := p # xs @ ys)) j \<noteq> [])"
        using lists_okD(12) [OF ok] h'(6,7) unfolding ne by simp
      show "distinct (p # xs @ ys)" using d(1) by auto
      have "linked (nfs (blocks h')) (xs @ ys) None" using d(1,2) h'(3) xs by simp
      then show "linked (nfs (blocks h')) (p # xs @ ys) None" using h'(3) a xp(3) by simp
      have "linked ((skip_prev ys (Some x) (pfs (blocks h)))(p := None)) (rev (xs @ ys)) None"
        using d(1,3) xs by (cases ys) auto
      then have "linked ((skip_prev ys (Some x) (pfs (blocks h)))(p := None)) (rev (as @ ys)) (Some a)" by (simp add: a)
      then show "linked (pfs (blocks h')) (rev (p # xs @ ys)) None" using d(1) h'(4) a by auto
      fix q j assume q: "q \<in> set (fl j)" "j \<noteq> i"
      then have "q \<notin> set (xs @ p # ys)" using lists_ok_index [OF ok, of q j i] f by auto
      then have "q \<notin> set (xs @ p # ys)" "q \<noteq> x" "q \<noteq> a" using xa by auto
      then show "nfs (blocks h') q = nfs (blocks h) q \<and> pfs (blocks h') q = pfs (blocks h) q"
        using h'(3,4) by (cases ys) auto
    qed (use mem in auto)
    moreover have "used h' q \<longleftrightarrow> used h q" for q
      using h'(4) d(1) fr [of q] xp ap a by (cases ys) (auto simp: used_def)
    moreover have "set (p # xs @ ys) = set (fl i)" using f by auto
    ultimately show ?thesis using h'(1,2) by blast
  qed
qed

end
