(* ===== verification/TlsfInv.thy ===== *)
theory TlsfInv
  imports TlsfLists
begin

text \<open>
  The invariant of the heap and the operations that keep the set of blocks: \<open>tlsf_inv\<close> says that
  the blocks, in the order of their links, tile the managed range without gap or overlap, that the
  null block is the last of them and free, that the free blocks are exactly the members of the
  free lists, that no two neighbours are both free, and that the store holds exactly these blocks
  and the spare ones. \<open>heap_ok\<close> is the invariant between operations; \<open>live\<close> is the abstract state:
  the allocations with their offset and size.
\<close>

section \<open>Blocks in address order\<close>

fun tiles :: "(ptr \<Rightarrow> size_t) \<Rightarrow> (ptr \<Rightarrow> size_t) \<Rightarrow> ptr list \<Rightarrow> nat \<Rightarrow> bool" where
  "tiles off siz [] b \<longleftrightarrow> True"
| "tiles off siz (p # ps) b \<longleftrightarrow> unat (off p) = b \<and> tiles off siz ps (b + unat (siz p))"

fun extent :: "(ptr \<Rightarrow> size_t) \<Rightarrow> ptr list \<Rightarrow> nat" where
  "extent siz [] = 0"
| "extent siz (p # ps) = unat (siz p) + extent siz ps"

fun apart :: "(ptr \<Rightarrow> bool) \<Rightarrow> ptr list \<Rightarrow> bool" where
  "apart u (p # q # ps) \<longleftrightarrow> (u p \<or> u q) \<and> apart u (q # ps)"
| "apart u _ \<longleftrightarrow> True"

lemma extent_append [simp]: "extent siz (xs @ ys) = extent siz xs + extent siz ys"
  by (induction xs) auto

lemma tiles_append [simp]:
  "tiles off siz (xs @ ys) b \<longleftrightarrow> tiles off siz xs b \<and> tiles off siz ys (b + extent siz xs)"
  by (induction xs arbitrary: b) (auto simp: add.assoc)

lemma tiles_upd [simp]:
  "p \<notin> set xs \<Longrightarrow> tiles (off(p := v)) siz xs b = tiles off siz xs b"
  "p \<notin> set xs \<Longrightarrow> tiles off (siz(p := v)) xs b = tiles off siz xs b"
  by (induction xs arbitrary: b) auto

lemma extent_upd [simp]: "p \<notin> set xs \<Longrightarrow> extent (siz(p := v)) xs = extent siz xs"
  by (induction xs) auto

lemma apart_snoc: "apart u (xs @ [y, z]) \<longleftrightarrow> apart u (xs @ [y]) \<and> (u y \<or> u z)"
  by (induction u xs rule: apart.induct) auto

lemma apart_append: "apart u (xs @ y # ys) \<longleftrightarrow> apart u (xs @ [y]) \<and> apart u (y # ys)"
  by (induction u xs rule: apart.induct) auto

lemma apart_cong: "(\<And>x. x \<in> set xs \<Longrightarrow> u x = v x) \<Longrightarrow> apart u xs = apart v xs"
  by (induction u xs rule: apart.induct) auto

lemma apart_mono: "apart u xs \<Longrightarrow> (\<And>x. x \<in> set xs \<Longrightarrow> u x \<Longrightarrow> v x) \<Longrightarrow> apart v xs"
  by (induction u xs rule: apart.induct) auto

lemma apart_used_middle: "u y \<Longrightarrow> apart u (xs @ [y]) \<longleftrightarrow> apart u xs"
  by (induction u xs rule: apart.induct) auto

lemma extent_member: "p \<in> set xs \<Longrightarrow> unat (siz p) \<le> extent siz xs"
  by (induction xs) auto

text \<open>The doubly linked list of all blocks, tiling \<open>tot\<close> bytes from \<open>base\<close>.\<close>

definition phys :: "store \<Rightarrow> ptr list \<Rightarrow> nat \<Rightarrow> nat \<Rightarrow> bool" where
  "phys m bs base tot \<longleftrightarrow>
     distinct bs \<and> linked (succs m) bs None \<and> linked (prevs m) (rev bs) None
     \<and> tiles (offs m) (sizs m) bs base \<and> extent (sizs m) bs = tot"

lemma phys_cong:
  assumes "offs m' = offs m" and "sizs m' = sizs m" and "prevs m' = prevs m" and "succs m' = succs m"
  shows "phys m' bs base tot = phys m bs base tot"
  using assms by (simp add: phys_def)

section \<open>The invariant\<close>

definition tlsf_core :: "nat \<Rightarrow> tlsf_heap \<Rightarrow> ptr list \<Rightarrow> (nat \<Rightarrow> ptr list) \<Rightarrow> ptr set \<Rightarrow> bool" where
  "tlsf_core base h ps fl spare \<longleftrightarrow>
     phys (blocks h) (ps @ [mNullBlock h]) base (unat (mSize h)) \<and> base + unat (mSize h) < 2 ^ 64
     \<and> (\<forall>p \<in> set ps. 0 < unat (sizs (blocks h) p))
     \<and> lists_ok h fl \<and> list_index (unat (mSize h)) < length (mFreeList h)
     \<and> (\<forall>p \<in> set ps. used h p \<or> (\<exists>i. p \<in> set (fl i))) \<and> (\<forall>i. set (fl i) \<subseteq> set ps)
     \<and> \<not> used h (mNullBlock h)
     \<and> dom (blocks h) = set (ps @ [mNullBlock h]) \<union> spare \<and> set (ps @ [mNullBlock h]) \<inter> spare = {}
     \<and> (\<forall>p \<in> spare. \<not> used h p) \<and> pool_rel (mBlockPool h) (dom (blocks h))"

definition tlsf_inv :: "nat \<Rightarrow> tlsf_heap \<Rightarrow> ptr list \<Rightarrow> (nat \<Rightarrow> ptr list) \<Rightarrow> ptr set \<Rightarrow> bool" where
  "tlsf_inv base h ps fl spare \<longleftrightarrow>
     tlsf_core base h ps fl spare \<and> apart (used h) (ps @ [mNullBlock h])"

definition heap_ok :: "nat \<Rightarrow> tlsf_heap \<Rightarrow> bool" where
  "heap_ok base h \<longleftrightarrow> (\<exists>ps fl. tlsf_inv base h ps fl {})"

definition live :: "tlsf_heap \<Rightarrow> ptr \<rightharpoonup> size_t \<times> size_t" where
  "live h p = (case blocks h p of
                 None \<Rightarrow> None
               | Some b \<Rightarrow> if isUsed p b then Some (blk_offset b, blk_size b) else None)"

lemma tlsf_coreD:
  assumes "tlsf_core base h ps fl spare"
  shows core_phys: "phys (blocks h) (ps @ [mNullBlock h]) base (unat (mSize h))"
    and core_bound: "base + unat (mSize h) < 2 ^ 64"
    and core_size: "\<And>p. p \<in> set ps \<Longrightarrow> 0 < unat (sizs (blocks h) p)"
    and core_lists: "lists_ok h fl"
    and core_index: "list_index (unat (mSize h)) < length (mFreeList h)"
    and core_listed: "\<And>p. p \<in> set ps \<Longrightarrow> used h p \<or> (\<exists>i. p \<in> set (fl i))"
    and core_sub: "\<And>i. set (fl i) \<subseteq> set ps"
    and core_null: "\<not> used h (mNullBlock h)"
    and core_dom: "dom (blocks h) = set (ps @ [mNullBlock h]) \<union> spare"
    and core_disj: "set (ps @ [mNullBlock h]) \<inter> spare = {}"
    and core_spare: "\<And>p. p \<in> spare \<Longrightarrow> \<not> used h p"
    and core_pool: "pool_rel (mBlockPool h) (dom (blocks h))"
  using assms unfolding tlsf_core_def by blast+

lemma tlsf_coreI:
  assumes "phys (blocks h) (ps @ [mNullBlock h]) base (unat (mSize h))" "base + unat (mSize h) < 2 ^ 64"
    "\<And>p. p \<in> set ps \<Longrightarrow> 0 < unat (sizs (blocks h) p)"
    "lists_ok h fl" "list_index (unat (mSize h)) < length (mFreeList h)"
    "\<And>p. p \<in> set ps \<Longrightarrow> used h p \<or> (\<exists>i. p \<in> set (fl i))" "\<And>i. set (fl i) \<subseteq> set ps"
    "\<not> used h (mNullBlock h)"
    "dom (blocks h) = set (ps @ [mNullBlock h]) \<union> spare" "set (ps @ [mNullBlock h]) \<inter> spare = {}"
    "\<And>p. p \<in> spare \<Longrightarrow> \<not> used h p" "pool_rel (mBlockPool h) (dom (blocks h))"
  shows "tlsf_core base h ps fl spare"
  using assms unfolding tlsf_core_def by blast

lemma inv_core: "tlsf_inv base h ps fl spare \<Longrightarrow> tlsf_core base h ps fl spare"
  and inv_apart: "tlsf_inv base h ps fl spare \<Longrightarrow> apart (used h) (ps @ [mNullBlock h])"
  by (simp_all add: tlsf_inv_def)

lemmas inv_phys = core_phys [OF inv_core] and inv_bound = core_bound [OF inv_core]
  and inv_size = core_size [OF inv_core] and inv_lists = core_lists [OF inv_core]
  and inv_listed = core_listed [OF inv_core] and inv_null = core_null [OF inv_core]
  and inv_dom = core_dom [OF inv_core]

lemma core_distinct: "tlsf_core base h ps fl spare \<Longrightarrow> distinct (ps @ [mNullBlock h])"
  using core_phys by (simp add: phys_def)

lemmas inv_distinct = core_distinct [OF inv_core]

lemma live_alt: "live h p = (if p \<in> dom (blocks h) \<and> used h p
    then Some (offs (blocks h) p, sizs (blocks h) p) else None)"
  by (cases "blocks h p") (auto simp: live_def used_def pfs_def offs_def sizs_def cell_def isUsed_def)

lemma live_in_dom: "live h p = Some r \<Longrightarrow> p \<in> dom (blocks h) \<and> used h p"
  by (auto simp: live_alt split: if_splits)

text \<open>A used block is one of the blocks before the null block.\<close>

lemma used_in_blocks:
  assumes "tlsf_core base h ps fl spare" and "live h p = Some r"
  shows "p \<in> set ps" and "used h p"
  using live_in_dom [OF assms(2)] core_null [OF assms(1)] core_dom [OF assms(1)] core_spare [OF assms(1)]
  by auto

lemma block_list_index:
  assumes "tlsf_core base h ps fl spare" and "p \<in> set ps"
  shows "list_index (unat (sizs (blocks h) p)) < length (mFreeList h)"
proof -
  have "0 < unat (sizs (blocks h) p)" using core_size [OF assms] .
  moreover have "unat (sizs (blocks h) p) \<le> unat (mSize h)"
    using extent_member [OF assms(2), of "sizs (blocks h)"] core_phys [OF assms(1)] by (simp add: phys_def)
  ultimately show ?thesis using list_index_mono core_index [OF assms(1)] by (metis le_less_trans)
qed

section \<open>Taking and releasing blocks\<close>

text \<open>An operation on the free lists keeps the physical part of the invariant.\<close>

lemma same_blocks_core:
  assumes inv: "tlsf_core base h ps fl spare" and s: "same_blocks h h'" and ok: "lists_ok h' fl'"
    and "\<And>p. p \<in> set ps \<Longrightarrow> used h' p \<or> (\<exists>i. p \<in> set (fl' i))" and "\<And>i. set (fl' i) \<subseteq> set ps"
    and "\<And>q. q \<notin> set ps \<Longrightarrow> used h' q \<Longrightarrow> used h q"
  shows "tlsf_core base h' ps fl' spare"
proof (rule tlsf_coreI)
  have l: "length (mFreeList h') = length (mFreeList h)"
    using lists_okD(1) [OF ok] lists_okD(1) [OF core_lists [OF inv]] s by (simp add: same_blocks_def)
  then show "list_index (unat (mSize h')) < length (mFreeList h')"
    using core_index [OF inv] s by (simp add: same_blocks_def)
  show "phys (blocks h') (ps @ [mNullBlock h']) base (unat (mSize h'))"
    using core_phys [OF inv] s phys_cong [of "blocks h'" "blocks h"] by (simp add: same_blocks_def)
  show "\<not> used h' (mNullBlock h')"
    using core_null [OF inv] core_distinct [OF inv] s assms(6) by (auto simp: same_blocks_def)
  show "\<not> used h' q" if "q \<in> spare" for q
    using core_spare [OF inv that] core_disj [OF inv] that assms(6) by auto
qed (use s assms(4,5) core_bound [OF inv] core_size [OF inv] core_dom [OF inv] core_disj [OF inv]
  core_pool [OF inv] ok in \<open>simp_all add: same_blocks_def\<close>)

lemma take_core:
  assumes inv: "tlsf_core base h ps fl spare" and p: "p \<in> set ps" and f: "\<not> used h p"
  shows "\<exists>h' fl'. takeBlockFromFreeList p h = Some h' \<and> tlsf_core base h' ps fl' spare
    \<and> same_blocks h h' \<and> (\<forall>q. used h' q \<longleftrightarrow> used h q \<or> q = p)"
proof -
  obtain i where i: "p \<in> set (fl i)" using core_listed [OF inv p] f by blast
  obtain h' where h': "takeBlockFromFreeList p h = Some h'" "lists_ok h' (fl(i := remove1 p (fl i)))"
    "same_blocks h h'" "\<And>q. used h' q \<longleftrightarrow> used h q \<or> q = p"
    using takeBlockFromFreeList_ok [OF core_lists [OF inv] i] by blast
  have "tlsf_core base h' ps (fl(i := remove1 p (fl i))) spare"
  proof (rule same_blocks_core [OF inv h'(3,2)])
    show "used h' q \<or> (\<exists>j. q \<in> set ((fl(i := remove1 p (fl i))) j))" if "q \<in> set ps" for q
      using core_listed [OF inv that] h'(4) by (cases "q = p") (auto, metis)
    show "set ((fl(i := remove1 p (fl i))) j) \<subseteq> set ps" for j
      using core_sub [OF inv] by (auto dest: set_remove1_subset [THEN subsetD])
  qed (use h'(4) p in auto)
  then show ?thesis using h' by blast
qed

lemma release_core:
  assumes inv: "tlsf_core base h ps fl spare" and p: "p \<in> set ps" and u: "used h p"
  shows "\<exists>h' fl'. releaseBlockToFreeList p h = Some h' \<and> tlsf_core base h' ps fl' spare
    \<and> same_blocks h h' \<and> (\<forall>q. used h' q \<longleftrightarrow> used h q \<and> q \<noteq> p)"
proof -
  define i where "i = list_index (unat (sizs (blocks h) p))"
  have pd: "p \<in> dom (blocks h)" "p \<noteq> mNullBlock h" using core_distinct [OF inv] core_dom [OF inv] p by auto
  obtain h' where h': "releaseBlockToFreeList p h = Some h'" "lists_ok h' (fl(i := p # fl i))"
    "same_blocks h h'" "\<And>q. used h' q \<longleftrightarrow> used h q \<and> q \<noteq> p"
    using releaseBlockToFreeList_ok [OF core_lists [OF inv] pd u core_size [OF inv p], of i]
      block_list_index [OF inv p] by (auto simp: i_def)
  have "tlsf_core base h' ps (fl(i := p # fl i)) spare"
  proof (rule same_blocks_core [OF inv h'(3,2)])
    show "used h' q \<or> (\<exists>j. q \<in> set ((fl(i := p # fl i)) j))" if "q \<in> set ps" for q
      using core_listed [OF inv that] h'(4) by (auto, metis)
    show "set ((fl(i := p # fl i)) j) \<subseteq> set ps" for j
      using core_sub [OF inv] p by auto
  qed (use h'(4) in auto)
  then show ?thesis using h' by blast
qed

lemma live_take:
  assumes "same_blocks h h'" and "\<forall>q. used h' q \<longleftrightarrow> used h q \<or> q = p" and "p \<in> dom (blocks h)"
  shows "live h' = (live h)(p \<mapsto> (offs (blocks h) p, sizs (blocks h) p))"
  using assms by (auto simp: live_alt fun_eq_iff same_blocks_def)

lemma live_release:
  assumes "same_blocks h h'" and "\<forall>q. used h' q \<longleftrightarrow> used h q \<and> q \<noteq> p"
  shows "live h' = (live h)(p := None)"
  using assms by (auto simp: live_alt fun_eq_iff same_blocks_def)

lemma take_inv:
  assumes inv: "tlsf_inv base h ps fl spare" and p: "p \<in> set ps" and f: "\<not> used h p"
  shows "\<exists>h' fl'. takeBlockFromFreeList p h = Some h' \<and> tlsf_inv base h' ps fl' spare
    \<and> same_blocks h h' \<and> (\<forall>q. used h' q \<longleftrightarrow> used h q \<or> q = p)
    \<and> live h' = (live h)(p \<mapsto> (offs (blocks h) p, sizs (blocks h) p))"
proof -
  obtain h' fl' where h': "takeBlockFromFreeList p h = Some h'" "tlsf_core base h' ps fl' spare"
    "same_blocks h h'" "\<forall>q. used h' q \<longleftrightarrow> used h q \<or> q = p"
    using take_core [OF inv_core [OF inv] p f] by blast
  have "apart (used h') (ps @ [mNullBlock h'])"
    using apart_mono [OF inv_apart [OF inv], of "used h'"] h'(3,4) by (simp add: same_blocks_def)
  moreover have "p \<in> dom (blocks h)" using p inv_dom [OF inv] by simp
  ultimately show ?thesis using h' live_take [OF h'(3,4)] by (auto simp: tlsf_inv_def)
qed

lemma release_inv:
  assumes inv: "tlsf_inv base h ps fl spare" and p: "p \<in> set ps" and u: "used h p"
    and ap: "apart (\<lambda>q. used h q \<and> q \<noteq> p) (ps @ [mNullBlock h])"
  shows "\<exists>h' fl'. releaseBlockToFreeList p h = Some h' \<and> tlsf_inv base h' ps fl' spare
    \<and> same_blocks h h' \<and> (\<forall>q. used h' q \<longleftrightarrow> used h q \<and> q \<noteq> p) \<and> live h' = (live h)(p := None)"
proof -
  obtain h' fl' where h': "releaseBlockToFreeList p h = Some h'" "tlsf_core base h' ps fl' spare"
    "same_blocks h h'" "\<forall>q. used h' q \<longleftrightarrow> used h q \<and> q \<noteq> p"
    using release_core [OF inv_core [OF inv] p u] by blast
  have "apart (used h') (ps @ [mNullBlock h'])"
    using apart_mono [OF ap, of "used h'"] h'(3,4) by (simp add: same_blocks_def)
  then show ?thesis using h' live_release [OF h'(3,4)] by (auto simp: tlsf_inv_def)
qed

section \<open>Merging\<close>

lemma lists_ok_frame:
  assumes "lists_ok h fl" and "mFreeList h' = mFreeList h" and "mFreeListCount h' = mFreeListCount h"
    and "mInnerFreeMap h' = mInnerFreeMap h" and "mTopLevelFreeMap h' = mTopLevelFreeMap h"
    and fr: "\<And>i p. p \<in> set (fl i) \<Longrightarrow> p \<in> dom (blocks h') \<and> p \<noteq> mNullBlock h'
      \<and> nfs (blocks h') p = nfs (blocks h) p \<and> pfs (blocks h') p = pfs (blocks h) p
      \<and> sizs (blocks h') p = sizs (blocks h) p"
  shows "lists_ok h' fl"
proof -
  have "linked (nfs (blocks h')) (fl i) None \<and> linked (pfs (blocks h')) (rev (fl i)) None" for i
    using lists_okD(5,6) [OF assms(1), of i] fr
      linked_cong [of "fl i" "nfs (blocks h')" "nfs (blocks h)"]
      linked_cong [of "rev (fl i)" "pfs (blocks h')" "pfs (blocks h)"] by auto
  then show ?thesis
    using lists_okD [OF assms(1)] assms(2-5) fr unfolding lists_ok_def by auto
qed

text \<open>
  Executing \<^verbatim>\<open>mergeBlock(block, prev)\<close>: the fields of the destroyed block have no meaning
  afterwards; \<open>j\<close> stands for them.
\<close>

lemma merge_exec:
  assumes "p \<in> dom (blocks h)" and "q \<in> dom (blocks h)" and "p \<noteq> q" and "prevs (blocks h) p = Some q"
    and "used h q" and "prevs (blocks h) q = hd_or xs None" and "set xs \<subseteq> dom (blocks h)"
    and "p \<notin> set xs" and "q \<notin> set xs" and "pool_rel (mBlockPool h) (dom (blocks h))"
  shows "\<exists>pool (j :: tlsf_block) h'. mergeBlock p q h = Some h' \<and> pool_rel pool (dom (blocks h) - {q})
    \<and> dom (blocks h') = dom (blocks h) - {q}
    \<and> offs (blocks h') = (offs (blocks h))(p := offs (blocks h) q, q := blk_offset j)
    \<and> sizs (blocks h') = (sizs (blocks h))(p := sizs (blocks h) p + sizs (blocks h) q, q := blk_size j)
    \<and> prevs (blocks h') = (prevs (blocks h))(p := hd_or xs None, q := blk_prev j)
    \<and> succs (blocks h') = (skip_prev xs (Some p) (succs (blocks h)))(q := blk_next j)
    \<and> nfs (blocks h') = (nfs (blocks h))(q := blk_nextFree j)
    \<and> pfs (blocks h') = (pfs (blocks h))(q := blk_prevFree j)
    \<and> h' = h\<lparr>blocks := blocks h', mBlockPool := pool\<rparr>"
proof -
  obtain pool where pool: "release (mBlockPool h) q = Some pool" "pool_rel pool (dom (blocks h) - {q})"
    using block_pool.free_rel [OF assms(10,2)] by blast
  show ?thesis
    using assms(1-9) pool
    by (intro exI [of _ pool] exI [of _ "the None :: tlsf_block"], cases xs)
      (auto simp: mergeBlock_def destroy_def used_def)
qed

lemma apart_cases:
  assumes "apart u (xs @ q # p # ys)" and "apart u (xs @ [p])"
  shows "apart u (xs @ p # ys)"
  using assms apart_append [of u "xs @ [q]" p ys] apart_append [of u xs p ys] by simp

lemma phys_merge:
  assumes ph: "phys m (xs @ q # p # ys) base tot" and b: "tot < 2 ^ 64"
    and "offs m' = (offs m)(p := offs m q, q := jo)"
    and "sizs m' = (sizs m)(p := sizs m p + sizs m q, q := js)"
    and "prevs m' = (prevs m)(p := hd_or (rev xs) None, q := jp)"
    and "succs m' = (skip_prev (rev xs) (Some p) (succs m))(q := jn)"
  shows "phys m' (xs @ p # ys) base tot"
proof -
  have d: "distinct (xs @ q # p # ys)" using ph by (simp add: phys_def)
  have sz: "unat (sizs m p + sizs m q) = unat (sizs m p) + unat (sizs m q)"
    using ph b by (intro unat_add_small) (simp add: phys_def)
  have "linked (skip_prev (rev xs) (Some p) (succs m)) xs (Some p)"
    "linked (skip_prev (rev xs) (Some p) (succs m)) (p # ys) None"
    using ph d by (cases xs rule: rev_cases; auto simp: phys_def)+
  then have "linked (succs m') (xs @ p # ys) None" using d assms(6) by auto
  moreover have "linked (prevs m') (rev (xs @ p # ys)) None"
    using ph d assms(5) by (auto simp: phys_def)
  moreover have "tiles (offs m') (sizs m') (xs @ p # ys) base" "extent (sizs m') (xs @ p # ys) = tot"
    using ph d sz assms(3,4) by (auto simp: phys_def ac_simps)
  ultimately show ?thesis using d by (auto simp: phys_def)
qed

text \<open>Two neighbours become one; the second is used, or it is the null block.\<close>

lemma merge_inv:
  assumes inv: "tlsf_inv base h ps fl spare"
    and bs: "ps @ [mNullBlock h] = xs @ q # p # ys" "ps' @ [mNullBlock h] = xs @ p # ys"
    and u: "used h q" "used h p \<or> p = mNullBlock h" and ap: "apart (used h) (xs @ [p])"
  shows "\<exists>h'. mergeBlock p q h = Some h' \<and> tlsf_inv base h' ps' fl spare
    \<and> mNullBlock h' = mNullBlock h \<and> mMallocCount h' = mMallocCount h \<and> mFreeCount h' = mFreeCount h
    \<and> mSize h' = mSize h \<and> (\<forall>r. r \<noteq> q \<longrightarrow> used h' r = used h r)
    \<and> live h' = (if p = mNullBlock h then (live h)(q := None)
        else (live h)(q := None, p \<mapsto> (offs (blocks h) q, sizs (blocks h) p + sizs (blocks h) q)))"
proof -
  let ?m = "blocks h"
  note D = tlsf_coreD [OF inv_core [OF inv]]
  have ph: "phys ?m (xs @ q # p # ys) base (unat (mSize h))" and d: "dom ?m = set (xs @ q # p # ys) \<union> spare"
    and ap': "apart (used h) (xs @ q # p # ys)"
    using D(1,9) inv_apart [OF inv] unfolding bs by auto
  then have dq: "distinct (xs @ q # p # ys)" "prevs ?m p = Some q" "prevs ?m q = hd_or (rev xs) None"
    by (auto simp: phys_def)
  obtain pool h' j where h': "mergeBlock p q h = Some h'" "pool_rel pool (dom ?m - {q})"
    "dom (blocks h') = dom ?m - {q}" "offs (blocks h') = (offs ?m)(p := offs ?m q, q := blk_offset (j :: tlsf_block))"
    "sizs (blocks h') = (sizs ?m)(p := sizs ?m p + sizs ?m q, q := blk_size j)"
    "prevs (blocks h') = (prevs ?m)(p := hd_or (rev xs) None, q := blk_prev j)"
    "succs (blocks h') = (skip_prev (rev xs) (Some p) (succs ?m))(q := blk_next j)"
    "nfs (blocks h') = (nfs ?m)(q := blk_nextFree j)" "pfs (blocks h') = (pfs ?m)(q := blk_prevFree j)"
    "h' = h\<lparr>blocks := blocks h', mBlockPool := pool\<rparr>"
    using merge_exec [of p h q "rev xs"] d dq u(1) D(12) by auto
  have f: "mNullBlock h' = mNullBlock h" "mMallocCount h' = mMallocCount h" "mFreeCount h' = mFreeCount h"
    "mSize h' = mSize h" "mFreeList h' = mFreeList h" "mFreeListCount h' = mFreeListCount h"
    "mInnerFreeMap h' = mInnerFreeMap h" "mTopLevelFreeMap h' = mTopLevelFreeMap h" "mBlockPool h' = pool"
    by (subst h'(10), simp)+
  have us: "used h' r = used h r" if "r \<noteq> q" for r using that h'(9) by (simp add: used_def)
  have s: "set ps = insert q (set ps')" "q \<notin> set ps'" "q \<noteq> mNullBlock h" "p \<in> set ps' \<or> p = mNullBlock h"
    using bs dq(1) by (cases ys rule: rev_cases; auto)+
  have flp: "r \<noteq> p \<and> r \<noteq> q \<and> r \<in> dom ?m" if "r \<in> set (fl i)" for r i
    using lists_ok_free [OF D(4) that] lists_okD(8,9) [OF D(4) that] u by auto
  have ok: "lists_ok h' fl"
    using flp h' f lists_okD(9) [OF D(4)] by (intro lists_ok_frame [OF D(4)]) auto
  have "tlsf_core base h' ps' fl spare"
  proof (rule tlsf_coreI)
    show "phys (blocks h') (ps' @ [mNullBlock h']) base (unat (mSize h'))"
      using phys_merge [OF ph _ h'(4-7)] D(2) bs(2) f by simp
    have "unat (sizs ?m p + sizs ?m q) = unat (sizs ?m p) + unat (sizs ?m q)"
      using ph D(2) by (intro unat_add_small) (simp add: phys_def)
    then show "0 < unat (sizs (blocks h') r)" if "r \<in> set ps'" for r
      using D(3) [of r] that s h'(5) by auto
    show "used h' r \<or> (\<exists>i. r \<in> set (fl i))" if "r \<in> set ps'" for r
      using D(6) [of r] us [of r] that s by auto
    show "set (fl i) \<subseteq> set ps'" for i using D(7) [of i] flp s by blast
    show "dom (blocks h') = set (ps' @ [mNullBlock h']) \<union> spare" using h'(3) D(9,10) s f(1) by auto
    show "set (ps' @ [mNullBlock h']) \<inter> spare = {}" using D(10) s f(1) by auto
    show "\<not> used h' r" if "r \<in> spare" for r using D(11) [OF that] D(10) s us [of r] that by auto
  qed (use D ok f s us h' in simp_all)
  moreover have "apart (used h') (ps' @ [mNullBlock h'])"
  proof -
    have nq: "q \<notin> set (xs @ p # ys)" using dq(1) by auto
    have "apart (used h) (xs @ p # ys)" using apart_cases [OF ap' ap] .
    then have "apart (used h') (xs @ p # ys)" by (rule apart_mono) (use us nq in metis)
    then show ?thesis using bs(2) f(1) by simp
  qed
  moreover have "live h' = (if p = mNullBlock h then (live h)(q := None)
        else (live h)(q := None, p \<mapsto> (offs ?m q, sizs ?m p + sizs ?m q)))"
    using h'(3-5) us d u dq(1) D(8) by (auto simp: live_alt fun_eq_iff)
  ultimately show ?thesis using h'(1) f us by (auto simp: tlsf_inv_def)
qed

section \<open>Freeing\<close>

text \<open>The counters play no part in the invariant.\<close>

lemma counters_inv [simp]:
  "tlsf_inv base (h\<lparr>mFreeCount := n\<rparr>) ps fl spare = tlsf_inv base h ps fl spare"
  "tlsf_inv base (h\<lparr>mMallocCount := n\<rparr>) ps fl spare = tlsf_inv base h ps fl spare"
  "live (h\<lparr>mFreeCount := n\<rparr>) = live h" "live (h\<lparr>mMallocCount := n\<rparr>) = live h"
proof -
  have [simp]: "used (h\<lparr>mFreeCount := n\<rparr>) = used h" "used (h\<lparr>mMallocCount := n\<rparr>) = used h"
    by (simp_all add: used_def fun_eq_iff)
  show "tlsf_inv base (h\<lparr>mFreeCount := n\<rparr>) ps fl spare = tlsf_inv base h ps fl spare"
    "tlsf_inv base (h\<lparr>mMallocCount := n\<rparr>) ps fl spare = tlsf_inv base h ps fl spare"
    by (simp_all add: tlsf_inv_def tlsf_core_def lists_ok_def cong: conj_cong)
  show "live (h\<lparr>mFreeCount := n\<rparr>) = live h" "live (h\<lparr>mMallocCount := n\<rparr>) = live h"
    by (simp_all add: live_def fun_eq_iff)
qed

lemma apart_snoc_last: "xs \<noteq> [] \<Longrightarrow> u (last xs) \<Longrightarrow> apart u (xs @ [y]) = apart u xs"
  by (induction u xs rule: apart.induct) auto

lemma apart_last: "apart u (zs @ q # ys) \<Longrightarrow> \<not> u q \<Longrightarrow> zs \<noteq> [] \<Longrightarrow> u (last zs)"
  by (induction u zs rule: apart.induct) auto

lemma apart_remove:
  assumes "apart u (xs @ p # zs)" and "p \<notin> set xs" and "p \<notin> set zs"
    and "xs \<noteq> [] \<longrightarrow> u (last xs)" and "zs \<noteq> [] \<longrightarrow> u (hd zs)"
  shows "apart (\<lambda>q. u q \<and> q \<noteq> p) (xs @ p # zs)"
proof -
  have 1: "apart (\<lambda>q. u q \<and> q \<noteq> p) (p # zs)"
  proof (cases zs)
    case (Cons z zs')
    then have "apart u zs" using assms(1) apart_append [of u "xs @ [p]" z zs'] by simp
    then have "apart (\<lambda>q. u q \<and> q \<noteq> p) zs" by (rule apart_mono) (use assms(3) in auto)
    then show ?thesis using Cons assms(3,5) by auto
  qed simp
  have 2: "apart (\<lambda>q. u q \<and> q \<noteq> p) (xs @ [p])"
  proof (cases xs rule: rev_cases)
    case (snoc ys x)
    then have "apart u (ys @ [x])" using assms(1) apart_append [of u ys x "p # zs"] by simp
    then have "apart (\<lambda>q. u q \<and> q \<noteq> p) (ys @ [x])" by (rule apart_mono) (use assms(2) snoc in auto)
    then show ?thesis using snoc assms(2,4) apart_snoc [of _ ys x p] by auto
  qed simp
  show ?thesis using 1 2 apart_append [of _ xs p zs] by blast
qed

text \<open>First step: the block before the freed one is absorbed if it is free.\<close>

definition absorb_prev :: "ptr \<Rightarrow> ptr option \<Rightarrow> tlsf_heap \<Rightarrow> tlsf_heap option" where
  "absorb_prev block prv h =
     (case prv of
        None \<Rightarrow> Some h
      | Some q \<Rightarrow> do {
          qb \<leftarrow> blocks h q;
          if isFree q qb then do { h \<leftarrow> takeBlockFromFreeList q h; mergeBlock block q h } else Some h })"

lemma absorb_prev_inv:
  assumes inv: "tlsf_inv base h (xs @ p # ys) fl spare" and u: "used h p"
  shows "\<exists>h' xs' fl'. absorb_prev p (hd_or (rev xs) None) h = Some h'
    \<and> tlsf_inv base h' (xs' @ p # ys) fl' spare \<and> used h' p \<and> (live h')(p := None) = (live h)(p := None)
    \<and> (xs' \<noteq> [] \<longrightarrow> used h' (last xs')) \<and> mNullBlock h' = mNullBlock h
    \<and> mFreeCount h' = mFreeCount h \<and> mMallocCount h' = mMallocCount h
    \<and> (\<forall>r \<in> set (ys @ [mNullBlock h]). used h' r = used h r)"
proof (cases "xs \<noteq> [] \<and> \<not> used h (last xs)")
  case True
  then obtain zs q where xs: "xs = zs @ [q]" and q: "\<not> used h q" by (cases xs rule: rev_cases) auto
  have d: "distinct (zs @ q # p # ys @ [mNullBlock h])" using inv_distinct [OF inv] by (simp add: xs)
  obtain h1 fl1 where h1: "takeBlockFromFreeList q h = Some h1" "tlsf_inv base h1 (xs @ p # ys) fl1 spare"
    "same_blocks h h1" "\<And>r. used h1 r \<longleftrightarrow> used h r \<or> r = q"
    "live h1 = (live h)(q \<mapsto> (offs (blocks h) q, sizs (blocks h) q))"
    using take_inv [OF inv _ q] by (auto simp: xs)
  note s = h1(3) [unfolded same_blocks_def]
  have ap: "apart (used h1) (zs @ [p])"
    using inv_apart [OF h1(2)] h1(4) u apart_used_middle [of "used h1" p zs]
      apart_append [of "used h1" zs q "p # ys @ [mNullBlock h1]"] apart_used_middle [of "used h1" q zs]
    by (simp add: xs)
  obtain h2 where h2: "mergeBlock p q h1 = Some h2" "tlsf_inv base h2 (zs @ p # ys) fl1 spare"
    "mNullBlock h2 = mNullBlock h" "mMallocCount h2 = mMallocCount h" "mFreeCount h2 = mFreeCount h"
    "\<And>r. r \<noteq> q \<Longrightarrow> used h2 r = used h1 r"
    "live h2 = (live h1)(q := None, p \<mapsto> (offs (blocks h1) q, sizs (blocks h1) p + sizs (blocks h1) q))"
    using merge_inv [OF h1(2), of zs q p "ys @ [mNullBlock h]" "zs @ p # ys"] s h1(4) u ap d
    by (auto simp: xs)
  have "absorb_prev p (hd_or (rev xs) None) h = Some h2"
    using q h1(1) h2(1) inv_dom [OF inv] by (auto simp: absorb_prev_def xs used_def)
  moreover have "live h q = None" using q by (simp add: live_alt)
  moreover have "zs \<noteq> [] \<longrightarrow> used h (last zs)"
    using inv_apart [OF inv] q apart_last [of "used h" zs q "p # ys @ [mNullBlock h]"] by (simp add: xs)
  moreover have "last zs \<noteq> q" if "zs \<noteq> []" using d that by (metis disjoint_iff distinct_append last_in_set list.set_intros(1))
  moreover have "used h2 r = used h r" if "r \<in> set (ys @ [mNullBlock h])" for r
  proof -
    have "r \<noteq> q" using d that by auto
    then show ?thesis using h1(4) h2(6) by simp
  qed
  ultimately show ?thesis using h1(4,5) h2(2-7) u d
    by (intro exI [of _ h2] exI [of _ zs] exI [of _ fl1]) (auto simp: fun_eq_iff)
next
  case False
  have "absorb_prev p (hd_or (rev xs) None) h = Some h"
    using False inv_dom [OF inv] by (cases xs rule: rev_cases) (auto simp: absorb_prev_def used_def)
  then show ?thesis using inv u False by blast
qed

text \<open>Second step: the block is released, or it is absorbed by the free block after it.\<close>

definition join_next :: "ptr \<Rightarrow> ptr option \<Rightarrow> tlsf_heap \<Rightarrow> tlsf_heap option" where
  "join_next block nxt h =
     do { n \<leftarrow> nxt;
          nb \<leftarrow> blocks h n;
          if \<not> isFree n nb then releaseBlockToFreeList block h
          else if n = mNullBlock h then mergeBlock (mNullBlock h) block h
          else do {
            h \<leftarrow> takeBlockFromFreeList n h;
            h \<leftarrow> mergeBlock n block h;
            releaseBlockToFreeList n h } }"

lemma free_steps:
  "free (Some p) h =
     do { b \<leftarrow> blocks h p;
          _ \<leftarrow> KM_CHECK (\<not> isFree p b);
          h \<leftarrow> absorb_prev p (blk_prev b) h;
          h \<leftarrow> join_next p (blk_next b) h;
          Some (h\<lparr>mFreeCount := mFreeCount h + 1\<rparr>) }"
  by (simp add: free_def absorb_prev_def join_next_def Let_def cong: option.case_cong)

lemma join_next_inv:
  assumes inv: "tlsf_inv base h (xs @ p # ys) fl spare" and u: "used h p"
    and pu: "xs \<noteq> [] \<longrightarrow> used h (last xs)"
  shows "\<exists>h' ps' fl'. join_next p (hd_or (ys @ [mNullBlock h]) None) h = Some h'
    \<and> tlsf_inv base h' ps' fl' spare \<and> live h' = (live h)(p := None)
    \<and> mFreeCount h' = mFreeCount h \<and> mMallocCount h' = mMallocCount h"
proof -
  let ?N = "mNullBlock h"
  have d: "distinct (xs @ p # ys @ [?N])" using inv_distinct [OF inv] by simp
  have dm: "set (ys @ [?N]) \<subseteq> dom (blocks h)" using inv_dom [OF inv] by auto
  have lp: "live h p = Some (offs (blocks h) p, sizs (blocks h) p)"
    using u inv_dom [OF inv] by (simp add: live_alt)
  consider (used) "used h (hd (ys @ [?N]))" | (null) "ys = []" | (free) n zs where "ys = n # zs" "\<not> used h n"
    using inv_null [OF inv] by (cases ys) auto
  then show ?thesis
  proof cases
    case used
    then have "join_next p (hd_or (ys @ [?N]) None) h = releaseBlockToFreeList p h"
      using dm by (cases ys) (auto simp: join_next_def used_def)
    moreover have "apart (\<lambda>q. used h q \<and> q \<noteq> p) (xs @ p # ys @ [?N])"
      using inv_apart [OF inv] d pu used by (intro apart_remove) auto
    ultimately show ?thesis using release_inv [OF inv _ u] by (auto simp: same_blocks_def)
  next
    case null
    then have "join_next p (hd_or (ys @ [?N]) None) h = mergeBlock ?N p h"
      using dm inv_null [OF inv] by (auto simp: join_next_def used_def)
    moreover have "apart (used h) (xs @ [?N])"
      using pu inv_apart [OF inv] apart_append [of "used h" xs p "[?N]"] apart_used_middle [of "used h" p xs] u
        apart_snoc_last [of xs "used h" ?N] null by (cases "xs = []") auto
    ultimately show ?thesis
      using merge_inv [OF inv, of xs p ?N "[]" xs] u null d by auto
  next
    case free
    obtain h1 fl1 where h1: "takeBlockFromFreeList n h = Some h1" "tlsf_inv base h1 (xs @ p # ys) fl1 spare"
      "same_blocks h h1" "\<And>r. used h1 r \<longleftrightarrow> used h r \<or> r = n"
      "live h1 = (live h)(n \<mapsto> (offs (blocks h) n, sizs (blocks h) n))"
      using take_inv [OF inv _ free(2)] free(1) by auto
    note s = h1(3) [unfolded same_blocks_def]
    have "apart (used h1) (xs @ [n])"
      using inv_apart [OF h1(2)] h1(4) u apart_used_middle [of "used h1" n xs]
        apart_append [of "used h1" xs p "ys @ [mNullBlock h1]"] apart_used_middle [of "used h1" p xs] by simp
    then obtain h2 where h2: "mergeBlock n p h1 = Some h2" "tlsf_inv base h2 (xs @ n # zs) fl1 spare"
      "mNullBlock h2 = ?N" "mMallocCount h2 = mMallocCount h" "mFreeCount h2 = mFreeCount h"
      "\<And>r. r \<noteq> p \<Longrightarrow> used h2 r = used h1 r"
      "live h2 = (live h1)(p := None, n \<mapsto> (offs (blocks h1) p, sizs (blocks h1) n + sizs (blocks h1) p))"
      using merge_inv [OF h1(2), of xs p n "zs @ [?N]" "xs @ n # zs"] s h1(4) u d free(1) by auto
    have "apart (\<lambda>q. used h2 q \<and> q \<noteq> n) (xs @ n # zs @ [?N])"
    proof (rule apart_remove)
      show "apart (used h2) (xs @ n # zs @ [?N])" using inv_apart [OF h2(2)] h2(3) by simp
      show "xs \<noteq> [] \<longrightarrow> used h2 (last xs)" using pu h1(4) h2(6) d by (metis Un_iff disjoint_iff distinct_append last_in_set list.set_intros(1))
      have "apart (used h) (n # zs @ [?N])" using inv_apart [OF inv] apart_append [of "used h" "xs @ [p]" n "zs @ [?N]"] free(1) by simp
      then have "used h (hd (zs @ [?N]))" using free(2) by (cases zs) auto
      moreover have "hd (zs @ [?N]) \<noteq> p" using d free(1) by (cases zs) auto
      ultimately show "zs @ [?N] \<noteq> [] \<longrightarrow> used h2 (hd (zs @ [?N]))" using h1(4) h2(6) by simp
    qed (use d free(1) in auto)
    moreover have "used h2 n" using h2(6) [of n] h1(4) d free(1) by auto
    ultimately obtain h3 fl3 where h3: "releaseBlockToFreeList n h2 = Some h3" "tlsf_inv base h3 (xs @ n # zs) fl3 spare"
      "same_blocks h2 h3" "live h3 = (live h2)(n := None)"
      using release_inv [OF h2(2), of n] h2(3) by auto
    have "join_next p (hd_or (ys @ [?N]) None) h = Some h3"
      using dm d free h1(1) h2(1) h3(1) by (auto simp: join_next_def used_def)
    moreover have "live h3 = (live h)(p := None)"
      using h1(5) h2(7) h3(4) free(2) d by (auto simp: fun_eq_iff live_alt)
    ultimately show ?thesis using h3(2,3) h2(4,5) by (auto simp: same_blocks_def)
  qed
qed

lemma free_inv:
  assumes inv: "tlsf_inv base h ps fl spare" and l: "live h p = Some r"
  shows "\<exists>h' ps' fl'. free (Some p) h = Some h' \<and> tlsf_inv base h' ps' fl' spare
    \<and> live h' = (live h)(p := None) \<and> mFreeCount h' = mFreeCount h + 1 \<and> mMallocCount h' = mMallocCount h"
proof -
  obtain xs ys where ps: "ps = xs @ p # ys" using used_in_blocks(1) [OF inv_core [OF inv] l] by (meson split_list)
  have u: "used h p" "p \<in> dom (blocks h)" using live_in_dom [OF l] by auto
  have k: "prevs (blocks h) p = hd_or (rev xs) None" "succs (blocks h) p = hd_or (ys @ [mNullBlock h]) None"
    using inv_phys [OF inv] by (auto simp: phys_def ps)
  obtain h1 xs1 fl1 where h1: "absorb_prev p (hd_or (rev xs) None) h = Some h1"
    "tlsf_inv base h1 (xs1 @ p # ys) fl1 spare" "used h1 p" "(live h1)(p := None) = (live h)(p := None)"
    "xs1 \<noteq> [] \<longrightarrow> used h1 (last xs1)" "mNullBlock h1 = mNullBlock h"
    "mFreeCount h1 = mFreeCount h" "mMallocCount h1 = mMallocCount h"
    using absorb_prev_inv [OF inv [unfolded ps] u(1)] by blast
  obtain h2 ps2 fl2 where h2: "join_next p (hd_or (ys @ [mNullBlock h]) None) h1 = Some h2"
    "tlsf_inv base h2 ps2 fl2 spare" "live h2 = (live h1)(p := None)"
    "mFreeCount h2 = mFreeCount h1" "mMallocCount h2 = mMallocCount h1"
    using join_next_inv [OF h1(2,3,5)] h1(6) by auto
  let ?h = "h2\<lparr>mFreeCount := mFreeCount h2 + 1\<rparr>"
  have "free (Some p) h = Some ?h" using u k h1(1) h2(1) by (simp add: free_steps used_def)
  then show ?thesis using h1(4,7,8) h2(2-5) by auto
qed

section \<open>Live allocations lie apart inside the heap\<close>

lemma tiles_within:
  assumes "tiles off siz xs b" and "p \<in> set xs"
  shows "b \<le> unat (off p)" and "unat (off p) + unat (siz p) \<le> b + extent siz xs"
  using assms by (induction xs arbitrary: b) force+

lemma tiles_disjoint:
  assumes "tiles off siz xs b" and "distinct xs" and "p \<in> set xs" and "q \<in> set xs" and "p \<noteq> q"
  shows "unat (off p) + unat (siz p) \<le> unat (off q) \<or> unat (off q) + unat (siz q) \<le> unat (off p)"
  using assms(1,2,3,4)
proof (induction xs arbitrary: b)
  case (Cons x xs)
  then show ?case
    using tiles_within(1) [of off siz xs "b + unat (siz x)"] assms(5) by (cases "p = x"; cases "q = x") auto
qed simp

lemma live_within:
  assumes "tlsf_inv base h ps fl spare" and "live h p = Some (o1, s1)"
  shows "0 < unat s1" and "base \<le> unat o1" and "unat o1 + unat s1 \<le> base + unat (mSize h)"
    and "live h q = Some (o2, s2) \<Longrightarrow> p \<noteq> q \<Longrightarrow>
      unat o1 + unat s1 \<le> unat o2 \<or> unat o2 + unat s2 \<le> unat o1"
proof -
  note ph = inv_phys [OF assms(1), unfolded phys_def]
  have p: "p \<in> set ps" "o1 = offs (blocks h) p" "s1 = sizs (blocks h) p"
    using used_in_blocks [OF inv_core [OF assms(1)] assms(2)] assms(2) by (auto simp: live_alt split: if_splits)
  show "0 < unat s1" using inv_size [OF assms(1) p(1)] p(3) by simp
  show "base \<le> unat o1" "unat o1 + unat s1 \<le> base + unat (mSize h)"
    using tiles_within [of "offs (blocks h)" "sizs (blocks h)" "ps @ [mNullBlock h]" base p] ph p by auto
  show "unat o1 + unat s1 \<le> unat o2 \<or> unat o2 + unat s2 \<le> unat o1"
    if "live h q = Some (o2, s2)" "p \<noteq> q"
  proof -
    have "q \<in> set ps" "o2 = offs (blocks h) q" "s2 = sizs (blocks h) q"
      using used_in_blocks [OF inv_core [OF assms(1)] that(1)] that(1) by (auto simp: live_alt split: if_splits)
    then show ?thesis
      using tiles_disjoint [of "offs (blocks h)" "sizs (blocks h)" "ps @ [mNullBlock h]" base p q] ph p that(2) by auto
  qed
qed

section \<open>Creating a heap\<close>

lemma make_heap_inv:
  assumes "pool_rel p {q}" and "unat (blk_offset b) + unat (blk_size b) < 2 ^ 64"
    and "blk_prev b = None" and "blk_next b = None"
    and "list_index (unat (blk_size b)) < unat n" and "unat n \<le> 1024"
  shows "tlsf_inv (unat (blk_offset b)) (make_heap p q b n) [] (\<lambda>_. []) {}"
    and "live (make_heap p q b n) = Map.empty"
proof -
  show "tlsf_inv (unat (blk_offset b)) (make_heap p q b n) [] (\<lambda>_. []) {}"
    using assms
    by (auto simp: tlsf_inv_def tlsf_core_def make_heap_def phys_def lists_ok_def used_def maps_ok_def offs_def
      sizs_def prevs_def succs_def pfs_def cell_def)
  show "live (make_heap p q b n) = Map.empty"
    by (auto simp: live_def make_heap_def fun_eq_iff isUsed_def)
qed

lemma range_size_small:
  assumes "rfront r < rback r"
  shows "unat (rfront r) + unat (range_size r) = unat (rback r)" and "range_size r \<noteq> 0"
proof -
  have "unat (rfront r) < unat (rback r)" using assms by (simp add: word_less_nat_alt)
  then show "unat (rfront r) + unat (range_size r) = unat (rback r)"
    by (simp add: range_size_def unat_sub_le)
  then show "range_size r \<noteq> 0" using \<open>unat (rfront r) < unat (rback r)\<close> by auto
qed

lemma list_index_small:
  assumes "0 < n" and "n < 2 ^ 39"
  shows "list_index n < 1024"
proof -
  have "top_bit (2 ^ 39 - 1) = 38" by (rule top_bit_unique) simp_all
  then have "list_index (2 ^ 39 - 1) = 1023" by (simp add: list_index_def class_of_def second_of_def)
  then show ?thesis using list_index_mono [of n "2 ^ 39 - 1"] assms by simp
qed

lemma create_inv:
  assumes r: "rfront r < rback r" and "256 < unat (range_size r)" and "unat (range_size r) < 2 ^ 39"
  shows "create outcomes r = Some (OsStatusOutOfMemory, None)
    \<or> (\<exists>h. create outcomes r = Some (OsStatusSuccess, Some h)
        \<and> tlsf_inv (unat (rfront r)) h [] (\<lambda>_. []) {} \<and> live h = Map.empty \<and> mSize h = range_size r)"
proof -
  obtain qo p where al: "allocate (empty_pool outcomes) = (qo, p)" by (cases "allocate (empty_pool outcomes)")
  obtain ok p' where sr: "sys_request p = (ok, p')" by (cases "sys_request p")
  show ?thesis
  proof (cases "qo = None \<or> \<not> ok")
    case True
    then show ?thesis using range_size_small [OF r] al sr by (cases qo) (simp_all add: create_def Let_def)
  next
    case False
    then obtain q where q: "qo = Some q" and ok by auto
    let ?b = "zero_block\<lparr>blk_offset := rfront r, blk_size := range_size r\<rparr>"
    let ?n = "free_list_count (range_size r)"
    have "pool_rel p {q}" using allocate_Some(2) [OF pool_rel_empty empty_pool_ready al [unfolded q]] .
    then have "pool_rel p' {q}" using sr sys_request_sel [of p] pool_rel_fields [of p' p "{q}"] by simp
    moreover have "unat (rfront r) + unat (range_size r) < 2 ^ 64"
      using range_size_small [OF r] unsigned_less [of "rback r"] by simp
    moreover have "unat ?n = Suc (list_index (unat (range_size r)))"
      by (rule unat_free_list_count) (use assms(2) in simp)
    moreover have "list_index (unat (range_size r)) < 1024" by (rule list_index_small) (use assms(2,3) in auto)
    ultimately have "tlsf_inv (unat (rfront r)) (make_heap p' q ?b ?n) [] (\<lambda>_. []) {}"
      "live (make_heap p' q ?b ?n) = Map.empty"
      using make_heap_inv [of p' q ?b ?n] by (simp_all add: zero_block_def)
    moreover have "create outcomes r = Some (OsStatusSuccess, Some (make_heap p' q ?b ?n))"
      using range_size_small [OF r] al sr q \<open>ok\<close> by (simp add: create_def Let_def free_list_count_def)
    moreover have "mSize (make_heap p' q ?b ?n) = range_size r" by (simp add: make_heap_def)
    ultimately show ?thesis by blast
  qed
qed

end
