(* ===== verification/TlsfAlloc.thy ===== *)
theory TlsfAlloc
  imports TlsfInv
begin

text \<open>
  Allocation keeps the invariant: reserving spare control blocks, cutting a block in two before or
  after, \<^verbatim>\<open>reserveBlock\<close>, \<^verbatim>\<open>checkBlock\<close>, the searches of \<^verbatim>\<open>allocBestFit\<close>, and the splitting
  operations built on \<^verbatim>\<open>splitBlock\<close>.
\<close>

section \<open>Cutting a block\<close>

lemma phys_tail:
  assumes ph: "phys m (xs @ p # ys) base tot" and b: "base + tot < 2 ^ 64"
    and n: "n \<notin> set (xs @ p # ys)" and s: "unat s \<le> unat (sizs m p)"
    and "offs m' = (offs m)(n := offs m p + s)"
    and "sizs m' = (sizs m)(p := s, n := sizs m p - s)"
    and "prevs m' = skip_prev ys (Some n) ((prevs m)(n := Some p))"
    and "succs m' = (succs m)(p := Some n, n := hd_or ys None)"
  shows "phys m' (xs @ p # n # ys) base tot"
proof -
  have d: "distinct (xs @ p # ys)" using ph by (simp add: phys_def)
  have sz: "unat (sizs m p - s) = unat (sizs m p) - unat s" using s by (rule unat_sub_le)
  have off: "unat (offs m p + s) = unat (offs m p) + unat s"
    using ph b s by (intro unat_add_small) (auto simp: phys_def)
  have "linked (succs m') (xs @ p # n # ys) None" using ph d n assms(8) by (auto simp: phys_def)
  moreover have "linked (prevs m') (rev (xs @ p # n # ys)) None"
    using ph d n assms(7) by (cases ys) (auto simp: phys_def)
  moreover have "tiles (offs m') (sizs m') (xs @ p # n # ys) base" "extent (sizs m') (xs @ p # n # ys) = tot"
    using ph d n s sz off assms(5,6) by (auto simp: phys_def add.assoc)
  ultimately show ?thesis using d n by (auto simp: phys_def)
qed

lemma phys_front:
  assumes ph: "phys m (xs @ x # p # ys) base tot" and b: "base + tot < 2 ^ 64"
    and n: "n \<notin> set (xs @ x # p # ys)" and s: "unat s \<le> unat (sizs m p)"
    and "offs m' = (offs m)(n := offs m p, p := offs m p + s)"
    and "sizs m' = (sizs m)(n := s, p := sizs m p - s)"
    and "prevs m' = (prevs m)(n := Some x, p := Some n)"
    and "succs m' = (succs m)(n := Some p, x := Some n)"
  shows "phys m' (xs @ x # n # p # ys) base tot"
proof -
  have d: "distinct (xs @ x # p # ys)" using ph by (simp add: phys_def)
  have sz: "unat (sizs m p - s) = unat (sizs m p) - unat s" using s by (rule unat_sub_le)
  have off: "unat (offs m p + s) = unat (offs m p) + unat s"
    using ph b s by (intro unat_add_small) (auto simp: phys_def)
  have "linked (succs m') (xs @ x # n # p # ys) None" using ph d n assms(8) by (auto simp: phys_def)
  moreover have "linked (prevs m') (rev (xs @ x # n # p # ys)) None"
    using ph d n assms(7) by (auto simp: phys_def)
  moreover have "tiles (offs m') (sizs m') (xs @ x # n # p # ys) base"
    "extent (sizs m') (xs @ x # n # p # ys) = tot"
    using ph d n s sz off assms(5,6) by (auto simp: phys_def add.assoc)
  ultimately show ?thesis using d n by (auto simp: phys_def)
qed

section \<open>Spare blocks\<close>

text \<open>The heap has gained or lost spare blocks and is otherwise the same.\<close>

definition keeps :: "ptr set \<Rightarrow> tlsf_heap \<Rightarrow> tlsf_heap \<Rightarrow> bool" where
  "keeps bs h h' \<longleftrightarrow>
     (\<forall>r \<in> bs. blocks h' r = blocks h r) \<and> h' = h\<lparr>mBlockPool := mBlockPool h', blocks := blocks h'\<rparr>"

lemma keepsD:
  assumes "keeps bs h h'"
  shows "mSize h' = mSize h" "mReserved h' = mReserved h" "mMallocCount h' = mMallocCount h"
    "mFreeCount h' = mFreeCount h" "mNullBlock h' = mNullBlock h" "mFreeListCount h' = mFreeListCount h"
    "mFreeList h' = mFreeList h" "mInnerFreeMap h' = mInnerFreeMap h"
    "mTopLevelFreeMap h' = mTopLevelFreeMap h" "\<And>r. r \<in> bs \<Longrightarrow> cell (blocks h') r = cell (blocks h) r"
proof -
  have e: "h' = h\<lparr>mBlockPool := mBlockPool h', blocks := blocks h'\<rparr>" using assms by (simp add: keeps_def)
  show "mSize h' = mSize h" "mReserved h' = mReserved h" "mMallocCount h' = mMallocCount h"
    "mFreeCount h' = mFreeCount h" "mNullBlock h' = mNullBlock h" "mFreeListCount h' = mFreeListCount h"
    "mFreeList h' = mFreeList h" "mInnerFreeMap h' = mInnerFreeMap h"
    "mTopLevelFreeMap h' = mTopLevelFreeMap h" by (subst e, simp)+
  show "cell (blocks h') r = cell (blocks h) r" if "r \<in> bs" for r using assms that by (simp add: keeps_def cell_def)
qed

lemma keeps_fields:
  assumes "keeps bs h h'" and "r \<in> bs"
  shows "offs (blocks h') r = offs (blocks h) r" "sizs (blocks h') r = sizs (blocks h) r"
    "prevs (blocks h') r = prevs (blocks h) r" "succs (blocks h') r = succs (blocks h) r"
    "nfs (blocks h') r = nfs (blocks h) r" "pfs (blocks h') r = pfs (blocks h) r" "used h' r = used h r"
  unfolding offs_def sizs_def prevs_def succs_def nfs_def pfs_def used_def
  by (simp_all only: keepsD(10) [OF assms])

lemma keeps_subset: "keeps bs h h' \<Longrightarrow> bs' \<subseteq> bs \<Longrightarrow> keeps bs' h h'"
  unfolding keeps_def by blast

lemma keeps_trans: "keeps bs h h' \<Longrightarrow> keeps bs h' h'' \<Longrightarrow> keeps bs h h''"
proof -
  assume k: "keeps bs h h'" "keeps bs h' h''"
  then have e: "h' = h\<lparr>mBlockPool := mBlockPool h', blocks := blocks h'\<rparr>"
    "h'' = h'\<lparr>mBlockPool := mBlockPool h'', blocks := blocks h''\<rparr>" by (simp_all add: keeps_def)
  have "h'' = h\<lparr>mBlockPool := mBlockPool h'', blocks := blocks h''\<rparr>" by (subst e(2), subst e(1)) simp
  then show ?thesis using k by (simp add: keeps_def)
qed

lemma phys_fields:
  assumes "\<And>r. r \<in> set bs \<Longrightarrow> offs m' r = offs m r \<and> sizs m' r = sizs m r
      \<and> prevs m' r = prevs m r \<and> succs m' r = succs m r"
  shows "phys m' bs base tot = phys m bs base tot"
proof -
  have "linked (succs m') bs None = linked (succs m) bs None" by (rule linked_cong) (use assms in simp)
  moreover have "linked (prevs m') (rev bs) None = linked (prevs m) (rev bs) None"
    by (rule linked_cong) (use assms in simp)
  moreover have "tiles (offs m') (sizs m') bs base = tiles (offs m) (sizs m) bs base"
    "extent (sizs m') bs = extent (sizs m) bs"
    using assms by (induction bs arbitrary: base) auto
  ultimately show ?thesis by (simp add: phys_def)
qed

lemma keeps_core:
  assumes core: "tlsf_core base h ps fl spare" and k: "keeps (set (ps @ [mNullBlock h])) h h'"
    and d: "dom (blocks h') = set (ps @ [mNullBlock h]) \<union> spare'" "set (ps @ [mNullBlock h]) \<inter> spare' = {}"
    and u: "\<And>r. r \<in> spare' \<Longrightarrow> \<not> used h' r" and pool: "pool_rel (mBlockPool h') (dom (blocks h'))"
  shows "tlsf_core base h' ps fl spare'"
proof (rule tlsf_coreI)
  note K = keepsD [OF k] and F = keeps_fields [OF k]
  show "phys (blocks h') (ps @ [mNullBlock h']) base (unat (mSize h'))"
    using core_phys [OF core] phys_fields [of "ps @ [mNullBlock h]" "blocks h'" "blocks h"] F K by simp
  show "lists_ok h' fl"
  proof (rule lists_ok_frame [OF core_lists [OF core]])
    fix i p assume "p \<in> set (fl i)"
    then have "p \<in> set ps" using core_sub [OF core] by blast
    then show "p \<in> dom (blocks h') \<and> p \<noteq> mNullBlock h' \<and> nfs (blocks h') p = nfs (blocks h) p
        \<and> pfs (blocks h') p = pfs (blocks h) p \<and> sizs (blocks h') p = sizs (blocks h) p"
      using F [of p] K d(1) core_distinct [OF core] by auto
  qed (use K in simp_all)
qed (use core_bound [OF core] core_size [OF core] core_index [OF core] core_listed [OF core]
  core_sub [OF core] core_null [OF core] keepsD [OF k] keeps_fields [OF k] d u pool in simp_all)

lemma keeps_live:
  assumes core: "tlsf_core base h ps fl spare" and core': "tlsf_core base h' ps fl spare'"
    and k: "keeps (set (ps @ [mNullBlock h])) h h'"
  shows "live h' = live h"
proof
  fix r show "live h' r = live h r"
  proof (cases "r \<in> set (ps @ [mNullBlock h])")
    case True
    then show ?thesis using keeps_fields [OF k True] core_dom [OF core] core_dom [OF core'] keepsD [OF k]
      by (auto simp: live_alt)
  next
    case False
    then show ?thesis
      using core_dom [OF core] core_dom [OF core'] core_spare [OF core, of r] core_spare [OF core', of r] keepsD [OF k]
      by (auto simp: live_alt)
  qed
qed

lemma construct_core:
  assumes core: "tlsf_core base h ps fl spare" and room: "pool_room (Suc n) (mBlockPool h)"
  shows "\<exists>r h'. construct zero_block h = (r, h') \<and> pool_room n (mBlockPool h')
    \<and> (case r of None \<Rightarrow> tlsf_core base h' ps fl spare \<and> keeps (dom (blocks h)) h h'
       | Some q \<Rightarrow> tlsf_core base h' ps fl (insert q spare) \<and> keeps (dom (blocks h)) h h' \<and> q \<notin> dom (blocks h))"
proof -
  obtain r p where al: "allocate (mBlockPool h) = (r, p)" by (cases "allocate (mBlockPool h)")
  note rel = core_pool [OF core] and ready = pool_room_ready [OF room]
  have rm: "pool_room n p" by (rule allocate_room [OF rel room al])
  show ?thesis
  proof (cases r)
    case None
    let ?h = "h\<lparr>mBlockPool := p\<rparr>"
    have k: "keeps bs h ?h" for bs by (simp add: keeps_def)
    have "tlsf_core base ?h ps fl spare"
      using core_dom [OF core] core_disj [OF core] core_spare [OF core] allocate_None(1) [OF rel ready al [unfolded None]]
      by (intro keeps_core [OF core k]) (auto simp: used_def)
    then show ?thesis using al None rm k by (simp add: construct_def)
  next
    case (Some q)
    let ?h = "h\<lparr>mBlockPool := p, blocks := (blocks h)(q \<mapsto> zero_block)\<rparr>"
    have q: "q \<notin> dom (blocks h)" "pool_rel p (insert q (dom (blocks h)))"
      using allocate_Some [OF rel ready al [unfolded Some]] by auto
    have k: "keeps (dom (blocks h)) h ?h" using q(1) by (auto simp: keeps_def)
    have sub: "set (ps @ [mNullBlock h]) \<subseteq> dom (blocks h)" using core_dom [OF core] by auto
    have k': "keeps (set (ps @ [mNullBlock h])) h ?h" using k sub by (rule keeps_subset)
    have "tlsf_core base ?h ps fl (insert q spare)"
      using core_dom [OF core] core_disj [OF core] core_spare [OF core] q
      by (intro keeps_core [OF core k']) (auto simp: used_def zero_block_def)
    then show ?thesis using al Some rm k q by (simp add: construct_def)
  qed
qed

lemma buffer_reserve_core:
  assumes "tlsf_core base h ps fl (set buf)" and "distinct buf" and "length buf + n \<le> 2"
    and "pool_room n (mBlockPool h)"
  shows "\<exists>ok buf' h'. buffer_reserve n buf h = Some (ok, buf', h') \<and> tlsf_core base h' ps fl (set buf')
    \<and> distinct buf' \<and> (ok \<longrightarrow> length buf' = length buf + n) \<and> keeps (set (ps @ [mNullBlock h])) h h'"
  using assms
proof (induction n arbitrary: buf h)
  case 0
  then show ?case by (intro exI [of _ True]) (simp add: keeps_def)
next
  case (Suc n)
  have sub: "set (ps @ [mNullBlock h]) \<subseteq> dom (blocks h)" using core_dom [OF Suc.prems(1)] by auto
  obtain r h1 where c: "construct zero_block h = (r, h1)" "pool_room n (mBlockPool h1)"
    "case r of None \<Rightarrow> tlsf_core base h1 ps fl (set buf) \<and> keeps (dom (blocks h)) h h1
     | Some q \<Rightarrow> tlsf_core base h1 ps fl (insert q (set buf)) \<and> keeps (dom (blocks h)) h h1 \<and> q \<notin> dom (blocks h)"
    using construct_core [OF Suc.prems(1,4)] by blast
  show ?case
  proof (cases r)
    case None
    then show ?thesis using c Suc.prems keeps_subset [OF _ sub] by (auto intro!: exI [of _ False])
  next
    case (Some q)
    have q: "q \<notin> set buf" using c(3) Some core_dom [OF Suc.prems(1)] by auto
    have k: "keeps (set (ps @ [mNullBlock h])) h h1" using c(3) Some keeps_subset [OF _ sub] by simp
    obtain ok buf' h' where "buffer_reserve n (buf @ [q]) h1 = Some (ok, buf', h')"
      "tlsf_core base h' ps fl (set buf')" "distinct buf'" "ok \<longrightarrow> length buf' = length (buf @ [q]) + n"
      "keeps (set (ps @ [mNullBlock h1])) h1 h'"
      using Suc.IH [of h1 "buf @ [q]"] c Some Suc.prems q by auto
    then show ?thesis using keeps_trans [OF k] keepsD(5) [OF k] c(1) Some Suc.prems by auto
  qed
qed

lemma destroy_all_core:
  assumes "tlsf_core base h ps fl (set buf)" and "distinct buf"
  shows "\<exists>h'. destroy_all buf h = Some h' \<and> tlsf_core base h' ps fl {} \<and> keeps (set (ps @ [mNullBlock h])) h h'"
  using assms
proof (induction buf arbitrary: h)
  case Nil
  then show ?case by (simp add: keeps_def)
next
  case (Cons q buf)
  note core = Cons.prems(1)
  have qd: "q \<in> dom (blocks h)" "q \<notin> set (ps @ [mNullBlock h])" using core_dom [OF core] core_disj [OF core] by auto
  obtain p where p: "release (mBlockPool h) q = Some p" "pool_rel p (dom (blocks h) - {q})"
    using block_pool.free_rel [OF core_pool [OF core] qd(1)] by blast
  let ?h = "h\<lparr>mBlockPool := p, blocks := (blocks h)(q := None)\<rparr>"
  have k: "keeps (set (ps @ [mNullBlock h])) h ?h" using qd by (auto simp: keeps_def)
  have "tlsf_core base ?h ps fl (set buf)"
    using core_dom [OF core] core_disj [OF core] core_spare [OF core] p(2) Cons.prems(2) qd(2)
    by (intro keeps_core [OF core k]) (auto simp: used_def)
  then obtain h' where "destroy_all buf ?h = Some h'" "tlsf_core base h' ps fl {}"
    "keeps (set (ps @ [mNullBlock h])) ?h h'"
    using Cons.IH [of ?h] Cons.prems(2) by auto
  then show ?case using keeps_trans [OF k, of h'] p(1) by (auto simp: destroy_def)
qed

section \<open>A spare block joins the list\<close>

text \<open>After a used block: the used block is cut and the new block, marked used, gets the rest.\<close>

definition tail_cut :: "ptr \<Rightarrow> ptr \<Rightarrow> size_t \<Rightarrow> ptr list \<Rightarrow> tlsf_heap \<Rightarrow> tlsf_heap \<Rightarrow> bool" where
  "tail_cut p n s ys h h' \<longleftrightarrow>
     h' = h\<lparr>blocks := blocks h'\<rparr> \<and> dom (blocks h') = dom (blocks h)
     \<and> offs (blocks h') = (offs (blocks h))(n := offs (blocks h) p + s)
     \<and> sizs (blocks h') = (sizs (blocks h))(p := s, n := sizs (blocks h) p - s)
     \<and> prevs (blocks h') = skip_prev ys (Some n) ((prevs (blocks h))(n := Some p))
     \<and> succs (blocks h') = (succs (blocks h))(p := Some n, n := hd_or ys None)
     \<and> nfs (blocks h') = (nfs (blocks h))(n := None) \<and> pfs (blocks h') = (pfs (blocks h))(n := Some n)"

lemma same_record:
  assumes "h' = h\<lparr>blocks := blocks h'\<rparr>"
  shows "mSize h' = mSize h" "mReserved h' = mReserved h" "mMallocCount h' = mMallocCount h"
    "mFreeCount h' = mFreeCount h" "mBlockPool h' = mBlockPool h" "mNullBlock h' = mNullBlock h"
    "mFreeListCount h' = mFreeListCount h" "mFreeList h' = mFreeList h"
    "mInnerFreeMap h' = mInnerFreeMap h" "mTopLevelFreeMap h' = mTopLevelFreeMap h"
  by (subst assms, simp)+

lemma tail_cut_core:
  assumes core: "tlsf_core base h (xs @ p # zs) fl spare" and u: "used h p" and n: "n \<in> spare"
    and s: "0 < unat s" "unat s < unat (sizs (blocks h) p)"
    and cut: "tail_cut p n s (zs @ [mNullBlock h]) h h'"
  shows "tlsf_core base h' (xs @ p # n # zs) fl (spare - {n})"
    and "\<And>r. used h' r \<longleftrightarrow> used h r \<or> r = n"
proof -
  let ?m = "blocks h"
  note c = cut [unfolded tail_cut_def] and D = tlsf_coreD [OF core]
  note R = same_record [OF c [THEN conjunct1]]
  have n': "n \<notin> set (xs @ p # zs @ [mNullBlock h])" "n \<noteq> p" using D(10) n by auto
  show us: "used h' r \<longleftrightarrow> used h r \<or> r = n" for r using c by (auto simp: used_def)
  have flp: "r \<noteq> p \<and> r \<noteq> n \<and> r \<in> dom ?m" if "r \<in> set (fl i)" for r i
    using lists_ok_free [OF D(4) that] lists_okD(8) [OF D(4) that] u D(7) [of i] that n' by auto
  show "tlsf_core base h' (xs @ p # n # zs) fl (spare - {n})"
  proof (rule tlsf_coreI)
    show "phys (blocks h') ((xs @ p # n # zs) @ [mNullBlock h']) base (unat (mSize h'))"
      using phys_tail [of ?m xs p "zs @ [mNullBlock h]" base "unat (mSize h)" n s "blocks h'"] D(1,2) n'(1) s c R by simp
    show "lists_ok h' fl"
      using flp c R lists_okD(9) [OF D(4)] by (intro lists_ok_frame [OF D(4)]) auto
    show "0 < unat (sizs (blocks h') r)" if "r \<in> set (xs @ p # n # zs)" for r
      using that D(3) [of r] s c n' by (auto simp: unat_sub_le)
    show "used h' r \<or> (\<exists>i. r \<in> set (fl i))" if "r \<in> set (xs @ p # n # zs)" for r
      using that D(6) [of r] us [of r] by auto
    show "\<not> used h' r" if "r \<in> spare - {n}" for r using that D(11) us by auto
  qed (use D R c us n n' in \<open>auto\<close>)
qed

lemma splitBlock_exec:
  assumes core: "tlsf_core base h (xs @ p # zs) fl spare" and u: "used h p" and n: "n \<in> spare"
    and s: "0 < unat s" "unat s < unat (sizs (blocks h) p)"
  shows "\<exists>h'. splitBlock p (offs (blocks h) p + s) n h = Some (p, n, h')
    \<and> tail_cut p n s (zs @ [mNullBlock h]) h h'"
proof -
  have n': "n \<notin> set (xs @ p # zs @ [mNullBlock h])" "n \<noteq> p" using core_disj [OF core] n by auto
  have d: "p \<in> dom (blocks h)" "n \<in> dom (blocks h)" "set (zs @ [mNullBlock h]) \<subseteq> dom (blocks h)"
    using core_dom [OF core] n by auto
  have p: "p \<notin> set (zs @ [mNullBlock h])" using core_distinct [OF core] by auto
  have sc: "succs (blocks h) p = hd_or (zs @ [mNullBlock h]) None"
    using core_phys [OF core] by (simp add: phys_def)
  have pos: "s > 0" "sizs (blocks h) p - s > 0"
    using s by (simp_all add: word_less_nat_alt unat_sub_le)
  show ?thesis
    using n' d p sc pos u
    by (cases zs) (auto simp: splitBlock_def tail_cut_def used_def zero_block_def make_allocation_def
        isFree_def Let_def)
qed

lemma apart_insert:
  assumes "apart u (xs @ p # ys)" and "v p" and "v n" and "\<And>r. r \<in> set (xs @ p # ys) \<Longrightarrow> u r \<Longrightarrow> v r"
  shows "apart v (xs @ p # n # ys)"
proof -
  have a: "apart v (xs @ p # ys)" using assms(1,4) by (rule apart_mono)
  have "apart v (n # ys)"
    using a assms(3) apart_append [of v xs p ys] by (cases ys) auto
  then show ?thesis using a assms(2) apart_append [of v xs p ys] apart_append [of v xs p "n # ys"] by simp
qed

section \<open>Splitting an allocation\<close>

lemma live_cut:
  assumes "tail_cut p n s ys h h'" and "\<And>r. used h' r \<longleftrightarrow> used h r \<or> r = n" and "n \<in> dom (blocks h)"
    and "p \<in> dom (blocks h)" and "used h p" and "n \<noteq> p"
  shows "live h' = (live h)(p \<mapsto> (offs (blocks h) p, s),
                            n \<mapsto> (offs (blocks h) p + s, sizs (blocks h) p - s))"
  using assms by (auto simp: tail_cut_def live_alt fun_eq_iff)

text \<open>A midpoint that is not strictly inside the allocation is rejected.\<close>

lemma split_rejects:
  assumes l: "live h p = Some (a, s)" and pn: "p \<noteq> mNullBlock h" and bnd: "unat a + unat s < 2 ^ 64"
    and out: "\<not> (unat a < unat midpoint \<and> unat midpoint < unat a + unat s)"
  shows "split (Some p) midpoint h = Some (OsStatusInvalidInput, None, h)"
proof -
  have u: "used h p" "p \<in> dom (blocks h)" "a = offs (blocks h) p" "s = sizs (blocks h) p"
    using l by (auto simp: live_alt split: if_splits)
  have "unat (a + s) = unat a + unat s" using bnd by (intro unat_add_small) simp
  then have "midpoint < a \<or> a + s \<le> midpoint \<or> midpoint - a = 0"
    using out by (auto simp: word_less_nat_alt word_le_nat_alt dest: word_eqI_unat)
  then show ?thesis using u pn by (auto simp: split_def used_def Let_def)
qed

text \<open>A midpoint strictly inside it passes every check.\<close>

lemma split_accepts:
  assumes l: "live h p = Some (a, s)" and pn: "p \<noteq> mNullBlock h" and bnd: "unat a + unat s < 2 ^ 64"
    and ins: "unat a < unat midpoint" "unat midpoint < unat a + unat s"
    and c: "construct zero_block h = (r, h1)"
  shows "split (Some p) midpoint h = (case r of
        None \<Rightarrow> Some (OsStatusOutOfMemory, None, h1)
      | Some n \<Rightarrow> do { (lo, hi, h) \<leftarrow> splitBlock p midpoint n h1; Some (OsStatusSuccess, Some (lo, hi), h) })"
    and "0 < unat (midpoint - a)" and "unat (midpoint - a) < unat s" and "a + (midpoint - a) = midpoint"
proof -
  have u: "used h p" "p \<in> dom (blocks h)" "a = offs (blocks h) p" "s = sizs (blocks h) p"
    using l by (auto simp: live_alt split: if_splits)
  have fin: "unat (a + s) = unat a + unat s" using bnd by (intro unat_add_small) simp
  have "unat (midpoint - a) = unat midpoint - unat a" using ins by (intro unat_sub_le) simp
  then show lt: "0 < unat (midpoint - a)" "unat (midpoint - a) < unat s" "a + (midpoint - a) = midpoint"
    using ins by auto
  have "\<not> midpoint < a" "\<not> a + s \<le> midpoint" "midpoint - a \<noteq> s" "\<not> s < midpoint - a" "midpoint - a \<noteq> 0"
    using ins lt fin by (auto simp: word_less_nat_alt word_le_nat_alt)
  then show "split (Some p) midpoint h = (case r of
        None \<Rightarrow> Some (OsStatusOutOfMemory, None, h1)
      | Some n \<Rightarrow> do { (lo, hi, h) \<leftarrow> splitBlock p midpoint n h1; Some (OsStatusSuccess, Some (lo, hi), h) })"
    using u pn c by (auto simp: split_def used_def Let_def split: option.splits)
qed

lemma splitBlock_core:
  assumes core: "tlsf_core base h ps fl spare" and ap: "apart (used h) (ps @ [mNullBlock h])" and n: "n \<in> spare"
    and l: "live h p = Some (a, s)" and s: "0 < unat k" "unat k < unat s"
  shows "\<exists>h' ps'. splitBlock p (a + k) n h = Some (p, n, h') \<and> tlsf_core base h' ps' fl (spare - {n})
    \<and> apart (used h') (ps' @ [mNullBlock h']) \<and> live h' = (live h)(p \<mapsto> (a, k), n \<mapsto> (a + k, s - k))
    \<and> mBlockPool h' = mBlockPool h \<and> mSize h' = mSize h"
proof -
  have u: "p \<in> set ps" "used h p" "p \<in> dom (blocks h)" "a = offs (blocks h) p" "s = sizs (blocks h) p"
    using used_in_blocks [OF core l] live_in_dom [OF l] l by (auto simp: live_alt split: if_splits)
  obtain xs zs where ps: "ps = xs @ p # zs" using u(1) by (meson split_list)
  have np: "n \<noteq> p" "n \<in> dom (blocks h)" using core_disj [OF core] core_dom [OF core] u(1) n by auto
  obtain h' where h': "splitBlock p (a + k) n h = Some (p, n, h')" "tail_cut p n k (zs @ [mNullBlock h]) h h'"
    using splitBlock_exec [OF core [unfolded ps] u(2) n, of k] s u by auto
  have c: "tlsf_core base h' (xs @ p # n # zs) fl (spare - {n})" "\<And>r. used h' r \<longleftrightarrow> used h r \<or> r = n"
    using tail_cut_core [OF core [unfolded ps] u(2) n s(1) _ h'(2)] s u by auto
  have nu: "mNullBlock h' = mNullBlock h" "mBlockPool h' = mBlockPool h" "mSize h' = mSize h"
    using same_record [of h' h] h'(2) by (auto simp: tail_cut_def)
  have "apart (used h') (xs @ p # n # zs @ [mNullBlock h])"
    by (rule apart_insert [of "used h"]) (use ap ps c(2) u(2) in auto)
  then show ?thesis using h'(1) c(1) nu live_cut [OF h'(2) c(2) np(2) u(3,2) np(1)] u(4,5) by auto
qed

lemma splitBlock_inv:
  assumes "tlsf_core base h ps fl {n}" and "apart (used h) (ps @ [mNullBlock h])"
    and "live h p = Some (a, s)" and "0 < unat k" "unat k < unat s"
  shows "\<exists>h' ps'. splitBlock p (a + k) n h = Some (p, n, h') \<and> tlsf_inv base h' ps' fl {}
    \<and> live h' = (live h)(p \<mapsto> (a, k), n \<mapsto> (a + k, s - k)) \<and> mBlockPool h' = mBlockPool h"
  using splitBlock_core [OF assms(1,2) _ assms(3-5)] by (auto simp: tlsf_inv_def)

lemma keeps_apart:
  assumes "keeps (set (ps @ [mNullBlock h])) h h'" and "apart (used h) (ps @ [mNullBlock h])"
  shows "apart (used h') (ps @ [mNullBlock h'])"
  using assms(2) apart_cong [of "ps @ [mNullBlock h]" "used h'" "used h"] keeps_fields(7) [OF assms(1)]
    keepsD(5) [OF assms(1)] by simp

lemma construct_inv:
  assumes inv: "tlsf_inv base h ps fl {}" and room: "pool_room (Suc k) (mBlockPool h)"
    and c: "construct zero_block h = (r, h1)"
  shows "pool_room k (mBlockPool h1)" and "live h1 = live h" and "mNullBlock h1 = mNullBlock h"
    and "apart (used h1) (ps @ [mNullBlock h1])" and "r = None \<Longrightarrow> tlsf_inv base h1 ps fl {}"
    and "r = Some n \<Longrightarrow> tlsf_core base h1 ps fl {n} \<and> live h n = None"
proof -
  note core = inv_core [OF inv]
  have d: "pool_room k (mBlockPool h1)"
    "case r of None \<Rightarrow> tlsf_core base h1 ps fl {} \<and> keeps (dom (blocks h)) h h1
     | Some q \<Rightarrow> tlsf_core base h1 ps fl {q} \<and> keeps (dom (blocks h)) h h1 \<and> q \<notin> dom (blocks h)"
    using construct_core [OF core room] c by auto
  have "keeps (dom (blocks h)) h h1" using d(2) by (cases r) auto
  then have k: "keeps (set (ps @ [mNullBlock h])) h h1" by (rule keeps_subset) (use core_dom [OF core] in auto)
  show "pool_room k (mBlockPool h1)" by (rule d(1))
  show "live h1 = live h" using d(2) keeps_live [OF core _ k] by (cases r) auto
  show "mNullBlock h1 = mNullBlock h" by (rule keepsD(5) [OF k])
  show ap: "apart (used h1) (ps @ [mNullBlock h1])" by (rule keeps_apart [OF k inv_apart [OF inv]])
  show "r = None \<Longrightarrow> tlsf_inv base h1 ps fl {}" using d(2) ap by (simp add: tlsf_inv_def)
  show "r = Some n \<Longrightarrow> tlsf_core base h1 ps fl {n} \<and> live h n = None" using d(2) by (auto simp: live_alt)
qed

lemma split_inv:
  assumes inv: "tlsf_inv base h ps fl {}" and l: "live h p = Some (a, s)" and room: "pool_room (Suc k) (mBlockPool h)"
    and ins: "unat a < unat midpoint" "unat midpoint < unat a + unat s"
  shows "\<exists>h'. heap_ok base h' \<and> pool_room k (mBlockPool h') \<and>
     (split (Some p) midpoint h = Some (OsStatusOutOfMemory, None, h') \<and> live h' = live h
      \<or> (\<exists>n. split (Some p) midpoint h = Some (OsStatusSuccess, Some (p, n), h') \<and> live h n = None
          \<and> live h' = (live h)(p \<mapsto> (a, midpoint - a), n \<mapsto> (midpoint, s - (midpoint - a)))))"
proof -
  have pn: "p \<noteq> mNullBlock h" using inv_distinct [OF inv] used_in_blocks(1) [OF inv_core [OF inv] l] by auto
  have bnd: "unat a + unat s < 2 ^ 64" using live_within(3) [OF inv l] inv_bound [OF inv] by simp
  obtain r h1 where c: "construct zero_block h = (r, h1)" by (cases "construct zero_block h")
  note A = split_accepts [OF l pn bnd ins c] and C = construct_inv [OF inv room c]
  show ?thesis
  proof (cases r)
    case None
    then show ?thesis using A(1) C(1,2,5) by (auto simp: heap_ok_def)
  next
    case (Some n)
    then obtain h2 ps2 where "splitBlock p midpoint n h1 = Some (p, n, h2)" "tlsf_inv base h2 ps2 fl {}"
      "live h2 = (live h)(p \<mapsto> (a, midpoint - a), n \<mapsto> (midpoint, s - (midpoint - a)))"
      "mBlockPool h2 = mBlockPool h1"
      using splitBlock_inv [of base h1 ps fl n p a s "midpoint - a"] C(2,4,6) l A(2-4) by auto
    then show ?thesis using A(1) C(1,6) Some by (auto simp: heap_ok_def)
  qed
qed

section \<open>Shrinking an allocation\<close>

lemma shrink_inv:
  assumes inv: "tlsf_inv base h ps fl {}" and l: "live h p = Some (a, s)" and room: "pool_room 1 (mBlockPool h)"
    and sz: "0 < unat sz" "unat sz < unat s"
  shows "\<exists>h'. heap_ok base h' \<and>
     (shrink (Some p) sz h = Some (OsStatusOutOfMemory, None, h') \<and> live h' = live h
      \<or> shrink (Some p) sz h = Some (OsStatusSuccess, Some p, h') \<and> live h' = (live h)(p \<mapsto> (a, sz)))"
proof -
  have u: "p \<in> dom (blocks h)" "a = offs (blocks h) p" "s = sizs (blocks h) p"
    using l by (auto simp: live_alt split: if_splits)
  have "unat a + unat s < 2 ^ 64" using live_within(3) [OF inv l] inv_bound [OF inv] by simp
  then have m: "unat (a + sz) = unat a + unat sz" using sz by (intro unat_add_small) simp
  obtain h1 where h1: "heap_ok base h1"
    and r: "split (Some p) (a + sz) h = Some (OsStatusOutOfMemory, None, h1) \<and> live h1 = live h
      \<or> (\<exists>n. split (Some p) (a + sz) h = Some (OsStatusSuccess, Some (p, n), h1) \<and> live h n = None
          \<and> live h1 = (live h)(p \<mapsto> (a, sz), n \<mapsto> (a + sz, s - sz)))"
    using split_inv [OF inv l, of 0 "a + sz"] room sz m by auto
  have ne: "sz \<noteq> s" "\<not> s < sz" using sz by (auto simp: word_less_nat_alt)
  from r show ?thesis
  proof (elim disjE exE)
    assume "split (Some p) (a + sz) h = Some (OsStatusOutOfMemory, None, h1) \<and> live h1 = live h"
    then show ?thesis using h1 u ne by (auto simp: shrink_def)
  next
    fix n assume s: "split (Some p) (a + sz) h = Some (OsStatusSuccess, Some (p, n), h1) \<and> live h n = None
      \<and> live h1 = (live h)(p \<mapsto> (a, sz), n \<mapsto> (a + sz, s - sz))"
    obtain ps1 fl1 where i1: "tlsf_inv base h1 ps1 fl1 {}" using h1 by (auto simp: heap_ok_def)
    have n: "live h1 n = Some (a + sz, s - sz)" "n \<noteq> p" using s l by auto
    obtain h2 where "free (Some n) h1 = Some h2" "heap_ok base h2" "live h2 = (live h1)(n := None)"
      using free_inv [OF i1 n(1)] by (auto simp: heap_ok_def)
    moreover from this have "live h2 = (live h)(p \<mapsto> (a, sz))" using s n(2) by (auto simp: fun_eq_iff)
    ultimately show ?thesis using s u ne by (auto simp: shrink_def)
  qed
qed

section \<open>Reserving part of a free block\<close>

text \<open>
  \<^verbatim>\<open>reserveBlock\<close> in steps: the part before the aligned address becomes a free block of its own,
  then the part after the requested size does.
\<close>

definition cut_front ::
  "ptr \<Rightarrow> size_t \<Rightarrow> ptr list \<Rightarrow> tlsf_heap \<Rightarrow> (ptr list \<times> tlsf_heap) option" where
  "cut_front block missing buf h =
     (if missing > 0 then do {
        b \<leftarrow> blocks h block;
        prv \<leftarrow> blk_prev b;
        pb \<leftarrow> blocks h prv;
        (buf, h) \<leftarrow>
          (if isFree prv pb then do {
             h \<leftarrow> resizeBlock prv (blk_size pb + missing) h;
             Some (buf, h) }
           else do {
             (newBlk, buf, h) \<leftarrow> buffer_take
               (zero_block\<lparr>blk_offset := blk_offset b, blk_size := missing,
                           blk_prev := Some prv, blk_next := Some block\<rparr>) buf h;
             h \<leftarrow> upd_block block (\<lambda>b. b\<lparr>blk_prev := Some newBlk\<rparr>) h;
             h \<leftarrow> upd_block prv (\<lambda>b. b\<lparr>blk_next := Some newBlk\<rparr>) h;
             h \<leftarrow> markTaken newBlk h;
             h \<leftarrow> releaseBlockToFreeList newBlk h;
             Some (buf, h) });
        h \<leftarrow> upd_block block
              (\<lambda>b. b\<lparr>blk_size := blk_size b - missing, blk_offset := blk_offset b + missing\<rparr>) h;
        Some (buf, h) }
      else Some (buf, h))"

definition cut_back ::
  "ptr \<Rightarrow> size_t \<Rightarrow> ptr list \<Rightarrow> tlsf_heap \<Rightarrow> (ptr list \<times> tlsf_heap) option" where
  "cut_back block sz buf h =
     do { b \<leftarrow> blocks h block;
          (if blk_size b = sz then
             if block = mNullBlock h then do {
               (newNull, buf, h) \<leftarrow> buffer_take
                 (zero_block\<lparr>blk_offset := blk_offset b + sz, blk_prev := Some block\<rparr>) buf h;
               h \<leftarrow> upd_block block (\<lambda>b. b\<lparr>blk_next := Some newNull\<rparr>) (h\<lparr>mNullBlock := newNull\<rparr>);
               h \<leftarrow> markTaken block h;
               Some (buf, h) }
             else Some (buf, h)
           else do {
             _ \<leftarrow> KM_CHECK (blk_size b > sz);
             (newBlk, buf, h) \<leftarrow> buffer_take
               (zero_block\<lparr>blk_offset := blk_offset b + sz, blk_size := blk_size b - sz,
                           blk_prev := Some block, blk_next := blk_next b\<rparr>) buf h;
             h \<leftarrow> upd_block block (\<lambda>b. b\<lparr>blk_next := Some newBlk, blk_size := sz\<rparr>) h;
             if block = mNullBlock h then do {
               h \<leftarrow> markTaken block (h\<lparr>mNullBlock := newBlk\<rparr>);
               Some (buf, h) }
             else do {
               nx \<leftarrow> blk_next b;
               h \<leftarrow> upd_block nx (\<lambda>x. x\<lparr>blk_prev := Some newBlk\<rparr>) h;
               h \<leftarrow> markTaken newBlk h;
               h \<leftarrow> releaseBlockToFreeList newBlk h;
               Some (buf, h) } }) }"

lemma reserveBlock_steps:
  "reserveBlock block sz alignedOffset listIndex h =
     do { b \<leftarrow> blocks h block;
          let missing = alignedOffset - blk_offset b;
          (need, innerSize) \<leftarrow>
            (if missing > 0 then do {
               prv \<leftarrow> blk_prev b;
               pb \<leftarrow> blocks h prv;
               Some (if \<not> isFree prv pb then 1 else 0, blk_size b - missing) }
             else Some (0, blk_size b));
          let requiredBlocks =
            (if \<not> (innerSize = sz \<and> block \<noteq> mNullBlock h) then need + 1 else need);
          (ok, buf, h) \<leftarrow> buffer_reserve requiredBlocks [] h;
          if \<not> ok then do { h \<leftarrow> destroy_all buf h; Some (None, h) }
          else do {
            h \<leftarrow> detachBlock block listIndex h;
            h \<leftarrow> (if block \<noteq> mNullBlock h then takeBlockFromFreeList block h else Some h);
            (buf, h) \<leftarrow> cut_front block missing buf h;
            (buf, h) \<leftarrow> cut_back block sz buf h;
            b \<leftarrow> blocks h block;
            _ \<leftarrow> KM_CHECK (\<not> isFree block b);
            a \<leftarrow> make_allocation h block;
            h \<leftarrow> destroy_all buf h;
            Some (Some a, h) } }"
  unfolding reserveBlock_def cut_front_def cut_back_def Let_def by (simp only: Option.bind_assoc)

text \<open>The links of the new block before \<open>block\<close>, up to its release.\<close>

definition front_link :: "ptr \<Rightarrow> ptr \<Rightarrow> ptr \<Rightarrow> size_t \<Rightarrow> tlsf_heap \<Rightarrow> tlsf_heap \<Rightarrow> bool" where
  "front_link x n p s h h' \<longleftrightarrow>
     h' = h\<lparr>blocks := blocks h'\<rparr> \<and> dom (blocks h') = dom (blocks h)
     \<and> offs (blocks h') = (offs (blocks h))(n := offs (blocks h) p)
     \<and> sizs (blocks h') = (sizs (blocks h))(n := s)
     \<and> prevs (blocks h') = (prevs (blocks h))(n := Some x, p := Some n)
     \<and> succs (blocks h') = (succs (blocks h))(n := Some p, x := Some n)
     \<and> nfs (blocks h') = (nfs (blocks h))(n := None) \<and> pfs (blocks h') = (pfs (blocks h))(n := Some n)"

lemma cut_front_exec:
  assumes "p \<in> dom (blocks h)" and "x \<in> dom (blocks h)" and "n \<in> dom (blocks h)" and "n \<noteq> p" and "n \<noteq> x"
    and "x \<noteq> p" and "prevs (blocks h) p = Some x" and "used h x" and "0 < missing" and "buf = buf' @ [n]"
  shows "\<exists>h'. front_link x n p missing h h' \<and> cut_front p missing buf h =
    do { h \<leftarrow> releaseBlockToFreeList n h';
         h \<leftarrow> upd_block p (\<lambda>b. b\<lparr>blk_size := blk_size b - missing, blk_offset := blk_offset b + missing\<rparr>) h;
         Some (buf', h) }"
proof -
  let ?b = "\<lparr>blk_offset = offs (blocks h) p, blk_size = missing, blk_prev = Some x, blk_next = Some p,
    blk_nextFree = None, blk_prevFree = Some n\<rparr>"
  let ?h = "h\<lparr>blocks := (blocks h)(p \<mapsto> (cell (blocks h) p)\<lparr>blk_prev := Some n\<rparr>,
    x \<mapsto> (cell (blocks h) x)\<lparr>blk_next := Some n\<rparr>, n \<mapsto> ?b)\<rparr>"
  have "front_link x n p missing h ?h"
    using assms(1-6) by (auto simp: front_link_def fun_upd_twist)
  moreover have "cut_front p missing buf h =
    do { h \<leftarrow> releaseBlockToFreeList n ?h;
         h \<leftarrow> upd_block p (\<lambda>b. b\<lparr>blk_size := blk_size b - missing, blk_offset := blk_offset b + missing\<rparr>) h;
         Some (buf', h) }"
    using assms by (simp add: cut_front_def used_def buffer_take_def zero_block_def fun_upd_twist)
  ultimately show ?thesis by blast
qed

text \<open>What \<open>cut_front\<close> does when the block before is in use.\<close>

lemma cut_front_fields:
  assumes ok: "lists_ok h fl" and d: "p \<in> dom (blocks h)" "x \<in> dom (blocks h)" "n \<in> dom (blocks h)"
    and ne: "n \<noteq> p" "n \<noteq> x" "x \<noteq> p" "n \<noteq> mNullBlock h" and pr: "prevs (blocks h) p = Some x" and u: "used h x"
    and nl: "\<And>i. p \<notin> set (fl i)" "\<And>i. n \<notin> set (fl i)"
    and s: "0 < unat s" "list_index (unat s) = i" "i < length (mFreeList h)" and buf: "buf = buf' @ [n]"
  shows "\<exists>h'. cut_front p s buf h = Some (buf', h') \<and> lists_ok h' (fl(i := n # fl i))
    \<and> (\<forall>r. used h' r \<longleftrightarrow> used h r \<and> r \<noteq> n) \<and> dom (blocks h') = dom (blocks h)
    \<and> offs (blocks h') = (offs (blocks h))(n := offs (blocks h) p, p := offs (blocks h) p + s)
    \<and> sizs (blocks h') = (sizs (blocks h))(n := s, p := sizs (blocks h) p - s)
    \<and> prevs (blocks h') = (prevs (blocks h))(n := Some x, p := Some n)
    \<and> succs (blocks h') = (succs (blocks h))(n := Some p, x := Some n)
    \<and> mSize h' = mSize h \<and> mMallocCount h' = mMallocCount h \<and> mFreeCount h' = mFreeCount h
    \<and> mBlockPool h' = mBlockPool h \<and> mNullBlock h' = mNullBlock h \<and> mFreeListCount h' = mFreeListCount h"
proof -
  obtain h1 where h1: "front_link x n p s h h1" "cut_front p s buf h =
    do { h \<leftarrow> releaseBlockToFreeList n h1;
         h \<leftarrow> upd_block p (\<lambda>b. b\<lparr>blk_size := blk_size b - s, blk_offset := blk_offset b + s\<rparr>) h;
         Some (buf', h) }"
    using cut_front_exec [OF d ne(1-3) pr u _ buf] s(1) by (auto simp: word_less_nat_alt)
  note c = h1(1) [unfolded front_link_def]
  note R = same_record [OF c [THEN conjunct1]]
  have ok1: "lists_ok h1 fl"
  proof (rule lists_ok_frame [OF ok])
    fix i r assume r: "r \<in> set (fl i)"
    then have "r \<noteq> n" "r \<noteq> x" using nl(2) u lists_ok_free [OF ok r] by auto
    then show "r \<in> dom (blocks h1) \<and> r \<noteq> mNullBlock h1 \<and> nfs (blocks h1) r = nfs (blocks h) r
        \<and> pfs (blocks h1) r = pfs (blocks h) r \<and> sizs (blocks h1) r = sizs (blocks h) r"
      using lists_okD(8,9) [OF ok r] c R by auto
  qed (use R in simp_all)
  obtain h2 where h2: "releaseBlockToFreeList n h1 = Some h2" "lists_ok h2 (fl(i := n # fl i))" "same_blocks h1 h2"
    "\<And>q. used h2 q \<longleftrightarrow> used h1 q \<and> q \<noteq> n"
    using releaseBlockToFreeList_ok [OF ok1, of n i] c R s ne(4) d(3) by (auto simp: used_def)
  note S = h2(3) [unfolded same_blocks_def]
  let ?h = "h2\<lparr>blocks := (blocks h2)(p \<mapsto> (cell (blocks h2) p)
      \<lparr>blk_size := sizs (blocks h2) p - s, blk_offset := offs (blocks h2) p + s\<rparr>)\<rparr>"
  have "lists_ok ?h (fl(i := n # fl i))"
  proof (rule lists_ok_frame [OF h2(2)])
    fix j r assume r: "r \<in> set ((fl(i := n # fl i)) j)"
    then have "r \<noteq> p" using nl(1) [of j] nl(1) [of i] ne(1) by (auto split: if_splits)
    then show "r \<in> dom (blocks ?h) \<and> r \<noteq> mNullBlock ?h \<and> nfs (blocks ?h) r = nfs (blocks h2) r
        \<and> pfs (blocks ?h) r = pfs (blocks h2) r \<and> sizs (blocks ?h) r = sizs (blocks h2) r"
      using lists_okD(8,9) [OF h2(2) r] by auto
  qed simp_all
  moreover have "used ?h r \<longleftrightarrow> used h r \<and> r \<noteq> n" for r
  proof -
    have "used ?h r = used h2 r" by (simp add: used_def)
    then show ?thesis using h2(4) [of r] c by (auto simp: used_def)
  qed
  ultimately show ?thesis
    using h1(2) h2(1) S c R d ne by (intro exI [of _ ?h]) auto
qed

lemma set_butlast_distinct: "distinct xs \<Longrightarrow> xs \<noteq> [] \<Longrightarrow> set (butlast xs) = set xs - {last xs}"
  by (cases xs rule: rev_cases) auto

lemma cut_front_core:
  assumes core: "tlsf_core base h ps fl (set buf)" and bs: "ps @ [mNullBlock h] = xs @ x # p # ys"
    and u: "used h x" "used h p \<or> p = mNullBlock h" and buf: "distinct buf" "buf \<noteq> []"
    and s: "0 < unat s" "unat s < unat (sizs (blocks h) p)"
  shows "\<exists>h' fl' ps'. cut_front p s buf h = Some (butlast buf, h') \<and> tlsf_core base h' ps' fl' (set (butlast buf))
    \<and> ps' @ [mNullBlock h] = xs @ x # last buf # p # ys \<and> mNullBlock h' = mNullBlock h
    \<and> (\<forall>r. used h' r \<longleftrightarrow> used h r \<and> r \<noteq> last buf) \<and> dom (blocks h') = dom (blocks h)
    \<and> offs (blocks h') = (offs (blocks h))(last buf := offs (blocks h) p, p := offs (blocks h) p + s)
    \<and> sizs (blocks h') = (sizs (blocks h))(last buf := s, p := sizs (blocks h) p - s)
    \<and> mMallocCount h' = mMallocCount h \<and> mFreeCount h' = mFreeCount h \<and> mBlockPool h' = mBlockPool h"
proof -
  let ?m = "blocks h" and ?n = "last buf"
  note D = tlsf_coreD [OF core]
  have b: "buf = butlast buf @ [?n]" "?n \<in> set buf" using buf(2) by simp_all
  have sb: "set (butlast buf) = set buf - {?n}" by (rule set_butlast_distinct [OF buf])
  have ph: "phys ?m (xs @ x # p # ys) base (unat (mSize h))" and dm: "dom ?m = set (xs @ x # p # ys) \<union> set buf"
    and nd: "?n \<notin> set (xs @ x # p # ys)"
    using D(1,9,10) b(2) unfolding bs by auto
  then have d: "distinct (xs @ x # p # ys)" "prevs ?m p = Some x" by (auto simp: phys_def)
  have nps: "?n \<notin> set ps" "?n \<noteq> mNullBlock h" using D(10) b(2) by auto
  have "unat s \<le> unat (mSize h)" using s(2) ph by (simp add: phys_def)
  then have li: "list_index (unat s) < length (mFreeList h)"
    using list_index_mono [of "unat s" "unat (mSize h)"] D(5) s(1) by simp
  define i where "i = list_index (unat s)"
  have pl: "p \<notin> set (fl j)" "?n \<notin> set (fl j)" for j
    using lists_ok_free [OF D(4), of p j] lists_okD(9) [OF D(4), of p j] u(2) D(7) [of j] nps by auto
  obtain h' where h': "cut_front p s buf h = Some (butlast buf, h')" "lists_ok h' (fl(i := ?n # fl i))"
    "\<forall>r. used h' r \<longleftrightarrow> used h r \<and> r \<noteq> ?n" "dom (blocks h') = dom ?m"
    "offs (blocks h') = (offs ?m)(?n := offs ?m p, p := offs ?m p + s)"
    "sizs (blocks h') = (sizs ?m)(?n := s, p := sizs ?m p - s)"
    "prevs (blocks h') = (prevs ?m)(?n := Some x, p := Some ?n)"
    "succs (blocks h') = (succs ?m)(?n := Some p, x := Some ?n)"
    "mSize h' = mSize h" "mMallocCount h' = mMallocCount h" "mFreeCount h' = mFreeCount h"
    "mBlockPool h' = mBlockPool h" "mNullBlock h' = mNullBlock h" "mFreeListCount h' = mFreeListCount h"
    using cut_front_fields [OF D(4), of p x ?n s i buf "butlast buf"] dm nd d u(1) nps(2) pl s(1) li b
    by (auto simp: i_def)
  define ps' where "ps' = butlast (xs @ x # ?n # p # ys)"
  have ps': "ps' @ [mNullBlock h] = xs @ x # ?n # p # ys" "set ps' = insert ?n (set ps)"
    using bs by (cases ys rule: rev_cases; auto simp: ps'_def butlast_append)+
  have "tlsf_core base h' ps' (fl(i := ?n # fl i)) (set (butlast buf))"
  proof (rule tlsf_coreI)
    show "phys (blocks h') (ps' @ [mNullBlock h']) base (unat (mSize h'))"
      using phys_front [OF ph D(2) nd _ h'(5-8)] s(2) h' ps'(1) by simp
    show "list_index (unat (mSize h')) < length (mFreeList h')"
      using D(5) lists_okD(1) [OF h'(2)] lists_okD(1) [OF D(4)] h'(9,14) by simp
    show "0 < unat (sizs (blocks h') r)" if "r \<in> set ps'" for r
      using that D(3) [of r] s unfolding h'(6) ps'(2) by (auto simp: unat_sub_le)
    show "used h' r \<or> (\<exists>j. r \<in> set ((fl(i := ?n # fl i)) j))" if "r \<in> set ps'" for r
      using that D(6) [of r] h'(3) unfolding ps'(2) by (metis fun_upd_apply insertE list.set_intros)
    show "set ((fl(i := ?n # fl i)) j) \<subseteq> set ps'" for j using D(7) ps'(2) by auto
    show "dom (blocks h') = set (ps' @ [mNullBlock h']) \<union> set (butlast buf)"
      using D(9) h'(4,13) ps'(2) b(2) sb by auto
    show "set (ps' @ [mNullBlock h']) \<inter> set (butlast buf) = {}" using D(10) h'(13) ps'(2) sb by auto
    show "\<not> used h' r" if "r \<in> set (butlast buf)" for r using D(11) that sb h'(3) by auto
    show "pool_rel (mBlockPool h') (dom (blocks h'))" using D(12) h'(4,12) by simp
  qed (use D h' in simp_all)
  then show ?thesis using h' ps'(1) by blast
qed


lemma unat_le_neq: "unat (a :: size_t) \<le> unat b \<Longrightarrow> b \<noteq> a \<Longrightarrow> unat a < unat b"
  using word_eqI_unat [of b a] by linarith

text \<open>The last block is cut: it is taken and the spare block becomes the null block.\<close>

lemma cut_null_exec:
  assumes "p = mNullBlock h" and "p \<in> dom (blocks h)" and "n \<in> dom (blocks h)" and "n \<noteq> p"
    and "succs (blocks h) p = None" and "unat sz \<le> unat (sizs (blocks h) p)" and "buf = buf' @ [n]"
  shows "\<exists>h'. cut_back p sz buf h = Some (buf', h') \<and> dom (blocks h') = dom (blocks h)
    \<and> offs (blocks h') = (offs (blocks h))(n := offs (blocks h) p + sz)
    \<and> sizs (blocks h') = (sizs (blocks h))(p := sz, n := sizs (blocks h) p - sz)
    \<and> prevs (blocks h') = (prevs (blocks h))(n := Some p)
    \<and> succs (blocks h') = (succs (blocks h))(p := Some n, n := None)
    \<and> nfs (blocks h') = (nfs (blocks h))(n := None) \<and> pfs (blocks h') = (pfs (blocks h))(n := None, p := Some p)
    \<and> h' = h\<lparr>blocks := blocks h', mNullBlock := n\<rparr>"
proof (cases "sizs (blocks h) p = sz")
  case True
  then show ?thesis using assms
    by (auto simp: cut_back_def buffer_take_def zero_block_def fun_upd_twist)
next
  case False
  then have "sz < sizs (blocks h) p" using assms(6) unat_le_neq by (simp add: word_less_nat_alt)
  then show ?thesis using assms
    by (auto simp: cut_back_def buffer_take_def zero_block_def fun_upd_twist)
qed

lemma cut_null_core:
  assumes core: "tlsf_core base h ps fl (set buf)" and p: "p = mNullBlock h" and buf: "distinct buf" "buf \<noteq> []"
    and s: "0 < unat sz" "unat sz \<le> unat (sizs (blocks h) p)"
  shows "\<exists>h'. cut_back p sz buf h = Some (butlast buf, h') \<and> tlsf_core base h' (ps @ [p]) fl (set (butlast buf))
    \<and> mNullBlock h' = last buf \<and> (\<forall>r. used h' r \<longleftrightarrow> used h r \<or> r = p)
    \<and> offs (blocks h') = (offs (blocks h))(last buf := offs (blocks h) p + sz)
    \<and> sizs (blocks h') = (sizs (blocks h))(p := sz, last buf := sizs (blocks h) p - sz)
    \<and> dom (blocks h') = dom (blocks h)
    \<and> mMallocCount h' = mMallocCount h \<and> mFreeCount h' = mFreeCount h \<and> mBlockPool h' = mBlockPool h"
proof -
  let ?m = "blocks h" and ?n = "last buf"
  note D = tlsf_coreD [OF core]
  have b: "buf = butlast buf @ [?n]" "?n \<in> set buf" using buf(2) by simp_all
  have sb: "set (butlast buf) = set buf - {?n}" by (rule set_butlast_distinct [OF buf])
  have nd: "?n \<notin> set (ps @ [p])" "\<not> used h ?n" "?n \<in> dom ?m" "p \<in> dom ?m" using D(9,10,11) b(2) p by auto
  have "succs ?m p = None" using D(1) p by (simp add: phys_def)
  then obtain h' where h': "cut_back p sz buf h = Some (butlast buf, h')" "dom (blocks h') = dom ?m"
    "offs (blocks h') = (offs ?m)(?n := offs ?m p + sz)"
    "sizs (blocks h') = (sizs ?m)(p := sz, ?n := sizs ?m p - sz)"
    "prevs (blocks h') = (prevs ?m)(?n := Some p)" "succs (blocks h') = (succs ?m)(p := Some ?n, ?n := None)"
    "nfs (blocks h') = (nfs ?m)(?n := None)" "pfs (blocks h') = (pfs ?m)(?n := None, p := Some p)"
    "h' = h\<lparr>blocks := blocks h', mNullBlock := ?n\<rparr>"
    using cut_null_exec [OF p nd(4,3) _ _ s(2) b(1)] nd(1) by auto
  have R: "mSize h' = mSize h" "mMallocCount h' = mMallocCount h" "mFreeCount h' = mFreeCount h"
    "mBlockPool h' = mBlockPool h" "mNullBlock h' = ?n" "mFreeListCount h' = mFreeListCount h"
    "mFreeList h' = mFreeList h" "mInnerFreeMap h' = mInnerFreeMap h" "mTopLevelFreeMap h' = mTopLevelFreeMap h"
    by (subst h'(9), simp)+
  have us: "used h' r \<longleftrightarrow> used h r \<or> r = p" for r using h'(8) nd(1,2) by (auto simp: used_def)
  have flr: "r \<noteq> p \<and> r \<noteq> ?n \<and> r \<in> dom ?m" if "r \<in> set (fl i)" for r i
    using lists_okD(8,9) [OF D(4) that] D(7) [of i] that p nd(1) by auto
  have "tlsf_core base h' (ps @ [p]) fl (set (butlast buf))"
  proof (rule tlsf_coreI)
    show "phys (blocks h') ((ps @ [p]) @ [mNullBlock h']) base (unat (mSize h'))"
      using phys_tail [of ?m ps p "[]" base "unat (mSize h)" ?n sz "blocks h'"] D(1,2) nd(1) s(2) h' R p by simp
    show "lists_ok h' fl" using flr h' R by (intro lists_ok_frame [OF D(4)]) auto
    show "0 < unat (sizs (blocks h') r)" if "r \<in> set (ps @ [p])" for r
      using that D(3) [of r] s(1) nd(1) unfolding h'(4) by auto
    show "dom (blocks h') = set ((ps @ [p]) @ [mNullBlock h']) \<union> set (butlast buf)"
      using D(9) h'(2) R b(2) sb p by auto
    show "set ((ps @ [p]) @ [mNullBlock h']) \<inter> set (butlast buf) = {}" using D(10) R p sb by auto
    show "\<not> used h' r" if "r \<in> set (butlast buf)" for r using D(10,11) that sb us p by auto
    show "used h' r \<or> (\<exists>i. r \<in> set (fl i))" if "r \<in> set (ps @ [p])" for r using D(6) [of r] that us by auto
    show "set (fl i) \<subseteq> set (ps @ [p])" for i using D(7) [of i] by auto
    show "\<not> used h' (mNullBlock h')" using us R nd(1,2) by auto
  qed (use D R h'(2) in simp_all)
  then show ?thesis using h' R us by blast
qed

text \<open>A used block is cut and the rest released.\<close>

lemma cut_back_exec:
  assumes core: "tlsf_core base h (xs @ p # zs) fl (set buf)" and u: "used h p" and buf: "distinct buf" "buf \<noteq> []"
    and s: "0 < unat sz" "unat sz < unat (sizs (blocks h) p)"
  shows "\<exists>h'. tail_cut p (last buf) sz (zs @ [mNullBlock h]) h h' \<and> cut_back p sz buf h =
    do { h \<leftarrow> releaseBlockToFreeList (last buf) h'; Some (butlast buf, h) }"
proof -
  let ?n = "last buf" and ?m = "blocks h" and ?y = "hd (zs @ [mNullBlock h])"
  have b: "?n \<in> set buf" using buf(2) by simp
  have d: "?n \<noteq> p" "?n \<in> dom ?m" "p \<in> dom ?m" "?n \<noteq> ?y" "?y \<in> dom ?m" "?y \<noteq> p" "p \<noteq> mNullBlock h"
    using core_disj [OF core] core_dom [OF core] core_distinct [OF core] b by (cases zs; auto)+
  have sc: "succs ?m p = Some ?y" using core_phys [OF core] by (cases zs) (auto simp: phys_def)
  have lt: "sz < sizs ?m p" "sizs ?m p \<noteq> sz" using s by (auto simp: word_less_nat_alt)
  let ?b = "\<lparr>blk_offset = offs ?m p + sz, blk_size = sizs ?m p - sz, blk_prev = Some p, blk_next = Some ?y,
    blk_nextFree = None, blk_prevFree = Some ?n\<rparr>"
  let ?h = "h\<lparr>blocks := ?m(p \<mapsto> (cell ?m p)\<lparr>blk_next := Some ?n, blk_size := sz\<rparr>,
    ?y \<mapsto> (cell ?m ?y)\<lparr>blk_prev := Some ?n\<rparr>, ?n \<mapsto> ?b)\<rparr>"
  have "hd_or (zs @ [mNullBlock h]) None = Some ?y" "skip_prev (zs @ [mNullBlock h]) v f = f(?y := v)" for v f
    by (cases zs; simp)+
  then have "tail_cut p ?n sz (zs @ [mNullBlock h]) h ?h"
    using d by (auto simp: tail_cut_def fun_upd_twist)
  moreover have "cut_back p sz buf h = do { h \<leftarrow> releaseBlockToFreeList ?n ?h; Some (butlast buf, h) }"
    using d sc lt buf(2) by (simp add: cut_back_def buffer_take_def zero_block_def fun_upd_twist)
  ultimately show ?thesis by blast
qed


lemma cut_back_core:
  assumes core: "tlsf_core base h (xs @ p # zs) fl (set buf)" and u: "used h p" and buf: "distinct buf"
    and s: "0 < unat sz" "unat sz \<le> unat (sizs (blocks h) p)" "sizs (blocks h) p \<noteq> sz \<Longrightarrow> buf \<noteq> []"
  shows "\<exists>h' buf' fl' ns. cut_back p sz buf h = Some (buf', h') \<and> tlsf_core base h' (xs @ p # ns @ zs) fl' (set buf')
    \<and> distinct buf' \<and> set ns \<subseteq> set buf \<and> length ns \<le> 1 \<and> mNullBlock h' = mNullBlock h
    \<and> (\<forall>r. r \<notin> set ns \<longrightarrow> used h' r = used h r) \<and> (\<forall>r \<in> set ns. \<not> used h' r)
    \<and> offs (blocks h') p = offs (blocks h) p \<and> sizs (blocks h') p = sz
    \<and> (\<forall>r. r \<noteq> p \<and> r \<notin> set ns \<longrightarrow> offs (blocks h') r = offs (blocks h) r \<and> sizs (blocks h') r = sizs (blocks h) r)
    \<and> dom (blocks h') = dom (blocks h)
    \<and> mMallocCount h' = mMallocCount h \<and> mFreeCount h' = mFreeCount h \<and> mBlockPool h' = mBlockPool h"
proof (cases "sizs (blocks h) p = sz")
  case True
  have "p \<in> dom (blocks h)" "p \<noteq> mNullBlock h" using core_dom [OF core] core_distinct [OF core] by auto
  then have "cut_back p sz buf h = Some (buf, h)" using True by (simp add: cut_back_def)
  then show ?thesis using core buf True
    by (intro exI [of _ h] exI [of _ buf] exI [of _ fl] exI [of _ "[]"]) simp
next
  case False
  let ?n = "last buf"
  have bn: "buf \<noteq> []" "?n \<in> set buf" using s(3) [OF False] by auto
  have lt: "unat sz < unat (sizs (blocks h) p)" using s(2) False unat_le_neq by metis
  have sb: "set (butlast buf) = set buf - {?n}" by (rule set_butlast_distinct [OF buf bn(1)])
  have np: "?n \<noteq> p" "?n \<in> dom (blocks h)" using core_disj [OF core] core_dom [OF core] bn(2) by auto
  obtain h1 where h1: "tail_cut p ?n sz (zs @ [mNullBlock h]) h h1"
    "cut_back p sz buf h = do { h \<leftarrow> releaseBlockToFreeList ?n h1; Some (butlast buf, h) }"
    using cut_back_exec [OF core u buf bn(1) s(1) lt] by blast
  note c = tail_cut_core [OF core u bn(2) s(1) lt h1(1)]
  note f = h1(1) [unfolded tail_cut_def]
  note R = same_record [OF f [THEN conjunct1]]
  obtain h2 fl2 where h2: "releaseBlockToFreeList ?n h1 = Some h2" "tlsf_core base h2 (xs @ p # ?n # zs) fl2 (set (butlast buf))"
    "same_blocks h1 h2" "\<forall>q. used h2 q \<longleftrightarrow> used h1 q \<and> q \<noteq> ?n"
    using release_core [OF c(1), of ?n] c(2) sb by auto
  note S = h2(3) [unfolded same_blocks_def]
  show ?thesis
    using h1(2) h2 c(2) S f R np bn buf
    by (intro exI [of _ h2] exI [of _ "butlast buf"] exI [of _ fl2] exI [of _ "[?n]"]) (simp add: distinct_butlast)
qed

section \<open>A failed reservation leaves the pool as it was\<close>

lemma destroy_all_counts: "destroy_all buf h = Some h' \<Longrightarrow> slot_counts (mBlockPool h') = slot_counts (mBlockPool h)"
  by (induction buf arbitrary: h) (auto simp: destroy_def bind_Some_iff dest: release_counts)

lemma construct_fail: "construct b h = (None, h') \<Longrightarrow> allocate (mBlockPool h) = (None, mBlockPool h')"
  by (auto simp: construct_def split: prod.splits option.splits)

lemma construct_alloc: "construct b h = (Some q, h') \<Longrightarrow> allocate (mBlockPool h) = (Some q, mBlockPool h')"
  by (auto simp: construct_def split: prod.splits option.splits)

lemma buffer_reserve_fail:
  assumes core: "tlsf_core base h ps fl {}" and room: "pool_room 2 (mBlockPool h)" and n: "n \<le> 2"
    and r: "buffer_reserve n [] h = Some (False, buf, h')"
  shows "slot_counts (mBlockPool h') = slot_counts (mBlockPool h)"
proof -
  have room1: "pool_room (Suc 1) (mBlockPool h)" using room by (simp add: numeral_2_eq_2)
  obtain r1 h1 where c1: "construct zero_block h = (r1, h1)" "pool_room 1 (mBlockPool h1)"
    "case r1 of None \<Rightarrow> tlsf_core base h1 ps fl {} \<and> keeps (dom (blocks h)) h h1
     | Some q \<Rightarrow> tlsf_core base h1 ps fl {q} \<and> keeps (dom (blocks h)) h h1 \<and> q \<notin> dom (blocks h)"
    using construct_core [OF core room1] by blast
  have none: "slot_counts p' = slot_counts p" if "pool_rel p lv" "pool_ready p" "allocate p = (None, p')" for p p' lv
    using allocate_None(2) [OF that] by (simp add: slot_counts_def)
  note rel = core_pool [OF core] and rdy = pool_room_ready [OF room]
  consider "r1 = None" "h' = h1" | q h2 where "r1 = Some q" "construct zero_block h1 = (None, h2)" "h' = h2"
    using r c1(1) n by (cases n; cases "n - 1") (auto split: option.splits prod.splits simp: numeral_2_eq_2)
  then show ?thesis
  proof cases
    case 1
    then show ?thesis using none [OF rel rdy construct_fail] c1(1) by simp
  next
    case 2
    have core1: "tlsf_core base h1 ps fl {q}" using c1(3) 2(1) by simp
    have "allocate (mBlockPool h1) = (None, mBlockPool h2)" by (rule construct_fail [OF 2(2)])
    then have "slot_counts (mBlockPool h2) = slot_counts (mBlockPool h1)"
      using none [OF core_pool [OF core1] pool_room_ready [OF c1(2)]] by simp
    moreover have "slot_counts (mBlockPool h1) = slot_counts (mBlockPool h)"
      using allocate_counts [OF rel rdy construct_alloc [OF c1(1) [unfolded 2(1)]]] construct_fail [OF 2(2)] by simp
    ultimately show ?thesis using 2(3) by simp
  qed
qed

section \<open>Reserving a block\<close>

lemma claim_core:
  assumes core: "tlsf_core base h ps fl spare" and f: "\<not> used h p"
    and p: "p \<in> set ps \<and> unat li = list_index (unat (sizs (blocks h) p)) \<or> p = mNullBlock h \<and> li = mFreeListCount h"
  shows "\<exists>h' fl'. (do { h \<leftarrow> detachBlock p li h; if p \<noteq> mNullBlock h then takeBlockFromFreeList p h else Some h }) = Some h'
    \<and> tlsf_core base h' ps fl' spare \<and> same_blocks h h'
    \<and> (\<forall>r. used h' r \<longleftrightarrow> used h r \<or> r = p \<and> p \<noteq> mNullBlock h)"
proof (cases "p = mNullBlock h")
  case True
  have li: "li = mFreeListCount h"
    using p True core_distinct [OF core] by auto
  have "p \<in> dom (blocks h)" using True core_dom [OF core] by auto
  then have "detachBlock p li h = Some h" using li by (simp add: detachBlock_def)
  then show ?thesis using True core by (auto simp: same_blocks_def)
next
  case False
  then have pl: "p \<in> set ps" "unat li = list_index (unat (sizs (blocks h) p))" using p by auto
  obtain i where i: "p \<in> set (fl i)" using core_listed [OF core pl(1)] f by blast
  then have "unat li = i" using pl(2) lists_okD(11) [OF core_lists [OF core] i] by simp
  then obtain h1 zs where h1: "detachBlock p li h = Some h1" "set zs = set (fl i)" "lists_ok h1 (fl(i := zs))"
    "same_blocks h h1" "\<And>q. used h1 q \<longleftrightarrow> used h q"
    using detachBlock_ok [OF core_lists [OF core] i] by blast
  have "tlsf_core base h1 ps (fl(i := zs)) spare"
  proof (rule same_blocks_core [OF core h1(4,3)])
    show "used h1 r \<or> (\<exists>j. r \<in> set ((fl(i := zs)) j))" if "r \<in> set ps" for r
      using core_listed [OF core that] h1(2,5) by (metis fun_upd_apply)
    show "set ((fl(i := zs)) j) \<subseteq> set ps" for j using core_sub [OF core] h1(2) by auto
  qed (use h1(5) in auto)
  moreover have "mNullBlock h1 = mNullBlock h" using h1(4) by (simp add: same_blocks_def)
  ultimately show ?thesis
    using take_core [of base h1 ps _ spare p] pl(1) f h1 False by (auto simp: same_blocks_def)
qed

lemma apart_parts: "apart u (xs @ ys) \<Longrightarrow> apart u xs \<and> apart u ys"
  by (induction u xs rule: apart.induct) (auto elim: apart.elims)

lemma apart_carve:
  assumes "apart u (xs @ p # ys)" and "\<not> u p" and "v p" and "length ns1 \<le> 1" and "length ns2 \<le> 1"
    and "\<And>r. r \<in> set xs \<or> r \<in> set ys \<Longrightarrow> u r \<Longrightarrow> v r"
  shows "apart v (xs @ ns1 @ p # ns2 @ ys)"
proof -
  have lx: "xs \<noteq> [] \<Longrightarrow> v (last xs)" using apart_last [OF assms(1,2)] assms(6) by auto
  have hy: "ys \<noteq> [] \<Longrightarrow> v (hd ys)"
    using assms(1,2,6) apart_append [of u xs p ys] by (cases ys) auto
  have "apart u xs" "apart u ys" using apart_parts [of u xs "p # ys"] apart_parts [of u "xs @ [p]" ys] assms(1) by auto
  then have a: "apart v xs" "apart v ys" by (auto intro!: apart_mono [of u] assms(6))
  have n1: "ns1 = [] \<or> (\<exists>n. ns1 = [n])" and n2: "ns2 = [] \<or> (\<exists>n. ns2 = [n])"
    using assms(4,5) by (auto simp: le_Suc_eq length_Suc_conv)
  have "apart v (xs @ ns1)"
    using n1 a(1) lx apart_snoc_last [of xs v] by (cases "xs = []") auto
  then have "apart v ((xs @ ns1) @ [p])" using apart_used_middle [of v p "xs @ ns1"] assms(3) by simp
  moreover have "apart v (p # ns2 @ ys)" using n2 a(2) hy assms(3) by (cases ys) auto
  ultimately show ?thesis using apart_append [of v "xs @ ns1" p "ns2 @ ys"] by simp
qed

lemma carve_front:
  assumes core: "tlsf_core base h ps fl (set buf)" and bs: "ps @ [mNullBlock h] = xs @ p # ys"
    and u: "used h p \<or> p = mNullBlock h" and x: "s \<noteq> 0 \<Longrightarrow> xs \<noteq> [] \<and> used h (last xs)"
    and buf: "distinct buf" "s \<noteq> 0 \<Longrightarrow> buf \<noteq> []" and sz: "unat s < unat (sizs (blocks h) p)"
  shows "\<exists>h' buf' fl' ps' ns. cut_front p s buf h = Some (buf', h')
    \<and> tlsf_core base h' ps' fl' (set buf') \<and> ps' @ [mNullBlock h] = xs @ ns @ p # ys \<and> mNullBlock h' = mNullBlock h
    \<and> distinct buf' \<and> set buf' = set buf - set ns \<and> set ns \<subseteq> set buf \<and> length ns \<le> 1
    \<and> length buf' = length buf - (if s \<noteq> 0 then 1 else 0)
    \<and> (\<forall>r. used h' r \<longleftrightarrow> used h r \<and> r \<notin> set ns)
    \<and> offs (blocks h') p = offs (blocks h) p + s \<and> sizs (blocks h') p = sizs (blocks h) p - s
    \<and> (\<forall>r. r \<noteq> p \<and> r \<notin> set buf \<longrightarrow> offs (blocks h') r = offs (blocks h) r \<and> sizs (blocks h') r = sizs (blocks h) r)
    \<and> dom (blocks h') = dom (blocks h)
    \<and> mMallocCount h' = mMallocCount h \<and> mFreeCount h' = mFreeCount h \<and> mBlockPool h' = mBlockPool h"
proof (cases "s = 0")
  case True
  then show ?thesis using core bs buf(1)
    by (intro exI [of _ h] exI [of _ buf] exI [of _ fl] exI [of _ ps] exI [of _ "[]"]) (simp add: cut_front_def)
next
  case False
  then obtain zs where xs: "xs = zs @ [last xs]" and l: "used h (last xs)" using x by (metis append_butlast_last_id)
  have bn: "buf \<noteq> []" "last buf \<in> set buf" using buf(2) False by auto
  have s0: "0 < unat s" using False by (simp add: unat_gt_0)
  have "p \<in> set (ps @ [mNullBlock h])" unfolding bs by simp
  then have np: "last buf \<noteq> p" using core_disj [OF core] bn(2) by blast
  have "ps @ [mNullBlock h] = zs @ last xs # p # ys" using bs xs by (metis append.assoc append_Cons append_Nil)
  from cut_front_core [OF core this l u buf(1) bn(1) s0 sz]
  obtain h' fl' ps' where h': "cut_front p s buf h = Some (butlast buf, h')" "tlsf_core base h' ps' fl' (set (butlast buf))"
    "ps' @ [mNullBlock h] = zs @ last xs # last buf # p # ys" "mNullBlock h' = mNullBlock h"
    "\<forall>r. used h' r \<longleftrightarrow> used h r \<and> r \<noteq> last buf" "dom (blocks h') = dom (blocks h)"
    "offs (blocks h') = (offs (blocks h))(last buf := offs (blocks h) p, p := offs (blocks h) p + s)"
    "sizs (blocks h') = (sizs (blocks h))(last buf := s, p := sizs (blocks h) p - s)"
    "mMallocCount h' = mMallocCount h" "mFreeCount h' = mFreeCount h" "mBlockPool h' = mBlockPool h" by blast
  have e: "ps' @ [mNullBlock h] = xs @ [last buf] @ p # ys" using h'(3) xs by (metis append.assoc append_Cons append_Nil)
  show ?thesis
    by (intro exI [of _ h'] exI [of _ "butlast buf"] exI [of _ fl'] exI [of _ ps'] exI [of _ "[last buf]"] conjI h'(1,2,4,6,9-11) e)
      (use h'(5,7,8) bn np False set_butlast_distinct [OF buf(1) bn(1)] buf(1) in \<open>simp_all add: distinct_butlast\<close>)
qed

lemma carve_back:
  assumes core: "tlsf_core base h ps fl (set buf)" and bs: "ps @ [mNullBlock h] = xs @ p # ys"
    and u: "used h p \<or> p = mNullBlock h"
    and buf: "distinct buf" "\<not> (sizs (blocks h) p = sz \<and> p \<noteq> mNullBlock h) \<Longrightarrow> buf \<noteq> []"
    and sz: "0 < unat sz" "unat sz \<le> unat (sizs (blocks h) p)"
  shows "\<exists>h' buf' fl' ps' ns. cut_back p sz buf h = Some (buf', h')
    \<and> tlsf_core base h' ps' fl' (set buf') \<and> ps' @ [mNullBlock h'] = xs @ p # ns @ ys
    \<and> distinct buf' \<and> set ns \<subseteq> set buf \<and> length ns \<le> 1
    \<and> (\<forall>r. used h' r \<longleftrightarrow> (used h r \<or> r = p) \<and> r \<notin> set ns)
    \<and> offs (blocks h') p = offs (blocks h) p \<and> sizs (blocks h') p = sz
    \<and> (\<forall>r. r \<noteq> p \<and> r \<notin> set buf \<longrightarrow> offs (blocks h') r = offs (blocks h) r \<and> sizs (blocks h') r = sizs (blocks h) r)
    \<and> dom (blocks h') = dom (blocks h)
    \<and> mMallocCount h' = mMallocCount h \<and> mFreeCount h' = mFreeCount h \<and> mBlockPool h' = mBlockPool h"
proof (cases "p = mNullBlock h")
  case True
  then have ys: "ys = []" "xs = ps" using bs core_distinct [OF core]
    by (cases ys rule: rev_cases; auto)+
  have bn: "buf \<noteq> []" "last buf \<in> set buf" using buf(2) True by auto
  have np: "last buf \<noteq> p" "\<not> used h (last buf)" using core_disj [OF core] core_spare [OF core bn(2)] bn(2) True by auto
  obtain h' where "cut_back p sz buf h = Some (butlast buf, h')" "tlsf_core base h' (ps @ [p]) fl (set (butlast buf))"
    "mNullBlock h' = last buf" "\<forall>r. used h' r \<longleftrightarrow> used h r \<or> r = p"
    "offs (blocks h') = (offs (blocks h))(last buf := offs (blocks h) p + sz)"
    "sizs (blocks h') = (sizs (blocks h))(p := sz, last buf := sizs (blocks h) p - sz)"
    "dom (blocks h') = dom (blocks h)"
    "mMallocCount h' = mMallocCount h" "mFreeCount h' = mFreeCount h" "mBlockPool h' = mBlockPool h"
    using cut_null_core [OF core True buf(1) bn(1) sz] by blast
  then show ?thesis using ys bn buf(1) np
    by (intro exI [of _ h'] exI [of _ "butlast buf"] exI [of _ fl] exI [of _ "ps @ [p]"] exI [of _ "[last buf]"])
      (auto simp: distinct_butlast)
next
  case False
  then obtain zs where ys: "ys = zs @ [mNullBlock h]" "ps = xs @ p # zs" and up: "used h p"
    using bs u by (cases ys rule: rev_cases) auto
  obtain h' buf' fl' ns where h': "cut_back p sz buf h = Some (buf', h')" "tlsf_core base h' (xs @ p # ns @ zs) fl' (set buf')"
    "distinct buf'" "set ns \<subseteq> set buf" "length ns \<le> 1" "mNullBlock h' = mNullBlock h"
    "\<forall>r. r \<notin> set ns \<longrightarrow> used h' r = used h r" "\<forall>r \<in> set ns. \<not> used h' r"
    "offs (blocks h') p = offs (blocks h) p" "sizs (blocks h') p = sz"
    "\<forall>r. r \<noteq> p \<and> r \<notin> set ns \<longrightarrow> offs (blocks h') r = offs (blocks h) r \<and> sizs (blocks h') r = sizs (blocks h) r"
    "dom (blocks h') = dom (blocks h)"
    "mMallocCount h' = mMallocCount h" "mFreeCount h' = mFreeCount h" "mBlockPool h' = mBlockPool h"
    using cut_back_core [OF core [unfolded ys(2)] up buf(1) sz] buf(2) by blast
  have "used h' r \<longleftrightarrow> (used h r \<or> r = p) \<and> r \<notin> set ns" for r using h'(7,8) up by auto
  then show ?thesis using h' ys
    by (intro exI [of _ h'] exI [of _ buf'] exI [of _ fl'] exI [of _ "xs @ p # ns @ zs"] exI [of _ ns]) auto
qed


text \<open>From the claimed block to the result: the block is carved and what is left of the buffer given back.\<close>

lemma carve_inv:
  assumes core: "tlsf_core base h ps fl (set buf)" and bs: "ps @ [mNullBlock h] = xs @ p # ys"
    and u: "used h p \<or> p = mNullBlock h" and x: "s \<noteq> 0 \<Longrightarrow> xs \<noteq> [] \<and> used h (last xs)"
    and ap: "apart v (xs @ p # ys)" "\<not> v p" "\<And>r. r \<in> set (xs @ ys) \<Longrightarrow> v r \<Longrightarrow> used h r"
    and buf: "distinct buf"
      "length buf = (if s \<noteq> 0 then 1 else 0) + (if sizs (blocks h) p - s = sz \<and> p \<noteq> mNullBlock h then 0 else 1)"
    and sz: "0 < unat sz" "unat s + unat sz \<le> unat (sizs (blocks h) p)"
  shows "\<exists>h'. (do { (buf, h) \<leftarrow> cut_front p s buf h;
                   (buf, h) \<leftarrow> cut_back p sz buf h;
                   b \<leftarrow> blocks h p;
                   _ \<leftarrow> KM_CHECK (\<not> isFree p b);
                   a \<leftarrow> make_allocation h p;
                   h \<leftarrow> destroy_all buf h;
                   Some (Some a, h) }) = Some (Some p, h')
    \<and> heap_ok base h' \<and> live h' = (live h)(p \<mapsto> (offs (blocks h) p + s, sz))
    \<and> mMallocCount h' = mMallocCount h \<and> mFreeCount h' = mFreeCount h"
proof -
  have lt: "unat s < unat (sizs (blocks h) p)" using sz by simp
  have b0: "s \<noteq> 0 \<Longrightarrow> buf \<noteq> []" using buf(2) by auto
  obtain h1 buf1 fl1 ps1 ns1 where h1: "cut_front p s buf h = Some (buf1, h1)"
    "tlsf_core base h1 ps1 fl1 (set buf1)" "ps1 @ [mNullBlock h] = xs @ ns1 @ p # ys" "mNullBlock h1 = mNullBlock h"
    "distinct buf1" "set buf1 = set buf - set ns1" "set ns1 \<subseteq> set buf" "length ns1 \<le> 1"
    "length buf1 = length buf - (if s \<noteq> 0 then 1 else 0)"
    "\<forall>r. used h1 r \<longleftrightarrow> used h r \<and> r \<notin> set ns1"
    "offs (blocks h1) p = offs (blocks h) p + s" "sizs (blocks h1) p = sizs (blocks h) p - s"
    "\<forall>r. r \<noteq> p \<and> r \<notin> set buf \<longrightarrow> offs (blocks h1) r = offs (blocks h) r \<and> sizs (blocks h1) r = sizs (blocks h) r"
    "dom (blocks h1) = dom (blocks h)" "mMallocCount h1 = mMallocCount h" "mFreeCount h1 = mFreeCount h"
    using carve_front [OF core bs u x buf(1) b0 lt] by blast
  have pb: "p \<in> set (ps @ [mNullBlock h])" unfolding bs by simp
  then have pn: "p \<notin> set buf" "p \<in> dom (blocks h)" using core_disj [OF core] core_dom [OF core] by auto
  have sz1: "unat sz \<le> unat (sizs (blocks h1) p)" using sz(2) h1(12) by (simp add: unat_sub_le)
  have u1: "used h1 p \<or> p = mNullBlock h1" using u h1(4,7,10) pn(1) by auto
  have e1: "ps1 @ [mNullBlock h1] = (xs @ ns1) @ p # ys" using h1(3,4) by simp
  have b1: "\<not> (sizs (blocks h1) p = sz \<and> p \<noteq> mNullBlock h1) \<Longrightarrow> buf1 \<noteq> []"
    using h1(4,9,12) buf(2) by (auto split: if_splits)
  obtain h2 buf2 fl2 ps2 ns2 where h2: "cut_back p sz buf1 h1 = Some (buf2, h2)"
    "tlsf_core base h2 ps2 fl2 (set buf2)" "ps2 @ [mNullBlock h2] = (xs @ ns1) @ p # ns2 @ ys"
    "distinct buf2" "set ns2 \<subseteq> set buf1" "length ns2 \<le> 1"
    "\<forall>r. used h2 r \<longleftrightarrow> (used h1 r \<or> r = p) \<and> r \<notin> set ns2"
    "offs (blocks h2) p = offs (blocks h1) p" "sizs (blocks h2) p = sz"
    "\<forall>r. r \<noteq> p \<and> r \<notin> set buf1 \<longrightarrow> offs (blocks h2) r = offs (blocks h1) r \<and> sizs (blocks h2) r = sizs (blocks h1) r"
    "dom (blocks h2) = dom (blocks h1)" "mMallocCount h2 = mMallocCount h1" "mFreeCount h2 = mFreeCount h1"
    using carve_back [OF h1(2) e1 u1 h1(5) b1 sz(1) sz1] by blast
  have us: "used h2 r \<longleftrightarrow> (used h r \<or> r = p)" if "r \<notin> set buf" for r using that h1(6,7,10) h2(5,7) by auto
  have ub: "\<not> used h2 r" if "r \<in> set buf" for r using that core_spare [OF core that] h1(10) h2(7) pn(1) by auto
  obtain h3 where h3: "destroy_all buf2 h2 = Some h3" "tlsf_core base h3 ps2 fl2 {}" "keeps (set (ps2 @ [mNullBlock h2])) h2 h3"
    using destroy_all_core [OF h2(2,4)] by blast
  have bd: "r \<notin> set buf" if "r \<in> set xs \<or> r \<in> set ys" for r
  proof -
    have "r \<in> set (ps @ [mNullBlock h])" unfolding bs using that by auto
    then show ?thesis using core_disj [OF core] by auto
  qed
  have "apart (used h2) (xs @ ns1 @ p # ns2 @ ys)"
    by (rule apart_carve [OF ap(1,2) _ h1(8) h2(6)]) (use us pn(1) bd ap(3) in auto)
  then have "apart (used h3) (ps2 @ [mNullBlock h3])" using keeps_apart [OF h3(3)] h2(3) by simp
  then have ok: "heap_ok base h3" using h3(2) by (auto simp: heap_ok_def tlsf_inv_def)
  have "live h3 r = ((live h)(p \<mapsto> (offs (blocks h) p + s, sz))) r" for r
    using keeps_live [OF h2(2) h3(2,3)] us [of r] ub [of r] core_spare [OF core, of r] pn h1(6,11,13,14) h2(8-11)
    by (cases "r \<in> set buf") (auto simp: live_alt)
  then have "live h3 = (live h)(p \<mapsto> (offs (blocks h) p + s, sz))" ..
  moreover have "p \<in> dom (blocks h2)" "used h2 p" using pn us h1(14) h2(11) by auto
  ultimately show ?thesis
    using h1(1,15,16) h2(1,12,13) h3(1) ok keepsD(3,4) [OF h3(3)] by (auto simp: make_allocation_def used_def)
qed

text \<open>The number of spare blocks \<^verbatim>\<open>reserveBlock\<close> asks for.\<close>

definition blocks_needed :: "ptr \<Rightarrow> size_t \<Rightarrow> size_t \<Rightarrow> tlsf_heap \<Rightarrow> nat" where
  "blocks_needed p s sz h =
     (if s \<noteq> 0 then 1 else 0) + (if sizs (blocks h) p - s = sz \<and> p \<noteq> mNullBlock h then 0 else 1)"

lemma reserveBlock_flow:
  assumes "p \<in> dom (blocks h)" and "s = ao - offs (blocks h) p" and "prevs (blocks h) p = hd_or (rev xs) None"
    and "s \<noteq> 0 \<Longrightarrow> xs \<noteq> [] \<and> last xs \<in> dom (blocks h) \<and> used h (last xs)"
  shows "reserveBlock p sz ao li h =
     do { (ok, buf, h) \<leftarrow> buffer_reserve (blocks_needed p s sz h) [] h;
          if \<not> ok then do { h \<leftarrow> destroy_all buf h; Some (None, h) }
          else do {
            h \<leftarrow> (do { h \<leftarrow> detachBlock p li h; if p \<noteq> mNullBlock h then takeBlockFromFreeList p h else Some h });
            (buf, h) \<leftarrow> cut_front p s buf h;
            (buf, h) \<leftarrow> cut_back p sz buf h;
            b \<leftarrow> blocks h p;
            _ \<leftarrow> KM_CHECK (\<not> isFree p b);
            a \<leftarrow> make_allocation h p;
            h \<leftarrow> destroy_all buf h;
            Some (Some a, h) } }"
proof (cases "s = 0")
  case True
  then show ?thesis using assms(1,2)
    by (simp add: reserveBlock_steps blocks_needed_def Let_def cong: if_cong del: buffer_reserve.simps)
next
  case False
  then obtain zs where "xs = zs @ [last xs]" using assms(4) by (metis append_butlast_last_id)
  then have "prevs (blocks h) p = Some (last xs)" using assms(3) by (metis hd_or_simps(2) rev_eq_Cons_iff rev_rev_ident)
  moreover have "0 < s" using False by (simp add: word_neq_0_conv)
  ultimately show ?thesis using assms(1,2,4) False
    by (simp add: reserveBlock_steps blocks_needed_def used_def Let_def cong: if_cong del: buffer_reserve.simps)
qed

lemma reserveBlock_inv:
  assumes inv: "tlsf_inv base h ps fl {}" and room: "pool_room 2 (mBlockPool h)"
    and p: "p \<in> set ps \<and> unat li = list_index (unat (sizs (blocks h) p)) \<or> p = mNullBlock h \<and> li = mFreeListCount h"
    and f: "\<not> used h p" and sz: "0 < unat sz"
    and fit: "unat (offs (blocks h) p) \<le> unat ao"
      "unat ao + unat sz \<le> unat (offs (blocks h) p) + unat (sizs (blocks h) p)"
    and first: "ao \<noteq> offs (blocks h) p \<Longrightarrow> prevs (blocks h) p \<noteq> None"
  shows "\<exists>r h'. reserveBlock p sz ao li h = Some (r, h') \<and> mMallocCount h' = mMallocCount h \<and> mFreeCount h' = mFreeCount h
    \<and> (r = None \<and> tlsf_inv base h' ps fl {} \<and> keeps (set (ps @ [mNullBlock h])) h h'
         \<and> slot_counts (mBlockPool h') = slot_counts (mBlockPool h)
       \<or> r = Some p \<and> live h p = None \<and> heap_ok base h' \<and> live h' = (live h)(p \<mapsto> (ao, sz)))"
proof -
  let ?m = "blocks h" and ?N = "mNullBlock h"
  define s where "s = ao - offs ?m p"
  have us: "unat s = unat ao - unat (offs ?m p)" using fit(1) by (simp add: s_def unat_sub_le)
  have ao: "offs ?m p + s = ao" by (simp add: s_def)
  note core = inv_core [OF inv]
  have "p \<in> set (ps @ [?N])" using p by auto
  then obtain xs ys where bs: "ps @ [?N] = xs @ p # ys" by (meson split_list)
  have d: "p \<in> dom ?m" "set xs \<subseteq> dom ?m" "distinct (xs @ p # ys)" using core_dom [OF core] core_distinct [OF core] unfolding bs by auto
  have pr: "prevs ?m p = hd_or (rev xs) None" using core_phys [OF core] unfolding bs by (simp add: phys_def)
  have ap: "apart (used h) (xs @ p # ys)" using inv_apart [OF inv] unfolding bs .
  have x: "xs \<noteq> [] \<and> last xs \<in> dom ?m \<and> used h (last xs)" if "s \<noteq> 0"
  proof -
    have "xs \<noteq> []" using first that pr by (auto simp: s_def)
    then show ?thesis using apart_last [OF ap f] d(2) last_in_set by blast
  qed
  note flow = reserveBlock_flow [OF d(1) s_def pr x]
  let ?k = "blocks_needed p s sz h"
  have k: "?k \<le> 2" by (simp add: blocks_needed_def)
  have core0: "tlsf_core base h ps fl (set [])" using core by simp
  obtain ok buf h1 where h1: "buffer_reserve ?k [] h = Some (ok, buf, h1)" "tlsf_core base h1 ps fl (set buf)"
    "distinct buf" "ok \<longrightarrow> length buf = ?k" "keeps (set (ps @ [?N])) h h1"
    using buffer_reserve_core [OF core0 _ _ pool_room_mono [OF room k]] k by auto
  note K = keepsD [OF h1(5)] and F = keeps_fields [OF h1(5) \<open>p \<in> set (ps @ [?N])\<close>]
  show ?thesis
  proof (cases ok)
    case False
    obtain h2 where h2: "destroy_all buf h1 = Some h2" "tlsf_core base h2 ps fl {}" "keeps (set (ps @ [?N])) h1 h2"
      using destroy_all_core [OF h1(2,3)] K(5) by auto
    have k2: "keeps (set (ps @ [?N])) h h2" by (rule keeps_trans [OF h1(5) h2(3)])
    have "slot_counts (mBlockPool h2) = slot_counts (mBlockPool h)"
      using destroy_all_counts [OF h2(1)] buffer_reserve_fail [OF core room k, of buf h1] h1(1) False by simp
    moreover have "tlsf_inv base h2 ps fl {}"
      using h2(2) keeps_apart [OF k2 inv_apart [OF inv]] by (simp add: tlsf_inv_def)
    ultimately show ?thesis using flow h1(1) h2(1) False k2 keepsD(3,4) [OF k2] by auto
  next
    case True
    obtain h2 fl2 where h2: "(do { h \<leftarrow> detachBlock p li h1; if p \<noteq> mNullBlock h then takeBlockFromFreeList p h else Some h }) = Some h2"
      "tlsf_core base h2 ps fl2 (set buf)" "same_blocks h1 h2" "\<forall>r. used h2 r \<longleftrightarrow> used h1 r \<or> r = p \<and> p \<noteq> mNullBlock h1"
      using claim_core [OF h1(2), of p li] f p F(2,7) K(5,6) by auto
    note S = h2(3) [unfolded same_blocks_def]
    have bs2: "ps @ [mNullBlock h2] = xs @ p # ys" using bs S K(5) by simp
    have u2: "used h2 r = used h r" if "r \<in> set xs \<or> r \<in> set ys" for r
    proof -
      have "r \<in> set (ps @ [?N])" "r \<noteq> p" unfolding bs using that d(3) by auto
      then show ?thesis using keeps_fields(7) [OF h1(5)] h2(4) by auto
    qed
    have f2: "sizs (blocks h2) p = sizs ?m p" "offs (blocks h2) p = offs ?m p" "mNullBlock h2 = ?N"
      using S F K(5) by simp_all
    have "used h2 p \<or> p = mNullBlock h2" using h2(4) f2(3) K(5) by auto
    moreover have "xs \<noteq> [] \<and> used h2 (last xs)" if "s \<noteq> 0" using x [OF that] u2 [of "last xs"] by auto
    moreover have "length buf = (if s \<noteq> 0 then 1 else 0) + (if sizs (blocks h2) p - s = sz \<and> p \<noteq> mNullBlock h2 then 0 else 1)"
      using h1(4) True unfolding f2 by (simp add: blocks_needed_def)
    moreover have "unat s + unat sz \<le> unat (sizs (blocks h2) p)" using us fit unfolding f2 by simp
    ultimately obtain h3 where h3: "(do { (buf, h) \<leftarrow> cut_front p s buf h2;
                   (buf, h) \<leftarrow> cut_back p sz buf h;
                   b \<leftarrow> blocks h p;
                   _ \<leftarrow> KM_CHECK (\<not> isFree p b);
                   a \<leftarrow> make_allocation h p;
                   h \<leftarrow> destroy_all buf h;
                   Some (Some a, h) }) = Some (Some p, h3)"
      "heap_ok base h3" "live h3 = (live h2)(p \<mapsto> (offs (blocks h2) p + s, sz))"
      "mMallocCount h3 = mMallocCount h2" "mFreeCount h3 = mFreeCount h2"
      using carve_inv [OF h2(2) bs2 _ _ ap f _ h1(3) _ sz] u2 by auto
    have "live h2 = (if p = ?N then live h1 else (live h1)(p \<mapsto> (offs ?m p, sizs ?m p)))"
      using h2(4) S F K(5) core_dom [OF h1(2)] \<open>p \<in> set (ps @ [?N])\<close> by (auto simp: live_alt fun_eq_iff)
    then have "live h3 = (live h)(p \<mapsto> (ao, sz))"
      using h3(3) keeps_live [OF core h1(2,5)] f2 ao by auto
    moreover have "live h p = None" using f by (simp add: live_alt)
    moreover have "reserveBlock p sz ao li h = Some (Some p, h3)"
      using True by (simp add: flow h1(1) h2(1) h3(1) del: Option.bind_assoc)
    ultimately show ?thesis using h3(2,4,5) S K(3,4) by auto
  qed
qed

end
