(* ===== verification/TlsfMalloc.thy ===== *)
theory TlsfMalloc
  imports TlsfAlloc
begin

text \<open>
  The allocation functions of the heap: the search of the free lists and the null block, up to
  \<^verbatim>\<open>aligned_alloc\<close>.
\<close>

section \<open>Checking one block\<close>

text \<open>
  The sizes for which no address computation of an allocation wraps around.
\<close>

definition request_ok :: "nat \<Rightarrow> size_t \<Rightarrow> size_t \<Rightarrow> tlsf_heap \<Rightarrow> bool" where
  "request_ok base align sz h \<longleftrightarrow>
     align \<noteq> 0 \<and> sz \<noteq> 0 \<and> base mod unat align = 0 \<and> unat sz < 2 ^ 38
     \<and> base + unat (mSize h) + unat align + unat sz < 2 ^ 64"

lemma block_within:
  assumes "tlsf_core base h ps fl spare" and "p \<in> set (ps @ [mNullBlock h])"
  shows "base \<le> unat (offs (blocks h) p)"
    and "unat (offs (blocks h) p) + unat (sizs (blocks h) p) \<le> base + unat (mSize h)"
  using tiles_within [of "offs (blocks h)" "sizs (blocks h)" "ps @ [mNullBlock h]" base p]
    core_phys [OF assms(1)] assms(2) unfolding phys_def by simp_all

lemma first_block_base:
  assumes "tlsf_core base h ps fl spare" and "p \<in> set (ps @ [mNullBlock h])" and "prevs (blocks h) p = None"
  shows "unat (offs (blocks h) p) = base"
proof -
  obtain xs ys where bs: "ps @ [mNullBlock h] = xs @ p # ys" using assms(2) by (meson split_list)
  have "hd_or (rev xs) None = None" "tiles (offs (blocks h)) (sizs (blocks h)) (xs @ p # ys) base"
    using core_phys [OF assms(1)] assms(3) unfolding bs by (simp_all add: phys_def)
  then show ?thesis by simp
qed

lemma roundup_multiple:
  assumes "0 < m" and "v mod m = 0"
  shows "(v + m - 1) div m * m = (v :: nat)"
proof -
  have "v + m - 1 = (m - 1) + (v div m) * m" using assms by auto
  then have "(v + m - 1) div m = v div m" using assms(1) by (simp only: div_mult_self1) simp
  then show ?thesis using assms(2) by auto
qed

text \<open>What a successful and a failed attempt leave behind.\<close>

definition alloc_post :: "nat \<Rightarrow> tlsf_heap \<Rightarrow> ptr list \<Rightarrow> (nat \<Rightarrow> ptr list) \<Rightarrow> size_t \<Rightarrow> size_t \<Rightarrow> ptr option \<Rightarrow> tlsf_heap \<Rightarrow> bool" where
  "alloc_post base h ps fl align sz r h' \<longleftrightarrow>
     mMallocCount h' = mMallocCount h \<and> mFreeCount h' = mFreeCount h \<and>
     (case r of
        None \<Rightarrow> tlsf_inv base h' ps fl {} \<and> keeps (set (ps @ [mNullBlock h])) h h'
                \<and> slot_counts (mBlockPool h') = slot_counts (mBlockPool h)
      | Some p \<Rightarrow> live h p = None \<and> heap_ok base h'
                \<and> (\<exists>a. a mod align = 0 \<and> live h' = (live h)(p \<mapsto> (a, sz))))"

lemma checkBlock_inv:
  assumes inv: "tlsf_inv base h ps fl {}" and room: "pool_room 2 (mBlockPool h)"
    and p: "p \<in> set ps \<and> unat li = list_index (unat (sizs (blocks h) p)) \<or> p = mNullBlock h \<and> li = mFreeListCount h"
    and f: "\<not> used h p" and rq: "request_ok base align sz h"
  shows "\<exists>r h'. checkBlock p li sz align h = Some (r, h') \<and> alloc_post base h ps fl align sz r h'"
proof -
  let ?o = "offs (blocks h) p" and ?s = "sizs (blocks h) p"
  let ?ao = "roundup ?o align"
  note core = inv_core [OF inv]
  have pb: "p \<in> set (ps @ [mNullBlock h])" using p by auto
  note B = block_within [OF core pb]
  have al: "0 < unat align" "align \<noteq> 0" "0 < unat sz" using rq by (auto simp: request_ok_def unat_gt_0)
  have fits: "unat ?o + unat align \<le> 2 ^ 64" using B rq by (simp add: request_ok_def)
  have ao: "unat ?o \<le> unat ?ao" "unat ?ao < unat ?o + unat align" "?ao mod align = 0"
    using roundup_bounds [of align ?o] roundup_aligned [of align ?o] al fits by (simp_all add: isAlignedTo_def)
  have "unat (sz + ?ao) = unat sz + unat ?ao" using ao B rq by (intro unat_add_small) (simp add: request_ok_def)
  then have need: "unat (sz + ?ao - ?o) = unat sz + unat ?ao - unat ?o" using ao(1) by (simp add: unat_sub_le)
  have d: "p \<in> dom (blocks h)" using pb core_dom [OF core] by auto
  show ?thesis
  proof (cases "?s < sz + ?ao - ?o")
    case True
    then have "checkBlock p li sz align h = Some (None, h)" using d f al by (simp add: checkBlock_def used_def Let_def)
    then show ?thesis using inv by (simp add: alloc_post_def keeps_def)
  next
    case False
    then have fit: "unat ?ao + unat sz \<le> unat ?o + unat ?s" using need ao(1) by (simp add: word_less_nat_alt)
    have "prevs (blocks h) p \<noteq> None" if "?ao \<noteq> ?o"
    proof
      assume "prevs (blocks h) p = None"
      then have "unat ?o = base" by (rule first_block_base [OF core pb])
      then have "unat ?ao = unat ?o"
        using rq unat_roundup [of align ?o] al fits roundup_multiple [of "unat align" base]
        by (simp add: request_ok_def)
      then show False using that word_eqI_unat by blast
    qed
    from reserveBlock_inv [OF inv room p f al(3) ao(1) fit this]
    obtain r h' where r: "reserveBlock p sz ?ao li h = Some (r, h')"
      "mMallocCount h' = mMallocCount h" "mFreeCount h' = mFreeCount h"
      "r = None \<and> tlsf_inv base h' ps fl {} \<and> keeps (set (ps @ [mNullBlock h])) h h'
         \<and> slot_counts (mBlockPool h') = slot_counts (mBlockPool h)
       \<or> r = Some p \<and> live h p = None \<and> heap_ok base h' \<and> live h' = (live h)(p \<mapsto> (?ao, sz))" by blast
    then have "alloc_post base h ps fl align sz r h'" using ao(3) exI [of "\<lambda>a. a mod align = 0 \<and> live h' = (live h)(p \<mapsto> (a, sz))" ?ao]
      by (auto simp: alloc_post_def)
    note this r(1)
    moreover have "checkBlock p li sz align h = reserveBlock p sz ?ao li h"
      using d f al False by (simp add: checkBlock_def used_def Let_def)
    ultimately show ?thesis by auto
  qed
qed


section \<open>Searching the free lists\<close>

lemma alloc_post_trans:
  assumes a: "alloc_post base h ps fl align sz None h1" and b: "alloc_post base h1 ps fl align sz r h2"
    and inv: "tlsf_inv base h ps fl {}"
  shows "alloc_post base h ps fl align sz r h2"
proof -
  have k: "keeps (set (ps @ [mNullBlock h])) h h1" and i1: "tlsf_inv base h1 ps fl {}"
    using a by (simp_all add: alloc_post_def)
  have n: "mNullBlock h1 = mNullBlock h" by (rule keepsD(5) [OF k])
  have "live h1 = live h" by (rule keeps_live [OF inv_core [OF inv] inv_core [OF i1] k])
  then show ?thesis using a b n keeps_trans [OF k] by (auto simp: alloc_post_def split: option.splits)
qed

lemma alloc_post_None:
  assumes "alloc_post base h ps fl align sz None h1" and "pool_room 2 (mBlockPool h)" and "request_ok base align sz h"
  shows "tlsf_inv base h1 ps fl {}" and "pool_room 2 (mBlockPool h1)" and "request_ok base align sz h1"
    and "mNullBlock h1 = mNullBlock h" and "mFreeListCount h1 = mFreeListCount h"
  using assms slot_counts_room [of "mBlockPool h1" "mBlockPool h"] keepsD [of "set (ps @ [mNullBlock h])" h h1]
  by (auto simp: alloc_post_def request_ok_def)

lemma alloc_post_refl: "tlsf_inv base h ps fl {} \<Longrightarrow> alloc_post base h ps fl align sz None h"
  by (simp add: alloc_post_def keeps_def)

lemma search_list_inv:
  assumes "tlsf_inv base h ps fl {}" and "fl i = xs @ ys" and "unat index = i"
    and "pool_room 2 (mBlockPool h)" and "request_ok base align sz h"
  shows "\<exists>r h'. search_list (hd_or ys None) index sz align h = Some (r, h') \<and> alloc_post base h ps fl align sz r h'"
  using assms
proof (induction ys arbitrary: h xs)
  case Nil
  then show ?case by (simp add: search_list.simps alloc_post_refl)
next
  case (Cons y ys)
  note inv = Cons.prems(1)
  have y: "y \<in> set (fl i)" using Cons.prems(2) by simp
  note lists = inv_lists [OF inv]
  have fy: "\<not> used h y" by (rule lists_ok_free [OF lists y])
  have py: "y \<in> set ps" using core_sub [OF inv_core [OF inv]] y by blast
  obtain r h1 where c: "checkBlock y index sz align h = Some (r, h1)" "alloc_post base h ps fl align sz r h1"
    using checkBlock_inv [OF inv Cons.prems(4) _ fy Cons.prems(5), of index] py lists_okD(11) [OF lists y] Cons.prems(3)
    by auto
  show ?case
  proof (cases r)
    case (Some a)
    then show ?thesis using c by (simp add: search_list.simps)
  next
    case None
    note P = alloc_post_None [OF c(2) [unfolded None] Cons.prems(4,5)]
    obtain r' h2 where r': "search_list (hd_or ys None) index sz align h1 = Some (r', h2)"
      "alloc_post base h1 ps fl align sz r' h2"
      using Cons.IH [OF P(1) _ Cons.prems(3) P(2,3), of "xs @ [y]"] Cons.prems(2) by auto
    have "nfs (blocks h1) y = hd_or ys None"
      using lists_okD(5) [OF inv_lists [OF P(1)], of i] Cons.prems(2) by simp
    moreover have "y \<in> dom (blocks h1)" "\<not> used h1 y"
      using lists_okD(8) [OF inv_lists [OF P(1)] y] lists_ok_free [OF inv_lists [OF P(1)] y] by auto
    ultimately have "search_list (hd_or (y # ys) None) index sz align h = Some (r', h2)"
      using c(1) None r'(1) by (subst search_list.simps) (simp add: used_def)
    then show ?thesis using alloc_post_trans [OF c(2) [unfolded None] r'(2) inv] by blast
  qed
qed

text \<open>
  \<^verbatim>\<open>findFreeBlock\<close> returns the head of some free list, and its index with it, or nothing.
\<close>

lemma class_of_small:
  assumes "0 < n" and "n < 2 ^ 38"
  shows "class_of n \<le> 30"
proof -
  have "top_bit n \<le> top_bit (2 ^ 38 - 1)" using assms by (intro top_bit_mono) simp_all
  moreover have "top_bit (2 ^ 38 - 1) = 37" by (rule top_bit_unique) simp_all
  ultimately show ?thesis by (auto simp: class_of_def)
qed

lemma listed_head:
  assumes ok: "lists_ok h fl" and c: "unat mc < kMaxMemoryClass" and w: "w \<noteq> 0"
    and sub: "\<And>s. s < 32 \<Longrightarrow> bit w s \<Longrightarrow> fl (unat mc * 32 + s) \<noteq> []"
  shows "\<exists>i. get_list h (GetListIndex2 mc (ucast (BitScanTrailing (w :: u32)))) = Some (hd_or (fl i) None)
    \<and> unat (GetListIndex2 mc (ucast (BitScanTrailing w))) = i"
proof -
  let ?s = "countr_zero w"
  have s: "bit w ?s" "?s < 32" using countr_zero_bit [OF w] by auto
  have us: "unat (ucast (BitScanTrailing w) :: u16) = ?s"
    using unat_BitScanTrailing [OF w] s(2) by (simp add: unat_ucast_widen)
  have i: "unat (GetListIndex2 mc (ucast (BitScanTrailing w))) = unat mc * 32 + ?s"
    using unat_GetListIndex2 [of mc "ucast (BitScanTrailing w)"] c s(2) us
    by (simp add: kMaxMemoryClass_def kMemoryClassShift_def)
  obtain p where "p \<in> set (fl (unat mc * 32 + ?s))" using sub [OF s(2,1)] by (meson list.set_sel(1))
  then have "unat mc * 32 + ?s < length (mFreeList h)" by (rule lists_okD(7) [OF ok])
  then show ?thesis using i lists_okD(3) [OF ok] by (simp add: get_list_def)
qed

lemma findFreeBlock_ok:
  assumes ok: "lists_ok h fl" and sz: "0 < unat sz" "unat sz < 2 ^ 38"
  shows "\<exists>blk index. findFreeBlock h sz = Some (blk, index)
    \<and> (blk = None \<or> blk = hd_or (fl (unat index)) None)"
proof -
  let ?mc = "SizeToMemoryClass sz" and ?si = "SizeToSecondIndex sz (SizeToMemoryClass sz)"
  note maps = lists_okD(12) [OF ok, unfolded maps_ok_def]
  have mc: "unat ?mc = class_of (unat sz)" "class_of (unat sz) \<le> 30"
    using unat_SizeToMemoryClass class_of_small [OF sz] by auto
  have si: "unat ?si < 32" using unat_SizeToSecondIndex [OF sz(1)] second_of_less by simp
  have k: "kMaxMemoryClass = 57" by (simp add: kMaxMemoryClass_def kMemoryClassShift_def)
  let ?inner = "mInnerFreeMap h ! unat ?mc AND push_bit (unat ?si) (NOT 0)"
  let ?top = "mTopLevelFreeMap h AND push_bit (Suc (unat ?mc)) (NOT 0)"
  have gi: "get_inner h c = Some (mInnerFreeMap h ! unat c)" if "unat c < 57" for c
    using that maps k by (simp add: get_inner_def)
  have pos: "0 < sz" using sz(1) by (simp add: word_less_nat_alt)
  show ?thesis
  proof (cases "?inner = 0")
    case False
    have "\<exists>i. get_list h (GetListIndex2 ?mc (ucast (BitScanTrailing ?inner))) = Some (hd_or (fl i) None)
      \<and> unat (GetListIndex2 ?mc (ucast (BitScanTrailing ?inner))) = i"
      using maps mc k by (intro listed_head [OF ok _ False]) (auto simp: bit_and_iff)
    then show ?thesis
      using False pos mc si gi [of ?mc] by (auto simp: findFreeBlock_def Let_def)
  next
    case True
    show ?thesis
    proof (cases "?top = 0")
      case True
      then show ?thesis
        using \<open>?inner = 0\<close> pos mc si gi [of ?mc] by (auto simp: findFreeBlock_def Let_def)
    next
      case False
      let ?c = "BitScanTrailing ?top"
      have c: "unat ?c = countr_zero ?top" "bit ?top (countr_zero ?top)" "countr_zero ?top < 32"
        using unat_BitScanTrailing [OF False] countr_zero_bit [OF False] by auto
      have ex: "\<exists>s < 32. fl (unat ?c * 32 + s) \<noteq> []" using c maps by (auto simp: bit_and_iff)
      have iff: "bit (mInnerFreeMap h ! unat ?c) s \<longleftrightarrow> fl (unat ?c * 32 + s) \<noteq> []" if "s < 32" for s
        using maps k c(1,3) that by simp
      then have nz: "mInnerFreeMap h ! unat ?c \<noteq> 0" using ex by (auto simp: u32_eq_0_iff)
      have "\<exists>i. get_list h (GetListIndex2 ?c (ucast (BitScanTrailing (mInnerFreeMap h ! unat ?c)))) = Some (hd_or (fl i) None)
        \<and> unat (GetListIndex2 ?c (ucast (BitScanTrailing (mInnerFreeMap h ! unat ?c)))) = i"
        using iff c k by (intro listed_head [OF ok _ nz]) auto
      then show ?thesis
        using \<open>?inner = 0\<close> False nz pos mc si gi [of ?mc] gi [of ?c] c(1,3) by (auto simp: findFreeBlock_def Let_def)
    qed
  qed
qed


section \<open>Allocating\<close>

lemma GetNextBlockSize_small:
  assumes "0 < unat sz" and "unat sz < 2 ^ 38"
  shows "0 < unat (GetNextBlockSize sz)" and "unat (GetNextBlockSize sz) < 2 ^ 38"
proof -
  have "0 < unat (GetNextBlockSize sz) \<and> unat (GetNextBlockSize sz) < 2 ^ 38"
  proof (cases "256 < sz")
    case True
    then have n: "256 < unat sz" "sz \<noteq> 0" by (auto simp: word_less_nat_alt)
    let ?k = "top_bit (unat sz)"
    have k: "?k - 5 < 64" using top_bit_le_63 [of "unat sz"] unat_lt_64 [of sz] by simp
    have "GetNextBlockSize sz = 2 ^ (?k - 5)"
      using True unat_BitScanLeading_size [OF n(2)] by (simp add: GetNextBlockSize_def tlsf_constants)
    then have e: "unat (GetNextBlockSize sz) = 2 ^ (?k - 5)" using k by (simp add: unat_power2_small)
    have "(2::nat) ^ (?k - 5) \<le> 2 ^ ?k" by (intro power_increasing) simp_all
    also have "\<dots> \<le> unat sz" using top_bit_bounds [of "unat sz"] assms(1) by simp
    finally show ?thesis using e assms(2) by simp
  next
    case False
    then have "unat sz \<le> 256" by (simp add: word_less_nat_alt)
    moreover have "unat (sz + 8) = unat sz + 8" using calculation by (simp add: unat_add_small)
    ultimately show ?thesis using False
      by (auto simp: GetNextBlockSize_def tlsf_constants)
  qed
  then show "0 < unat (GetNextBlockSize sz)" "unat (GetNextBlockSize sz) < 2 ^ 38" by auto
qed

lemma search_for_inv:
  assumes inv: "tlsf_inv base h ps fl {}" and room: "pool_room 2 (mBlockPool h)" and rq: "request_ok base align sz h"
    and n: "0 < unat n" "unat n < 2 ^ 38"
  shows "\<exists>r h'. (do { (listBlock, index) \<leftarrow> findFreeBlock h n; search_list listBlock index sz align h }) = Some (r, h')
    \<and> alloc_post base h ps fl align sz r h'"
proof -
  obtain blk index where f: "findFreeBlock h n = Some (blk, index)" "blk = None \<or> blk = hd_or (fl (unat index)) None"
    using findFreeBlock_ok [OF inv_lists [OF inv] n] by blast
  show ?thesis
  proof (cases blk)
    case None
    then show ?thesis using f(1) alloc_post_refl [OF inv] by (simp add: search_list.simps)
  next
    case (Some q)
    then show ?thesis
      using f search_list_inv [OF inv, of "unat index" "[]" "fl (unat index)" index align sz] room rq by auto
  qed
qed

lemma allocBestFit_inv:
  assumes inv: "tlsf_inv base h ps fl {}" and room: "pool_room 2 (mBlockPool h)" and rq: "request_ok base align sz h"
  shows "\<exists>r h'. allocBestFit align sz h = Some (r, h') \<and> alloc_post base h ps fl align sz r h'"
proof -
  have sz: "0 < unat sz" "unat sz < 2 ^ 38" using rq by (auto simp: request_ok_def unat_gt_0)
  obtain r1 h1 where s1: "(do { (listBlock, index) \<leftarrow> findFreeBlock h sz; search_list listBlock index sz align h }) = Some (r1, h1)"
    "alloc_post base h ps fl align sz r1 h1"
    using search_for_inv [OF inv room rq sz] by blast
  then obtain blk index where f: "findFreeBlock h sz = Some (blk, index)" "search_list blk index sz align h = Some (r1, h1)"
    by (auto simp: bind_Some_iff)
  show ?thesis
  proof (cases r1)
    case (Some a)
    then show ?thesis using f s1(2) by (auto simp: allocBestFit_def)
  next
    case None
    note P = alloc_post_None [OF s1(2) [unfolded None] room rq]
    obtain r2 h2 where s2: "checkBlock (mNullBlock h1) (mFreeListCount h1) sz align h1 = Some (r2, h2)"
      "alloc_post base h1 ps fl align sz r2 h2"
      using checkBlock_inv [OF P(1,2) _ inv_null [OF P(1)] P(3)] by blast
    note T = alloc_post_trans [OF s1(2) [unfolded None] s2(2) inv]
    show ?thesis
    proof (cases r2)
      case (Some a)
      then show ?thesis using f None s2(1) T by (auto simp: allocBestFit_def)
    next
      case r2: None
      note Q = alloc_post_None [OF s2(2) [unfolded r2] P(2,3)]
      obtain r3 h3 where s3: "(do { (listBlock, index) \<leftarrow> findFreeBlock h2 (GetNextBlockSize sz);
          search_list listBlock index sz align h2 }) = Some (r3, h3)" "alloc_post base h2 ps fl align sz r3 h3"
        using search_for_inv [OF Q(1-3) GetNextBlockSize_small [OF sz]] by blast
      then show ?thesis
        using f None s2(1) r2 alloc_post_trans [OF T [unfolded r2] s3(2) inv] by (auto simp: allocBestFit_def bind_Some_iff)
    qed
  qed
qed

section \<open>The public function\<close>

lemma aligned_alloc_inv:
  assumes "heap_ok base h" and "pool_room 2 (mBlockPool h)" and "request_ok base align sz h"
  shows "\<exists>r h'. aligned_alloc align sz h = Some (r, h') \<and> heap_ok base h' \<and>
    (case r of
       None \<Rightarrow> live h' = live h \<and> mMallocCount h' = mMallocCount h
     | Some p \<Rightarrow> live h p = None \<and> mMallocCount h' = mMallocCount h + 1
         \<and> (\<exists>a. a mod align = 0 \<and> live h' = (live h)(p \<mapsto> (a, sz))))"
proof -
  obtain ps fl where inv: "tlsf_inv base h ps fl {}" using assms(1) by (auto simp: heap_ok_def)
  obtain r h' where r: "allocBestFit align sz h = Some (r, h')" "alloc_post base h ps fl align sz r h'"
    using allocBestFit_inv [OF inv assms(2,3)] by blast
  have "live h' = live h" if "r = None"
    using r(2) that keeps_live [OF inv_core [OF inv]] by (auto simp: alloc_post_def dest: inv_core)
  then show ?thesis
    using r by (cases r) (auto simp: aligned_alloc_def alloc_post_def heap_ok_def)
qed

end
