(* ===== verification/TlsfContract.thy ===== *)
theory TlsfContract
  imports TlsfMalloc
begin

text \<open>
  The heap as its clients see it: the interface of an allocator of regions as a locale, its
  interpretation on the definitions of the TLSF heap, and the properties of the heap's public
  operations over the map \<open>live\<close> from allocations to their offset and size.
\<close>

section \<open>The interface of a region allocator\<close>

text \<open>
  \<open>owned\<close> maps the handles of the allocations to their regions, \<open>ready\<close> says that a request meets
  the allocator's preconditions. The result \<open>None\<close> of an operation is a fault.
\<close>

locale region_allocator =
  fixes ok :: "'h \<Rightarrow> bool" and owned :: "'h \<Rightarrow> 'p \<rightharpoonup> size_t \<times> size_t"
    and ready :: "size_t \<Rightarrow> size_t \<Rightarrow> 'h \<Rightarrow> bool"
    and alloc :: "size_t \<Rightarrow> size_t \<Rightarrow> 'h \<Rightarrow> ('p option \<times> 'h) option"
    and dealloc :: "'p \<Rightarrow> 'h \<Rightarrow> 'h option"
  assumes alloc_law: "ok h \<Longrightarrow> ready al sz h \<Longrightarrow> \<exists>r h'. alloc al sz h = Some (r, h') \<and> ok h' \<and>
      (case r of None \<Rightarrow> owned h' = owned h
       | Some p \<Rightarrow> owned h p = None \<and> (\<exists>a. a mod al = 0 \<and> owned h' = (owned h)(p \<mapsto> (a, sz))))"
    and dealloc_law: "ok h \<Longrightarrow> owned h p = Some r \<Longrightarrow>
      \<exists>h'. dealloc p h = Some h' \<and> ok h' \<and> owned h' = (owned h)(p := None)"
    and disjoint_law: "ok h \<Longrightarrow> owned h p = Some (a, s) \<Longrightarrow> owned h q = Some (a', s') \<Longrightarrow> p \<noteq> q \<Longrightarrow>
      unat a + unat s \<le> unat a' \<or> unat a' + unat s' \<le> unat a"
begin

text \<open>Giving an allocation back at once leaves what was owned before.\<close>

lemma alloc_dealloc:
  assumes "ok h" and "ready al sz h" and "alloc al sz h = Some (Some p, h')"
  shows "\<exists>h''. dealloc p h' = Some h'' \<and> ok h'' \<and> owned h'' = owned h"
proof -
  obtain a where a: "ok h'" "owned h p = None" "owned h' = (owned h)(p \<mapsto> (a, sz))"
    using alloc_law [OF assms(1,2)] assms(3) by auto
  have "owned h' p = Some (a, sz)" using a(3) by simp
  then obtain h'' where "dealloc p h' = Some h''" "ok h''" "owned h'' = (owned h')(p := None)"
    using dealloc_law [OF a(1)] by blast
  then show ?thesis using a(2,3) by (simp add: fun_upd_idem)
qed

text \<open>A new region meets none that was handed out before.\<close>

lemma alloc_disjoint:
  assumes "ok h" and "ready al sz h" and "alloc al sz h = Some (Some p, h')" and "owned h q = Some (a', s')"
  shows "\<exists>a. owned h' p = Some (a, sz) \<and> owned h' q = Some (a', s')
    \<and> (unat a + unat sz \<le> unat a' \<or> unat a' + unat s' \<le> unat a)"
proof -
  obtain a where a: "ok h'" "owned h p = None" "owned h' = (owned h)(p \<mapsto> (a, sz))"
    using alloc_law [OF assms(1,2)] assms(3) by auto
  moreover have "p \<noteq> q" using a(2) assms(4) by auto
  ultimately show ?thesis using disjoint_law [OF a(1), of p a sz q a' s'] assms(4) by auto
qed

end

section \<open>The TLSF heap provides it\<close>

definition heap_ready :: "nat \<Rightarrow> size_t \<Rightarrow> size_t \<Rightarrow> tlsf_heap \<Rightarrow> bool" where
  "heap_ready base al sz h \<longleftrightarrow> pool_room 2 (mBlockPool h) \<and> request_ok base al sz h"

interpretation tlsf: region_allocator "heap_ok base" live "heap_ready base" aligned_alloc "\<lambda>p. free (Some p)"
  for base :: nat
proof unfold_locales
  fix h :: tlsf_heap and al sz :: size_t
  assume "heap_ok base h" "heap_ready base al sz h"
  from aligned_alloc_inv [OF this(1) this(2) [unfolded heap_ready_def, THEN conjunct1] this(2) [unfolded heap_ready_def, THEN conjunct2]] obtain r h' where "aligned_alloc al sz h = Some (r, h')" "heap_ok base h'"
    and "case r of None \<Rightarrow> live h' = live h \<and> mMallocCount h' = mMallocCount h
     | Some p \<Rightarrow> live h p = None \<and> mMallocCount h' = mMallocCount h + 1
         \<and> (\<exists>a. a mod al = 0 \<and> live h' = (live h)(p \<mapsto> (a, sz)))" by blast
  then show "\<exists>r h'. aligned_alloc al sz h = Some (r, h') \<and> heap_ok base h' \<and>
      (case r of None \<Rightarrow> live h' = live h
       | Some p \<Rightarrow> live h p = None \<and> (\<exists>a. a mod al = 0 \<and> live h' = (live h)(p \<mapsto> (a, sz))))"
    by (cases r) auto
next
  fix h :: tlsf_heap and p r
  assume "heap_ok base h" "live h p = Some r"
  then show "\<exists>h'. free (Some p) h = Some h' \<and> heap_ok base h' \<and> live h' = (live h)(p := None)"
    unfolding heap_ok_def using free_inv by blast
next
  fix h :: tlsf_heap and p q a s a' s'
  assume "heap_ok base h" "live h p = Some (a, s)" "live h q = Some (a', s')" "p \<noteq> q"
  then show "unat a + unat s \<le> unat a' \<or> unat a' + unat s' \<le> unat a"
    unfolding heap_ok_def using live_within(4) by blast
qed

lemma split_outcome:
  assumes "heap_ok base h" and "pool_room 1 (mBlockPool h)" and "live h p = Some (a, s)"
  shows "if unat a < unat midpoint \<and> unat midpoint < unat a + unat s
    then \<exists>h'. heap_ok base h' \<and>
      (split (Some p) midpoint h = Some (OsStatusOutOfMemory, None, h') \<and> live h' = live h
       \<or> (\<exists>n. split (Some p) midpoint h = Some (OsStatusSuccess, Some (p, n), h') \<and> live h n = None
            \<and> live h' = (live h)(p \<mapsto> (a, midpoint - a), n \<mapsto> (midpoint, s - (midpoint - a)))))
    else split (Some p) midpoint h = Some (OsStatusInvalidInput, None, h)"
proof -
  obtain ps fl where inv: "tlsf_inv base h ps fl {}" using assms(1) by (auto simp: heap_ok_def)
  have pn: "p \<noteq> mNullBlock h" using inv_distinct [OF inv] used_in_blocks(1) [OF inv_core [OF inv] assms(3)] by auto
  have bnd: "unat a + unat s < 2 ^ 64" using live_within(3) [OF inv assms(3)] inv_bound [OF inv] by simp
  have room: "pool_room (Suc 0) (mBlockPool h)" using assms(2) by simp
  show ?thesis
  proof (cases "unat a < unat midpoint \<and> unat midpoint < unat a + unat s")
    case True
    then show ?thesis
      using split_inv [OF inv assms(3) room conjunct1 [OF True] conjunct2 [OF True]] by (simp only: if_True simp_thms) blast
  next
    case False
    then show ?thesis using split_rejects [OF assms(3) pn bnd False] by (simp only: if_False)
  qed
qed

section \<open>An example heap\<close>

definition example_range :: range where
  "example_range = \<lparr>rfront = 0x100, rback = 0x240\<rparr>"

definition example_heap :: tlsf_heap where
  "example_heap = the (snd (the (create [True, True, True] example_range)))"

definition example_used :: tlsf_heap where
  "example_used = snd (the (aligned_alloc 16 64 example_heap))"

lemma example_create: "create [True, True, True] example_range = Some (OsStatusSuccess, Some example_heap)"
proof -
  have "fst (the (create [True, True, True] example_range)) = OsStatusSuccess" by code_simp
  then show ?thesis
    using create_inv [of example_range "[True, True, True]"] unfolding example_heap_def
    by (auto simp: example_range_def range_size_def)
qed

lemma example_heap_ok: "heap_ok 0x100 example_heap"
  using create_inv [of example_range "[True, True, True]"] example_create
  by (auto simp: example_range_def range_size_def heap_ok_def)

lemma example_heap_ready: "heap_ready 0x100 16 64 example_heap"
proof -
  have "nextBlockCapacity (mBlockPool example_heap) = 24" "mSize example_heap = 0x140" by code_simp+
  then show ?thesis by (simp add: heap_ready_def pool_room_def request_ok_def)
qed

lemma example_alloc: "aligned_alloc 16 64 example_heap = Some (Some (Slot 0 0), example_used)"
proof -
  have "fst (the (aligned_alloc 16 64 example_heap)) = Some (Slot 0 0)" by code_simp
  then show ?thesis
    using aligned_alloc_inv [OF example_heap_ok, of 16 64] example_heap_ready
    by (auto simp: heap_ready_def example_used_def)
qed

lemma example_used_ok: "heap_ok 0x100 example_used"
  using aligned_alloc_inv [OF example_heap_ok, of 16 64] example_heap_ready example_alloc
  by (auto simp: heap_ready_def)

lemma example_live: "live example_used (Slot 0 0) = Some (0x100, 64)"
  by code_simp

lemma example_used_room: "pool_room 1 (mBlockPool example_used)"
proof -
  have "nextBlockCapacity (mBlockPool example_used) = 24" by code_simp
  then show ?thesis by (simp add: pool_room_def)
qed

section \<open>The public operations\<close>

text \<open>
  C13. From a well-formed heap whose base is aligned, \<^verbatim>\<open>aligned_alloc\<close> never faults: every null
  dereference, failed check, out-of-range index and undefined shift in it is unreachable. It
  either fails and leaves every allocation as it was, or returns a block that was not allocated,
  aligned as requested and of exactly the requested size, leaves all other allocations as they
  were and counts the allocation. The heap is well formed afterwards.
\<close>

theorem aligned_alloc_correct:
  assumes "heap_ok base h" and "pool_room 2 (mBlockPool h)" and "request_ok base align sz h"
  shows "\<exists>r h'. aligned_alloc align sz h = Some (r, h') \<and> heap_ok base h' \<and>
    (case r of
       None \<Rightarrow> live h' = live h \<and> mMallocCount h' = mMallocCount h
     | Some p \<Rightarrow> live h p = None \<and> mMallocCount h' = mMallocCount h + 1
         \<and> (\<exists>a. a mod align = 0 \<and> live h' = (live h)(p \<mapsto> (a, sz))))"
  by (rule aligned_alloc_inv [OF assms])

theorem aligned_alloc_correct_witness:
  "\<exists>h'. aligned_alloc 16 64 example_heap = Some (Some (Slot 0 0), h') \<and> heap_ok 0x100 h'
     \<and> live example_heap (Slot 0 0) = None"
  using aligned_alloc_correct [OF example_heap_ok, of 16 64] example_heap_ready example_alloc
  by (auto simp: heap_ready_def)

text \<open>
  C14. Freeing any allocation of a well-formed heap never faults, removes exactly that
  allocation, counts it, and leaves a well-formed heap: the freed block is merged with its free
  neighbours, so that no two neighbours are free, and filed under its new size.
\<close>

theorem free_correct:
  assumes "heap_ok base h" and "live h p = Some r"
  shows "\<exists>h'. free (Some p) h = Some h' \<and> heap_ok base h' \<and> live h' = (live h)(p := None)
    \<and> mFreeCount h' = mFreeCount h + 1 \<and> mMallocCount h' = mMallocCount h"
  using assms free_inv unfolding heap_ok_def by blast

theorem free_correct_witness:
  "\<exists>h'. free (Some (Slot 0 0)) example_used = Some h' \<and> heap_ok 0x100 h' \<and> live h' (Slot 0 0) = None"
  using free_correct [OF example_used_ok example_live] by auto

text \<open>
  C16. Creating a heap on a range of more than 256 bytes and less than 512 GiB never faults: it
  reports that memory ran out, or gives a well-formed heap on exactly that range without allocations.
\<close>

theorem create_correct:
  assumes "rfront r < rback r" and "256 < unat (range_size r)" and "unat (range_size r) < 2 ^ 39"
  shows "create outcomes r = Some (OsStatusOutOfMemory, None)
    \<or> (\<exists>h. create outcomes r = Some (OsStatusSuccess, Some h) \<and> heap_ok (unat (rfront r)) h
         \<and> live h = Map.empty \<and> mSize h = range_size r)"
  using create_inv [OF assms, of outcomes] unfolding heap_ok_def by blast

theorem create_correct_witness:
  "\<exists>h. create [True, True, True] example_range = Some (OsStatusSuccess, Some h) \<and> heap_ok 0x100 h
     \<and> live h = Map.empty"
  using create_correct [of example_range "[True, True, True]"] example_create
  by (auto simp: example_range_def range_size_def)

text \<open>
  The allocations of a well-formed heap are non-empty, lie inside the managed range and are
  pairwise disjoint.
\<close>

lemma allocations_disjoint:
  assumes "heap_ok base h" and "live h p = Some (a, s)"
  shows "0 < unat s \<and> base \<le> unat a \<and> unat a + unat s \<le> base + unat (mSize h)
    \<and> (\<forall>q a' s'. live h q = Some (a', s') \<longrightarrow> p \<noteq> q \<longrightarrow> unat a + unat s \<le> unat a' \<or> unat a' + unat s' \<le> unat a)"
  using assms live_within tlsf.disjoint_law unfolding heap_ok_def by metis

text \<open>
  Allocating and freeing are inverse: after a successful allocation the free of its
  result succeeds and leaves the allocations that were there before.
\<close>

lemma aligned_alloc_free_roundtrip:
  assumes "heap_ok base h" and "heap_ready base align sz h" and "aligned_alloc align sz h = Some (Some p, h')"
  shows "\<exists>h''. free (Some p) h' = Some h'' \<and> heap_ok base h'' \<and> live h'' = live h"
  by (rule tlsf.alloc_dealloc [OF assms])

text \<open>
  C17. Splitting an allocation at an address strictly inside it keeps its front part in place,
  makes its back part a new allocation and touches no other, or leaves all allocations
  as they were when no block is available; a midpoint that is not strictly inside is rejected
  without a change to the heap.
\<close>

theorem split_correct:
  assumes "heap_ok base h" and "pool_room 1 (mBlockPool h)" and "live h p = Some (a, s)"
  shows "if unat a < unat midpoint \<and> unat midpoint < unat a + unat s
    then \<exists>h'. heap_ok base h' \<and>
      (split (Some p) midpoint h = Some (OsStatusOutOfMemory, None, h') \<and> live h' = live h
       \<or> (\<exists>n. split (Some p) midpoint h = Some (OsStatusSuccess, Some (p, n), h') \<and> live h n = None
            \<and> live h' = (live h)(p \<mapsto> (a, midpoint - a), n \<mapsto> (midpoint, s - (midpoint - a)))))
    else split (Some p) midpoint h = Some (OsStatusInvalidInput, None, h)"
  by (rule split_outcome [OF assms])

theorem split_correct_witness:
  "\<exists>h' n. split (Some (Slot 0 0)) 0x120 example_used = Some (OsStatusSuccess, Some (Slot 0 0, n), h') \<and> heap_ok 0x100 h'
     \<and> live h' = (live example_used)(Slot 0 0 \<mapsto> (0x100, 32), n \<mapsto> (0x120, 32))"
proof -
  have "fst (the (split (Some (Slot 0 0)) 0x120 example_used)) = OsStatusSuccess" by code_simp
  then show ?thesis using split_correct [OF example_used_ok example_used_room example_live, where midpoint = "0x120"] by auto
qed

text \<open>
  Shrinking an allocation to a smaller non-zero size keeps its offset, gives it exactly
  the new size and touches no other allocation, or leaves all of them as they were when no
  block is available.
\<close>

lemma shrink_correct:
  assumes "heap_ok base h" and "pool_room 1 (mBlockPool h)" and "live h p = Some (a, s)"
    and "0 < unat sz" and "unat sz < unat s"
  shows "\<exists>h'. heap_ok base h' \<and>
     (shrink (Some p) sz h = Some (OsStatusOutOfMemory, None, h') \<and> live h' = live h
      \<or> shrink (Some p) sz h = Some (OsStatusSuccess, Some p, h') \<and> live h' = (live h)(p \<mapsto> (a, sz)))"
  using assms shrink_inv unfolding heap_ok_def by metis

section \<open>Clients\<close>

text \<open>
  A client's steps: it allocates, frees what it owns, splits and shrinks, in any order.
\<close>

inductive client_step :: "nat \<Rightarrow> tlsf_heap \<Rightarrow> tlsf_heap \<Rightarrow> bool" for base :: nat where
  step_alloc: "heap_ready base al sz h \<Longrightarrow> aligned_alloc al sz h = Some (r, h') \<Longrightarrow> client_step base h h'"
| step_free: "live h p = Some r \<Longrightarrow> free (Some p) h = Some h' \<Longrightarrow> client_step base h h'"
| step_split: "live h p = Some r \<Longrightarrow> pool_room 1 (mBlockPool h) \<Longrightarrow> split (Some p) m h = Some (st, x, h')
    \<Longrightarrow> client_step base h h'"
| step_shrink: "live h p = Some (a, s) \<Longrightarrow> pool_room 1 (mBlockPool h) \<Longrightarrow> 0 < sz \<Longrightarrow> sz < s
    \<Longrightarrow> shrink (Some p) sz h = Some (st, y, h') \<Longrightarrow> client_step base h h'"

lemma split_step_ok:
  assumes "heap_ok base h" and "live h p = Some r" and "pool_room 1 (mBlockPool h)"
    and "split (Some p) m h = Some (st, x, h')"
  shows "heap_ok base h'"
proof -
  obtain a s where l: "live h p = Some (a, s)" using assms(2) by (cases r) auto
  show ?thesis using split_outcome [OF assms(1,3) l, of m] assms(1,4) by (auto split: if_splits)
qed

lemma client_step_ok:
  assumes "client_step base h h'" and "heap_ok base h"
  shows "heap_ok base h'"
  using assms
proof cases
  case (step_alloc al sz r)
  then show ?thesis using tlsf.alloc_law [OF assms(2) step_alloc(1)] by auto
next
  case (step_free p r)
  then show ?thesis using tlsf.dealloc_law [OF assms(2) step_free(1)] by auto
next
  case (step_split p r m st x)
  then show ?thesis using split_step_ok [OF assms(2)] by blast
next
  case (step_shrink p a s sz st y)
  moreover from step_shrink have "0 < unat sz" "unat sz < unat s" by (simp_all add: word_less_nat_alt)
  moreover obtain ps fl where "tlsf_inv base h ps fl {}" using assms(2) by (auto simp: heap_ok_def)
  ultimately show ?thesis using shrink_inv [of base h ps fl p a s sz] by auto
qed

text \<open>
  C15. Whatever sequence of allocations, frees, splits and shrinks a client runs on a new heap,
  the heap stays well formed, its allocations stay inside the created range and no two of them overlap.
\<close>

theorem client_runs_safe:
  assumes "create outcomes r = Some (OsStatusSuccess, Some h0)"
    and "rfront r < rback r" and "256 < unat (range_size r)" and "unat (range_size r) < 2 ^ 39"
    and "(client_step (unat (rfront r)))\<^sup>*\<^sup>* h0 h"
  shows "heap_ok (unat (rfront r)) h
    \<and> (\<forall>p a s q a' s'. live h p = Some (a, s) \<longrightarrow> live h q = Some (a', s') \<longrightarrow> p \<noteq> q \<longrightarrow>
         unat a + unat s \<le> unat a' \<or> unat a' + unat s' \<le> unat a)"
proof -
  have "heap_ok (unat (rfront r)) h0" using create_inv [OF assms(2-4), of outcomes] assms(1) by (auto simp: heap_ok_def)
  with assms(5) have "heap_ok (unat (rfront r)) h" by induction (auto intro: client_step_ok)
  then show ?thesis using tlsf.disjoint_law by blast
qed

theorem client_runs_safe_witness: "heap_ok 0x100 example_used"
proof -
  have "client_step 0x100 example_heap example_used" by (rule step_alloc [OF example_heap_ready example_alloc])
  then show ?thesis
    using client_runs_safe [OF example_create, of example_used] by (auto simp: example_range_def range_size_def)
qed

end
