(* ===== verification/TlsfFind.thy ===== *)
theory TlsfFind
  imports TlsfContract
begin

text \<open>
  Two facts about the heap that its users in the address space need: no operation changes the size of the managed range,
  and \<^verbatim>\<open>findAllocation\<close> finds the allocation that starts at an address.
\<close>

section \<open>The managed range does not change\<close>

named_theorems keeps_size \<open>operations that leave the size of the heap alone\<close>

lemma upd_block_size [keeps_size]: "upd_block p f h = Some h' \<Longrightarrow> mSize h' = mSize h"
  by (auto simp: upd_block_def bind_Some_iff)

lemma upd_opt_size [keeps_size]: "upd_opt p f h = Some h' \<Longrightarrow> mSize h' = mSize h"
  by (cases p) (auto simp: upd_opt_def keeps_size)

lemma set_list_size [keeps_size]: "set_list i p h = Some h' \<Longrightarrow> mSize h' = mSize h"
  by (auto simp: set_list_def split: if_splits)

lemma set_inner_size [keeps_size]: "set_inner i p h = Some h' \<Longrightarrow> mSize h' = mSize h"
  by (auto simp: set_inner_def split: if_splits)

lemma mark_size [keeps_size]: "markTaken p h = Some h' \<Longrightarrow> mSize h' = mSize h" "markFree p h = Some h' \<Longrightarrow> mSize h' = mSize h"
  by (auto simp: markTaken_def markFree_def keeps_size)

lemma set_propNextFree_size [keeps_size]: "set_propNextFree p q h = Some h' \<Longrightarrow> mSize h' = mSize h"
  by (auto simp: set_propNextFree_def bind_Some_iff keeps_size split: if_splits)

lemma construct_size [keeps_size]: "construct b h = (r, h') \<Longrightarrow> mSize h' = mSize h"
  by (auto simp: construct_def split: prod.splits option.splits)

lemma destroy_size [keeps_size]: "destroy p h = Some h' \<Longrightarrow> mSize h' = mSize h"
  by (auto simp: destroy_def bind_Some_iff)

lemma destroy_all_size [keeps_size]: "destroy_all ps h = Some h' \<Longrightarrow> mSize h' = mSize h"
  by (induction ps arbitrary: h) (auto simp: bind_Some_iff dest!: destroy_size)

lemma buffer_reserve_size [keeps_size]: "buffer_reserve n buf h = Some (ok, buf', h') \<Longrightarrow> mSize h' = mSize h"
  by (induction n arbitrary: buf h) (auto simp: bind_Some_iff split: prod.splits option.splits dest!: construct_size)

lemma buffer_take_size [keeps_size]: "buffer_take b buf h = Some (p, buf', h') \<Longrightarrow> mSize h' = mSize h"
  by (auto simp: buffer_take_def bind_Some_iff dest!: keeps_size)

text \<open>For the longer programs: a step that gives a heap keeps its size, a step that gives something else is only read.\<close>

definition sized :: "size_t \<Rightarrow> tlsf_heap option \<Rightarrow> bool" where
  "sized n m \<longleftrightarrow> (\<forall>h. m = Some h \<longrightarrow> mSize h = n)"

lemma sized_bind: "sized n m \<Longrightarrow> (\<And>h. mSize h = n \<Longrightarrow> sized n (f h)) \<Longrightarrow> sized n (Option.bind m f)"
  by (auto simp: sized_def bind_Some_iff)

lemma sized_read:
  "(\<And>x. sized n (f1 x)) \<Longrightarrow> sized n (Option.bind (m1 :: tlsf_block option) f1)"
  "(\<And>x. sized n (f2 x)) \<Longrightarrow> sized n (Option.bind (m2 :: unit option) f2)"
  "(\<And>x. sized n (f3 x)) \<Longrightarrow> sized n (Option.bind (m3 :: ptr option option) f3)"
  "(\<And>x. sized n (f4 x)) \<Longrightarrow> sized n (Option.bind (m4 :: u32 option) f4)"
  "(\<And>x. sized n (f5 x)) \<Longrightarrow> sized n (Option.bind (m5 :: ptr option) f5)"
  by (auto simp: sized_def bind_Some_iff)

lemma sized_branch:
  "(c \<Longrightarrow> sized n a) \<Longrightarrow> (\<not> c \<Longrightarrow> sized n b) \<Longrightarrow> sized n (if c then a else b)"
  "sized n a \<Longrightarrow> (\<And>x. sized n (g x)) \<Longrightarrow> sized n (case q of None \<Rightarrow> a | Some x \<Rightarrow> g x)"
  by (auto split: option.split)

lemma sized_some:
  "mSize h = n \<Longrightarrow> sized n (Some h)" "mSize h = n \<Longrightarrow> sized n (Some (h\<lparr>mTopLevelFreeMap := x\<rparr>))"
  "mSize h = n \<Longrightarrow> sized n (Some (h\<lparr>mFreeCount := y\<rparr>))"
  by (simp_all add: sized_def)

lemma sized_step:
  "mSize h = n \<Longrightarrow> sized n (upd_block p f h)" "mSize h = n \<Longrightarrow> sized n (upd_opt po f h)" "mSize h = n \<Longrightarrow> sized n (set_list i po h)"
  "mSize h = n \<Longrightarrow> sized n (set_inner j w h)" "mSize h = n \<Longrightarrow> sized n (markTaken p h)" "mSize h = n \<Longrightarrow> sized n (set_propNextFree p po h)"
  by (auto simp: sized_def dest!: keeps_size)

lemmas sized_intros = sized_bind sized_read sized_branch sized_some sized_step

lemma takeBlock_size [keeps_size]: "takeBlockFromFreeList p h = Some h' \<Longrightarrow> mSize h' = mSize h"
proof -
  have "sized (mSize h) (takeBlockFromFreeList p h)" unfolding takeBlockFromFreeList_def Let_def by (intro sized_intros; simp?)
  then show "takeBlockFromFreeList p h = Some h' \<Longrightarrow> mSize h' = mSize h" by (simp add: sized_def)
qed

lemma releaseBlock_size [keeps_size]: "releaseBlockToFreeList p h = Some h' \<Longrightarrow> mSize h' = mSize h"
  unfolding releaseBlockToFreeList_def
  by (auto simp: bind_Some_iff Let_def split: option.splits if_splits dest!: keeps_size)

lemma detachBlock_size [keeps_size]: "detachBlock p i h = Some h' \<Longrightarrow> mSize h' = mSize h"
  unfolding detachBlock_def
  by (auto simp: bind_Some_iff Let_def split: option.splits bool.splits if_splits dest!: keeps_size)

lemma mergeBlock_size [keeps_size]: "mergeBlock p q h = Some h' \<Longrightarrow> mSize h' = mSize h"
  by (auto simp: mergeBlock_def bind_Some_iff dest!: keeps_size)

lemma resizeBlock_size [keeps_size]: "resizeBlock p n h = Some h' \<Longrightarrow> mSize h' = mSize h"
  by (auto simp: resizeBlock_def bind_Some_iff Let_def split: if_splits dest!: keeps_size)

lemma cut_front_size [keeps_size]: "cut_front block missing buf h = Some (buf', h') \<Longrightarrow> mSize h' = mSize h"
  unfolding cut_front_def
  by (auto simp: bind_Some_iff Let_def split: if_splits prod.splits dest!: keeps_size)

lemma cut_back_size [keeps_size]: "cut_back block sz buf h = Some (buf', h') \<Longrightarrow> mSize h' = mSize h"
  unfolding cut_back_def
  by (auto simp: bind_Some_iff Let_def split: if_splits prod.splits dest!: keeps_size)

lemma splitBlock_size [keeps_size]: "splitBlock p m q h = Some (lo, hi, h') \<Longrightarrow> mSize h' = mSize h"
  by (auto simp: splitBlock_def bind_Some_iff Let_def dest!: keeps_size)

lemma sized_list_step:
  "mSize h = n \<Longrightarrow> sized n (takeBlockFromFreeList p h)" "mSize h = n \<Longrightarrow> sized n (mergeBlock p q h)"
  "mSize h = n \<Longrightarrow> sized n (releaseBlockToFreeList p h)"
  by (auto simp: sized_def dest!: keeps_size)

lemma free_size: "free p h = Some h' \<Longrightarrow> mSize h' = mSize h"
proof -
  have "sized (mSize h) (free p h)" unfolding free_def Let_def by (intro sized_intros sized_list_step; simp?)
  then show "free p h = Some h' \<Longrightarrow> mSize h' = mSize h" by (simp add: sized_def)
qed

text \<open>The same for programs that also give a result.\<close>

definition psized :: "size_t \<Rightarrow> ('a \<times> tlsf_heap) option \<Rightarrow> bool" where
  "psized n m \<longleftrightarrow> (\<forall>x h. m = Some (x, h) \<longrightarrow> mSize h = n)"

lemma psized_bind:
  "sized n m1 \<Longrightarrow> (\<And>h. mSize h = n \<Longrightarrow> psized n (f1 h)) \<Longrightarrow> psized n (Option.bind m1 f1)"
  "psized n m2 \<Longrightarrow> (\<And>x h. mSize h = n \<Longrightarrow> psized n (f2 x h)) \<Longrightarrow> psized n (Option.bind m2 (\<lambda>(x, h). f2 x h))"
  "(\<And>ok buf h. m3 = Some (ok, buf, h) \<Longrightarrow> mSize h = n) \<Longrightarrow> (\<And>ok buf h. mSize h = n \<Longrightarrow> psized n (f3 ok buf h))
     \<Longrightarrow> psized n (Option.bind m3 (\<lambda>(ok, buf, h). f3 (ok :: bool) (buf :: ptr list) h))"
  by (auto simp: sized_def psized_def bind_Some_iff)

lemma psized_read:
  "(\<And>x. psized n (f1 x)) \<Longrightarrow> psized n (Option.bind (m1 :: tlsf_block option) f1)"
  "(\<And>x. psized n (f2 x)) \<Longrightarrow> psized n (Option.bind (m2 :: unit option) f2)"
  "(\<And>x. psized n (f3 x)) \<Longrightarrow> psized n (Option.bind (m3 :: ptr option option) f3)"
  "(\<And>x y. psized n (f4 x y)) \<Longrightarrow> psized n (Option.bind (m4 :: ('b \<times> size_t) option) (\<lambda>(x, y). f4 x y))"
  "(\<And>x. psized n (f5 x)) \<Longrightarrow> psized n (Option.bind (m5 :: ptr option) f5)"
  by (auto simp: psized_def bind_Some_iff)

lemma psized_branch:
  "(c \<Longrightarrow> psized n a) \<Longrightarrow> (\<not> c \<Longrightarrow> psized n b) \<Longrightarrow> psized n (if c then a else b)"
  "psized n a' \<Longrightarrow> (\<And>x. psized n (g x)) \<Longrightarrow> psized n (case q of None \<Rightarrow> a' | Some x \<Rightarrow> g x)"
  "mSize h = n \<Longrightarrow> psized n (Some (r, h))"
  by (auto simp: psized_def split: option.split)

lemma psized_step:
  "mSize h = n \<Longrightarrow> sized n (destroy_all ps h)" "mSize h = n \<Longrightarrow> sized n (detachBlock p i h)"
  "mSize h = n \<Longrightarrow> sized n (if c then takeBlockFromFreeList p h else Some h)"
  "mSize h = n \<Longrightarrow> psized n (cut_front p sz buf h)" "mSize h = n \<Longrightarrow> psized n (cut_back p sz buf h)"
  by (auto simp: sized_def psized_def dest!: keeps_size)

lemmas psized_intros = psized_bind psized_read psized_branch psized_step

lemma psized_reserveBlock: "mSize h = n \<Longrightarrow> psized n (reserveBlock p sz a i h)"
  unfolding reserveBlock_steps Let_def by (intro psized_intros; simp?) (auto dest!: keeps_size)

lemma psized_checkBlock: "mSize h = n \<Longrightarrow> psized n (checkBlock p i sz al h)"
  unfolding checkBlock_def Let_def by (intro psized_intros psized_reserveBlock; simp add: psized_def)

lemma search_list_size: "search_list b i sz al h = Some y \<Longrightarrow> mSize (snd y) = mSize h"
proof (erule search_list.raw_induct [where P = "\<lambda>b i sz al h y. mSize (snd y) = mSize h", rotated])
  fix f b i sz al h y
  assume IH: "\<And>b i sz al h y. f b i sz al h = Some y \<Longrightarrow> mSize (snd y) = mSize h"
    and body: "(case b of None \<Rightarrow> Some (None, h) | Some block \<Rightarrow> Option.bind (checkBlock block i sz al h)
      (\<lambda>(r, h). case r of None \<Rightarrow> Option.bind (propNextFree h block) (\<lambda>nf. f nf i sz al h) | Some a \<Rightarrow> Some (Some a, h))) = Some y"
  show "mSize (snd y) = mSize h"
  proof (cases b)
    case (Some p)
    with body obtain r h1 where c: "checkBlock p i sz al h = Some (r, h1)"
      and y: "(case r of Some a \<Rightarrow> Some (Some a, h1) | None \<Rightarrow> Option.bind (propNextFree h1 p) (\<lambda>nf. f nf i sz al h1)) = Some y"
      by (auto simp: bind_Some_iff)
    have "mSize h1 = mSize h" using psized_checkBlock [of h "mSize h"] c by (auto simp: psized_def)
    then show ?thesis using y by (auto simp: bind_Some_iff dest!: IH split: option.splits)
  qed (use body in auto)
qed

lemma psized_search_list: "mSize h = n \<Longrightarrow> psized n (search_list b i sz al h)"
  using search_list_size by (fastforce simp: psized_def)

lemma aligned_alloc_size: "aligned_alloc al sz h = Some (r, h') \<Longrightarrow> mSize h' = mSize h"
proof -
  have "psized (mSize h) (allocBestFit al sz h)"
    unfolding allocBestFit_def by (intro psized_intros psized_checkBlock psized_search_list; simp add: psized_def)
  then show "aligned_alloc al sz h = Some (r, h') \<Longrightarrow> mSize h' = mSize h" by (auto simp: aligned_alloc_def psized_def bind_Some_iff)
qed


section \<open>Finding an allocation by its address\<close>

lemma find_walk_linked:
  assumes "linked (prevs (blocks h)) xs None" and "set xs \<subseteq> dom (blocks h)"
  shows "find_walk h a (hd_or xs None) = Some (find (\<lambda>p. offs (blocks h) p = a) xs)"
  using assms
proof (induction xs)
  case (Cons x xs)
  obtain b where b: "blocks h x = Some b" using Cons.prems(2) by auto
  have p: "blk_prev b = hd_or xs None" using Cons.prems(1) b by (simp add: prevs_def cell_def)
  have "find_walk h a (Some x) = (if blk_offset b = a then Some (Some x) else find_walk h a (blk_prev b))"
    by (subst find_walk.simps) (simp add: b)
  moreover have "find_walk h a (hd_or xs None) = Some (find (\<lambda>p. offs (blocks h) p = a) xs)" using Cons by simp
  ultimately show ?case by (simp add: p offs_def cell_def b)
next
  case Nil
  show ?case by (subst find_walk.simps) simp
qed

lemma find_last:
  assumes "p \<in> set xs" and "\<And>q. q \<in> set xs \<Longrightarrow> P q \<longleftrightarrow> q = p"
  shows "find P xs = Some p"
  using assms by (induction xs) auto

lemma findAllocation_live:
  assumes ok: "heap_ok base h" and l: "live h p = Some (a, s)"
  shows "findAllocation h a = Some (OsStatusSuccess, Some p)"
proof -
  obtain ps fl where inv: "tlsf_inv base h ps fl {}" using ok by (auto simp: heap_ok_def)
  note core = inv_core [OF inv]
  have ph: "distinct (ps @ [mNullBlock h])" "linked (prevs (blocks h)) (rev (ps @ [mNullBlock h])) None"
    "tiles (offs (blocks h)) (sizs (blocks h)) (ps @ [mNullBlock h]) base"
    using core_phys [OF core] by (simp_all only: TlsfInv.phys_def)
  have dom: "set (ps @ [mNullBlock h]) \<subseteq> dom (blocks h)" using core unfolding tlsf_core_def by blast
  have p: "p \<in> set ps" using used_in_blocks(1) [OF core l] by simp
  obtain b where b: "blocks h p = Some b" "isUsed p b" "blk_offset b = a" using l by (auto simp: live_def split: option.splits if_splits)
  have uniq: "offs (blocks h) q = a \<longleftrightarrow> q = p" if q: "q \<in> set (ps @ [mNullBlock h])" for q
  proof
    assume e: "offs (blocks h) q = a"
    have ep: "offs (blocks h) p = a" using b by (simp add: offs_def cell_def)
    have pos: "0 < unat (sizs (blocks h) x)" if "x \<in> set ps" for x using core that unfolding tlsf_core_def by blast
    show "q = p"
    proof (rule ccontr)
      assume "q \<noteq> p"
      show False
      proof (cases "q = mNullBlock h")
        case True
        have "unat (offs (blocks h) p) + unat (sizs (blocks h) p) \<le> unat (offs (blocks h) (mNullBlock h))"
          using tiles_within(2) [of "offs (blocks h)" "sizs (blocks h)" ps base p] ph(3) p by simp
        then show False using True e ep pos [OF p] by simp
      next
        case False
        then have "q \<in> set ps" using q by simp
        then show False using tiles_disjoint [OF ph(3,1), of p q] p \<open>q \<noteq> p\<close> e ep pos [of p] pos [of q] by auto
      qed
    qed
  qed (use b in \<open>simp add: offs_def cell_def\<close>)
  have "find_walk h a (Some (mNullBlock h)) = Some (Some p)"
    using find_walk_linked [OF ph(2), of a] dom find_last [of p "rev (ps @ [mNullBlock h])" "\<lambda>p. offs (blocks h) p = a"] p uniq
    by (simp add: hd_or_def)
  then show ?thesis using b by (simp add: findAllocation_def make_allocation_def isUsed_def isFree_def)
qed

lemma allocation_range_live: "live h p = Some (a, s) \<Longrightarrow> allocation_range h p = Some (range_of a s)"
  by (auto simp: live_def allocation_range_def split: option.splits if_splits)

end
