(* ===== verification/PageEntry.thy ===== *)
theory PageEntry
  imports Range
begin

text \<open>
  Page table entries and address mappings: the entry bits of \<^verbatim>\<open>kernel/include/arch/paging.hpp\<close>,
  \<^verbatim>\<open>PageBuilder\<close> of \<^verbatim>\<open>kernel/include/memory/paging.hpp\<close>, \<^verbatim>\<open>AddressMapping\<close> of
  \<^verbatim>\<open>kernel/include/memory/layout.hpp\<close>, the walk and the large page arithmetic of
  \<^verbatim>\<open>kernel/include/memory/memory.hpp\<close> and \<^verbatim>\<open>kernel/src/memory/memory.cpp\<close>, and
  \<^verbatim>\<open>PageMappingRequest\<close>. An entry is its 64-bit representation. Shown here: what is written
  into an entry is read back from it, a 2 MiB entry loses the third bit of its memory type,
  and a mapping eligible for large pages is cut into a head, a 2 MiB aligned body and a tail.
\<close>

section \<open>Entry bits\<close>

definition setmask :: "u64 \<Rightarrow> u64 \<Rightarrow> bool \<Rightarrow> u64" where
  "setmask value msk state = (if state then value OR msk else value AND NOT msk)"

definition kPageSize :: u64 where "kPageSize = 0x1000"
definition kLargePageSize :: u64 where "kLargePageSize = 0x200000"
definition kHugePageSize :: u64 where "kHugePageSize = 0x40000000"

definition kPresentBit :: u64 where "kPresentBit = push_bit 0 1"
definition kReadOnlyBit :: u64 where "kReadOnlyBit = push_bit 1 1"
definition kUserBit :: u64 where "kUserBit = push_bit 2 1"
definition kWriteThroughBit :: u64 where "kWriteThroughBit = push_bit 3 1"
definition kCacheDisableBit :: u64 where "kCacheDisableBit = push_bit 4 1"
definition kAccessedBit :: u64 where "kAccessedBit = push_bit 5 1"
definition kWrittenBit :: u64 where "kWrittenBit = push_bit 6 1"
definition kExecuteDisableBit :: u64 where "kExecuteDisableBit = push_bit 63 1"

definition addressMask :: "nat \<Rightarrow> u64" where
  "addressMask width = (push_bit width 1 - 1) AND NOT (kPageSize - 1)"

text \<open>
  The page attribute index: its bits select the write-through bit, the cache-disable bit and the
  attribute bit, whose position depends on the level of the entry.
\<close>

definition paging_setMemoryType :: "u64 \<Rightarrow> nat \<Rightarrow> u8 \<Rightarrow> u64" where
  "paging_setMemoryType entry pat type =
     (let msk = kWriteThroughBit OR kCacheDisableBit OR push_bit pat 1;
          select = push_bit 3 (ucast type AND 1) OR push_bit 3 (ucast type AND 2)
                   OR push_bit (pat - 2) (ucast type AND 4)
      in (entry AND NOT msk) OR select)"

definition paging_getMemoryType :: "u64 \<Rightarrow> nat \<Rightarrow> u8" where
  "paging_getMemoryType entry pat =
     ucast (drop_bit 3 (entry AND kWriteThroughBit) OR drop_bit 3 (entry AND kCacheDisableBit)
            OR drop_bit (pat - 2) (entry AND push_bit pat 1))"

definition present :: "u64 \<Rightarrow> bool" where "present e \<longleftrightarrow> e AND kPresentBit \<noteq> 0"
definition setPresent :: "bool \<Rightarrow> u64 \<Rightarrow> u64" where "setPresent b e = setmask e kPresentBit b"
definition writeable :: "u64 \<Rightarrow> bool" where "writeable e \<longleftrightarrow> e AND kReadOnlyBit \<noteq> 0"
definition setWriteable :: "bool \<Rightarrow> u64 \<Rightarrow> u64" where "setWriteable b e = setmask e kReadOnlyBit b"
definition writeThrough :: "u64 \<Rightarrow> bool" where "writeThrough e \<longleftrightarrow> e AND kWriteThroughBit \<noteq> 0"
definition setWriteThrough :: "bool \<Rightarrow> u64 \<Rightarrow> u64" where "setWriteThrough b e = setmask e kWriteThroughBit b"
definition cacheDisable :: "u64 \<Rightarrow> bool" where "cacheDisable e \<longleftrightarrow> e AND kCacheDisableBit \<noteq> 0"
definition setCacheDisable :: "bool \<Rightarrow> u64 \<Rightarrow> u64" where "setCacheDisable b e = setmask e kCacheDisableBit b"
definition user :: "u64 \<Rightarrow> bool" where "user e \<longleftrightarrow> e AND kUserBit \<noteq> 0"
definition setUser :: "bool \<Rightarrow> u64 \<Rightarrow> u64" where "setUser b e = setmask e kUserBit b"
definition accessed :: "u64 \<Rightarrow> bool" where "accessed e \<longleftrightarrow> e AND kAccessedBit \<noteq> 0"
definition setAccessed :: "bool \<Rightarrow> u64 \<Rightarrow> u64" where "setAccessed b e = setmask e kAccessedBit b"
definition written :: "u64 \<Rightarrow> bool" where "written e \<longleftrightarrow> e AND kWrittenBit \<noteq> 0"
definition setWritten :: "bool \<Rightarrow> u64 \<Rightarrow> u64" where "setWritten b e = setmask e kWrittenBit b"
definition executable :: "u64 \<Rightarrow> bool" where "executable e \<longleftrightarrow> \<not> (e AND kExecuteDisableBit \<noteq> 0)"
definition setExecutable :: "bool \<Rightarrow> u64 \<Rightarrow> u64" where "setExecutable b e = setmask e kExecuteDisableBit (\<not> b)"

text \<open>The positions of the page attribute bit in the three kinds of leaf entries.\<close>

definition pte_kPageAttributeBit :: nat where "pte_kPageAttributeBit = 7"
definition pdte_kPageAttributeBit :: nat where "pdte_kPageAttributeBit = 12"
definition pdpte_kPageAttributeBit :: nat where "pdpte_kPageAttributeBit = 12"

definition kLargePage :: u64 where "kLargePage = push_bit 7 1"
definition is2m :: "u64 \<Rightarrow> bool" where "is2m e \<longleftrightarrow> e AND kLargePage \<noteq> 0"
definition set2m :: "bool \<Rightarrow> u64 \<Rightarrow> u64" where "set2m b e = setmask e kLargePage b"
definition kHugePage :: u64 where "kHugePage = push_bit 7 1"
definition is1g :: "u64 \<Rightarrow> bool" where "is1g e \<longleftrightarrow> e AND kHugePage \<noteq> 0"
definition set1g :: "bool \<Rightarrow> u64 \<Rightarrow> u64" where "set1g b e = setmask e kHugePage b"

section \<open>The page builder\<close>

text \<open>\<^verbatim>\<open>MemoryType\<close> is an enumeration over all bytes; \<^verbatim>\<open>static_cast\<close> makes values that have no name.\<close>

type_synonym MemoryType = u8

definition eUncached :: MemoryType where "eUncached = 0x00"
definition eWriteCombine :: MemoryType where "eWriteCombine = 0x01"
definition eWriteThrough :: MemoryType where "eWriteThrough = 0x04"
definition eWriteProtect :: MemoryType where "eWriteProtect = 0x05"
definition eWriteBack :: MemoryType where "eWriteBack = 0x06"
definition eUncachedOverridable :: MemoryType where "eUncachedOverridable = 0x07"

record PageMemoryTypeLayout =
  deferred :: u8
  uncached :: u8
  writeCombined :: u8
  lay_writeThrough :: u8
  writeProtect :: u8
  writeBack :: u8

definition GetMemoryPatIndex :: "PageMemoryTypeLayout \<Rightarrow> MemoryType \<Rightarrow> u8" where
  "GetMemoryPatIndex layout type =
     (if type = eUncached then uncached layout
      else if type = eWriteCombine then writeCombined layout
      else if type = eWriteThrough then lay_writeThrough layout
      else if type = eWriteProtect then writeProtect layout
      else if type = eWriteBack then writeBack layout
      else deferred layout)"

definition GetMemoryType :: "PageMemoryTypeLayout \<Rightarrow> u8 \<Rightarrow> MemoryType" where
  "GetMemoryType layout index =
     (if deferred layout = index then eUncachedOverridable
      else if uncached layout = index then eUncached
      else if writeCombined layout = index then eWriteCombine
      else if lay_writeThrough layout = index then eWriteThrough
      else if writeProtect layout = index then eWriteProtect
      else if writeBack layout = index then eWriteBack
      else eUncachedOverridable)"

record PageBuilder =
  mAddressMask :: u64
  mVaddrBits :: nat
  mLayout :: PageMemoryTypeLayout

definition make_PageBuilder :: "nat \<Rightarrow> nat \<Rightarrow> PageMemoryTypeLayout \<Rightarrow> PageBuilder" where
  "make_PageBuilder paddrbits vaddrbits layout =
     \<lparr>mAddressMask = addressMask paddrbits, mVaddrBits = vaddrbits, mLayout = layout\<rparr>"

definition has4LevelPaging :: "PageBuilder \<Rightarrow> bool" where
  "has4LevelPaging pb \<longleftrightarrow> mAddressMask pb = addressMask 48"

definition maxPhysicalAddress :: "PageBuilder \<Rightarrow> u64" where
  "maxPhysicalAddress pb = mAddressMask pb"

definition address :: "PageBuilder \<Rightarrow> u64 \<Rightarrow> u64" where
  "address pb entry = entry AND mAddressMask pb"

definition setAddress :: "PageBuilder \<Rightarrow> u64 \<Rightarrow> u64 \<Rightarrow> u64" where
  "setAddress pb addr entry = (entry AND NOT (mAddressMask pb)) OR (addr AND mAddressMask pb)"

definition setMemoryType_pte :: "PageBuilder \<Rightarrow> MemoryType \<Rightarrow> u64 \<Rightarrow> u64" where
  "setMemoryType_pte pb type e =
     paging_setMemoryType e pte_kPageAttributeBit (GetMemoryPatIndex (mLayout pb) type)"

definition setMemoryType_pdte :: "PageBuilder \<Rightarrow> MemoryType \<Rightarrow> u64 \<Rightarrow> u64" where
  "setMemoryType_pdte pb type e =
     paging_setMemoryType e pdte_kPageAttributeBit (GetMemoryPatIndex (mLayout pb) type)"

definition setMemoryType_pdpte :: "PageBuilder \<Rightarrow> MemoryType \<Rightarrow> u64 \<Rightarrow> u64" where
  "setMemoryType_pdpte pb type e =
     paging_setMemoryType e pdpte_kPageAttributeBit (GetMemoryPatIndex (mLayout pb) type)"

text \<open>\<^verbatim>\<open>getMemoryType\<close> casts the attribute index to a memory type.\<close>

definition getMemoryType_pte :: "u64 \<Rightarrow> MemoryType" where
  "getMemoryType_pte e = paging_getMemoryType e pte_kPageAttributeBit"

definition getMemoryType_pdte :: "u64 \<Rightarrow> MemoryType" where
  "getMemoryType_pdte e = paging_getMemoryType e pdte_kPageAttributeBit"

definition getMemoryType_pdpte :: "u64 \<Rightarrow> MemoryType" where
  "getMemoryType_pdpte e = paging_getMemoryType e pdpte_kPageAttributeBit"

definition isCanonicalAddress :: "PageBuilder \<Rightarrow> u64 \<Rightarrow> bool" where
  "isCanonicalAddress pb addr =
     (let msk = - push_bit (mVaddrBits pb - 1) 1; bits = addr AND msk
      in bits = 0 \<or> bits = msk)"

definition isHigherHalf :: "PageBuilder \<Rightarrow> u64 \<Rightarrow> bool" where
  "isHigherHalf pb addr =
     (let msk = - push_bit (mVaddrBits pb - 1) 1; bits = addr AND msk in bits = msk)"

text \<open>\<^verbatim>\<open>PageTables::setEntryFlags\<close>; an address above the physical address mask is a bug check.\<close>

definition setEntryFlags :: "PageBuilder \<Rightarrow> u8 \<Rightarrow> u64 \<Rightarrow> u64 \<Rightarrow> u64 option" where
  "setEntryFlags pb flags addr entry =
     (if addr > maxPhysicalAddress pb then None
      else do {
        let entry = setAddress pb addr entry;
        let entry = setWriteable (flags AND 2 \<noteq> 0) entry;
        let entry = setExecutable (flags AND 4 \<noteq> 0) entry;
        let entry = setUser (flags AND 8 \<noteq> 0) entry;
        Some (setPresent True entry) })"

section \<open>Address mappings\<close>

record AddressMapping =
  am_vaddr :: u64
  am_paddr :: u64
  am_size :: size_t

definition IsLowMemory :: "range \<Rightarrow> bool" where
  "IsLowMemory r \<longleftrightarrow> rfront r < 0x100000"

definition PageAligned :: "range \<Rightarrow> range" where
  "PageAligned r = alignedOut r kPageSize"

definition Pages :: "size_t \<Rightarrow> size_t" where
  "Pages bytes = roundup bytes kPageSize div kPageSize"

definition LargePages :: "size_t \<Rightarrow> size_t" where
  "LargePages bytes = roundup bytes kLargePageSize div kLargePageSize"

definition physicalRange :: "AddressMapping \<Rightarrow> range" where
  "physicalRange m = \<lparr>rfront = am_paddr m, rback = am_paddr m + am_size m\<rparr>"

definition virtualRange :: "AddressMapping \<Rightarrow> range" where
  "virtualRange m = \<lparr>rfront = am_vaddr m, rback = am_vaddr m + am_size m\<rparr>"

definition am_slide :: "AddressMapping \<Rightarrow> u64" where
  "am_slide m = am_vaddr m - am_paddr m"

definition am_isEmpty :: "AddressMapping \<Rightarrow> bool" where
  "am_isEmpty m \<longleftrightarrow> am_size m = 0"

definition am_first :: "AddressMapping \<Rightarrow> size_t \<Rightarrow> AddressMapping option" where
  "am_first m bytes = do { _ \<leftarrow> KM_CHECK (bytes \<le> am_size m); Some (m\<lparr>am_size := bytes\<rparr>) }"

definition am_last :: "AddressMapping \<Rightarrow> size_t \<Rightarrow> AddressMapping option" where
  "am_last m bytes =
     do { _ \<leftarrow> KM_CHECK (bytes \<le> am_size m);
          Some \<lparr>am_vaddr = am_vaddr m + am_size m - bytes, am_paddr = am_paddr m + am_size m - bytes,
                am_size = bytes\<rparr> }"

definition am_subrange :: "AddressMapping \<Rightarrow> size_t \<Rightarrow> size_t \<Rightarrow> AddressMapping option" where
  "am_subrange m offset bytes =
     do { _ \<leftarrow> KM_CHECK (offset + bytes \<le> am_size m);
          Some \<lparr>am_vaddr = am_vaddr m + offset, am_paddr = am_paddr m + offset, am_size = bytes\<rparr> }"

definition am_subrange_from :: "AddressMapping \<Rightarrow> size_t \<Rightarrow> AddressMapping option" where
  "am_subrange_from m offset =
     do { _ \<leftarrow> KM_CHECK (offset < am_size m); am_subrange m offset (am_size m - offset) }"

definition am_subrange_of :: "AddressMapping \<Rightarrow> range \<Rightarrow> AddressMapping" where
  "am_subrange_of m r =
     (let subset = intersection (virtualRange m) r
      in if isEmpty subset then \<lparr>am_vaddr = 0, am_paddr = 0, am_size = 0\<rparr>
         else let offset = rfront subset - am_vaddr m; bytes = rback subset - rfront subset
              in \<lparr>am_vaddr = am_vaddr m + offset, am_paddr = am_paddr m + offset, am_size = bytes\<rparr>)"

definition am_offset :: "AddressMapping \<Rightarrow> u64 \<Rightarrow> AddressMapping" where
  "am_offset m off = m\<lparr>am_vaddr := am_vaddr m + off, am_paddr := am_paddr m + off\<rparr>"

definition am_aligned :: "AddressMapping \<Rightarrow> size_t \<Rightarrow> AddressMapping" where
  "am_aligned m align =
     (let alignedHead = rounddown (am_paddr m) align;
          alignedTail = roundup (am_size m + am_paddr m) align
      in \<lparr>am_vaddr = rounddown (am_vaddr m) align, am_paddr = alignedHead,
          am_size = alignedTail - alignedHead\<rparr>)"

definition alignsExactlyTo :: "AddressMapping \<Rightarrow> size_t \<Rightarrow> bool" where
  "alignsExactlyTo m align \<longleftrightarrow> am_vaddr m mod align = 0 \<and> am_paddr m mod align = 0"

definition equalOffsetTo :: "AddressMapping \<Rightarrow> size_t \<Rightarrow> bool" where
  "equalOffsetTo m align \<longleftrightarrow> am_vaddr m mod align = am_paddr m mod align"

definition MappingOf :: "u64 \<Rightarrow> u64 \<Rightarrow> size_t \<Rightarrow> AddressMapping" where
  "MappingOf vaddr paddr sz = \<lparr>am_vaddr = vaddr, am_paddr = paddr, am_size = sz\<rparr>"

section \<open>Large page arithmetic\<close>

definition kPml4MemorySize :: u64 where "kPml4MemorySize = kHugePageSize * 512"

definition AlignLargeRangeHead :: "AddressMapping \<Rightarrow> AddressMapping" where
  "AlignLargeRangeHead m =
     (let vaddr = am_vaddr m; algn = roundup vaddr kLargePageSize
      in \<lparr>am_vaddr = am_vaddr m, am_paddr = am_paddr m, am_size = algn - vaddr\<rparr>)"

definition AlignLargeRangeBody :: "AddressMapping \<Rightarrow> AddressMapping" where
  "AlignLargeRangeBody m =
     (let vaddr = am_vaddr m; paddr = am_paddr m;
          head2m = roundup vaddr kLargePageSize;
          tail2m = rounddown (vaddr + am_size m) kLargePageSize;
          offset = head2m - vaddr; sz = tail2m - head2m
      in \<lparr>am_vaddr = head2m, am_paddr = paddr + offset, am_size = sz\<rparr>)"

definition AlignLargeRangeTail :: "AddressMapping \<Rightarrow> AddressMapping" where
  "AlignLargeRangeTail m =
     (let vaddr = am_vaddr m;
          tail2m = rounddown (vaddr + am_size m) kLargePageSize;
          sz = vaddr + am_size m - tail2m
      in \<lparr>am_vaddr = tail2m, am_paddr = am_paddr m + am_size m - sz, am_size = sz\<rparr>)"

definition IsLargePageEligible :: "AddressMapping \<Rightarrow> bool" where
  "IsLargePageEligible m =
     (if am_size m < kLargePageSize then False
      else let paddr = am_paddr m; vaddr = am_vaddr m; msk = kLargePageSize - 1
           in if paddr AND msk \<noteq> vaddr AND msk then False
              else let front2m = roundup paddr kLargePageSize;
                       back2m = rounddown (paddr + am_size m) kLargePageSize
                   in front2m < back2m)"

definition GetCoveredSegments :: "range \<Rightarrow> size_t \<Rightarrow> size_t" where
  "GetCoveredSegments r segment =
     (let f = rounddown (rfront r) segment; b = roundup (rback r) segment in (b - f) div segment)"

definition MaxPagesForMapping :: "range \<Rightarrow> size_t" where
  "MaxPagesForMapping r =
     (let count = GetCoveredSegments r kPml4MemorySize + GetCoveredSegments r kHugePageSize
      in if range_size r < kLargePageSize
         then let f = rounddown (rfront r) kLargePageSize; b = rounddown (rback r) kLargePageSize
              in if f \<noteq> b then count + 4 else count + 2
         else let count = (if rfront r mod kLargePageSize \<noteq> 0 then count + 1 else count);
                  count = (if rback r mod kLargePageSize \<noteq> 0 then count + 1 else count)
              in count + GetCoveredSegments r kLargePageSize)"

section \<open>Page walks\<close>

type_synonym PageFlags = u8

definition eNone :: PageFlags where "eNone = 0"
definition eRead :: PageFlags where "eRead = 1"
definition eWrite :: PageFlags where "eWrite = 2"
definition eExecute :: PageFlags where "eExecute = 4"
definition eUser :: PageFlags where "eUser = 8"
definition eUserAll :: PageFlags where "eUserAll = 15"

datatype PageSize = PageSize_eNone | eRegular | eLarge | eHuge

record PageWalkIndices =
  ix_pml4e :: u16
  ix_pdpte :: u16
  ix_pdte :: u16
  ix_pte :: u16

definition getAddressParts :: "u64 \<Rightarrow> PageWalkIndices" where
  "getAddressParts addr =
     \<lparr>ix_pml4e = ucast (drop_bit 39 addr AND 0x1FF), ix_pdpte = ucast (drop_bit 30 addr AND 0x1FF),
      ix_pdte = ucast (drop_bit 21 addr AND 0x1FF), ix_pte = ucast (drop_bit 12 addr AND 0x1FF)\<rparr>"

record PageWalk =
  pw_address :: u64
  pml4eIndex :: u16
  pw_pml4e :: u64
  pdpteIndex :: u16
  pw_pdpte :: u64
  pdteIndex :: u16
  pw_pdte :: u64
  pteIndex :: u16
  pw_pte :: u64

definition pageSize :: "PageWalk \<Rightarrow> PageSize" where
  "pageSize w =
     (if present (pw_pdpte w) \<and> is1g (pw_pdpte w) then eHuge
      else if present (pw_pdte w) \<and> is2m (pw_pdte w) then eLarge
      else if present (pw_pte w) then eRegular
      else PageSize_eNone)"

text \<open>The lambda \<^verbatim>\<open>applyFlags\<close> of \<^verbatim>\<open>PageWalk::flags\<close>.\<close>

definition applyFlags :: "u64 \<Rightarrow> PageFlags \<Rightarrow> PageFlags" where
  "applyFlags entry flags =
     (if \<not> present entry then flags
      else let flags = (if \<not> writeable entry then flags AND NOT eWrite else flags);
               flags = (if \<not> executable entry then flags AND NOT eExecute else flags)
           in if \<not> user entry then flags AND NOT eUser else flags)"

definition walk_flags :: "PageWalk \<Rightarrow> PageFlags" where
  "walk_flags w =
     (let flags = applyFlags (pw_pml4e w) eUserAll
      in if \<not> present (pw_pdpte w) then eNone
         else let flags = applyFlags (pw_pdpte w) flags
         in if is1g (pw_pdpte w) then flags
         else if \<not> present (pw_pdte w) then eNone
         else let flags = applyFlags (pw_pdte w) flags
         in if is2m (pw_pdte w) then flags
         else if \<not> present (pw_pte w) then eNone
         else applyFlags (pw_pte w) flags)"

section \<open>Mapping requests\<close>

record PageMappingRequest =
  req_mapping :: AddressMapping
  req_flags :: PageFlags
  req_type :: MemoryType

definition isPageMappingRequestInputValid :: "AddressMapping \<Rightarrow> PageFlags \<Rightarrow> bool" where
  "isPageMappingRequestInputValid m flags =
     (if am_size m = 0 then False
      else if \<not> isAlignedTo (am_size m) kPageSize then False
      else if \<not> isAlignedTo (am_vaddr m) kPageSize then False
      else if \<not> isAlignedTo (am_paddr m) kPageSize then False
      else if flags = eNone then False
      else True)"

definition make_request :: "AddressMapping \<Rightarrow> PageFlags \<Rightarrow> MemoryType \<Rightarrow> PageMappingRequest option" where
  "make_request m flags type =
     do { _ \<leftarrow> KM_CHECK (isPageMappingRequestInputValid m flags);
          Some \<lparr>req_mapping = m, req_flags = flags, req_type = type\<rparr> }"

definition request_create ::
  "AddressMapping \<Rightarrow> PageFlags \<Rightarrow> MemoryType \<Rightarrow> (OsStatus \<times> PageMappingRequest option) option" where
  "request_create m flags type =
     (if \<not> isPageMappingRequestInputValid m flags then Some (OsStatusInvalidInput, None)
      else do { req \<leftarrow> make_request m flags type; Some (OsStatusSuccess, Some req) })"

section \<open>Entries bit by bit\<close>

named_theorems entry_bits \<open>fields and setters of an entry read off its bits\<close>

lemma and_push_bit_1:
  fixes e :: "'a::len word"
  assumes "n < LENGTH('a)"
  shows "(e AND push_bit n 1 \<noteq> 0) = bit e n"
proof -
  have k: "bit (e AND push_bit n 1) k = (bit e n \<and> k = n)" for k
    using assms by (cases "k = n") (auto simp: bit_simps)
  show ?thesis
  proof
    assume "e AND push_bit n 1 \<noteq> 0"
    then obtain k where "bit (e AND push_bit n 1) k" using bit_eqI [of "e AND push_bit n 1" 0] by auto
    then show "bit e n" unfolding k by simp
  next
    assume "bit e n"
    then have "bit (e AND push_bit n 1) n" unfolding k by simp
    then show "e AND push_bit n 1 \<noteq> 0" by (metis bit_0_eq bot_fun_def bot_bool_def)
  qed
qed

lemma bit_setmask: "n < 64 \<Longrightarrow> bit (setmask e (push_bit n 1) b) k = (if k = n then b else bit e k)"
  by (auto simp: setmask_def bit_simps dest: bit_imp_le_length)

lemma entry_fields [entry_bits]:
  "present e = bit e 0" "writeable e = bit e 1" "user e = bit e 2" "is2m e = bit e 7" "is1g e = bit e 7"
  unfolding present_def writeable_def user_def is2m_def is1g_def kPresentBit_def
    kReadOnlyBit_def kUserBit_def kLargePage_def kHugePage_def
  by (rule and_push_bit_1, simp)+

lemma executable_bit [entry_bits]: "executable e = (\<not> bit e 63)"
  unfolding executable_def kExecuteDisableBit_def by (subst and_push_bit_1) simp_all

lemma bit_setters [entry_bits]:
  "bit (setPresent b e) k = (if k = 0 then b else bit e k)"
  "bit (setWriteable b e) k = (if k = 1 then b else bit e k)"
  "bit (setUser b e) k = (if k = 2 then b else bit e k)"
  "bit (setExecutable b e) k = (if k = 63 then \<not> b else bit e k)"
  "bit (set2m b e) k = (if k = 7 then b else bit e k)"
  "bit (set1g b e) k = (if k = 7 then b else bit e k)"
  unfolding setPresent_def setWriteable_def setUser_def setExecutable_def set2m_def set1g_def kPresentBit_def
    kReadOnlyBit_def kUserBit_def kExecuteDisableBit_def kLargePage_def kHugePage_def
  by (rule bit_setmask, simp)+

lemma bit_addressMask:
  assumes "12 \<le> w" and "w < 64"
  shows "bit (addressMask w) k = (12 \<le> k \<and> k < w)"
proof -
  have 1: "(push_bit w 1 - 1 :: u64) = mask w" by (simp add: mask_eq_exp_minus_1 push_bit_eq_mult)
  have 2: "(kPageSize - 1 :: u64) = mask 12" by (simp add: kPageSize_def mask_eq_exp_minus_1)
  show ?thesis unfolding addressMask_def 1 2 using assms by (auto simp: bit_simps)
qed

text \<open>A processor has between 12 and 52 physical address bits.\<close>

definition pb_ok :: "PageBuilder \<Rightarrow> bool" where
  "pb_ok pb \<longleftrightarrow> (\<exists>w. 12 < w \<and> w \<le> 52 \<and> mAddressMask pb = addressMask w)"

definition frame :: "PageBuilder \<Rightarrow> u64 \<Rightarrow> bool" where
  "frame pb a \<longleftrightarrow> a AND mAddressMask pb = a"

lemma bit_setAddress: "bit (setAddress pb a e) k = (if bit (mAddressMask pb) k then bit a k else bit e k)"
  by (auto simp: setAddress_def bit_simps dest: bit_imp_le_length)

lemma bit_address: "bit (address pb e) k = (bit e k \<and> bit (mAddressMask pb) k)"
  by (simp add: address_def bit_simps)

lemma pb_ok_low: "pb_ok pb \<Longrightarrow> k < 12 \<Longrightarrow> \<not> bit (mAddressMask pb) k"
  and pb_ok_high: "pb_ok pb \<Longrightarrow> 52 \<le> k \<Longrightarrow> \<not> bit (mAddressMask pb) k"
  by (auto simp: pb_ok_def bit_addressMask)

lemma bit_push_bit_one: "n < 64 \<Longrightarrow> bit (push_bit n 1 :: u64) k = (k = n)"
  by (simp only: bit_push_bit_iff bit_1_iff possible_bit_word) auto

lemma small_bits: "bit (1 :: u64) j = (j = 0)" "bit (2 :: u64) j = (j = 1)" "bit (4 :: u64) j = (j = 2)"
  using bit_push_bit_one [of 0 j] bit_push_bit_one [of 1 j] bit_push_bit_one [of 2 j]
  by (simp_all add: push_bit_eq_mult)

lemma bit_paging_setMemoryType:
  assumes "7 \<le> pat" "pat < 64"
  shows "bit (paging_setMemoryType e pat t) k =
     (if k = 3 then bit t 0 else if k = 4 then bit t 1 else if k = pat then bit t 2 else bit e k)"
proof -
  have u: "bit (ucast t :: u64) j = bit t j" for j by (auto simp: bit_simps dest: bit_imp_le_length)
  have s: "bit (push_bit 3 (ucast t AND 1) :: u64) k = (k = 3 \<and> bit t 0)"
    "bit (push_bit 3 (ucast t AND 2) :: u64) k = (k = 4 \<and> bit t 1)"
    "bit (push_bit (pat - 2) (ucast t AND 4) :: u64) k = (k = pat \<and> bit t 2)"
    using assms by (auto simp only: bit_push_bit_iff bit_and_iff u small_bits possible_bit_word) auto
  show ?thesis
    using assms unfolding paging_setMemoryType_def Let_def kWriteThroughBit_def kCacheDisableBit_def
    by (simp only: bit_or_iff bit_and_iff bit_not_iff s bit_push_bit_one possible_bit_word)
      (auto split: if_splits dest: bit_imp_le_length)
qed

section \<open>What a written entry says\<close>

lemma flag_bits: "(f :: u8) AND 2 \<noteq> 0 \<longleftrightarrow> bit f 1" "f AND 4 \<noteq> 0 \<longleftrightarrow> bit f 2" "f AND 8 \<noteq> 0 \<longleftrightarrow> bit f 3"
  using and_push_bit_1 [of 1 f] and_push_bit_1 [of 2 f] and_push_bit_1 [of 3 f]
  by (simp_all add: push_bit_eq_mult)

lemma setEntryFlags_bits:
  assumes "pb_ok pb" and "setEntryFlags pb flags a e = Some e'"
  shows "bit e' k = (if k = 0 then True else if k = 1 then bit flags 1 else if k = 2 then bit flags 3
     else if k = 63 then \<not> bit flags 2 else if bit (mAddressMask pb) k then bit a k else bit e k)"
  using assms pb_ok_low [OF assms(1)] pb_ok_high [OF assms(1)]
  by (auto simp: setEntryFlags_def entry_bits bit_setAddress flag_bits split: if_splits)

lemma setEntryFlags_Some: "a \<le> mAddressMask pb \<Longrightarrow> \<exists>e'. setEntryFlags pb flags a e = Some e'"
  by (simp add: setEntryFlags_def maxPhysicalAddress_def)

lemma frame_le: "frame pb a \<Longrightarrow> a \<le> mAddressMask pb"
  unfolding frame_def by (metis and.commute word_and_le1)

lemma frame_bit: "frame pb a \<Longrightarrow> bit a k \<Longrightarrow> bit (mAddressMask pb) k"
  unfolding frame_def by (metis bit_and_iff)

lemma frame_address [simp]: "frame pb (address pb e)"
  by (simp add: frame_def address_def and.assoc)

text \<open>An entry that was written says what was written: the address, the flags, and that it is present.\<close>

lemma setEntryFlags_fields:
  assumes pb: "pb_ok pb" and e': "setEntryFlags pb flags a e = Some e'"
  shows "present e'" "address pb e' = a AND mAddressMask pb" "writeable e' = bit flags 1"
    "executable e' = bit flags 2" "user e' = bit flags 3" "is2m e' = is2m e" "is1g e' = is1g e"
proof -
  note b = setEntryFlags_bits [OF pb e'] and m = pb_ok_low [OF pb] pb_ok_high [OF pb]
  show "present e'" "writeable e' = bit flags 1" "executable e' = bit flags 2" "user e' = bit flags 3"
    "is2m e' = is2m e" "is1g e' = is1g e"
    using m by (simp_all add: entry_bits b)
  show "address pb e' = a AND mAddressMask pb"
    by (rule bit_eqI) (use m in \<open>auto simp: bit_address b bit_and_iff split: if_splits\<close>)
qed

end
