(* ===== verification/TableAlloc.thy ===== *)
theory TableAlloc
  imports PageEntry Linked
begin

text \<open>
  The allocator of page table memory: \<^verbatim>\<open>PageTableAllocator\<close> of
  \<^verbatim>\<open>kernel/src/memory/table_allocator.cpp\<close>, its control blocks with their quicksort
  (\<^verbatim>\<open>kernel/src/memory/detail/control_block.cpp\<close>), and \<^verbatim>\<open>PageTableAllocation\<close> and
  \<^verbatim>\<open>PageTableList\<close> of \<^verbatim>\<open>kernel/src/memory/detail/table_list.cpp\<close>.

  The free memory is a doubly linked list of control blocks that lie at the start of the memory
  they describe; the model keeps them in a store from addresses to control blocks, so that every
  assignment through a pointer is the source's. Reading an address that holds no control block
  gives \<open>None\<close>. A \<^verbatim>\<open>PageTableList\<close> is linked through the pages it holds, which nobody else
  owns; it is modelled as the list of these pages.
\<close>

section \<open>Allocations and lists of them\<close>

record PageTableAllocation =
  mBlock :: u64
  mSlide :: u64

definition no_allocation :: PageTableAllocation where
  "no_allocation = \<lparr>mBlock = 0, mSlide = 0\<rparr>"

definition getVirtual :: "PageTableAllocation \<Rightarrow> u64" where "getVirtual a = mBlock a"
definition getPhysical :: "PageTableAllocation \<Rightarrow> u64" where "getPhysical a = mBlock a - mSlide a"
definition getSlide :: "PageTableAllocation \<Rightarrow> u64" where "getSlide a = mSlide a"
definition isPresent :: "PageTableAllocation \<Rightarrow> bool" where "isPresent a \<longleftrightarrow> mBlock a \<noteq> 0"

definition pta_offset :: "PageTableAllocation \<Rightarrow> nat \<Rightarrow> PageTableAllocation" where
  "pta_offset a index = \<lparr>mBlock = mBlock a + of_nat index * kPageSize, mSlide = mSlide a\<rparr>"

type_synonym PageTableList = "PageTableAllocation list"

definition list_of_table :: "PageTableAllocation \<Rightarrow> nat \<Rightarrow> PageTableList" where
  "list_of_table a count = map (pta_offset a) [0..<count]"

definition list_push :: "PageTableAllocation \<Rightarrow> PageTableList \<Rightarrow> PageTableList" where
  "list_push a l = a # l"

definition list_push_many :: "PageTableAllocation \<Rightarrow> nat \<Rightarrow> PageTableList \<Rightarrow> PageTableList" where
  "list_push_many a count l = fold (\<lambda>i. list_push (pta_offset a i)) [0..<count] l"

fun pt_list_append :: "PageTableList \<Rightarrow> PageTableList \<Rightarrow> PageTableList" where
  "pt_list_append [] l = l"
| "pt_list_append (page # src) l = pt_list_append src (list_push page l)"

definition pt_list_next :: "PageTableList \<Rightarrow> (PageTableAllocation \<times> PageTableList) option" where
  "pt_list_next l = (case l of [] \<Rightarrow> None | a # rest \<Rightarrow> Some (a, rest))"

definition pt_list_drain :: "PageTableList \<Rightarrow> PageTableAllocation \<times> PageTableList" where
  "pt_list_drain l = (case l of [] \<Rightarrow> (no_allocation, []) | a # rest \<Rightarrow> (a, rest))"

section \<open>Control blocks\<close>

record control_block =
  cb_next :: "u64 option"
  cb_prev :: "u64 option"
  cb_size :: size_t
  cb_slide :: u64

type_synonym cstore = "u64 \<rightharpoonup> control_block"

definition cb_upd :: "u64 \<Rightarrow> (control_block \<Rightarrow> control_block) \<Rightarrow> cstore \<Rightarrow> cstore option" where
  "cb_upd p f m = do { b \<leftarrow> m p; Some (m(p \<mapsto> f b)) }"

definition cb_upd_opt :: "u64 option \<Rightarrow> (control_block \<Rightarrow> control_block) \<Rightarrow> cstore \<Rightarrow> cstore option" where
  "cb_upd_opt q f m = (case q of None \<Rightarrow> Some m | Some p \<Rightarrow> cb_upd p f m)"

definition cb_range :: "u64 \<Rightarrow> control_block \<Rightarrow> range" where
  "cb_range this b = \<lparr>rfront = this, rback = this + cb_size b\<rparr>"

partial_function (option) cb_head :: "u64 \<Rightarrow> cstore \<Rightarrow> u64 option" where
  "cb_head this m =
     Option.bind (m this) (\<lambda>b. case cb_prev b of None \<Rightarrow> Some this | Some p \<Rightarrow> cb_head p m)"

text \<open>The new block lies at the end of the old one.\<close>

definition SplitBlock :: "u64 \<Rightarrow> size_t \<Rightarrow> cstore \<Rightarrow> (u64 \<times> cstore) option" where
  "SplitBlock block sz m =
     do { b \<leftarrow> m block;
          _ \<leftarrow> KM_CHECK (cb_size b > sz);
          let nxt = block + (cb_size b - sz);
          m \<leftarrow> cb_upd block (\<lambda>b. b\<lparr>cb_size := cb_size b - sz\<rparr>) m;
          m \<leftarrow> cb_upd_opt (cb_next b) (\<lambda>n. n\<lparr>cb_prev := Some nxt\<rparr>) m;
          b \<leftarrow> m block;
          m \<leftarrow> cb_upd block (\<lambda>b. b\<lparr>cb_next := Some nxt\<rparr>) m;
          Some (nxt, m(nxt \<mapsto> \<lparr>cb_next = cb_next b, cb_prev = Some block, cb_size = sz, cb_slide = cb_slide b\<rparr>)) }"

definition RemoveBlock :: "u64 \<Rightarrow> cstore \<Rightarrow> cstore option" where
  "RemoveBlock block m =
     do { b \<leftarrow> m block;
          m \<leftarrow> cb_upd_opt (cb_prev b) (\<lambda>p. p\<lparr>cb_next := cb_next b\<rparr>) m;
          b \<leftarrow> m block;
          cb_upd_opt (cb_next b) (\<lambda>n. n\<lparr>cb_prev := cb_prev b\<rparr>) m }"

section \<open>Sorting and merging\<close>

text \<open>
  \<^verbatim>\<open>Partition\<close>: the blocks above \<open>value\<close> are moved to a list of their own, in reverse order; the
  others stay linked, and \<open>lte\<close> is the first of them.
\<close>

partial_function (option) Partition_loop ::
  "u64 \<Rightarrow> u64 option \<Rightarrow> u64 option \<Rightarrow> u64 option \<Rightarrow> cstore \<Rightarrow> (u64 option \<times> u64 option \<times> cstore) option" where
  "Partition_loop value l result lte m =
     (case l of
        None \<Rightarrow> Some (lte, result, m)
      | Some p \<Rightarrow>
          Option.bind (m p) (\<lambda>b.
          let nxt = cb_next b in
          if p > value then
            Option.bind (cb_upd_opt (cb_prev b) (\<lambda>x. x\<lparr>cb_next := cb_next b\<rparr>) m) (\<lambda>m.
            Option.bind (m p) (\<lambda>b.
            Option.bind (cb_upd_opt (cb_next b) (\<lambda>x. x\<lparr>cb_prev := cb_prev b\<rparr>) m) (\<lambda>m.
            Option.bind
              (case result of
                 None \<Rightarrow> cb_upd p (\<lambda>b. b\<lparr>cb_next := None\<rparr>) m
               | Some r \<Rightarrow> Option.bind (cb_upd p (\<lambda>b. b\<lparr>cb_next := Some r\<rparr>) m)
                             (cb_upd r (\<lambda>x. x\<lparr>cb_prev := Some p\<rparr>))) (\<lambda>m.
            Option.bind (cb_upd p (\<lambda>b. b\<lparr>cb_prev := None\<rparr>) m) (\<lambda>m.
            Partition_loop value nxt (Some p) lte m)))))
          else Partition_loop value nxt result (if lte = None then Some p else lte) m))"

definition Partition :: "u64 \<Rightarrow> cstore \<Rightarrow> (u64 option \<times> u64 option \<times> cstore) option" where
  "Partition mid m = do { b \<leftarrow> m mid; Partition_loop mid (cb_next b) None None m }"

text \<open>
  \<^verbatim>\<open>QuicksortInner\<close> gives the first and the last block of the sorted list.
\<close>

partial_function (option) QuicksortInner ::
  "u64 option \<Rightarrow> cstore \<Rightarrow> (u64 option \<times> u64 option \<times> cstore) option" where
  "QuicksortInner l m =
     (case l of
        None \<Rightarrow> Some (None, None, m)
      | Some mid \<Rightarrow>
          Option.bind (m mid) (\<lambda>b.
          if cb_next b = None then Some (Some mid, Some mid, m)
          else
            Option.bind (Partition mid m) (\<lambda>(lte, gt, m).
            Option.bind (QuicksortInner lte m) (\<lambda>(lte, lte_end, m).
            Option.bind (QuicksortInner gt m) (\<lambda>(gt, gt_end, m).
            Option.bind
              (case gt of
                 None \<Rightarrow> Option.bind (cb_upd mid (\<lambda>b. b\<lparr>cb_next := None, cb_prev := None\<rparr>) m)
                           (\<lambda>m. Some (Some mid, m))
               | Some g \<Rightarrow> Option.bind (cb_upd mid (\<lambda>b. b\<lparr>cb_next := gt, cb_prev := None\<rparr>) m) (\<lambda>m.
                           Option.bind (cb_upd g (\<lambda>b. b\<lparr>cb_prev := Some mid\<rparr>) m) (\<lambda>m.
                           Some (gt_end, m)))) (\<lambda>(end, m).
            case lte of
              None \<Rightarrow> Some (Some mid, end, m)
            | Some f \<Rightarrow>
                Option.bind lte_end (\<lambda>le.
                Option.bind (cb_upd le (\<lambda>b. b\<lparr>cb_next := Some mid\<rparr>) m) (\<lambda>m.
                Option.bind (cb_upd mid (\<lambda>b. b\<lparr>cb_prev := Some le\<rparr>) m) (\<lambda>m.
                Some (lte, end, m))))))))))"

definition Quicksort :: "u64 \<Rightarrow> cstore \<Rightarrow> (u64 option \<times> cstore) option" where
  "Quicksort head m =
     do { (begin, end, m) \<leftarrow> QuicksortInner (Some head) m;
          m \<leftarrow> cb_upd_opt begin (\<lambda>b. b\<lparr>cb_prev := None\<rparr>) m;
          m \<leftarrow> cb_upd_opt end (\<lambda>b. b\<lparr>cb_next := None\<rparr>) m;
          Some (begin, m) }"

definition sortBlocks :: "u64 \<Rightarrow> cstore \<Rightarrow> cstore option" where
  "sortBlocks block m =
     do { block \<leftarrow> cb_head block m; (begin, m) \<leftarrow> Quicksort block m; Some m }"

partial_function (option) mergeAdjacentBlocks :: "u64 option \<Rightarrow> cstore \<Rightarrow> cstore option" where
  "mergeAdjacentBlocks block m =
     (case block of
        None \<Rightarrow> Some m
      | Some p \<Rightarrow>
          Option.bind (m p) (\<lambda>b.
          case cb_next b of
            None \<Rightarrow> Some m
          | Some q \<Rightarrow>
              Option.bind (m q) (\<lambda>n.
              if p + cb_size b = q \<and> cb_slide n = cb_slide b then
                Option.bind (cb_upd p (\<lambda>b. b\<lparr>cb_size := cb_size b + cb_size n, cb_next := cb_next n\<rparr>) m) (\<lambda>m.
                Option.bind (cb_upd_opt (cb_next n) (\<lambda>x. x\<lparr>cb_prev := Some p\<rparr>) m) (\<lambda>m.
                mergeAdjacentBlocks (Some p) m))
              else mergeAdjacentBlocks (Some q) m)))"

section \<open>The allocator\<close>

record PageTableAllocator =
  mBlockSize :: size_t
  mHead :: "u64 option"
  cblocks :: cstore

definition setHead :: "u64 option \<Rightarrow> PageTableAllocator \<Rightarrow> PageTableAllocator option" where
  "setHead block A =
     do { m \<leftarrow> cb_upd_opt block (\<lambda>b. b\<lparr>cb_prev := None\<rparr>) (cblocks A);
          Some (A\<lparr>mHead := block, cblocks := m\<rparr>) }"

definition AllocateBlock :: "size_t \<Rightarrow> PageTableAllocator \<Rightarrow> (u64 option \<times> PageTableAllocator) option" where
  "AllocateBlock sz A =
     (if sz = 0 then Some (None, A)
      else case mHead A of
        None \<Rightarrow> Some (None, A)
      | Some block \<Rightarrow> do {
          b \<leftarrow> cblocks A block;
          _ \<leftarrow> KM_CHECK (cb_prev b = None);
          if cb_size b < sz then Some (None, A)
          else if cb_size b = sz then do { A \<leftarrow> setHead (cb_next b) A; Some (Some block, A) }
          else do {
            (nxt, m) \<leftarrow> SplitBlock block sz (cblocks A);
            m \<leftarrow> RemoveBlock nxt m;
            Some (Some nxt, A\<lparr>cblocks := m\<rparr>) } })"

text \<open>\<^verbatim>\<open>AllocateHead\<close> gives the list and the number of blocks still missing.\<close>

definition AllocateHead :: "size_t \<Rightarrow> PageTableAllocator \<Rightarrow> (PageTableList \<times> size_t \<times> PageTableAllocator) option" where
  "AllocateHead remaining A =
     do { block \<leftarrow> mHead A;
          b \<leftarrow> cblocks A block;
          let sz = remaining * mBlockSize A;
          _ \<leftarrow> KM_CHECK (cb_prev b = None);
          if cb_size b > sz then do {
            (nxt, m) \<leftarrow> SplitBlock block sz (cblocks A);
            m \<leftarrow> RemoveBlock nxt m;
            nb \<leftarrow> m nxt;
            Some (list_of_table \<lparr>mBlock = nxt, mSlide = cb_slide nb\<rparr> (unat (sz div mBlockSize A)), 0, A\<lparr>cblocks := m\<rparr>) }
          else if cb_size b = sz then do {
            A \<leftarrow> setHead (cb_next b) A;
            Some (list_of_table \<lparr>mBlock = block, mSlide = cb_slide b\<rparr> (unat (sz div mBlockSize A)), 0, A) }
          else do {
            let blockSize = cb_size b;
            A \<leftarrow> setHead (cb_next b) A;
            Some (list_of_table \<lparr>mBlock = block, mSlide = cb_slide b\<rparr> (unat (blockSize div mBlockSize A)),
                  remaining - blockSize div mBlockSize A, A) } }"

partial_function (option) CanAllocateBlocks :: "u64 option \<Rightarrow> size_t \<Rightarrow> cstore \<Rightarrow> bool option" where
  "CanAllocateBlocks block remaining m =
     (case block of
        None \<Rightarrow> Some False
      | Some p \<Rightarrow>
          Option.bind (m p) (\<lambda>b.
          if cb_size b \<ge> remaining then Some True
          else CanAllocateBlocks (cb_next b) (remaining - cb_size b) m))"

partial_function (option) allocateList_loop ::
  "u64 option \<Rightarrow> size_t \<Rightarrow> PageTableList \<Rightarrow> PageTableAllocator \<Rightarrow> (PageTableList \<times> PageTableAllocator) option" where
  "allocateList_loop node remaining list A =
     (if remaining = 0 then Some (list, A)
      else
        Option.bind node (\<lambda>p.
        Option.bind (cblocks A p) (\<lambda>b.
        if cb_size b > remaining * mBlockSize A then
          Option.bind (SplitBlock p (remaining * mBlockSize A) (cblocks A)) (\<lambda>(nxt, m).
          Option.bind (RemoveBlock nxt m) (\<lambda>m.
          Option.bind (m nxt) (\<lambda>nb.
          allocateList_loop node 0 (list_push_many \<lparr>mBlock = nxt, mSlide = cb_slide nb\<rparr> (unat remaining) list)
            (A\<lparr>cblocks := m\<rparr>))))
        else
          Option.bind (setHead (cb_next b) A) (\<lambda>A.
          Option.bind (RemoveBlock p (cblocks A)) (\<lambda>m.
          if cb_size b = remaining * mBlockSize A then
            allocateList_loop node 0 (list_push_many \<lparr>mBlock = p, mSlide = cb_slide b\<rparr> (unat remaining) list)
              (A\<lparr>cblocks := m\<rparr>)
          else
            allocateList_loop (mHead A) (remaining - cb_size b div mBlockSize A)
              (list_push_many \<lparr>mBlock = p, mSlide = cb_slide b\<rparr> (unat (cb_size b div mBlockSize A)) list)
              (A\<lparr>cblocks := m\<rparr>))))))"

text \<open>
  \<^verbatim>\<open>allocateList\<close>: no list when the memory does not suffice. The source states \<^verbatim>\<open>[[assume(blocks > 0)]]\<close>;
  a request for no blocks is undefined behaviour and gives \<open>None\<close>.
\<close>

definition allocateList :: "size_t \<Rightarrow> PageTableAllocator \<Rightarrow> (PageTableList option \<times> PageTableAllocator) option" where
  "allocateList blocks A =
     do { _ \<leftarrow> (if blocks > 0 then Some () else None);
          ok \<leftarrow> CanAllocateBlocks (mHead A) (blocks * mBlockSize A) (cblocks A);
          if \<not> ok then Some (None, A)
          else do {
            (list, remaining, A) \<leftarrow> AllocateHead blocks A;
            (list, A) \<leftarrow> allocateList_loop (mHead A) remaining list A;
            Some (Some list, A) } }"

definition allocateExtra :: "size_t \<Rightarrow> PageTableList \<Rightarrow> PageTableAllocator \<Rightarrow> (bool \<times> PageTableList \<times> PageTableAllocator) option" where
  "allocateExtra blocks list A =
     do { (extra, A) \<leftarrow> allocateList blocks A;
          (case extra of
             Some extra \<Rightarrow> Some (True, pt_list_append extra list, A)
           | None \<Rightarrow> Some (False, list, A)) }"

definition pta_deallocate :: "u64 \<Rightarrow> size_t \<Rightarrow> u64 \<Rightarrow> PageTableAllocator \<Rightarrow> PageTableAllocator option" where
  "pta_deallocate ptr blocks slide A =
     do { _ \<leftarrow> (case mHead A of
                 None \<Rightarrow> Some ()
               | Some h \<Rightarrow> do { b \<leftarrow> cblocks A h; KM_CHECK (cb_prev b = None) });
          let m = (cblocks A)(ptr \<mapsto> \<lparr>cb_next = mHead A, cb_prev = None, cb_size = blocks * mBlockSize A,
                                    cb_slide = slide\<rparr>);
          m \<leftarrow> cb_upd_opt (mHead A) (\<lambda>b. b\<lparr>cb_prev := Some ptr\<rparr>) m;
          Some (A\<lparr>mHead := Some ptr, cblocks := m\<rparr>) }"

fun deallocateList :: "PageTableList \<Rightarrow> PageTableAllocator \<Rightarrow> PageTableAllocator option" where
  "deallocateList [] A = Some A"
| "deallocateList (page # list) A =
     do { A \<leftarrow> pta_deallocate (getVirtual page) 1 (getSlide page) A; deallocateList list A }"

definition defragment :: "PageTableAllocator \<Rightarrow> PageTableAllocator option" where
  "defragment A =
     (case mHead A of
        None \<Rightarrow> Some A
      | Some block \<Rightarrow> do {
          b \<leftarrow> cblocks A block;
          if cb_next b = None then Some A
          else do {
            _ \<leftarrow> KM_CHECK (cb_prev b = None);
            m \<leftarrow> sortBlocks block (cblocks A);
            block \<leftarrow> cb_head block m;
            m \<leftarrow> mergeAdjacentBlocks (Some block) m;
            Some (A\<lparr>mHead := Some block, cblocks := m\<rparr>) } })"

definition pta_allocate :: "size_t \<Rightarrow> PageTableAllocator \<Rightarrow> (PageTableAllocation \<times> PageTableAllocator) option" where
  "pta_allocate blocks A =
     do { (r, A) \<leftarrow> AllocateBlock (blocks * mBlockSize A) A;
          (case r of
             Some p \<Rightarrow> do { b \<leftarrow> cblocks A p; Some (\<lparr>mBlock = p, mSlide = cb_slide b\<rparr>, A) }
           | None \<Rightarrow> do {
               A \<leftarrow> defragment A;
               (r, A) \<leftarrow> AllocateBlock (blocks * mBlockSize A) A;
               (case r of
                  Some p \<Rightarrow> do { b \<leftarrow> cblocks A p; Some (\<lparr>mBlock = p, mSlide = cb_slide b\<rparr>, A) }
                | None \<Rightarrow> Some (no_allocation, A)) }) }"

definition addMemory :: "range \<Rightarrow> PageTableAllocator \<Rightarrow> PageTableAllocator option" where
  "addMemory r A =
     do { _ \<leftarrow> KM_CHECK (\<not> (range_size r = 0 \<or> range_size r mod mBlockSize A \<noteq> 0));
          _ \<leftarrow> KM_CHECK (alignedOut r (mBlockSize A) = r);
          let m = (cblocks A)(rfront r \<mapsto> \<lparr>cb_next = mHead A, cb_prev = None, cb_size = range_size r, cb_slide = 0\<rparr>);
          defragment (A\<lparr>mHead := Some (rfront r), cblocks := m\<rparr>) }"

text \<open>The walk of \<^verbatim>\<open>releaseMemory\<close> over the sorted blocks; it gives the block at which it stopped.\<close>

partial_function (option) releaseMemory_walk :: "range \<Rightarrow> u64 option \<Rightarrow> cstore \<Rightarrow> (u64 option \<times> cstore) option" where
  "releaseMemory_walk r block m =
     (case block of
        None \<Rightarrow> Some (None, m)
      | Some p \<Rightarrow>
          Option.bind (m p) (\<lambda>b.
          let blockRange = cb_range p b; overlap = intersection blockRange r in
          if isAfter blockRange r then Some (Some p, m)
          else if isEmpty overlap then releaseMemory_walk r (cb_next b) m
          else if blockRange = overlap then
            Option.bind (RemoveBlock p m) (\<lambda>m.
            Option.bind (m p) (\<lambda>b. releaseMemory_walk r (cb_next b) m))
          else if startsWith blockRange overlap then
            Option.bind (SplitBlock p (range_size overlap) m) (\<lambda>(nxt, m).
            Option.bind (RemoveBlock p m) (\<lambda>m. releaseMemory_walk r (Some nxt) m))
          else if endsWith blockRange overlap then
            Option.bind (SplitBlock p (range_size blockRange - range_size overlap) m) (\<lambda>(nxt, m).
            Option.bind (RemoveBlock nxt m) (\<lambda>m.
            Option.bind (m p) (\<lambda>b. Some (cb_next b, m))))
          else if contains blockRange overlap then
            Option.bind (SplitBlock p (rfront overlap - rfront blockRange) m) (\<lambda>(tail, m).
            Option.bind (SplitBlock p (range_size overlap) m) (\<lambda>(middle, m).
            Option.bind (RemoveBlock middle m) (\<lambda>m. Some (Some tail, m))))
          else None))"

definition releaseMemory :: "range \<Rightarrow> PageTableAllocator \<Rightarrow> PageTableAllocator option" where
  "releaseMemory r A =
     do { A \<leftarrow> defragment A;
          (block, m) \<leftarrow> releaseMemory_walk r (mHead A) (cblocks A);
          head \<leftarrow> (case block of None \<Rightarrow> Some None | Some p \<Rightarrow> do { q \<leftarrow> cb_head p m; Some (Some q) });
          setHead head (A\<lparr>cblocks := m\<rparr>) }"

record PteAllocatorStats =
  pst_blockSize :: size_t
  pst_freeBlocks :: size_t
  pst_chainLength :: size_t
  pst_largestBlock :: size_t

partial_function (option) pta_stats_loop :: "u64 option \<Rightarrow> PteAllocatorStats \<Rightarrow> cstore \<Rightarrow> PteAllocatorStats option" where
  "pta_stats_loop block st m =
     (case block of
        None \<Rightarrow> Some st
      | Some p \<Rightarrow>
          Option.bind (m p) (\<lambda>b.
          let blockCount = cb_size b div pst_blockSize st in
          pta_stats_loop (cb_next b)
            (st\<lparr>pst_freeBlocks := pst_freeBlocks st + blockCount,
                pst_chainLength := pst_chainLength st + 1,
                pst_largestBlock := max (pst_largestBlock st) blockCount\<rparr>) m))"

definition pta_stats :: "PageTableAllocator \<Rightarrow> PteAllocatorStats option" where
  "pta_stats A =
     pta_stats_loop (mHead A)
       \<lparr>pst_blockSize = mBlockSize A, pst_freeBlocks = 0, pst_chainLength = 0, pst_largestBlock = 0\<rparr> (cblocks A)"

definition isPageTableAllocatorInputValid :: "range \<Rightarrow> size_t \<Rightarrow> bool" where
  "isPageTableAllocatorInputValid memory blockSize \<longleftrightarrow>
     blockSize > 0 \<and> range_size memory \<ge> blockSize \<and> aligned memory blockSize = memory"

definition pta_create_range :: "range \<Rightarrow> size_t \<Rightarrow> OsStatus \<times> PageTableAllocator option" where
  "pta_create_range memory blockSize =
     (if \<not> isPageTableAllocatorInputValid memory blockSize then (OsStatusInvalidInput, None)
      else (OsStatusSuccess,
        Some \<lparr>mBlockSize = blockSize, mHead = Some (rfront memory),
              cblocks = [rfront memory \<mapsto>
                \<lparr>cb_next = None, cb_prev = None, cb_size = range_size memory, cb_slide = 0\<rparr>]\<rparr>))"

definition pta_create :: "AddressMapping \<Rightarrow> size_t \<Rightarrow> OsStatus \<times> PageTableAllocator option" where
  "pta_create mapping blockSize =
     (if \<not> isPageTableAllocatorInputValid (virtualRange mapping) blockSize then (OsStatusInvalidInput, None)
      else (OsStatusSuccess,
        Some \<lparr>mBlockSize = blockSize, mHead = Some (am_vaddr mapping),
              cblocks = [am_vaddr mapping \<mapsto>
                \<lparr>cb_next = None, cb_prev = None, cb_size = am_size mapping, cb_slide = am_slide mapping\<rparr>]\<rparr>))"

declare
  cb_head.simps [code] and
  Partition_loop.simps [code] and
  QuicksortInner.simps [code] and
  mergeAdjacentBlocks.simps [code] and
  CanAllocateBlocks.simps [code] and
  allocateList_loop.simps [code] and
  releaseMemory_walk.simps [code] and
  pta_stats_loop.simps [code]

end
