(* ===== verification/TableAllocSort.thy ===== *)
theory TableAllocSort
  imports TableAlloc
begin

text \<open>
  The quicksort of the control blocks. The store is read field by field; \<^verbatim>\<open>Partition\<close> is shown to
  filter the linked list by the pivot's address and \<^verbatim>\<open>QuicksortInner\<close> to relink exactly the blocks
  it was given in the order of their addresses.
\<close>

section \<open>The store, field by field\<close>

definition cb :: "cstore \<Rightarrow> u64 \<Rightarrow> control_block" where "cb m p = the (m p)"
definition nx :: "cstore \<Rightarrow> u64 \<Rightarrow> u64 option" where "nx m = (\<lambda>p. cb_next (cb m p))"
definition pv :: "cstore \<Rightarrow> u64 \<Rightarrow> u64 option" where "pv m = (\<lambda>p. cb_prev (cb m p))"
definition bsize :: "cstore \<Rightarrow> u64 \<Rightarrow> size_t" where "bsize m = (\<lambda>p. cb_size (cb m p))"
definition bslide :: "cstore \<Rightarrow> u64 \<Rightarrow> u64" where "bslide m = (\<lambda>p. cb_slide (cb m p))"

lemma cb_fields [simp]:
  "cb_next (cb m p) = nx m p" "cb_prev (cb m p) = pv m p" "cb_size (cb m p) = bsize m p"
  "cb_slide (cb m p) = bslide m p"
  by (simp_all add: nx_def pv_def bsize_def bslide_def)

lemma cb_fields_upd [simp]:
  "nx (m(p := b)) = (nx m)(p := cb_next (the b))" "pv (m(p := b)) = (pv m)(p := cb_prev (the b))"
  "bsize (m(p := b)) = (bsize m)(p := cb_size (the b))" "bslide (m(p := b)) = (bslide m)(p := cb_slide (the b))"
  by (auto simp: nx_def pv_def bsize_def bslide_def cb_def)

lemma cb_cell_upd [simp]: "cb (m(p := b)) = (cb m)(p := the b)"
  by (auto simp: cb_def)

lemma cb_dom [simp]: "p \<in> dom m \<Longrightarrow> m p = Some (cb m p)"
  by (auto simp: cb_def)

lemma cb_upd_dom [simp]: "p \<in> dom m \<Longrightarrow> cb_upd p f m = Some (m(p \<mapsto> f (cb m p)))"
  by (simp add: cb_upd_def)

lemma cb_upd_opt_simps [simp]: "cb_upd_opt None f m = Some m" "cb_upd_opt (Some p) f m = cb_upd p f m"
  by (simp_all add: cb_upd_opt_def)

text \<open>Two stores that agree on sizes, slides, domain, and on every block outside a set.\<close>

definition relinked :: "u64 set \<Rightarrow> cstore \<Rightarrow> cstore \<Rightarrow> bool" where
  "relinked S m m' \<longleftrightarrow> dom m' = dom m \<and> bsize m' = bsize m \<and> bslide m' = bslide m
     \<and> (\<forall>p. p \<notin> S \<longrightarrow> m' p = m p)"

lemma relinked_refl [simp]: "relinked S m m"
  by (simp add: relinked_def)

lemma relinked_trans: "relinked S m m' \<Longrightarrow> relinked S m' m'' \<Longrightarrow> relinked S m m''"
  by (auto simp: relinked_def)

lemma relinked_mono: "relinked S m m' \<Longrightarrow> S \<subseteq> T \<Longrightarrow> relinked T m m'"
  by (auto simp: relinked_def)

lemma relinked_frame: "relinked S m m' \<Longrightarrow> p \<notin> S \<Longrightarrow> nx m' p = nx m p \<and> pv m' p = pv m p"
  by (simp add: relinked_def nx_def pv_def cb_def)

lemma relinked_linked:
  assumes "relinked S m m'" and "set xs \<inter> S = {}"
  shows "linked (nx m') xs e = linked (nx m) xs e" "linked (pv m') xs e = linked (pv m) xs e"
  using assms relinked_frame [OF assms(1)] by (auto intro!: linked_cong)

lemma relinked_dom: "relinked S m m' \<Longrightarrow> dom m' = dom m"
  by (simp add: relinked_def)

lemma relinked_upd:
  assumes "p \<in> dom m" and "p \<in> S" and "cb_size b = bsize m p" and "cb_slide b = bslide m p"
  shows "relinked S m (m(p \<mapsto> b))"
  using assms by (auto simp: relinked_def)

section \<open>Partition\<close>

text \<open>
  The state of the loop: the kept blocks \<open>ks\<close> and the blocks \<open>us\<close> still to visit form one list behind
  the pivot, \<open>rs\<close> are the blocks moved away.
\<close>

definition part_inv :: "u64 \<Rightarrow> u64 list \<Rightarrow> u64 list \<Rightarrow> u64 list \<Rightarrow> cstore \<Rightarrow> bool" where
  "part_inv mid ks us rs m \<longleftrightarrow>
     distinct (mid # ks @ us @ rs) \<and> set (mid # ks @ us @ rs) \<subseteq> dom m
     \<and> linked (nx m) (ks @ us) None \<and> (\<exists>e. (e = None \<or> e = Some mid) \<and> linked (pv m) (rev (ks @ us)) e)
     \<and> linked (nx m) rs None \<and> linked (pv m) (rev rs) None"


text \<open>The body of the loop for a block that is moved.\<close>

definition move_block :: "u64 \<Rightarrow> u64 option \<Rightarrow> cstore \<Rightarrow> cstore option" where
  "move_block p result m =
     Option.bind (m p) (\<lambda>b.
     Option.bind (cb_upd_opt (cb_prev b) (\<lambda>x. x\<lparr>cb_next := cb_next b\<rparr>) m) (\<lambda>m.
     Option.bind (m p) (\<lambda>b.
     Option.bind (cb_upd_opt (cb_next b) (\<lambda>x. x\<lparr>cb_prev := cb_prev b\<rparr>) m) (\<lambda>m.
     Option.bind
       (case result of
          None \<Rightarrow> cb_upd p (\<lambda>b. b\<lparr>cb_next := None\<rparr>) m
        | Some r \<Rightarrow> Option.bind (cb_upd p (\<lambda>b. b\<lparr>cb_next := Some r\<rparr>) m)
                      (cb_upd r (\<lambda>x. x\<lparr>cb_prev := Some p\<rparr>))) (\<lambda>m.
     cb_upd p (\<lambda>b. b\<lparr>cb_prev := None\<rparr>) m)))))"

lemma Partition_loop_Some:
  "p \<in> dom m \<Longrightarrow> Partition_loop value (Some p) result lte m =
     (if p > value then Option.bind (move_block p result m) (\<lambda>m'. Partition_loop value (nx m p) (Some p) lte m')
      else Partition_loop value (nx m p) result (if lte = None then Some p else lte) m)"
  by (subst Partition_loop.simps) (simp add: move_block_def Let_def split: option.splits)

lemma move_block_inv:
  assumes "part_inv mid ks (p # us) rs m"
  shows "\<exists>m'. move_block p (hd_or rs None) m = Some m' \<and> part_inv mid ks us (p # rs) m'
    \<and> relinked (set (mid # ks @ p # us @ rs)) m m'"
proof -
  obtain e where e: "e = None \<or> e = Some mid" "linked (pv m) (rev (ks @ p # us)) e"
    using assms by (auto simp: part_inv_def)
  note I = assms [unfolded part_inv_def]
  have p: "pv m p = hd_or (rev ks) e" "nx m p = hd_or us None" using e(2) I by auto
  show ?thesis
  proof (cases ks rule: rev_cases)
    case Nil
    then show ?thesis
      using I e p by (cases us; cases rs; cases e)
        (auto simp: move_block_def part_inv_def relinked_def)
  next
    case (snoc zs z)
    then show ?thesis
      using I e p by (cases us; cases rs)
        (auto simp: move_block_def part_inv_def relinked_def)
  qed
qed

lemma Partition_loop_inv:
  assumes "part_inv mid ks us rs m"
  shows "\<exists>m'. Partition_loop mid (hd_or us None) (hd_or rs None) (hd_or ks None) m
      = Some (hd_or (ks @ filter (\<lambda>p. p \<le> mid) us) None, hd_or (rev (filter (\<lambda>p. mid < p) us) @ rs) None, m')
    \<and> part_inv mid (ks @ filter (\<lambda>p. p \<le> mid) us) [] (rev (filter (\<lambda>p. mid < p) us) @ rs) m'
    \<and> relinked (set (mid # ks @ us @ rs)) m m'"
  using assms
proof (induction us arbitrary: ks rs m)
  case Nil
  then show ?case by (subst Partition_loop.simps) simp
next
  case (Cons p us)
  have p: "p \<in> dom m" "nx m p = hd_or us None" using Cons.prems by (auto simp: part_inv_def)
  show ?case
  proof (cases "mid < p")
    case True
    obtain m1 where m1: "move_block p (hd_or rs None) m = Some m1" "part_inv mid ks us (p # rs) m1"
      "relinked (set (mid # ks @ p # us @ rs)) m m1"
      using move_block_inv [OF Cons.prems] by blast
    have S: "set (mid # ks @ us @ p # rs) = set (mid # ks @ p # us @ rs)" by auto
    show ?thesis
      using Cons.IH [OF m1(2)] m1(1,3) True p relinked_trans [OF m1(3)] unfolding S
      by (auto simp: Partition_loop_Some)
  next
    case False
    have k: "part_inv mid (ks @ [p]) us rs m" using Cons.prems by (auto simp: part_inv_def)
    show ?thesis
      using Cons.IH [OF k] False p by (cases ks) (auto simp: Partition_loop_Some)
  qed
qed

section \<open>Quicksort\<close>

text \<open>
  The input of the sort: the links back from the second block on are right, except that the one of
  the second block may be missing. The output: the links back are right except the first one.
\<close>

definition sort_in :: "u64 list \<Rightarrow> cstore \<Rightarrow> bool" where
  "sort_in bs m \<longleftrightarrow> distinct bs \<and> set bs \<subseteq> dom m \<and> linked (nx m) bs None
     \<and> (\<exists>e. (e = None \<or> e = hd_or bs None) \<and> linked (pv m) (rev (tl bs)) e)"

definition sort_out :: "u64 list \<Rightarrow> cstore \<Rightarrow> bool" where
  "sort_out bs m \<longleftrightarrow> set bs \<subseteq> dom m \<and> linked (nx m) bs None \<and> linked (pv m) (rev (tl bs)) (hd_or bs None)"

lemma Partition_inv:
  assumes "sort_in (mid # us) m"
  shows "\<exists>m'. Partition mid m
      = Some (hd_or (filter (\<lambda>p. p \<le> mid) us) None, hd_or (rev (filter (\<lambda>p. mid < p) us)) None, m')
    \<and> sort_in (filter (\<lambda>p. p \<le> mid) us) m' \<and> sort_in (rev (filter (\<lambda>p. mid < p) us)) m'
    \<and> relinked (set (mid # us)) m m'"
proof -
  have i: "part_inv mid [] us [] m" "mid \<in> dom m" "nx m mid = hd_or us None"
    using assms by (auto simp: sort_in_def part_inv_def)
  obtain m' where m': "Partition_loop mid (hd_or us None) None None m
      = Some (hd_or (filter (\<lambda>p. p \<le> mid) us) None, hd_or (rev (filter (\<lambda>p. mid < p) us)) None, m')"
    "part_inv mid (filter (\<lambda>p. p \<le> mid) us) [] (rev (filter (\<lambda>p. mid < p) us)) m'" "relinked (set (mid # us)) m m'"
    using Partition_loop_inv [OF i(1)] by auto
  have t: "linked (pv m') (rev (tl xs)) (hd_or xs None)" if "linked (pv m') (rev xs) e" for xs e
    using that by (cases xs) auto
  then show ?thesis
    using m' i by (auto simp: Partition_def part_inv_def sort_in_def)
qed

lemma sorted_mid:
  "sorted (ls :: u64 list) \<Longrightarrow> sorted gs \<Longrightarrow> (\<And>x. x \<in> set ls \<Longrightarrow> x \<le> mid) \<Longrightarrow> (\<And>x. x \<in> set gs \<Longrightarrow> mid < x)
    \<Longrightarrow> sorted (ls @ mid # gs)"
  by (auto simp: sorted_append less_imp_le) (meson less_imp_le order_trans)

text \<open>Joining the two sorted halves around the pivot.\<close>

definition join_sorted :: "u64 \<Rightarrow> u64 option \<Rightarrow> u64 option \<Rightarrow> u64 option \<Rightarrow> u64 option \<Rightarrow> cstore \<Rightarrow> (u64 option \<times> u64 option \<times> cstore) option" where
  "join_sorted mid lte lte_end gt gt_end m =
     Option.bind
       (case gt of
          None \<Rightarrow> Option.bind (cb_upd mid (\<lambda>b. b\<lparr>cb_next := None, cb_prev := None\<rparr>) m) (\<lambda>m. Some (Some mid, m))
        | Some g \<Rightarrow> Option.bind (cb_upd mid (\<lambda>b. b\<lparr>cb_next := gt, cb_prev := None\<rparr>) m) (\<lambda>m.
                    Option.bind (cb_upd g (\<lambda>b. b\<lparr>cb_prev := Some mid\<rparr>) m) (\<lambda>m. Some (gt_end, m)))) (\<lambda>(end, m).
     case lte of
       None \<Rightarrow> Some (Some mid, end, m)
     | Some f \<Rightarrow>
         Option.bind lte_end (\<lambda>le.
         Option.bind (cb_upd le (\<lambda>b. b\<lparr>cb_next := Some mid\<rparr>) m) (\<lambda>m.
         Option.bind (cb_upd mid (\<lambda>b. b\<lparr>cb_prev := Some le\<rparr>) m) (\<lambda>m. Some (lte, end, m)))))"

lemma QuicksortInner_Some:
  "mid \<in> dom m \<Longrightarrow> QuicksortInner (Some mid) m =
     (if nx m mid = None then Some (Some mid, Some mid, m)
      else Option.bind (Partition mid m) (\<lambda>(lte, gt, m).
           Option.bind (QuicksortInner lte m) (\<lambda>(lte, lte_end, m).
           Option.bind (QuicksortInner gt m) (\<lambda>(gt, gt_end, m). join_sorted mid lte lte_end gt gt_end m))))"
  by (subst QuicksortInner.simps) (simp add: join_sorted_def [abs_def])

lemma join_sorted_inv:
  assumes "sort_out ls m" "sort_out gs m" "distinct (ls @ mid # gs)" "mid \<in> dom m"
  shows "\<exists>m'. join_sorted mid (hd_or ls None) (hd_or (rev ls) None) (hd_or gs None) (hd_or (rev gs) None) m
      = Some (hd_or (ls @ mid # gs) None, hd_or (rev (ls @ mid # gs)) None, m')
    \<and> sort_out (ls @ mid # gs) m' \<and> relinked (set (ls @ mid # gs)) m m'"
proof (cases ls rule: rev_cases)
  case Nil
  then show ?thesis
    using assms by (cases gs) (auto simp: join_sorted_def sort_out_def relinked_def)
next
  case (snoc zs z)
  then show ?thesis
    using assms by (cases zs; cases gs) (auto simp: join_sorted_def sort_out_def relinked_def)
qed

lemma sort_in_frame:
  assumes "relinked S m m'" and "set bs \<inter> S = {}" and "sort_in bs m"
  shows "sort_in bs m'"
proof -
  have "set (rev (tl bs)) \<inter> S = {}" using assms(2) by (cases bs) auto
  then show ?thesis
    using assms(3) relinked_linked [OF assms(1)] assms(2) relinked_dom [OF assms(1)] unfolding sort_in_def by simp
qed

lemma sort_out_frame:
  assumes "relinked S m m'" and "set bs \<inter> S = {}" and "sort_out bs m"
  shows "sort_out bs m'"
proof -
  have "set (rev (tl bs)) \<inter> S = {}" using assms(2) by (cases bs) auto
  then show ?thesis
    using assms(3) relinked_linked [OF assms(1)] assms(2) relinked_dom [OF assms(1)] unfolding sort_out_def by simp
qed

lemma QuicksortInner_inv:
  assumes "sort_in bs m"
  shows "\<exists>bs' m'. QuicksortInner (hd_or bs None) m = Some (hd_or bs' None, hd_or (rev bs') None, m')
    \<and> sorted bs' \<and> distinct bs' \<and> set bs' = set bs \<and> sort_out bs' m' \<and> relinked (set bs) m m'"
  using assms
proof (induction "length bs" arbitrary: bs m rule: less_induct)
  case less
  show ?case
  proof (cases bs)
    case Nil
    then show ?thesis by (subst QuicksortInner.simps) (auto simp: sort_out_def)
  next
    case (Cons mid us)
    note i = less.prems [unfolded Cons]
    have mid: "mid \<in> dom m" "nx m mid = hd_or us None" using i by (auto simp: sort_in_def)
    show ?thesis
    proof (cases "us = []")
      case True
      then show ?thesis using i mid Cons by (intro exI [of _ "[mid]"]) (auto simp: QuicksortInner_Some sort_in_def sort_out_def)
    next
      case False
      define ks gs where kg: "ks = filter (\<lambda>p. p \<le> mid) us" "gs = rev (filter (\<lambda>p. mid < p) us)"
      obtain m1 where m1: "Partition mid m = Some (hd_or ks None, hd_or gs None, m1)"
        "sort_in ks m1" "sort_in gs m1" "relinked (set bs) m m1"
        using Partition_inv [OF i] Cons unfolding kg by blast
      have len: "length ks < length bs" "length gs < length bs" unfolding Cons kg by (simp_all add: le_imp_less_Suc)
      obtain ks' m2 where m2: "QuicksortInner (hd_or ks None) m1 = Some (hd_or ks' None, hd_or (rev ks') None, m2)"
        "sorted ks'" "distinct ks'" "set ks' = set ks" "sort_out ks' m2" "relinked (set ks) m1 m2"
        using less.hyps [OF len(1) m1(2)] by blast
      have dj: "set ks \<inter> set gs = {}" "set (mid # ks @ gs) = set bs" "mid \<notin> set ks" "mid \<notin> set gs"
        using i unfolding Cons kg by (auto simp: sort_in_def not_le)
      have g2: "sort_in gs m2" using sort_in_frame [OF m2(6) _ m1(3)] dj(1) by auto
      obtain gs' m3 where m3: "QuicksortInner (hd_or gs None) m2 = Some (hd_or gs' None, hd_or (rev gs') None, m3)"
        "sorted gs'" "distinct gs'" "set gs' = set gs" "sort_out gs' m3" "relinked (set gs) m2 m3"
        using less.hyps [OF len(2) g2] by blast
      have k3: "sort_out ks' m3" using sort_out_frame [OF m3(6) _ m2(5)] m2(4) dj(1) by auto
      have d: "distinct (ks' @ mid # gs')" using m2(3,4) m3(3,4) dj by auto
      have "mid \<in> dom m3" using mid relinked_dom [OF m1(4)] relinked_dom [OF m2(6)] relinked_dom [OF m3(6)] by simp
      from join_sorted_inv [OF k3 m3(5) d this] obtain m4 where
        m4: "join_sorted mid (hd_or ks' None) (hd_or (rev ks') None) (hd_or gs' None) (hd_or (rev gs') None) m3
            = Some (hd_or (ks' @ mid # gs') None, hd_or (rev (ks' @ mid # gs')) None, m4)"
        "sort_out (ks' @ mid # gs') m4" "relinked (set (ks' @ mid # gs')) m3 m4" by blast
      have S: "set ks \<subseteq> set bs" "set gs \<subseteq> set bs" "set (ks' @ mid # gs') = set bs" using dj m2(4) m3(4) by auto
      have r: "relinked (set bs) m m4"
        using m1(4) relinked_mono [OF m2(6) S(1)] relinked_mono [OF m3(6) S(2)] m4(3) unfolding S(3) by (meson relinked_trans)
      have s: "sorted (ks' @ mid # gs')" using m2(2,4) m3(2,4) by (intro sorted_mid) (auto simp: kg)
      have "QuicksortInner (hd_or bs None) m = Some (hd_or (ks' @ mid # gs') None, hd_or (rev (ks' @ mid # gs')) None, m4)"
        using m1(1) m2(1) m3(1) m4(1) mid False Cons by (simp add: QuicksortInner_Some)
      with s d S(3) m4(2) r show ?thesis by blast
    qed
  qed
qed

end
