(* ===== verification/TableAllocInv.thy ===== *)
theory TableAllocInv
  imports TableAllocSort
begin

text \<open>
  The invariant of the page table allocator and what its operations do to the free memory. The
  abstract state is the set of free bytes, each with the slide of its memory; \<open>pta_inv\<close> says that
  the control blocks are a doubly linked list of disjoint, block-aligned areas.
\<close>

section \<open>The invariant\<close>

definition list_at :: "cstore \<Rightarrow> u64 list \<Rightarrow> bool" where
  "list_at m bs \<longleftrightarrow> distinct bs \<and> set bs \<subseteq> dom m \<and> linked (nx m) bs None \<and> linked (pv m) (rev bs) None"

definition bytes :: "u64 \<Rightarrow> nat \<Rightarrow> u64 \<Rightarrow> (nat \<times> u64) set" where
  "bytes a n s = {unat a ..< unat a + n} \<times> {s}"

definition area :: "cstore \<Rightarrow> u64 \<Rightarrow> nat set" where
  "area m b = {unat b ..< unat b + unat (bsize m b)}"

definition free_bytes :: "cstore \<Rightarrow> u64 list \<Rightarrow> (nat \<times> u64) set" where
  "free_bytes m bs = (\<Union>b \<in> set bs. bytes b (unat (bsize m b)) (bslide m b))"

definition areas_ok :: "size_t \<Rightarrow> cstore \<Rightarrow> u64 list \<Rightarrow> bool" where
  "areas_ok bz m bs \<longleftrightarrow> 0 < unat bz
     \<and> (\<forall>b \<in> set bs. b \<noteq> 0 \<and> 0 < unat (bsize m b) \<and> unat bz dvd unat (bsize m b) \<and> unat bz dvd unat b
          \<and> unat b + unat (bsize m b) < 2 ^ 64)
     \<and> (\<forall>b \<in> set bs. \<forall>c \<in> set bs. b \<noteq> c \<longrightarrow> area m b \<inter> area m c = {})"

definition pta_inv :: "PageTableAllocator \<Rightarrow> u64 list \<Rightarrow> bool" where
  "pta_inv A bs \<longleftrightarrow>
     mHead A = hd_or bs None \<and> list_at (cblocks A) bs \<and> areas_ok (mBlockSize A) (cblocks A) bs"

definition pta_ok :: "PageTableAllocator \<Rightarrow> bool" where
  "pta_ok A \<longleftrightarrow> (\<exists>bs. pta_inv A bs)"

text \<open>The free bytes, following the list from its head.\<close>

definition free_mem :: "PageTableAllocator \<Rightarrow> (nat \<times> u64) set" where
  "free_mem A = (\<Union>bs \<in> {bs. pta_inv A bs}. free_bytes (cblocks A) bs)"

lemma linked_unique:
  "linked f xs None \<Longrightarrow> linked f ys None \<Longrightarrow> hd_or xs None = hd_or ys None \<Longrightarrow> xs = ys"
proof (induction xs arbitrary: ys)
  case (Cons x xs)
  then show ?case by (cases ys) auto
qed (metis hd_or_None_iff hd_or_simps(1))

lemma pta_inv_unique: "pta_inv A bs \<Longrightarrow> pta_inv A cs \<Longrightarrow> bs = cs"
  using linked_unique [of "nx (cblocks A)" bs cs] by (simp add: pta_inv_def list_at_def)

lemma free_mem_eq: "pta_inv A bs \<Longrightarrow> free_mem A = free_bytes (cblocks A) bs"
  unfolding free_mem_def using pta_inv_unique by blast

section \<open>Carving the end of a block\<close>

lemma split_remove:
  assumes l: "list_at m (xs @ p # ys)" and sz: "sz < bsize m p" and new: "q = p + (bsize m p - sz)"
    and q: "q \<notin> set (xs @ p # ys)"
  shows "\<exists>m'. (do { (n, m1) \<leftarrow> SplitBlock p sz m; m2 \<leftarrow> RemoveBlock n m1; Some (n, m2) }) = Some (q, m')
    \<and> list_at m' (xs @ p # ys) \<and> q \<in> dom m' \<and> bslide m' q = bslide m p
    \<and> (\<forall>x \<in> set (xs @ p # ys). bslide m' x = bslide m x \<and> bsize m' x = (if x = p then bsize m p - sz else bsize m x))"
proof -
  note L = l [unfolded list_at_def]
  have p: "p \<in> dom m" "nx m p = hd_or ys None" "pv m p = hd_or (rev xs) None" using L by auto
  show ?thesis
  proof (cases ys)
    case Nil
    then show ?thesis
      using L p sz q unfolding list_at_def new [symmetric]
      by (auto simp: SplitBlock_def RemoveBlock_def new [symmetric])
  next
    case (Cons y zs)
    then show ?thesis
      using L p sz q unfolding list_at_def new [symmetric]
      by (auto simp: SplitBlock_def RemoveBlock_def new [symmetric])
  qed
qed

section \<open>Taking memory away\<close>

definition without :: "(nat \<times> u64) set \<Rightarrow> u64 \<Rightarrow> nat \<Rightarrow> (nat \<times> u64) set" where
  "without F a n = {x \<in> F. fst x \<notin> {unat a ..< unat a + n}}"

lemma areas_okD:
  assumes "areas_ok bz m bs"
  shows "0 < unat bz"
    and "b \<in> set bs \<Longrightarrow> b \<noteq> 0" and "b \<in> set bs \<Longrightarrow> 0 < unat (bsize m b)"
    and "b \<in> set bs \<Longrightarrow> unat bz dvd unat (bsize m b)" and "b \<in> set bs \<Longrightarrow> unat bz dvd unat b"
    and "b \<in> set bs \<Longrightarrow> unat b + unat (bsize m b) < 2 ^ 64"
    and "b \<in> set bs \<Longrightarrow> c \<in> set bs \<Longrightarrow> b \<noteq> c \<Longrightarrow> area m b \<inter> area m c = {}"
  using assms by (auto simp: areas_ok_def)

lemma free_bytes_mem: "(x, s) \<in> free_bytes m bs \<longleftrightarrow> (\<exists>b \<in> set bs. x \<in> area m b \<and> s = bslide m b)"
  by (auto simp: free_bytes_def bytes_def area_def)

text \<open>The block that holds a byte is the only one.\<close>

lemma carve_areas:
  assumes ok: "areas_ok bz m bs" and p: "p \<in> set bs" and sz: "0 < unat sz" "sz < bsize m p" "unat bz dvd unat sz"
  defines "q \<equiv> p + (bsize m p - sz)"
  shows "unat q = unat p + (unat (bsize m p) - unat sz)" and "q \<notin> set bs" and "q \<noteq> 0" and "unat bz dvd unat q"
proof -
  have lt: "unat sz < unat (bsize m p)" using sz(2) by (simp add: word_less_nat_alt)
  have d: "unat (bsize m p - sz) = unat (bsize m p) - unat sz" using lt by (intro unat_sub_le) simp
  have "unat p + unat (bsize m p - sz) < 2 ^ 64" using areas_okD(6) [OF ok p] d by simp
  then show uq: "unat q = unat p + (unat (bsize m p) - unat sz)" unfolding q_def using d by (subst unat_add_small) simp_all
  then show "q \<noteq> 0" using lt by (metis add_is_0 diff_is_0_eq leD unat_0)
  show "unat bz dvd unat q" unfolding uq using areas_okD(4,5) [OF ok p] sz(3) by simp
  show "q \<notin> set bs"
  proof
    assume q: "q \<in> set bs"
    have "unat q \<in> area m p" "unat q \<in> area m q" using uq lt sz(1) areas_okD(3) [OF ok q] by (auto simp: area_def)
    moreover have "q \<noteq> p" using uq lt by auto
    ultimately show False using areas_okD(7) [OF ok p q] by blast
  qed
qed

lemma areas_ok_shrink:
  assumes ok: "areas_ok bz m bs" and p: "p \<in> set bs" and sz: "0 < unat sz" "sz < bsize m p" "unat bz dvd unat sz"
    and m': "\<And>x. x \<in> set bs \<Longrightarrow> bslide m' x = bslide m x \<and> bsize m' x = (if x = p then bsize m p - sz else bsize m x)"
  shows "areas_ok bz m' bs" and "free_bytes m' bs = without (free_bytes m bs) (p + (bsize m p - sz)) (unat sz)"
    and "bytes (p + (bsize m p - sz)) (unat sz) (bslide m p) \<subseteq> free_bytes m bs"
proof -
  note q = carve_areas [OF ok p sz]
  have lt: "unat sz < unat (bsize m p)" using sz(2) by (simp add: word_less_nat_alt)
  then have d: "unat (bsize m p - sz) = unat (bsize m p) - unat sz" by (intro unat_sub_le) simp
  have sub: "area m' b \<subseteq> area m b" if "b \<in> set bs" for b using m' [OF that] d by (auto simp: area_def)
  show "areas_ok bz m' bs"
    unfolding areas_ok_def
  proof (intro conjI ballI impI)
    fix b c assume "b \<in> set bs" "c \<in> set bs" "b \<noteq> c"
    then show "area m' b \<inter> area m' c = {}" using areas_okD(7) [OF ok] sub by blast
  qed (use areas_okD [OF ok] m' d lt sz(3) in \<open>auto intro: less_imp_diff_less\<close>)
  have a: "area m' p = area m p - {unat p + (unat (bsize m p) - unat sz) ..< unat p + (unat (bsize m p) - unat sz) + unat sz}"
    using m' [OF p] d lt by (auto simp: area_def)
  have o: "x \<notin> {unat p + (unat (bsize m p) - unat sz) ..< unat p + (unat (bsize m p) - unat sz) + unat sz}"
    if "b \<in> set bs" "b \<noteq> p" "x \<in> area m b" for x b
    using areas_okD(7) [OF ok that(1) p that(2)] that(3) lt by (auto simp: area_def)
  have e: "area m' b = area m b" if "b \<in> set bs" "b \<noteq> p" for b using m' [OF that(1)] that(2) by (simp add: area_def)
  show "free_bytes m' bs = without (free_bytes m bs) (p + (bsize m p - sz)) (unat sz)"
  proof (rule set_eqI)
    fix xs :: "nat \<times> u64"
    obtain x s where xs: "xs = (x, s)" by (cases xs)
    show "xs \<in> free_bytes m' bs \<longleftrightarrow> xs \<in> without (free_bytes m bs) (p + (bsize m p - sz)) (unat sz)"
      unfolding xs without_def mem_Collect_eq free_bytes_mem q(1) fst_conv using m' a o e by (metis DiffD1 DiffD2 DiffI)
  qed
  show "bytes (p + (bsize m p - sz)) (unat sz) (bslide m p) \<subseteq> free_bytes m bs"
    unfolding bytes_def q(1) using lt p by (auto simp: free_bytes_mem area_def intro!: bexI [of _ p])
qed

lemma carve_first_inv:
  assumes inv: "pta_inv A (xs @ p # ys)" and sz: "0 < unat sz" "sz < bsize (cblocks A) p" "unat (mBlockSize A) dvd unat sz"
  shows "\<exists>q m'. (do { (n, m1) \<leftarrow> SplitBlock p sz (cblocks A); m2 \<leftarrow> RemoveBlock n m1; Some (n, m2) }) = Some (q, m')
    \<and> pta_inv (A\<lparr>cblocks := m'\<rparr>) (xs @ p # ys) \<and> q \<in> dom m' \<and> q \<noteq> 0 \<and> unat (mBlockSize A) dvd unat q
    \<and> bytes q (unat sz) (bslide m' q) \<subseteq> free_bytes (cblocks A) (xs @ p # ys)
    \<and> free_bytes m' (xs @ p # ys) = without (free_bytes (cblocks A) (xs @ p # ys)) q (unat sz)
    \<and> unat q + unat sz < 2 ^ 64"
proof -
  have l: "list_at (cblocks A) (xs @ p # ys)" and ok: "areas_ok (mBlockSize A) (cblocks A) (xs @ p # ys)"
    and h: "mHead A = hd_or (xs @ p # ys) None" using inv by (auto simp: pta_inv_def)
  have p: "p \<in> set (xs @ p # ys)" by simp
  define q where "q = p + (bsize (cblocks A) p - sz)"
  note Q = carve_areas [OF ok p sz, folded q_def]
  obtain m' where m': "(do { (n, m1) \<leftarrow> SplitBlock p sz (cblocks A); m2 \<leftarrow> RemoveBlock n m1; Some (n, m2) }) = Some (q, m')"
    "list_at m' (xs @ p # ys)" "q \<in> dom m'" "bslide m' q = bslide (cblocks A) p"
    "\<And>x. x \<in> set (xs @ p # ys) \<Longrightarrow> bslide m' x = bslide (cblocks A) x
       \<and> bsize m' x = (if x = p then bsize (cblocks A) p - sz else bsize (cblocks A) x)"
    using split_remove [OF l sz(2) q_def Q(2)] by blast
  note S = areas_ok_shrink [OF ok p sz m'(5), folded q_def]
  have "unat q + unat sz < 2 ^ 64"
    using Q(1) areas_okD(6) [OF ok p] sz(2) by (simp add: word_less_nat_alt)
  then show ?thesis using m' S Q h by (auto simp: pta_inv_def)
qed

lemma areas_ok_tail:
  assumes "areas_ok bz m (p # ys)" and "distinct (p # ys)"
    and "\<And>x. x \<in> set ys \<Longrightarrow> bsize m' x = bsize m x \<and> bslide m' x = bslide m x"
  shows "areas_ok bz m' ys" and "free_bytes m' ys = without (free_bytes m (p # ys)) p (unat (bsize m p))"
    and "bytes p (unat (bsize m p)) (bslide m p) \<subseteq> free_bytes m (p # ys)"
proof -
  have e: "area m' x = area m x" if "x \<in> set ys" for x using assms(3) [OF that] by (simp add: area_def)
  have o: "x \<notin> area m p" if "b \<in> set ys" "x \<in> area m b" for x b
    using areas_okD(7) [OF assms(1), of b p] that assms(2) by auto
  show "areas_ok bz m' ys" using assms e unfolding areas_ok_def by auto
  show "free_bytes m' ys = without (free_bytes m (p # ys)) p (unat (bsize m p))"
  proof (rule set_eqI)
    fix xs :: "nat \<times> u64"
    obtain x s where xs: "xs = (x, s)" by (cases xs)
    have ap: "area m p = {unat p ..< unat p + unat (bsize m p)}" by (simp add: area_def)
    show "xs \<in> free_bytes m' ys \<longleftrightarrow> xs \<in> without (free_bytes m (p # ys)) p (unat (bsize m p))"
      unfolding xs without_def mem_Collect_eq free_bytes_mem fst_conv ap [symmetric] using e o assms(3) by auto
  qed
  show "bytes p (unat (bsize m p)) (bslide m p) \<subseteq> free_bytes m (p # ys)" by (auto simp: free_bytes_def)
qed

text \<open>Taking the whole head block.\<close>

lemma setHead_inv:
  assumes "pta_inv A (p # ys)"
  shows "\<exists>A'. setHead (nx (cblocks A) p) A = Some A' \<and> pta_inv A' ys \<and> mBlockSize A' = mBlockSize A
    \<and> dom (cblocks A') = dom (cblocks A) \<and> bsize (cblocks A') = bsize (cblocks A) \<and> bslide (cblocks A') = bslide (cblocks A)
    \<and> nx (cblocks A') = nx (cblocks A) \<and> pv (cblocks A') p = None
    \<and> bytes p (unat (bsize (cblocks A) p)) (bslide (cblocks A) p) \<subseteq> free_bytes (cblocks A) (p # ys)
    \<and> free_bytes (cblocks A') ys = without (free_bytes (cblocks A) (p # ys)) p (unat (bsize (cblocks A) p))"
proof -
  have l: "list_at (cblocks A) (p # ys)" and ok: "areas_ok (mBlockSize A) (cblocks A) (p # ys)"
    using assms by (auto simp: pta_inv_def)
  note T = areas_ok_tail [OF ok]
  show ?thesis
    using l T [of "cblocks A"]
      T [of "(cblocks A)(hd ys \<mapsto> (cb (cblocks A) (hd ys))\<lparr>cb_prev := None\<rparr>)"]
    by (cases ys) (auto simp: setHead_def pta_inv_def list_at_def fun_upd_idem)
qed

section \<open>Single allocations\<close>

definition block_from :: "PageTableAllocator \<Rightarrow> nat \<Rightarrow> u64 \<Rightarrow> PageTableAllocator \<Rightarrow> bool" where
  "block_from A n p A' \<longleftrightarrow> p \<in> dom (cblocks A') \<and> p \<noteq> 0 \<and> unat (mBlockSize A) dvd unat p
     \<and> unat p + n < 2 ^ 64
     \<and> bytes p n (bslide (cblocks A') p) \<subseteq> free_mem A \<and> free_mem A' = without (free_mem A) p n"

lemma AllocateBlock_inv:
  assumes inv: "pta_inv A bs" and sz: "unat (mBlockSize A) dvd unat sz"
  shows "\<exists>r A' bs'. AllocateBlock sz A = Some (r, A') \<and> pta_inv A' bs' \<and> mBlockSize A' = mBlockSize A
    \<and> (case r of None \<Rightarrow> A' = A | Some p \<Rightarrow> block_from A (unat sz) p A')"
proof (cases "sz = 0 \<or> bs = []")
  case True
  then show ?thesis
    using inv by (intro exI [of _ None] exI [of _ A] exI [of _ bs]) (auto simp: AllocateBlock_def pta_inv_def)
next
  case False
  then obtain p ys where bs: "bs = p # ys" by (cases bs) auto
  have p: "mHead A = Some p" "p \<in> dom (cblocks A)" "pv (cblocks A) p = None"
    and ok: "areas_ok (mBlockSize A) (cblocks A) bs"
    using inv by (auto simp: pta_inv_def list_at_def bs)
  note P = areas_okD [OF ok] and F = free_mem_eq [OF inv]
  consider "bsize (cblocks A) p < sz" | "bsize (cblocks A) p = sz" | "sz < bsize (cblocks A) p" by fastforce
  then show ?thesis
  proof cases
    case 1
    then show ?thesis using p inv False by (auto simp: AllocateBlock_def)
  next
    case 2
    obtain A' where A': "setHead (nx (cblocks A) p) A = Some A'" "pta_inv A' ys" "mBlockSize A' = mBlockSize A"
      "dom (cblocks A') = dom (cblocks A)" "bslide (cblocks A') = bslide (cblocks A)"
      "bytes p (unat (bsize (cblocks A) p)) (bslide (cblocks A) p) \<subseteq> free_bytes (cblocks A) (p # ys)"
      "free_bytes (cblocks A') ys = without (free_bytes (cblocks A) (p # ys)) p (unat (bsize (cblocks A) p))"
      using setHead_inv [OF inv [unfolded bs]] by blast
    have "block_from A (unat sz) p A'"
      using A' 2 P(2,5,6) [of p] p F free_mem_eq [OF A'(2)] by (auto simp: block_from_def bs)
    then show ?thesis using A'(1-3) p 2 False by (auto simp: AllocateBlock_def)
  next
    case 3
    obtain q m' where q: "(do { (n, m1) \<leftarrow> SplitBlock p sz (cblocks A); m2 \<leftarrow> RemoveBlock n m1; Some (n, m2) }) = Some (q, m')"
      "pta_inv (A\<lparr>cblocks := m'\<rparr>) bs" "q \<in> dom m'" "q \<noteq> 0" "unat (mBlockSize A) dvd unat q"
      "bytes q (unat sz) (bslide m' q) \<subseteq> free_bytes (cblocks A) bs"
      "free_bytes m' bs = without (free_bytes (cblocks A) bs) q (unat sz)" "unat q + unat sz < 2 ^ 64"
      using carve_first_inv [of A "[]" p ys sz] inv sz 3 False by (auto simp: bs unat_gt_0)
    have "block_from A (unat sz) q (A\<lparr>cblocks := m'\<rparr>)"
      using q F free_mem_eq [OF q(2)] by (auto simp: block_from_def)
    then show ?thesis
      using q(1,2) p 3 False by (auto simp: AllocateBlock_def bind_Some_iff not_less less_imp_le dest: less_asym)
  qed
qed

section \<open>Defragmentation\<close>

lemma cb_head_list: "list_at m (xs @ p # ys) \<Longrightarrow> cb_head p m = Some (hd (xs @ [p]))"
proof (induction xs arbitrary: p ys rule: rev_induct)
  case Nil
  then show ?case by (subst cb_head.simps) (auto simp: list_at_def)
next
  case (snoc x xs)
  have "list_at m (xs @ x # p # ys)" using snoc.prems by simp
  moreover have "p \<in> dom m" "pv m p = Some x" using snoc.prems by (auto simp: list_at_def)
  ultimately show ?case using snoc.IH [of x "p # ys"] by (subst cb_head.simps) (cases xs; simp)
qed

lemma sort_out_list_at:
  assumes "sort_out bs m" and "distinct bs" and "bs \<noteq> []" and "relinked (set bs) m0 m"
  shows "\<exists>m'. cb_upd_opt (hd_or bs None) (\<lambda>b. b\<lparr>cb_prev := None\<rparr>) m = Some m'
    \<and> (\<exists>m''. cb_upd_opt (hd_or (rev bs) None) (\<lambda>b. b\<lparr>cb_next := None\<rparr>) m' = Some m'' \<and> list_at m'' bs
        \<and> relinked (set bs) m0 m'')"
proof -
  obtain b xs where bs: "bs = b # xs" using assms(3) by (cases bs) auto
  show ?thesis
  proof (cases xs rule: rev_cases)
    case Nil
    then show ?thesis using assms bs by (auto simp: sort_out_def list_at_def relinked_def)
  next
    case (snoc zs z)
    then show ?thesis using assms bs by (auto simp: sort_out_def list_at_def relinked_def)
  qed
qed

lemma Quicksort_inv:
  assumes "sort_in (b # bs) m"
  shows "\<exists>bs' m'. Quicksort b m = Some (hd_or bs' None, m') \<and> sorted bs' \<and> set bs' = set (b # bs)
    \<and> list_at m' bs' \<and> relinked (set (b # bs)) m m'"
proof -
  obtain bs' m' where q: "QuicksortInner (Some b) m = Some (hd_or bs' None, hd_or (rev bs') None, m')"
    "sorted bs'" "distinct bs'" "set bs' = set (b # bs)" "sort_out bs' m'" "relinked (set (b # bs)) m m'"
    using QuicksortInner_inv [OF assms] by auto
  have ne: "bs' \<noteq> []" using q(4) by auto
  show ?thesis
    using q(1,2,4) sort_out_list_at [OF q(5,3) ne q(6) [folded q(4)]] by (auto simp: Quicksort_def)
qed

lemma relinked_areas:
  assumes "relinked S m m'" and "set bs' = set bs"
  shows "areas_ok bz m' bs' = areas_ok bz m bs" and "free_bytes m' bs' = free_bytes m bs"
  using assms by (simp_all add: relinked_def areas_ok_def area_def free_bytes_def)

text \<open>Merging a block with its neighbour.\<close>

lemma merge_step:
  assumes l: "list_at m (xs @ p # q # zs)" and ok: "areas_ok bz m (xs @ p # q # zs)"
    and adj: "p + bsize m p = q" "bslide m q = bslide m p"
  shows "\<exists>m'. Option.bind (cb_upd p (\<lambda>b. b\<lparr>cb_size := cb_size b + bsize m q, cb_next := nx m q\<rparr>) m)
        (cb_upd_opt (nx m q) (\<lambda>x. x\<lparr>cb_prev := Some p\<rparr>)) = Some m'
    \<and> list_at m' (xs @ p # zs) \<and> areas_ok bz m' (xs @ p # zs)
    \<and> free_bytes m' (xs @ p # zs) = free_bytes m (xs @ p # q # zs)
    \<and> (\<forall>x \<in> set (xs @ zs). bsize m' x = bsize m x \<and> bslide m' x = bslide m x) \<and> bslide m' p = bslide m p"
proof -
  note L = l [unfolded list_at_def]
  note P = areas_okD [OF ok]
  have nq: "nx m q = hd_or zs None" and pq: "p \<in> dom m" "q \<in> dom m" "p \<noteq> q" using L by auto
  have uq: "unat q = unat p + unat (bsize m p)" unfolding adj(1) [symmetric] using P(6) [of p] by (intro unat_add_small) simp
  have us: "unat (bsize m p + bsize m q) = unat (bsize m p) + unat (bsize m q)" using P(6) [of q] uq by (intro unat_add_small) simp
  have "\<exists>m'. Option.bind (cb_upd p (\<lambda>b. b\<lparr>cb_size := cb_size b + bsize m q, cb_next := nx m q\<rparr>) m)
      (cb_upd_opt (nx m q) (\<lambda>x. x\<lparr>cb_prev := Some p\<rparr>)) = Some m'
    \<and> list_at m' (xs @ p # zs) \<and> (\<forall>x. bsize m' x = (if x = p then bsize m p + bsize m q else bsize m x))
    \<and> (\<forall>x. bslide m' x = bslide m x)"
    using L pq nq by (cases zs) (auto simp: list_at_def)
  then obtain m' where m': "Option.bind (cb_upd p (\<lambda>b. b\<lparr>cb_size := cb_size b + bsize m q, cb_next := nx m q\<rparr>) m)
      (cb_upd_opt (nx m q) (\<lambda>x. x\<lparr>cb_prev := Some p\<rparr>)) = Some m'"
    "list_at m' (xs @ p # zs)" "\<And>x. bsize m' x = (if x = p then bsize m p + bsize m q else bsize m x)"
    "\<And>x. bslide m' x = bslide m x" by blast
  have ap: "area m' p = area m p \<union> area m q" using uq us by (auto simp: m'(3) area_def)
  have ax: "area m' x = area m x" if "x \<in> set (xs @ zs)" for x using that L by (auto simp: m'(3) area_def)
  have "areas_ok bz m' (xs @ p # zs)"
    unfolding areas_ok_def
  proof (intro conjI ballI impI)
    fix b c assume b: "b \<in> set (xs @ p # zs)" and c: "c \<in> set (xs @ p # zs)" and bc: "b \<noteq> c"
    have dj: "area m x \<inter> area m y = {}" if "x \<in> set (xs @ p # q # zs)" "y \<in> set (xs @ p # q # zs)" "x \<noteq> y" for x y
      using areas_okD(7) [OF ok that] .
    have nq': "x \<noteq> q" if "x \<in> set (xs @ zs)" for x using that L by auto
    consider "b = p" "c \<in> set (xs @ zs)" | "c = p" "b \<in> set (xs @ zs)" | "b \<in> set (xs @ zs)" "c \<in> set (xs @ zs)"
      using b c bc by auto
    then show "area m' b \<inter> area m' c = {}"
      using dj [of p b] dj [of p c] dj [of q b] dj [of q c] dj [of b c] bc nq' ap ax by cases auto
  qed (use P P(6) [of q] uq us L in \<open>auto simp: m'(3)\<close>)
  moreover have "free_bytes m' (xs @ p # zs) = free_bytes m (xs @ p # q # zs)"
    using ap ax m'(4) adj(2) by (auto simp: free_bytes_mem intro!: set_eqI)
  ultimately show ?thesis using m' L by auto
qed

fun coalesced :: "cstore \<Rightarrow> u64 list \<Rightarrow> bool" where
  "coalesced m (p # q # bs) \<longleftrightarrow> \<not> (p + bsize m p = q \<and> bslide m q = bslide m p) \<and> coalesced m (q # bs)"
| "coalesced m _ \<longleftrightarrow> True"

lemma coalesced_snoc: "coalesced m (xs @ [p, q]) \<longleftrightarrow> coalesced m (xs @ [p]) \<and> \<not> (p + bsize m p = q \<and> bslide m q = bslide m p)"
  by (induction m xs rule: coalesced.induct) auto

lemma coalesced_cong:
  "(\<And>x. x \<in> set (butlast xs) \<Longrightarrow> bsize m' x = bsize m x) \<Longrightarrow> (\<And>x. x \<in> set xs \<Longrightarrow> bslide m' x = bslide m x)
    \<Longrightarrow> coalesced m' xs = coalesced m xs"
  by (induction m xs rule: coalesced.induct) auto

lemma mergeAdjacentBlocks_Some:
  "p \<in> dom m \<Longrightarrow> mergeAdjacentBlocks (Some p) m =
     (case nx m p of None \<Rightarrow> Some m
      | Some q \<Rightarrow> Option.bind (m q) (\<lambda>n.
          if p + bsize m p = q \<and> cb_slide n = bslide m p then
            Option.bind (Option.bind (cb_upd p (\<lambda>b. b\<lparr>cb_size := cb_size b + cb_size n, cb_next := cb_next n\<rparr>) m)
              (cb_upd_opt (cb_next n) (\<lambda>x. x\<lparr>cb_prev := Some p\<rparr>))) (mergeAdjacentBlocks (Some p))
          else mergeAdjacentBlocks (Some q) m))"
  by (subst mergeAdjacentBlocks.simps) (auto split: option.splits cong: if_cong)

lemma merge_loop_inv:
  assumes "list_at m (xs @ p # ys)" and "areas_ok bz m (xs @ p # ys)" and "sorted (xs @ p # ys)"
    and "coalesced m (xs @ [p])"
  shows "\<exists>m' bs. mergeAdjacentBlocks (Some p) m = Some m' \<and> list_at m' bs \<and> areas_ok bz m' bs
    \<and> free_bytes m' bs = free_bytes m (xs @ p # ys) \<and> hd_or bs None = hd_or (xs @ [p]) None
    \<and> sorted bs \<and> coalesced m' bs"
  using assms
proof (induction "length ys" arbitrary: xs p ys m rule: less_induct)
  case less
  have p: "p \<in> dom m" "nx m p = hd_or ys None" using less.prems(1) by (auto simp: list_at_def)
  show ?case
  proof (cases ys)
    case Nil
    then show ?thesis using less.prems p by (auto simp: mergeAdjacentBlocks_Some)
  next
    case (Cons q zs)
    have q: "q \<in> dom m" "q \<notin> set xs" "p \<notin> set xs" using less.prems(1) by (auto simp: list_at_def Cons)
    show ?thesis
    proof (cases "p + bsize m p = q \<and> bslide m q = bslide m p")
      case True
      then obtain m1 where m1: "Option.bind (cb_upd p (\<lambda>b. b\<lparr>cb_size := cb_size b + bsize m q, cb_next := nx m q\<rparr>) m)
          (cb_upd_opt (nx m q) (\<lambda>x. x\<lparr>cb_prev := Some p\<rparr>)) = Some m1"
        "list_at m1 (xs @ p # zs)" "areas_ok bz m1 (xs @ p # zs)"
        "free_bytes m1 (xs @ p # zs) = free_bytes m (xs @ p # q # zs)"
        "\<And>x. x \<in> set (xs @ zs) \<Longrightarrow> bsize m1 x = bsize m x \<and> bslide m1 x = bslide m x" "bslide m1 p = bslide m p"
        using merge_step [of m xs p q zs bz] less.prems(1,2) by (auto simp: Cons)
      have s: "sorted (xs @ p # zs)" using less.prems(3) by (auto simp: Cons sorted_append)
      have "coalesced m1 (xs @ [p]) = coalesced m (xs @ [p])" by (rule coalesced_cong) (use m1(5,6) in auto)
      then show ?thesis
        using less.hyps [of zs m1 xs p, OF _ m1(2,3) s] less.prems(4) m1(1,4) p q True
        by (auto simp: Cons mergeAdjacentBlocks_Some)
    next
      case False
      have l: "list_at m ((xs @ [p]) @ q # zs)" "areas_ok bz m ((xs @ [p]) @ q # zs)" "sorted ((xs @ [p]) @ q # zs)"
        using less.prems(1-3) by (simp_all add: Cons)
      have c: "coalesced m ((xs @ [p]) @ [q])" using less.prems(4) False by (simp add: coalesced_snoc)
      show ?thesis
        using less.hyps [of zs m "xs @ [p]" q, OF _ l c] p q False by (auto simp: Cons mergeAdjacentBlocks_Some)
    qed
  qed
qed

lemma list_at_sort_in: "list_at m bs \<Longrightarrow> sort_in bs m"
  by (cases bs) (auto simp: list_at_def sort_in_def)

lemma defragment_inv:
  assumes "pta_inv A bs"
  shows "\<exists>A' bs'. defragment A = Some A' \<and> pta_inv A' bs' \<and> mBlockSize A' = mBlockSize A \<and> free_mem A' = free_mem A
    \<and> sorted bs' \<and> coalesced (cblocks A') bs'"
proof (cases "length bs \<le> 1")
  case True
  then have "bs = [] \<or> (\<exists>b. bs = [b])" by (cases bs) auto
  moreover from this have "sorted bs \<and> coalesced (cblocks A) bs" by auto
  ultimately show ?thesis
    using assms by (intro exI [of _ A] exI [of _ bs]) (auto simp: defragment_def pta_inv_def list_at_def)
next
  case False
  then obtain b c cs where bs: "bs = b # c # cs" by (cases bs; cases "tl bs") auto
  have l: "list_at (cblocks A) bs" and ok: "areas_ok (mBlockSize A) (cblocks A) bs" and h: "mHead A = Some b"
    using assms by (auto simp: pta_inv_def bs)
  obtain bs1 m1 where q: "Quicksort b (cblocks A) = Some (hd_or bs1 None, m1)" "sorted bs1" "set bs1 = set bs"
    "list_at m1 bs1" "relinked (set bs) (cblocks A) m1"
    using Quicksort_inv [OF list_at_sort_in [OF l [unfolded bs]]] unfolding bs by blast
  obtain xs ys where b1: "bs1 = xs @ b # ys" using q(3) bs by (metis list.set_intros(1) split_list)
  obtain p ps where p: "bs1 = p # ps" using q(3) bs by (cases bs1) auto
  have hb: "cb_head b m1 = Some p" using cb_head_list [OF q(4) [unfolded b1]] p b1 by (cases xs) auto
  have b0: "cb_head b (cblocks A) = Some b" using cb_head_list [of "cblocks A" "[]" b "c # cs"] l by (simp add: bs)
  have ok1: "areas_ok (mBlockSize A) m1 bs1" and f1: "free_bytes m1 bs1 = free_bytes (cblocks A) bs"
    using relinked_areas [OF q(5,3)] ok by simp_all
  obtain m' bs' where m': "mergeAdjacentBlocks (Some p) m1 = Some m'" "list_at m' bs'" "areas_ok (mBlockSize A) m' bs'"
    "free_bytes m' bs' = free_bytes m1 bs1" "hd_or bs' None = Some p" "sorted bs'" "coalesced m' bs'"
    using merge_loop_inv [of m1 "[]" p ps "mBlockSize A"] q(2,4) ok1 by (auto simp: p)
  have inv': "pta_inv (A\<lparr>mHead := Some p, cblocks := m'\<rparr>) bs'" using m' by (simp add: pta_inv_def)
  have "defragment A = Some (A\<lparr>mHead := Some p, cblocks := m'\<rparr>)"
    using l h q(1) hb b0 m'(1) by (auto simp: defragment_def sortBlocks_def list_at_def bs)
  then show ?thesis
    using inv' m'(4,6,7) f1 free_mem_eq [OF assms] free_mem_eq [OF inv'] by auto
qed

end
