(* ===== verification/TableAllocList.thy ===== *)
theory TableAllocList
  imports TableAllocInv "HOL-Library.Multiset"
begin

text \<open>
  The public operations of the page table allocator over its set of free bytes: single
  allocations, lists of pages, deallocation, and the properties of the allocator.
\<close>

section \<open>Single allocations and deallocation\<close>

lemma block_from_free:
  assumes "block_from A n p A'" and "free_mem A0 = free_mem A" and "mBlockSize A0 = mBlockSize A"
  shows "block_from A0 n p A'"
  using assms by (simp add: block_from_def)

lemma pta_allocate_inv:
  assumes inv: "pta_inv A bs" and n: "unat blocks * unat (mBlockSize A) < 2 ^ 64"
  shows "\<exists>r A' bs'. pta_allocate blocks A = Some (r, A') \<and> pta_inv A' bs' \<and> mBlockSize A' = mBlockSize A
    \<and> (if isPresent r then block_from A (unat blocks * unat (mBlockSize A)) (mBlock r) A'
         \<and> mSlide r = bslide (cblocks A') (mBlock r)
       else free_mem A' = free_mem A)"
proof -
  define sz where "sz = blocks * mBlockSize A"
  have u: "unat sz = unat blocks * unat (mBlockSize A)" unfolding sz_def using n by (intro unat_mult_small) simp
  have d: "unat (mBlockSize A) dvd unat sz" unfolding u by simp
  obtain r A1 bs1 where 1: "AllocateBlock sz A = Some (r, A1)" "pta_inv A1 bs1" "mBlockSize A1 = mBlockSize A"
    "case r of None \<Rightarrow> A1 = A | Some p \<Rightarrow> block_from A (unat sz) p A1" using AllocateBlock_inv [OF inv d] by blast
  show ?thesis
  proof (cases r)
    case (Some p)
    then have b: "block_from A (unat sz) p A1" using 1(4) by simp
    then have "p \<in> dom (cblocks A1)" "p \<noteq> 0" by (simp_all add: block_from_def)
    then show ?thesis using 1 Some b by (auto simp: pta_allocate_def sz_def [symmetric] isPresent_def u)
  next
    case None
    then have A1: "A1 = A" using 1(4) by simp
    obtain A2 bs2 where 2: "defragment A = Some A2" "pta_inv A2 bs2" "mBlockSize A2 = mBlockSize A" "free_mem A2 = free_mem A"
      using defragment_inv [OF inv] by blast
    have d2: "unat (mBlockSize A2) dvd unat sz" using d 2(3) by simp
    obtain r3 A3 bs3 where 3: "AllocateBlock sz A2 = Some (r3, A3)" "pta_inv A3 bs3" "mBlockSize A3 = mBlockSize A2"
      "case r3 of None \<Rightarrow> A3 = A2 | Some p \<Rightarrow> block_from A2 (unat sz) p A3" using AllocateBlock_inv [OF 2(2) d2] by blast
    show ?thesis
    proof (cases r3)
      case (Some p)
      then have b: "block_from A (unat sz) p A3" using 3(4) 2(3,4) block_from_free by fastforce
      then have "p \<in> dom (cblocks A3)" "p \<noteq> 0" by (simp_all add: block_from_def)
      then show ?thesis using 1(1) 2 3 None Some A1 b by (auto simp: pta_allocate_def sz_def [symmetric] isPresent_def u)
    next
      case r3: None
      then show ?thesis
        using 1(1) 2 3 None A1 by (auto simp: pta_allocate_def sz_def [symmetric] isPresent_def no_allocation_def)
    qed
  qed
qed

text \<open>Memory that is given back must be aligned and free of free memory.\<close>

lemma pta_deallocate_inv:
  assumes inv: "pta_inv A bs" and p: "p \<noteq> 0" "unat (mBlockSize A) dvd unat p" "0 < unat blocks"
    "unat p + unat blocks * unat (mBlockSize A) < 2 ^ 64"
    and fresh: "fst ` free_mem A \<inter> {unat p ..< unat p + unat blocks * unat (mBlockSize A)} = {}"
  shows "\<exists>A'. pta_deallocate p blocks s A = Some A' \<and> pta_inv A' (p # bs) \<and> mBlockSize A' = mBlockSize A
    \<and> free_mem A' = free_mem A \<union> bytes p (unat blocks * unat (mBlockSize A)) s"
proof -
  define sz where "sz = blocks * mBlockSize A"
  have u: "unat sz = unat blocks * unat (mBlockSize A)" unfolding sz_def using p(4) by (intro unat_mult_small) simp
  have l: "list_at (cblocks A) bs" and ok: "areas_ok (mBlockSize A) (cblocks A) bs" and h: "mHead A = hd_or bs None"
    using inv by (auto simp: pta_inv_def)
  note P = areas_okD [OF ok]
  have fm: "fst ` free_mem A = (\<Union>b \<in> set bs. area (cblocks A) b)"
    unfolding free_mem_eq [OF inv] by (simp add: free_bytes_def bytes_def area_def image_UN)
  have pa: "area (cblocks A) b \<inter> {unat p ..< unat p + unat sz} = {}" if "b \<in> set bs" for b
    using fresh that unfolding fm u by blast
  have "0 < unat sz" using p(3) P(1) u by simp
  then have np: "p \<notin> set bs" using pa [of p] P(3) [of p] by (auto simp: area_def)
  define m1 where "m1 = (cblocks A)(p \<mapsto> \<lparr>cb_next = hd_or bs None, cb_prev = None, cb_size = sz, cb_slide = s\<rparr>)"
  have "\<exists>m2. cb_upd_opt (hd_or bs None) (\<lambda>b. b\<lparr>cb_prev := Some p\<rparr>) m1 = Some m2 \<and> list_at m2 (p # bs)
      \<and> (\<forall>x \<in> set bs. bsize m2 x = bsize (cblocks A) x \<and> bslide m2 x = bslide (cblocks A) x)
      \<and> bsize m2 p = sz \<and> bslide m2 p = s"
    using l np unfolding m1_def by (cases bs) (auto simp: list_at_def)
  then obtain m2 where m2: "cb_upd_opt (hd_or bs None) (\<lambda>b. b\<lparr>cb_prev := Some p\<rparr>) m1 = Some m2" "list_at m2 (p # bs)"
    "\<And>x. x \<in> set bs \<Longrightarrow> bsize m2 x = bsize (cblocks A) x \<and> bslide m2 x = bslide (cblocks A) x"
    "bsize m2 p = sz" "bslide m2 p = s" by blast
  have a: "area m2 x = area (cblocks A) x" if "x \<in> set bs" for x using m2(3) [OF that] by (simp add: area_def)
  have ap: "area m2 p = {unat p ..< unat p + unat sz}" by (simp add: area_def m2(4))
  have "areas_ok (mBlockSize A) m2 (p # bs)"
    unfolding areas_ok_def
  proof (intro conjI ballI impI)
    fix b c assume "b \<in> set (p # bs)" "c \<in> set (p # bs)" "b \<noteq> c"
    then show "area m2 b \<inter> area m2 c = {}"
      using a [of b] a [of c] ap pa [of b] pa [of c] P(7) [of b c] by (auto simp: disjoint_iff)
  qed (use P p u m2(3,4) \<open>0 < unat sz\<close> in auto)
  then have inv': "pta_inv (A\<lparr>mHead := Some p, cblocks := m2\<rparr>) (p # bs)" using m2(2) by (simp add: pta_inv_def)
  have "pta_deallocate p blocks s A = Some (A\<lparr>mHead := Some p, cblocks := m2\<rparr>)"
    using l h m2(1) by (cases bs) (auto simp: pta_deallocate_def m1_def sz_def list_at_def)
  moreover have "free_bytes m2 (p # bs) = free_bytes (cblocks A) bs \<union> bytes p (unat sz) s"
    using m2(3-5) by (auto simp: free_bytes_def)
  ultimately show ?thesis using inv' free_mem_eq [OF inv] free_mem_eq [OF inv'] u by auto
qed

lemma pta_create_inv:
  assumes "pta_create mapping bz = (OsStatusSuccess, Some A)" and "am_vaddr mapping \<noteq> 0"
    and "unat (am_vaddr mapping) + unat (am_size mapping) < 2 ^ 64"
  shows "pta_inv A [am_vaddr mapping]" and "mBlockSize A = bz"
    and "free_mem A = bytes (am_vaddr mapping) (unat (am_size mapping)) (am_slide mapping)"
proof -
  define v s where vs: "v = am_vaddr mapping" "s = am_size mapping"
  have A: "A = \<lparr>mBlockSize = bz, mHead = Some v, cblocks = [v \<mapsto>
      \<lparr>cb_next = None, cb_prev = None, cb_size = s, cb_slide = am_slide mapping\<rparr>]\<rparr>"
    and val: "isPageTableAllocatorInputValid (virtualRange mapping) bz"
    using assms(1) by (auto simp: pta_create_def vs split: if_splits)
  have b: "0 < unat bz" using val by (simp add: isPageTableAllocatorInputValid_def unat_gt_0 word_less_nat_alt)
  have al: "aligned \<lparr>rfront = v, rback = v + s\<rparr> bz = \<lparr>rfront = v, rback = v + s\<rparr>" and sz: "bz \<le> s"
    using val by (simp_all add: isPageTableAllocatorInputValid_def virtualRange_def vs range_size_def)
  have vs0: "unat (v + s) = unat v + unat s" using assms(3) unfolding vs by (intro unat_add_small) simp
  have s0: "0 < unat s" using b sz by (simp add: word_le_nat_alt)
  have "v + s \<noteq> v" using s0 vs0 by (metis add_cancel_left_right less_irrefl)
  then have r: "roundup v bz = v" "rounddown (v + s) bz = v + s"
    using al assms(2) by (auto simp: aligned_def Let_def empty_range_def vs split: if_splits)
  have "unat (roundup v bz) mod unat bz = 0" "unat (rounddown (v + s) bz) mod unat bz = 0"
    by (simp_all add: roundup_def rounddown_def unat_rounddown [unfolded rounddown_def])
  then have d: "unat bz dvd unat v" "unat bz dvd unat v + unat s" unfolding r vs0 by auto
  then have "unat bz dvd unat s" by (simp add: dvd_add_right_iff)
  then show i: "pta_inv A [am_vaddr mapping]"
    using assms(2,3) b s0 d(1) unfolding A vs [symmetric]
    by (auto simp: pta_inv_def list_at_def areas_ok_def)
  show "mBlockSize A = bz" by (simp add: A)
  show "free_mem A = bytes (am_vaddr mapping) (unat (am_size mapping)) (am_slide mapping)"
    unfolding free_mem_eq [OF i] by (simp add: A free_bytes_def vs)
qed

section \<open>Lists of pages\<close>

definition page_span :: "PageTableAllocation \<Rightarrow> nat set" where
  "page_span a = {unat (mBlock a) ..< unat (mBlock a) + 4096}"

definition pages_ok :: "PageTableList \<Rightarrow> bool" where
  "pages_ok l \<longleftrightarrow> distinct (map mBlock l)
     \<and> (\<forall>a \<in> set l. mBlock a \<noteq> 0 \<and> 4096 dvd unat (mBlock a) \<and> unat (mBlock a) + 4096 < 2 ^ 64)"

text \<open>The pages of the list were free, each with its slide, and nothing else was taken.\<close>

definition pages_from :: "PageTableAllocator \<Rightarrow> PageTableList \<Rightarrow> PageTableAllocator \<Rightarrow> bool" where
  "pages_from A l A' \<longleftrightarrow> pages_ok l \<and> (\<forall>a \<in> set l. page_span a \<times> {mSlide a} \<subseteq> free_mem A)
     \<and> free_mem A' = {x \<in> free_mem A. \<forall>a \<in> set l. fst x \<notin> page_span a}"

lemma pages_from_Nil [simp]: "pages_from A [] A' \<longleftrightarrow> free_mem A' = free_mem A"
  by (auto simp: pages_from_def pages_ok_def)

lemma pages_from_trans:
  assumes 1: "pages_from A l A1" and 2: "pages_from A1 k A2"
  shows "pages_from A (k @ l) A2"
proof -
  have k: "page_span a \<times> {mSlide a} \<subseteq> free_mem A1" if "a \<in> set k" for a using 2 that by (simp add: pages_from_def)
  have "page_span a \<inter> page_span b = {}" if "a \<in> set k" "b \<in> set l" for a b
    using k [OF that(1)] 1 that(2) by (auto simp: pages_from_def)
  then have "mBlock a \<noteq> mBlock b" if "a \<in> set k" "b \<in> set l" for a b using that by (fastforce simp: page_span_def)
  then have "pages_ok (k @ l)" using 1 2 by (auto simp: pages_from_def pages_ok_def image_iff)
  moreover have "free_mem A1 \<subseteq> free_mem A" using 1 by (auto simp: pages_from_def)
  ultimately have "\<forall>a \<in> set (k @ l). page_span a \<times> {mSlide a} \<subseteq> free_mem A"
    using k 1 unfolding pages_from_def set_append by blast
  with \<open>pages_ok (k @ l)\<close> show ?thesis using 1 2 unfolding pages_from_def by auto
qed

lemma list_push_many_rev: "list_push_many a n l = rev (list_of_table a n) @ l"
  by (induction n arbitrary: l) (simp_all add: list_push_many_def list_of_table_def list_push_def)

lemma pages_from_rev [simp]: "pages_from A (rev l) A' = pages_from A l A'"
  by (simp add: pages_from_def pages_ok_def rev_map [symmetric])

lemma length_list_of_table [simp]: "length (list_of_table a n) = n"
  by (simp add: list_of_table_def)

lemma span_pages: "{u ..< u + n * 4096} = (\<Union>i < n. {u + i * 4096 ..< u + i * 4096 + (4096 :: nat)})"
proof (rule set_eqI)
  fix x
  show "x \<in> {u ..< u + n * 4096} \<longleftrightarrow> x \<in> (\<Union>i < n. {u + i * 4096 ..< u + i * 4096 + 4096})"
  proof
    assume x: "x \<in> {u ..< u + n * 4096}"
    then have "(x - u) div 4096 < n" by (intro less_mult_imp_div_less) auto
    moreover have "u + (x - u) div 4096 * 4096 \<le> x" "x < u + (x - u) div 4096 * 4096 + 4096"
      using x div_mult_mod_eq [of "x - u" 4096] mod_less_divisor [of 4096 "x - u"] by auto
    ultimately show "x \<in> (\<Union>i < n. {u + i * 4096 ..< u + i * 4096 + 4096})" by auto
  qed auto
qed

lemma block_pages:
  assumes b: "block_from A (n * 4096) p A'" and bz: "mBlockSize A = kPageSize"
  shows "pages_from A (list_of_table \<lparr>mBlock = p, mSlide = bslide (cblocks A') p\<rparr> n) A'"
proof -
  define a where "a = \<lparr>mBlock = p, mSlide = bslide (cblocks A') p\<rparr>"
  have B: "p \<noteq> 0" "4096 dvd unat p" "unat p + n * 4096 < 2 ^ 64"
    "bytes p (n * 4096) (mSlide a) \<subseteq> free_mem A" "free_mem A' = without (free_mem A) p (n * 4096)"
    using b bz by (auto simp: block_from_def kPageSize_def a_def)
  have u: "unat (mBlock (pta_offset a i)) = unat p + i * 4096" if "i < n" for i
  proof -
    have i: "i * 4096 < 2 ^ 64" using that B(3) by simp
    then have "i < 2 ^ 64" by simp
    then have "unat (of_nat i :: u64) = i" by (intro unat_of_nat_small) simp
    then have "unat (of_nat i * kPageSize) = i * 4096" unfolding kPageSize_def using i by (subst unat_mult_small) simp_all
    moreover from this have "unat p + unat (of_nat i * kPageSize) < 2 ^ 64" using that B(3) by simp
    ultimately show ?thesis unfolding pta_offset_def a_def by (simp add: unat_add_small)
  qed
  have s: "(\<Union>c \<in> set (list_of_table a n). page_span c) = {unat p ..< unat p + n * 4096}"
    unfolding span_pages by (auto simp: list_of_table_def page_span_def u)
  have "inj_on (\<lambda>i. mBlock (pta_offset a i)) {0..<n}"
  proof (rule inj_onI)
    fix i j assume ij: "i \<in> {0..<n}" "j \<in> {0..<n}" and e: "mBlock (pta_offset a i) = mBlock (pta_offset a j)"
    have "unat p + i * 4096 = unat p + j * 4096" using u [of i] u [of j] ij unfolding e by simp
    then show "i = j" by simp
  qed
  then have d: "distinct (map mBlock (list_of_table a n))" by (simp add: list_of_table_def distinct_map o_def)
  have k: "mBlock c \<noteq> 0 \<and> 4096 dvd unat (mBlock c) \<and> unat (mBlock c) + 4096 < 2 ^ 64 \<and> mSlide c = mSlide a"
    if "c \<in> set (list_of_table a n)" for c
  proof -
    have "c \<in> pta_offset a ` {0..<n}" using that by (simp add: list_of_table_def)
    then obtain i where i: "i < n" "c = pta_offset a i" by auto
    have "unat p \<noteq> 0" using B(1) by (simp add: unat_eq_zero)
    then have "mBlock c \<noteq> 0" using u [OF i(1)] i(2) by (metis add_is_0 unat_0)
    moreover have "unat p + i * 4096 + 4096 < 2 ^ 64" "4096 dvd unat p + i * 4096" using i(1) B(2,3) by auto
    ultimately show ?thesis using u [OF i(1)] i(2) by (simp add: pta_offset_def)
  qed
  show ?thesis
    unfolding a_def [symmetric] pages_from_def
  proof (intro conjI ballI)
    show "pages_ok (list_of_table a n)" using d k by (auto simp: pages_ok_def)
    show "page_span c \<times> {mSlide c} \<subseteq> free_mem A" if "c \<in> set (list_of_table a n)" for c
      using s k [OF that] that B(4) unfolding bytes_def by blast
    show "free_mem A' = {x \<in> free_mem A. \<forall>c \<in> set (list_of_table a n). fst x \<notin> page_span c}"
      unfolding B(5) without_def s [symmetric] by blast
  qed
qed

section \<open>Taking pages block by block\<close>

definition total_size :: "cstore \<Rightarrow> u64 list \<Rightarrow> nat" where
  "total_size m bs = sum_list (map (\<lambda>b. unat (bsize m b)) bs)"

lemma CanAllocateBlocks_total:
  assumes "linked (nx m) bs None" and "set bs \<subseteq> dom m" and "0 < unat rem"
  shows "CanAllocateBlocks (hd_or bs None) rem m = Some (unat rem \<le> total_size m bs)"
  using assms
proof (induction bs arbitrary: rem)
  case Nil
  then show ?case by (subst CanAllocateBlocks.simps) (simp add: total_size_def)
next
  case (Cons b bs)
  show ?case
  proof (cases "rem \<le> bsize m b")
    case True
    then show ?thesis using Cons.prems by (subst CanAllocateBlocks.simps) (auto simp: total_size_def word_le_nat_alt)
  next
    case False
    then have lt: "unat (bsize m b) < unat rem" by (simp add: word_le_nat_alt)
    then have u: "unat (rem - bsize m b) = unat rem - unat (bsize m b)" by (intro unat_sub_le) simp
    have "CanAllocateBlocks (hd_or bs None) (rem - bsize m b) m = Some (unat (rem - bsize m b) \<le> total_size m bs)"
      using Cons.prems lt u by (intro Cons.IH) auto
    then show ?thesis
      using Cons.prems False lt by (subst CanAllocateBlocks.simps) (auto simp: u total_size_def)
  qed
qed

lemma cb_prev_idem: "cb_prev b = v \<Longrightarrow> b\<lparr>cb_prev := v\<rparr> = b"
  by (cases b) simp

lemma take_whole:
  assumes inv: "pta_inv A (p # ys)"
  shows "\<exists>A'. setHead (nx (cblocks A) p) A = Some A' \<and> pta_inv A' ys \<and> mBlockSize A' = mBlockSize A
    \<and> block_from A (unat (bsize (cblocks A) p)) p A' \<and> bslide (cblocks A') p = bslide (cblocks A) p
    \<and> RemoveBlock p (cblocks A') = Some (cblocks A') \<and> total_size (cblocks A') ys = total_size (cblocks A) ys"
proof -
  obtain A' where A': "setHead (nx (cblocks A) p) A = Some A'" "pta_inv A' ys" "mBlockSize A' = mBlockSize A"
    "dom (cblocks A') = dom (cblocks A)" "bsize (cblocks A') = bsize (cblocks A)" "bslide (cblocks A') = bslide (cblocks A)"
    "nx (cblocks A') = nx (cblocks A)" "pv (cblocks A') p = None"
    "bytes p (unat (bsize (cblocks A) p)) (bslide (cblocks A) p) \<subseteq> free_bytes (cblocks A) (p # ys)"
    "free_bytes (cblocks A') ys = without (free_bytes (cblocks A) (p # ys)) p (unat (bsize (cblocks A) p))"
    using setHead_inv [OF inv] by blast
  have l: "list_at (cblocks A) (p # ys)" and ok: "areas_ok (mBlockSize A) (cblocks A) (p # ys)" and l': "list_at (cblocks A') ys"
    using inv A'(2) by (auto simp: pta_inv_def)
  have p: "p \<in> dom (cblocks A')" "nx (cblocks A') p = hd_or ys None" using l A'(4,7) by (auto simp: list_at_def)
  have "RemoveBlock p (cblocks A') = Some (cblocks A')"
  proof (cases ys)
    case Nil
    then show ?thesis using p A'(8) by (simp add: RemoveBlock_def)
  next
    case (Cons y zs)
    have y: "y \<in> dom (cblocks A')" "pv (cblocks A') y = None" using l' by (auto simp: list_at_def Cons)
    have "(cblocks A')(y \<mapsto> (cb (cblocks A') y)\<lparr>cb_prev := None\<rparr>) = cblocks A'"
      using y cb_prev_idem [of "cb (cblocks A') y" None] by (intro fun_upd_idem) simp
    then show ?thesis using p A'(8) y Cons by (simp add: RemoveBlock_def)
  qed
  moreover have "block_from A (unat (bsize (cblocks A) p)) p A'"
    using areas_okD(2,5,6) [OF ok, of p] p(1) A'(6,9,10) free_mem_eq [OF inv] free_mem_eq [OF A'(2)] by (auto simp: block_from_def)
  ultimately show ?thesis using A' by (auto simp: total_size_def)
qed

lemma carve_block:
  assumes inv: "pta_inv A (p # ys)" and sz: "0 < unat sz" "sz < bsize (cblocks A) p" "unat (mBlockSize A) dvd unat sz"
  shows "\<exists>q m1 m'. SplitBlock p sz (cblocks A) = Some (q, m1) \<and> RemoveBlock q m1 = Some m'
    \<and> pta_inv (A\<lparr>cblocks := m'\<rparr>) (p # ys) \<and> q \<in> dom m' \<and> block_from A (unat sz) q (A\<lparr>cblocks := m'\<rparr>)"
proof -
  obtain q m' where q: "(do { (n, m1) \<leftarrow> SplitBlock p sz (cblocks A); m2 \<leftarrow> RemoveBlock n m1; Some (n, m2) }) = Some (q, m')"
    "pta_inv (A\<lparr>cblocks := m'\<rparr>) (p # ys)" "q \<in> dom m'" "q \<noteq> 0" "unat (mBlockSize A) dvd unat q"
    "bytes q (unat sz) (bslide m' q) \<subseteq> free_bytes (cblocks A) (p # ys)"
    "free_bytes m' (p # ys) = without (free_bytes (cblocks A) (p # ys)) q (unat sz)" "unat q + unat sz < 2 ^ 64"
    using carve_first_inv [of A "[]" p ys sz] inv sz by auto
  then show ?thesis
    using free_mem_eq [OF inv] free_mem_eq [OF q(2)] by (auto simp: block_from_def bind_Some_iff)
qed

text \<open>The number of pages in a block.\<close>

lemma block_page_count:
  assumes "pta_inv A (p # ys)" and "mBlockSize A = kPageSize"
  shows "unat (bsize (cblocks A) p) = unat (bsize (cblocks A) p div kPageSize) * 4096"
    and "0 < unat (bsize (cblocks A) p div kPageSize)"
proof -
  have d: "4096 dvd unat (bsize (cblocks A) p)" "0 < unat (bsize (cblocks A) p)"
    using assms areas_okD(3,4) [of "mBlockSize A" "cblocks A" "p # ys" p] by (auto simp: pta_inv_def kPageSize_def)
  have u: "unat (bsize (cblocks A) p div kPageSize) = unat (bsize (cblocks A) p) div 4096"
    by (simp add: unat_div kPageSize_def)
  show "unat (bsize (cblocks A) p) = unat (bsize (cblocks A) p div kPageSize) * 4096" unfolding u using d(1) by simp
  then show "0 < unat (bsize (cblocks A) p div kPageSize)" using d(2) by (metis mult_is_0 neq0_conv)
qed

lemma loop_done: "allocateList_loop node 0 list A = Some (list, A)"
  by (subst allocateList_loop.simps) simp

lemma rem_size: "unat rem * 4096 < 2 ^ 64 \<Longrightarrow> unat (rem * kPageSize) = unat rem * 4096"
  unfolding kPageSize_def by (subst unat_mult_small) simp_all

text \<open>What is left to take after the whole head block was taken.\<close>

lemma rest_pages:
  assumes "pta_inv A (p # ys)" and "mBlockSize A = kPageSize" and "unat rem * 4096 < 2 ^ 64"
    and "unat rem * 4096 \<le> total_size (cblocks A) (p # ys)" and "bsize (cblocks A) p < rem * kPageSize"
  defines "k \<equiv> bsize (cblocks A) p div kPageSize"
  shows "unat (rem - k) = unat rem - unat k" and "unat k < unat rem" and "unat (rem - k) * 4096 \<le> total_size (cblocks A) ys"
proof -
  note c = block_page_count [OF assms(1,2), folded k_def]
  show lt: "unat k < unat rem"
    using assms(5) c(1) rem_size [OF assms(3)] by (simp add: word_less_nat_alt)
  then show u: "unat (rem - k) = unat rem - unat k" by (intro unat_sub_le) simp
  show "unat (rem - k) * 4096 \<le> total_size (cblocks A) ys"
    unfolding u using assms(4) c(1) by (simp add: total_size_def algebra_simps)
qed

lemma allocateList_loop_inv:
  assumes "pta_inv A bs" and "mBlockSize A = kPageSize" and "unat rem * 4096 < 2 ^ 64"
    and "unat rem * 4096 \<le> total_size (cblocks A) bs"
  shows "\<exists>l A' bs'. allocateList_loop (mHead A) rem list A = Some (l @ list, A') \<and> pta_inv A' bs'
    \<and> mBlockSize A' = kPageSize \<and> length l = unat rem \<and> pages_from A l A'"
  using assms
proof (induction bs arbitrary: A rem list)
  case Nil
  then have "rem = 0" by (simp add: total_size_def unat_eq_zero)
  then show ?case using Nil by (intro exI [of _ "[]"] exI [of _ A] exI [of _ "[]"]) (simp add: loop_done)
next
  case (Cons p ys)
  show ?case
  proof (cases "rem = 0")
    case True
    then show ?thesis using Cons.prems by (intro exI [of _ "[]"] exI [of _ A] exI [of _ "p # ys"]) (simp add: loop_done)
  next
    case False
    have h: "mHead A = Some p" "p \<in> dom (cblocks A)" using Cons.prems(1) by (auto simp: pta_inv_def list_at_def)
    note rs = rem_size [OF Cons.prems(3)] and bz = Cons.prems(2)
    have r0: "0 < unat rem" using False by (simp add: unat_gt_0)
    show ?thesis
    proof (cases "rem * kPageSize < bsize (cblocks A) p")
      case True
      then obtain q m1 m' where q: "SplitBlock p (rem * kPageSize) (cblocks A) = Some (q, m1)" "RemoveBlock q m1 = Some m'"
        "pta_inv (A\<lparr>cblocks := m'\<rparr>) (p # ys)" "q \<in> dom m'" "block_from A (unat (rem * kPageSize)) q (A\<lparr>cblocks := m'\<rparr>)"
        using carve_block [OF Cons.prems(1), of "rem * kPageSize"] rs r0 bz by (auto simp: kPageSize_def)
      have "pages_from A (list_of_table \<lparr>mBlock = q, mSlide = bslide m' q\<rparr> (unat rem)) (A\<lparr>cblocks := m'\<rparr>)"
        using block_pages [of A "unat rem" q "A\<lparr>cblocks := m'\<rparr>"] q(5) bz rs by simp
      then show ?thesis
        using h q True False bz
        by (subst allocateList_loop.simps) (auto simp: loop_done list_push_many_rev intro!: exI [of _ "p # ys"])
    next
      case nlt: False
      obtain A' where A': "setHead (nx (cblocks A) p) A = Some A'" "pta_inv A' ys" "mBlockSize A' = mBlockSize A"
        "block_from A (unat (bsize (cblocks A) p)) p A'" "bslide (cblocks A') p = bslide (cblocks A) p"
        "RemoveBlock p (cblocks A') = Some (cblocks A')" "total_size (cblocks A') ys = total_size (cblocks A) ys"
        using take_whole [OF Cons.prems(1)] by blast
      define k where "k = bsize (cblocks A) p div kPageSize"
      note c = block_page_count [OF Cons.prems(1) bz, folded k_def]
      have pf: "pages_from A (list_of_table \<lparr>mBlock = p, mSlide = bslide (cblocks A) p\<rparr> (unat k)) A'"
        using block_pages [of A "unat k" p A'] A'(4,5) bz c(1) by simp
      show ?thesis
      proof (cases "bsize (cblocks A) p = rem * kPageSize")
        case True
        then have "unat k = unat rem" using c(1) rs by simp
        then show ?thesis
          using h A' False nlt True pf bz
          by (subst allocateList_loop.simps) (auto simp: loop_done list_push_many_rev intro!: exI [of _ ys])
      next
        case ne: False
        have lt: "bsize (cblocks A) p < rem * kPageSize" using nlt ne by simp
        note R = rest_pages [OF Cons.prems lt, folded k_def]
        have "unat (rem - k) * 4096 < 2 ^ 64" using R(1,2) Cons.prems(3) by simp
        from Cons.IH [OF A'(2) _ this, of "rev (list_of_table \<lparr>mBlock = p, mSlide = bslide (cblocks A) p\<rparr> (unat k)) @ list"]
        obtain l A2 bs2 where 2: "allocateList_loop (mHead A') (rem - k)
              (rev (list_of_table \<lparr>mBlock = p, mSlide = bslide (cblocks A) p\<rparr> (unat k)) @ list) A'
            = Some (l @ rev (list_of_table \<lparr>mBlock = p, mSlide = bslide (cblocks A) p\<rparr> (unat k)) @ list, A2)"
          "pta_inv A2 bs2" "mBlockSize A2 = kPageSize" "length l = unat (rem - k)" "pages_from A' l A2"
          using R(3) A'(3,7) bz by auto
        have e: "allocateList_loop (mHead A) rem list A
            = Some ((l @ rev (list_of_table \<lparr>mBlock = p, mSlide = bslide (cblocks A) p\<rparr> (unat k))) @ list, A2)"
          using h A' False nlt ne bz 2(1) by (subst allocateList_loop.simps) (simp add: list_push_many_rev k_def)
        have "length (l @ rev (list_of_table \<lparr>mBlock = p, mSlide = bslide (cblocks A) p\<rparr> (unat k))) = unat rem"
          using 2(4) R(1,2) by simp
        then show ?thesis using e 2(2,3) pages_from_trans [of A _ A' l A2, OF _ 2(5)] pf by (metis pages_from_rev)
      qed
    qed
  qed
qed

lemma AllocateHead_inv:
  assumes inv: "pta_inv A (p # ys)" and bz: "mBlockSize A = kPageSize" and sm: "unat rem * 4096 < 2 ^ 64" and r0: "0 < unat rem"
    and le: "unat rem * 4096 \<le> total_size (cblocks A) (p # ys)"
  shows "\<exists>l rem' A' bs'. AllocateHead rem A = Some (l, rem', A') \<and> pta_inv A' bs' \<and> mBlockSize A' = kPageSize
    \<and> length l + unat rem' = unat rem \<and> pages_from A l A' \<and> unat rem' * 4096 \<le> total_size (cblocks A') bs'"
proof -
  have h: "mHead A = Some p" "p \<in> dom (cblocks A)" "pv (cblocks A) p = None" using inv by (auto simp: pta_inv_def list_at_def)
  note rs = rem_size [OF sm]
  have rd: "unat (rem * kPageSize div kPageSize) = unat rem" using rs by (simp add: unat_div kPageSize_def)
  show ?thesis
  proof (cases "rem * kPageSize < bsize (cblocks A) p")
    case True
    then obtain q m1 m' where q: "SplitBlock p (rem * kPageSize) (cblocks A) = Some (q, m1)" "RemoveBlock q m1 = Some m'"
      "pta_inv (A\<lparr>cblocks := m'\<rparr>) (p # ys)" "q \<in> dom m'" "block_from A (unat (rem * kPageSize)) q (A\<lparr>cblocks := m'\<rparr>)"
      using carve_block [OF inv, of "rem * kPageSize"] rs r0 bz by (auto simp: kPageSize_def)
    have "pages_from A (list_of_table \<lparr>mBlock = q, mSlide = bslide m' q\<rparr> (unat rem)) (A\<lparr>cblocks := m'\<rparr>)"
      using block_pages [of A "unat rem" q "A\<lparr>cblocks := m'\<rparr>"] q(5) bz rs by simp
    then show ?thesis using h q True bz rd by (auto simp: AllocateHead_def intro!: exI [of _ "p # ys"])
  next
    case nlt: False
    obtain A' where A': "setHead (nx (cblocks A) p) A = Some A'" "pta_inv A' ys" "mBlockSize A' = mBlockSize A"
      "block_from A (unat (bsize (cblocks A) p)) p A'" "bslide (cblocks A') p = bslide (cblocks A) p"
      "total_size (cblocks A') ys = total_size (cblocks A) ys"
      using take_whole [OF inv] by blast
    define k where "k = bsize (cblocks A) p div kPageSize"
    note c = block_page_count [OF inv bz, folded k_def]
    have pf: "pages_from A (list_of_table \<lparr>mBlock = p, mSlide = bslide (cblocks A) p\<rparr> (unat k)) A'"
      using block_pages [of A "unat k" p A'] A'(4,5) bz c(1) by simp
    show ?thesis
    proof (cases "bsize (cblocks A) p = rem * kPageSize")
      case True
      then have "unat k = unat rem" using c(1) rs by simp
      then show ?thesis using h A' nlt True pf bz rd by (auto simp: AllocateHead_def intro!: exI [of _ ys])
    next
      case ne: False
      have lt: "bsize (cblocks A) p < rem * kPageSize" using nlt ne by simp
      note R = rest_pages [OF inv bz sm le lt, folded k_def]
      show ?thesis
        using h A' nlt ne pf bz R by (auto simp: AllocateHead_def k_def [symmetric] intro!: exI [of _ ys])
    qed
  qed
qed

lemma allocateList_inv:
  assumes inv: "pta_inv A bs" and bz: "mBlockSize A = kPageSize" and sm: "unat n * 4096 < 2 ^ 64" and n0: "0 < unat n"
  shows "\<exists>r A' bs'. allocateList n A = Some (r, A') \<and> pta_inv A' bs' \<and> mBlockSize A' = kPageSize
    \<and> (case r of None \<Rightarrow> A' = A \<and> total_size (cblocks A) bs < unat n * 4096
       | Some l \<Rightarrow> length l = unat n \<and> pages_from A l A' \<and> unat n * 4096 \<le> total_size (cblocks A) bs)"
proof -
  note rs = rem_size [OF sm]
  have pos: "n > 0" using n0 by (simp add: word_less_nat_alt)
  have can: "CanAllocateBlocks (mHead A) (n * mBlockSize A) (cblocks A) = Some (unat n * 4096 \<le> total_size (cblocks A) bs)"
    using CanAllocateBlocks_total [of "cblocks A" bs "n * kPageSize"] inv rs n0 bz by (auto simp: pta_inv_def list_at_def)
  show ?thesis
  proof (cases "unat n * 4096 \<le> total_size (cblocks A) bs")
    case False
    then show ?thesis using can inv bz by (auto simp: allocateList_def pos)
  next
    case True
    then obtain p ys where bs: "bs = p # ys" using n0 by (cases bs) (auto simp: total_size_def)
    obtain l rem A1 bs1 where 1: "AllocateHead n A = Some (l, rem, A1)" "pta_inv A1 bs1" "mBlockSize A1 = kPageSize"
      "length l + unat rem = unat n" "pages_from A l A1" "unat rem * 4096 \<le> total_size (cblocks A1) bs1"
      using AllocateHead_inv [OF inv [unfolded bs] bz sm n0] True bs by blast
    have "unat rem * 4096 < 2 ^ 64" using 1(4) sm by simp
    then obtain k A2 bs2 where 2: "allocateList_loop (mHead A1) rem l A1 = Some (k @ l, A2)" "pta_inv A2 bs2"
      "mBlockSize A2 = kPageSize" "length k = unat rem" "pages_from A1 k A2"
      using allocateList_loop_inv [OF 1(2,3) _ 1(6)] by blast
    then show ?thesis using can True 1 pages_from_trans [OF 1(5) 2(5)] by (auto simp: allocateList_def pos)
  qed
qed

section \<open>The interface of a page supply\<close>

text \<open>
  What the page tables rely on: pages that are taken were free, and giving them back makes them
  free again.
\<close>

locale page_supply =
  fixes ok :: "'s \<Rightarrow> bool" and avail :: "'s \<Rightarrow> (nat \<times> u64) set"
    and take_pages :: "size_t \<Rightarrow> 's \<Rightarrow> (PageTableList option \<times> 's) option"
    and give_pages :: "PageTableList \<Rightarrow> 's \<Rightarrow> 's option"
  assumes take_law: "ok s \<Longrightarrow> 0 < unat n \<Longrightarrow> unat n * 4096 < 2 ^ 64 \<Longrightarrow>
      \<exists>r s'. take_pages n s = Some (r, s') \<and> ok s' \<and> (case r of None \<Rightarrow> s' = s
        | Some l \<Rightarrow> length l = unat n \<and> pages_ok l \<and> (\<forall>a \<in> set l. page_span a \<times> {mSlide a} \<subseteq> avail s)
            \<and> avail s' = {x \<in> avail s. \<forall>a \<in> set l. fst x \<notin> page_span a})"
    and give_law: "ok s \<Longrightarrow> pages_ok l \<Longrightarrow> (\<forall>a \<in> set l. fst ` avail s \<inter> page_span a = {}) \<Longrightarrow>
      \<exists>s'. give_pages l s = Some s' \<and> ok s' \<and> avail s' = avail s \<union> (\<Union>a \<in> set l. page_span a \<times> {mSlide a})"
    and one_slide: "ok s \<Longrightarrow> (x, i) \<in> avail s \<Longrightarrow> (x, j) \<in> avail s \<Longrightarrow> i = j"
begin

lemma take_give:
  assumes "ok s" and "0 < unat n" and "unat n * 4096 < 2 ^ 64" and "take_pages n s = Some (Some l, s')"
  shows "\<exists>s''. give_pages l s' = Some s'' \<and> ok s'' \<and> avail s'' = avail s"
proof -
  have t: "ok s'" "pages_ok l" "\<And>a. a \<in> set l \<Longrightarrow> page_span a \<times> {mSlide a} \<subseteq> avail s"
    "avail s' = {x \<in> avail s. \<forall>a \<in> set l. fst x \<notin> page_span a}"
    using take_law [OF assms(1-3)] assms(4) by auto
  then obtain s'' where s'': "give_pages l s' = Some s''" "ok s''"
    "avail s'' = avail s' \<union> (\<Union>a \<in> set l. page_span a \<times> {mSlide a})"
    using give_law [OF t(1,2)] by fastforce
  have "avail s'' = avail s"
  proof
    show "avail s'' \<subseteq> avail s" using s''(3) t(3,4) by auto
    show "avail s \<subseteq> avail s''"
    proof
      fix x assume x: "x \<in> avail s"
      show "x \<in> avail s''"
      proof (cases "\<exists>a \<in> set l. fst x \<in> page_span a")
        case True
        then obtain a where a: "a \<in> set l" "fst x \<in> page_span a" by blast
        then have "(fst x, mSlide a) \<in> avail s" using t(3) by blast
        then have "snd x = mSlide a" using one_slide [OF assms(1), of "fst x" "snd x" "mSlide a"] x by simp
        then show ?thesis using a s''(3) by (cases x) auto
      qed (use x s''(3) t(4) in auto)
    qed
  qed
  then show ?thesis using s'' by blast
qed

end

lemma page_spans_disjoint:
  assumes "4096 dvd unat (mBlock a)" and "4096 dvd unat (mBlock b)" and "mBlock a \<noteq> mBlock b"
  shows "page_span a \<inter> page_span b = {}"
proof -
  obtain i j where ij: "unat (mBlock a) = 4096 * i" "unat (mBlock b) = 4096 * j" using assms(1,2) by (auto simp: dvd_def)
  have "i \<noteq> j" using ij assms(3) word_eqI_unat [of "mBlock a" "mBlock b"] by auto
  then show ?thesis unfolding page_span_def ij by auto
qed

lemma deallocateList_inv:
  assumes "pta_inv A bs" and "mBlockSize A = kPageSize" and "pages_ok l"
    and "\<forall>a \<in> set l. fst ` free_mem A \<inter> page_span a = {}"
  shows "\<exists>A' bs'. deallocateList l A = Some A' \<and> pta_inv A' bs' \<and> mBlockSize A' = kPageSize
    \<and> free_mem A' = free_mem A \<union> (\<Union>a \<in> set l. page_span a \<times> {mSlide a})"
  using assms
proof (induction l arbitrary: A bs)
  case (Cons a l)
  have a: "mBlock a \<noteq> 0" "4096 dvd unat (mBlock a)" "unat (mBlock a) + 4096 < 2 ^ 64" using Cons.prems(3) by (auto simp: pages_ok_def)
  have fr: "fst ` free_mem A \<inter> {unat (mBlock a) ..< unat (mBlock a) + 4096} = {}"
    using Cons.prems(4) by (simp add: page_span_def)
  have u: "unat (1 :: size_t) * unat (mBlockSize A) = 4096" "unat (mBlockSize A) = 4096"
    using Cons.prems(2) by (simp_all add: kPageSize_def)
  obtain A1 where A1: "pta_deallocate (mBlock a) 1 (mSlide a) A = Some A1" "pta_inv A1 (mBlock a # bs)"
    "mBlockSize A1 = kPageSize" "free_mem A1 = free_mem A \<union> page_span a \<times> {mSlide a}"
    using pta_deallocate_inv [OF Cons.prems(1), of "mBlock a" 1 "mSlide a", unfolded u] a fr Cons.prems(2)
    by (auto simp: bytes_def page_span_def)
  have k: "pages_ok l" using Cons.prems(3) by (simp add: pages_ok_def)
  have "page_span a \<inter> page_span b = {}" if "b \<in> set l" for b
  proof (rule page_spans_disjoint)
    show "mBlock a \<noteq> mBlock b" using Cons.prems(3) that by (auto simp: pages_ok_def)
  qed (use Cons.prems(3) that in \<open>auto simp: pages_ok_def\<close>)
  then have "\<forall>b \<in> set l. fst ` free_mem A1 \<inter> page_span b = {}"
    using Cons.prems(4) unfolding A1(4) image_Un Int_Un_distrib2 by (auto simp: disjoint_iff)
  from Cons.IH [OF A1(2,3) k this] show ?case using A1(1,4) by (auto simp: getVirtual_def getSlide_def)
qed auto

definition pta_pages :: "PageTableAllocator \<Rightarrow> bool" where
  "pta_pages A \<longleftrightarrow> pta_ok A \<and> mBlockSize A = kPageSize"

lemma free_mem_one_slide: "pta_inv A bs \<Longrightarrow> (x, i) \<in> free_mem A \<Longrightarrow> (x, j) \<in> free_mem A \<Longrightarrow> i = j"
  using areas_okD(7) [of "mBlockSize A" "cblocks A" bs] free_mem_eq [of A bs]
  by (auto simp: free_bytes_mem pta_inv_def)

interpretation pta: page_supply pta_pages free_mem allocateList deallocateList
proof unfold_locales
  fix s :: PageTableAllocator and n :: size_t
  assume s: "pta_pages s" and n: "0 < unat n" "unat n * 4096 < 2 ^ 64"
  obtain bs where "pta_inv s bs" "mBlockSize s = kPageSize" using s by (auto simp: pta_pages_def pta_ok_def)
  from allocateList_inv [OF this n(2,1)] obtain r s' bs' where
    r: "allocateList n s = Some (r, s')" "pta_inv s' bs'" "mBlockSize s' = kPageSize"
    "case r of None \<Rightarrow> s' = s \<and> total_size (cblocks s) bs < unat n * 4096
       | Some l \<Rightarrow> length l = unat n \<and> pages_from s l s' \<and> unat n * 4096 \<le> total_size (cblocks s) bs" by blast
  then show "\<exists>r s'. allocateList n s = Some (r, s') \<and> pta_pages s' \<and> (case r of None \<Rightarrow> s' = s
        | Some l \<Rightarrow> length l = unat n \<and> pages_ok l \<and> (\<forall>a \<in> set l. page_span a \<times> {mSlide a} \<subseteq> free_mem s)
            \<and> free_mem s' = {x \<in> free_mem s. \<forall>a \<in> set l. fst x \<notin> page_span a})"
    by (cases r) (auto simp: pta_pages_def pta_ok_def pages_from_def)
next
  fix s :: PageTableAllocator and l
  assume "pta_pages s" "pages_ok l" "\<forall>a \<in> set l. fst ` free_mem s \<inter> page_span a = {}"
  then show "\<exists>s'. deallocateList l s = Some s' \<and> pta_pages s'
      \<and> free_mem s' = free_mem s \<union> (\<Union>a \<in> set l. page_span a \<times> {mSlide a})"
    using deallocateList_inv [of s _ l] by (auto simp: pta_pages_def pta_ok_def)
next
  fix s :: PageTableAllocator and x i j
  assume "pta_pages s" "(x, i) \<in> free_mem s" "(x, j) \<in> free_mem s"
  then show "i = j" using free_mem_one_slide by (auto simp: pta_pages_def pta_ok_def)
qed

section \<open>An example\<close>

definition example_mapping :: AddressMapping where
  "example_mapping = \<lparr>am_vaddr = 0x10000, am_paddr = 0x8000, am_size = 0x4000\<rparr>"

definition example_pta :: PageTableAllocator where
  "example_pta = the (snd (pta_create example_mapping 0x1000))"

lemma example_pta_create: "pta_create example_mapping 0x1000 = (OsStatusSuccess, Some example_pta)"
  by (simp add: example_pta_def pta_create_def example_mapping_def isPageTableAllocatorInputValid_def
      virtualRange_def range_size_def aligned_def roundup_def rounddown_def)

lemma example_pta_inv: "pta_inv example_pta [0x10000]" "mBlockSize example_pta = kPageSize"
  using pta_create_inv [OF example_pta_create] by (simp_all add: example_mapping_def kPageSize_def)

lemma example_pta_pages: "pta_pages example_pta"
  using example_pta_inv by (auto simp: pta_pages_def pta_ok_def)

lemma example_pta_head: "bsize (cblocks example_pta) 0x10000 = 0x4000"
  by (simp add: example_pta_def pta_create_def example_mapping_def isPageTableAllocatorInputValid_def
      virtualRange_def range_size_def aligned_def roundup_def rounddown_def bsize_def cb_def)

lemma example_pta_list: "\<exists>l A. allocateList 2 example_pta = Some (Some l, A)"
  using allocateList_inv [OF example_pta_inv, of 2]
  by (auto simp: total_size_def example_pta_head split: option.splits)

section \<open>The public operations\<close>

text \<open>
  C30. A request for a list of pages never faults. It succeeds exactly when the free blocks
  together are large enough; then it gives as many distinct, aligned, non-null pages as were
  asked for, all of them free before, takes exactly these from the free memory and reports the
  right slide for each. Otherwise nothing changes.
\<close>

theorem allocateList_correct:
  assumes "pta_inv A bs" and "mBlockSize A = kPageSize" and "0 < unat n" and "unat n * 4096 < 2 ^ 64"
  shows "\<exists>r A'. allocateList n A = Some (r, A') \<and> pta_ok A' \<and>
    (case r of None \<Rightarrow> A' = A \<and> total_size (cblocks A) bs < unat n * 4096
     | Some l \<Rightarrow> length l = unat n \<and> pages_from A l A' \<and> unat n * 4096 \<le> total_size (cblocks A) bs)"
  using allocateList_inv [OF assms(1,2,4,3)] unfolding pta_ok_def by blast

theorem allocateList_correct_witness:
  "\<exists>l A'. allocateList 2 example_pta = Some (Some l, A') \<and> length l = 2 \<and> pages_from example_pta l A'"
  using allocateList_correct [OF example_pta_inv, of 2]
  by (auto simp: total_size_def example_pta_head split: option.splits)

text \<open>
  C31. Taking a list of pages and giving it back at once leaves the free memory that was there before.
\<close>

theorem page_list_roundtrip:
  assumes "pta_pages A" and "0 < unat n" and "unat n * 4096 < 2 ^ 64" and "allocateList n A = Some (Some l, A')"
  shows "\<exists>A''. deallocateList l A' = Some A'' \<and> pta_pages A'' \<and> free_mem A'' = free_mem A"
  by (rule pta.take_give [OF assms])

theorem page_list_roundtrip_witness:
  "\<exists>l A' A''. allocateList 2 example_pta = Some (Some l, A') \<and> deallocateList l A' = Some A''
     \<and> free_mem A'' = free_mem example_pta"
proof -
  obtain l A' where a: "allocateList 2 example_pta = Some (Some l, A')" using example_pta_list by blast
  show ?thesis using page_list_roundtrip [OF example_pta_pages _ _ a] a by auto
qed

text \<open>
  Defragmentation terminates without a fault, keeps the free memory, and leaves the blocks in
  the order of their addresses with no two neighbours that could be merged.
\<close>

lemma defragment_correct:
  assumes "pta_inv A bs"
  shows "\<exists>A' bs'. defragment A = Some A' \<and> pta_inv A' bs' \<and> free_mem A' = free_mem A
    \<and> sorted bs' \<and> coalesced (cblocks A') bs'"
  using defragment_inv [OF assms] by blast

text \<open>
  C32. The quicksort of the control blocks terminates and relinks exactly the blocks of the list in
  the order of their addresses; sizes and slides stay as they were.
\<close>

theorem Quicksort_sorts:
  assumes "list_at m (b # bs)"
  shows "\<exists>bs' m'. Quicksort b m = Some (hd_or bs' None, m') \<and> list_at m' bs' \<and> sorted bs' \<and> mset bs' = mset (b # bs)
    \<and> bsize m' = bsize m \<and> bslide m' = bslide m"
proof -
  obtain bs' m' where q: "Quicksort b m = Some (hd_or bs' None, m')" "sorted bs'" "set bs' = set (b # bs)"
    "list_at m' bs'" "relinked (set (b # bs)) m m'"
    using Quicksort_inv [OF list_at_sort_in [OF assms]] by blast
  have "mset bs' = mset (b # bs)"
    using q(3,4) assms by (intro set_eq_iff_mset_eq_distinct [THEN iffD1]) (auto simp: list_at_def)
  then show ?thesis using q by (auto simp: relinked_def)
qed

definition example_blocks :: cstore where
  "example_blocks =
     [0x3000 \<mapsto> \<lparr>cb_next = Some 0x1000, cb_prev = None, cb_size = 0x1000, cb_slide = 0\<rparr>,
      0x1000 \<mapsto> \<lparr>cb_next = Some 0x2000, cb_prev = Some 0x3000, cb_size = 0x800, cb_slide = 0\<rparr>,
      0x2000 \<mapsto> \<lparr>cb_next = None, cb_prev = Some 0x1000, cb_size = 0x1000, cb_slide = 0\<rparr>]"

lemma example_blocks_list: "list_at example_blocks [0x3000, 0x1000, 0x2000]"
  by (auto simp: list_at_def example_blocks_def nx_def pv_def cb_def)

theorem Quicksort_sorts_witness:
  "\<exists>m'. Quicksort 0x3000 example_blocks = Some (Some 0x1000, m') \<and> list_at m' [0x1000, 0x2000, 0x3000]"
proof -
  obtain bs m' where q: "Quicksort 0x3000 example_blocks = Some (hd_or bs None, m')" "list_at m' bs" "sorted bs"
    "mset bs = mset [0x3000, 0x1000, 0x2000]"
    using Quicksort_sorts [OF example_blocks_list] by blast
  have "sort [0x3000, 0x1000, 0x2000] = bs" by (rule properties_for_sort [OF q(4,3)])
  then have "bs = [0x1000, 0x2000, 0x3000]" by simp
  then show ?thesis using q(1,2) by simp
qed

text \<open>
  A single allocation never faults: the free memory is defragmented when the first block is
  too small, and the result is either an aligned area that was free, which is exactly what is
  taken, or nothing and the same free memory.
\<close>

lemma pta_allocate_correct:
  assumes "pta_inv A bs" and "unat blocks * unat (mBlockSize A) < 2 ^ 64"
  shows "\<exists>r A'. pta_allocate blocks A = Some (r, A') \<and> pta_ok A' \<and>
    (if isPresent r
     then bytes (mBlock r) (unat blocks * unat (mBlockSize A)) (mSlide r) \<subseteq> free_mem A
       \<and> unat (mBlockSize A) dvd unat (mBlock r)
       \<and> free_mem A' = without (free_mem A) (mBlock r) (unat blocks * unat (mBlockSize A))
     else free_mem A' = free_mem A)"
  using pta_allocate_inv [OF assms] unfolding pta_ok_def block_from_def by fastforce

text \<open>A walk over blocks that all end at or before the range changes nothing and ends at the null pointer.\<close>

lemma releaseMemory_walk_before:
  assumes "linked (nx m) bs None" and "rfront r < rback r"
    and "\<And>b. b \<in> set bs \<Longrightarrow> b \<in> dom m \<and> 0 < unat (bsize m b) \<and> unat b + unat (bsize m b) < 2 ^ 64
      \<and> unat b + unat (bsize m b) \<le> unat (rfront r)"
  shows "releaseMemory_walk r (hd_or bs None) m = Some (None, m)"
  using assms(1,3)
proof (induction bs)
  case Nil
  then show ?case by (simp add: releaseMemory_walk.simps)
next
  case (Cons p bs)
  have p: "p \<in> dom m" "0 < unat (bsize m p)" "unat p + unat (bsize m p) < 2 ^ 64" "unat p + unat (bsize m p) \<le> unat (rfront r)"
    using Cons.prems(2) [of p] by auto
  have e: "unat (p + bsize m p) = unat p + unat (bsize m p)" using p(3) by (intro unat_add_small) simp
  have le: "p + bsize m p \<le> rfront r" using p(4) e by (simp add: word_le_nat_alt)
  have lt: "p < rfront r" "p < rback r" using p(2,4) assms(2) by (simp_all add: word_less_nat_alt)
  define cr where "cr = cb_range p (cb m p)"
  have "\<not> isAfter cr r" using lt by (simp add: cr_def cb_range_def isAfter_def)
  moreover have "min (p + bsize m p) (rback r) \<le> max p (rfront r)" using le by (simp add: min_le_iff_disj le_max_iff_disj)
  then have "isEmpty (Range.intersection cr r)"
    by (simp add: cr_def cb_range_def Range.intersection_def isEmpty_def empty_range_def)
  moreover have "cb_next (cb m p) = hd_or bs None" "linked (nx m) bs None" using Cons.prems(1) by simp_all
  moreover have "releaseMemory_walk r (hd_or bs None) m = Some (None, m)"
    using Cons.prems(2) by (intro Cons.IH calculation(4)) simp
  ultimately show ?case using p(1) by (simp add: releaseMemory_walk.simps [of r "Some p"] cr_def Let_def)
qed

lemma no_blocks:
  assumes "pta_inv A bs"
  shows "pta_inv (A\<lparr>mHead := None\<rparr>) []"
  using assms by (simp add: pta_inv_def list_at_def areas_ok_def)

text \<open>
  C33. When all free memory lies before the released range, \<^verbatim>\<open>releaseMemory\<close> ends its walk at the null pointer,
  takes that for the head of the list and loses all of it, although no byte of it was to be released.
\<close>

theorem releaseMemory_loses_memory:
  assumes "pta_inv A bs" and "rfront r < rback r" and "\<And>x s. (x, s) \<in> free_mem A \<Longrightarrow> x < unat (rfront r)"
  shows "\<exists>A'. releaseMemory r A = Some A' \<and> mHead A' = None \<and> pta_ok A' \<and> free_mem A' = {}"
proof -
  obtain A1 cs where A1: "defragment A = Some A1" "pta_inv A1 cs" "free_mem A1 = free_mem A"
    using defragment_inv [OF assms(1)] by blast
  let ?m = "cblocks A1"
  have l: "mHead A1 = hd_or cs None" "linked (nx ?m) cs None" "set cs \<subseteq> dom ?m" and ar: "areas_ok (mBlockSize A1) ?m cs"
    using A1(2) by (auto simp: pta_inv_def list_at_def)
  have b: "b \<in> dom ?m \<and> 0 < unat (bsize ?m b) \<and> unat b + unat (bsize ?m b) < 2 ^ 64
      \<and> unat b + unat (bsize ?m b) \<le> unat (rfront r)" if "b \<in> set cs" for b
  proof -
    have s: "0 < unat (bsize ?m b)" "unat b + unat (bsize ?m b) < 2 ^ 64" using ar that by (auto simp: areas_ok_def)
    then have "(unat b + unat (bsize ?m b) - 1, bslide ?m b) \<in> free_mem A1"
      using that unfolding free_mem_eq [OF A1(2)] free_bytes_def bytes_def by (intro UN_I [of b]) auto
    then show ?thesis using assms(3) A1(3) s that l(3) by fastforce
  qed
  then have "releaseMemory_walk r (mHead A1) ?m = Some (None, ?m)"
    unfolding l(1) by (rule releaseMemory_walk_before [OF l(2) assms(2)])
  then have "releaseMemory r A = Some (A1\<lparr>mHead := None\<rparr>)" using A1(1) by (simp add: releaseMemory_def setHead_def)
  moreover have "free_mem (A1\<lparr>mHead := None\<rparr>) = {}" using free_mem_eq [OF no_blocks [OF A1(2)]] by (simp add: free_bytes_def)
  ultimately show ?thesis using no_blocks [OF A1(2)] by (auto simp: pta_ok_def)
qed

theorem releaseMemory_loses_memory_witness:
  "free_mem example_pta \<noteq> {} \<and> (\<exists>A'. releaseMemory \<lparr>rfront = 0x20000, rback = 0x21000\<rparr> example_pta = Some A' \<and> free_mem A' = {})"
  using releaseMemory_loses_memory [OF example_pta_inv(1), of "\<lparr>rfront = 0x20000, rback = 0x21000\<rparr>"]
  unfolding free_mem_eq [OF example_pta_inv(1)]
  by (auto simp: example_pta_head free_bytes_def bytes_def)

end
