(* ===== verification/FlatMap.thy ===== *)
theory FlatMap
  imports PageEntry
begin

text \<open>
  \<^verbatim>\<open>StaticFlatMap\<close> of \<^verbatim>\<open>kernel/include/std/container/static_flat_map.hpp\<close>, a map in two sorted
  arrays of fixed capacity, and \<^verbatim>\<open>MappingLookupTable\<close> of
  \<^verbatim>\<open>kernel/src/memory/detail/mapping_lookup_table.cpp\<close>, which finds the virtual address of a page
  table from its physical address. The first \<^verbatim>\<open>mCount\<close> slots of the arrays are lists; the loops
  that shift them are the source's. Shown here: the operations are those of a finite map, and the
  lookup finds every address of the memory with the lowest address.
\<close>

section \<open>The map\<close>

record ('k, 'v) flat_map =
  mKeys :: "'k list"
  mValues :: "'v list"
  mCapacity :: nat

definition fm_make :: "nat \<Rightarrow> nat \<Rightarrow> nat \<Rightarrow> ('k, 'v) flat_map option" where
  "fm_make keySize valueSize sz =
     do { _ \<leftarrow> KM_CHECK (sz \<ge> keySize + valueSize);
          Some \<lparr>mKeys = [], mValues = [], mCapacity = sz div (keySize + valueSize)\<rparr> }"

definition fm_count :: "('k, 'v) flat_map \<Rightarrow> nat" where "fm_count m = length (mKeys m)"
definition fm_isEmpty :: "('k, 'v) flat_map \<Rightarrow> bool" where "fm_isEmpty m \<longleftrightarrow> fm_count m = 0"
definition fm_isFull :: "('k, 'v) flat_map \<Rightarrow> bool" where "fm_isFull m \<longleftrightarrow> fm_count m = mCapacity m"

definition fm_clear :: "('k, 'v) flat_map \<Rightarrow> ('k, 'v) flat_map" where
  "fm_clear m = m\<lparr>mKeys := [], mValues := []\<rparr>"

text \<open>\<^verbatim>\<open>std::lower_bound\<close> and \<^verbatim>\<open>std::upper_bound\<close> as indices.\<close>

definition lower_bound :: "'k::linorder list \<Rightarrow> 'k \<Rightarrow> nat" where
  "lower_bound ks key = length (takeWhile (\<lambda>k. k < key) ks)"

definition upper_bound :: "'k::linorder list \<Rightarrow> 'k \<Rightarrow> nat" where
  "upper_bound ks key = length (takeWhile (\<lambda>k. k \<le> key) ks)"

text \<open>The loop \<^verbatim>\<open>for (i = mCount; i > index; i--) a[i] = a[i - 1]\<close> of \<^verbatim>\<open>insert\<close>.\<close>

fun shift_up :: "nat \<Rightarrow> nat \<Rightarrow> 'x list \<Rightarrow> 'x list" where
  "shift_up 0 index xs = xs"
| "shift_up (Suc i) index xs = (if Suc i > index then shift_up i index (xs[Suc i := xs ! i]) else xs)"

text \<open>The loop \<^verbatim>\<open>for (i = index; i < mCount - 1; i++) a[i] = a[i + 1]\<close> of \<^verbatim>\<open>remove\<close>, in \<open>n\<close> steps.\<close>

fun shift_down :: "nat \<Rightarrow> nat \<Rightarrow> 'x list \<Rightarrow> 'x list" where
  "shift_down 0 i xs = xs"
| "shift_down (Suc n) i xs = shift_down n (Suc i) (xs[i := xs ! Suc i])"

definition fm_insert :: "'k::linorder \<Rightarrow> 'v \<Rightarrow> ('k, 'v) flat_map \<Rightarrow> OsStatus \<times> ('k, 'v) flat_map" where
  "fm_insert key value m =
     (if fm_isFull m then (OsStatusOutOfMemory, m)
      else let index = lower_bound (mKeys m) key in
        if index \<noteq> fm_count m \<and> \<not> key < mKeys m ! index \<and> \<not> mKeys m ! index < key
        then (OsStatusSuccess, m\<lparr>mValues := (mValues m)[index := value]\<rparr>)
        else (OsStatusSuccess,
              m\<lparr>mKeys := (shift_up (fm_count m) index (mKeys m @ [key]))[index := key],
                mValues := (shift_up (fm_count m) index (mValues m @ [value]))[index := value]\<rparr>))"

definition fm_remove :: "'k::linorder \<Rightarrow> ('k, 'v) flat_map \<Rightarrow> OsStatus \<times> ('k, 'v) flat_map" where
  "fm_remove key m =
     (let index = lower_bound (mKeys m) key in
      if index = fm_count m \<or> key < mKeys m ! index \<or> mKeys m ! index < key then (OsStatusNotFound, m)
      else (OsStatusSuccess,
            m\<lparr>mKeys := butlast (shift_down (fm_count m - 1 - index) index (mKeys m)),
              mValues := butlast (shift_down (fm_count m - 1 - index) index (mValues m))\<rparr>))"

text \<open>\<^verbatim>\<open>find\<close> gives the index of the value it points to.\<close>

definition fm_find :: "'k::linorder \<Rightarrow> ('k, 'v) flat_map \<Rightarrow> nat option" where
  "fm_find key m =
     (let index = lower_bound (mKeys m) key in
      if index = fm_count m \<or> key < mKeys m ! index \<or> mKeys m ! index < key then None else Some index)"

section \<open>The lookup table\<close>

record MapEntry =
  me_vaddr :: u64
  me_count :: u32
  me_refs :: u32

type_synonym lookup_table = "(u64, MapEntry) flat_map"

definition invalid_address :: u64 where "invalid_address = - 1"

definition lt_make :: "nat \<Rightarrow> lookup_table option" where
  "lt_make sz = fm_make 8 16 sz"

definition lt_addMemory :: "AddressMapping \<Rightarrow> lookup_table \<Rightarrow> OsStatus \<times> lookup_table" where
  "lt_addMemory mapping m =
     fm_insert (am_paddr mapping)
       \<lparr>me_vaddr = am_vaddr mapping, me_count = ucast (am_size mapping div kPageSize), me_refs = 0\<rparr> m"

definition lt_removeMemory :: "AddressMapping \<Rightarrow> lookup_table \<Rightarrow> OsStatus \<times> lookup_table" where
  "lt_removeMemory mapping m =
     (case fm_find (am_paddr mapping) m of
        Some i \<Rightarrow>
          if ucast (me_count (mValues m ! i)) * kPageSize \<noteq> am_size mapping
             \<or> me_vaddr (mValues m ! i) \<noteq> am_paddr mapping
          then (OsStatusInvalidInput, m)
          else (OsStatusSuccess, snd (fm_remove (am_paddr mapping) m))
      | None \<Rightarrow> (OsStatusNotFound, m))"

definition lt_find :: "u64 \<Rightarrow> lookup_table \<Rightarrow> u64" where
  "lt_find paddr m =
     (if fm_isEmpty m then invalid_address
      else let it = lower_bound (mKeys m) paddr;
               it = (if it \<noteq> 0 then it - 1 else it);
               key = mKeys m ! it; entry = mValues m ! it
           in if key > paddr \<or> key + ucast (me_count entry) * kPageSize \<le> paddr then invalid_address
              else let slide = key - me_vaddr entry in paddr - slide)"

text \<open>The loop of \<^verbatim>\<open>reclaimMemory\<close> over the entries from \<open>i\<close> on.\<close>

fun unreferenced :: "MapEntry list \<Rightarrow> nat \<Rightarrow> nat option" where
  "unreferenced [] i = None"
| "unreferenced (e # es) i = (if me_refs e = 0 then Some i else unreferenced es (i + 1))"

definition lt_reclaimMemory :: "lookup_table \<Rightarrow> (OsStatus \<times> AddressMapping option \<times> lookup_table) option" where
  "lt_reclaimMemory m =
     (case unreferenced (mValues m) 0 of
        Some i \<Rightarrow> do {
          let key = mKeys m ! i;
          let entry = mValues m ! i;
          let (status, m') = fm_remove key m;
          _ \<leftarrow> KM_CHECK (status = OsStatusSuccess);
          Some (OsStatusSuccess,
                Some \<lparr>am_vaddr = me_vaddr entry, am_paddr = key, am_size = ucast (me_count entry) * kPageSize\<rparr>, m') }
      | None \<Rightarrow> Some (OsStatusNotFound, None, m))"

definition lt_retain :: "u64 \<Rightarrow> lookup_table \<Rightarrow> lookup_table" where
  "lt_retain paddr m =
     (case fm_find paddr m of
        Some i \<Rightarrow> m\<lparr>mValues := (mValues m)[i := (mValues m ! i)\<lparr>me_refs := me_refs (mValues m ! i) + 1\<rparr>]\<rparr>
      | None \<Rightarrow> m)"

definition lt_release :: "u64 \<Rightarrow> lookup_table \<Rightarrow> lookup_table" where
  "lt_release paddr m =
     (case fm_find paddr m of
        Some i \<Rightarrow>
          if me_refs (mValues m ! i) > 0
          then m\<lparr>mValues := (mValues m)[i := (mValues m ! i)\<lparr>me_refs := me_refs (mValues m ! i) - 1\<rparr>]\<rparr>
          else m
      | None \<Rightarrow> m)"

section \<open>The shifting loops\<close>

lemma length_shift_up [simp]: "length (shift_up n index xs) = length xs"
  by (induction n index xs rule: shift_up.induct) auto

lemma length_shift_down [simp]: "length (shift_down k i xs) = length xs"
  by (induction k i xs rule: shift_down.induct) auto

lemma shift_up_nth:
  "n < length xs \<Longrightarrow> j < length xs \<Longrightarrow>
    shift_up n index xs ! j = (if index < j \<and> j \<le> n then xs ! (j - 1) else xs ! j)"
  by (induction n index xs rule: shift_up.induct) (auto simp: nth_list_update intro!: arg_cong2 [where f = nth])

lemma shift_down_nth:
  "i + k < length xs \<Longrightarrow> j < length xs \<Longrightarrow>
    shift_down k i xs ! j = (if i \<le> j \<and> j < i + k then xs ! Suc j else xs ! j)"
  by (induction k i xs rule: shift_down.induct) (auto simp: nth_list_update)

lemma shift_up_insert:
  "index \<le> length xs \<Longrightarrow> (shift_up (length xs) index (xs @ [v]))[index := v] = take index xs @ v # drop index xs"
  by (rule nth_equalityI) (auto simp: shift_up_nth nth_list_update nth_append nth_Cons split: nat.splits intro!: arg_cong2 [where f = nth])

lemma shift_down_remove:
  "index < length xs \<Longrightarrow> butlast (shift_down (length xs - 1 - index) index xs) = take index xs @ drop (Suc index) xs"
  by (rule nth_equalityI) (auto simp: shift_down_nth nth_butlast nth_append)

section \<open>The map abstractly\<close>

definition fm_ok :: "('k::linorder, 'v) flat_map \<Rightarrow> bool" where
  "fm_ok m \<longleftrightarrow> sorted (mKeys m) \<and> distinct (mKeys m) \<and> length (mValues m) = length (mKeys m)
     \<and> length (mKeys m) \<le> mCapacity m"

definition fm_map :: "('k, 'v) flat_map \<Rightarrow> 'k \<rightharpoonup> 'v" where
  "fm_map m = map_of (zip (mKeys m) (mValues m))"

text \<open>The keys around a bound.\<close>

lemma lower_bound_split:
  fixes ks :: "'k::linorder list" and key :: 'k
  assumes "sorted ks" and "distinct ks"
  defines "i \<equiv> lower_bound ks key"
  shows "i \<le> length ks" and "\<And>k. k \<in> set (take i ks) \<Longrightarrow> k < key" and "\<And>k. k \<in> set (drop i ks) \<Longrightarrow> key \<le> k"
    and "i < length ks \<and> ks ! i = key \<longleftrightarrow> key \<in> set ks"
proof -
  have t: "take i ks = takeWhile (\<lambda>k. k < key) ks" "drop i ks = dropWhile (\<lambda>k. k < key) ks"
    unfolding i_def lower_bound_def by (metis takeWhile_eq_take) (metis dropWhile_eq_drop)
  show le: "i \<le> length ks" unfolding i_def lower_bound_def by (rule length_takeWhile_le)
  show lt: "k < key" if "k \<in> set (take i ks)" for k using that unfolding t by (rule set_takeWhileD [THEN conjunct2])
  show ge: "key \<le> k" if k: "k \<in> set (drop i ks)" for k
  proof -
    have ne: "drop i ks \<noteq> []" using k by auto
    then have h: "key \<le> hd (drop i ks)" unfolding t using hd_dropWhile not_less by blast
    have "sorted (drop i ks)" using assms(1) by (rule sorted_wrt_drop)
    then have "hd (drop i ks) \<le> k" using k ne by (cases "drop i ks") auto
    with h show ?thesis by simp
  qed
  show "i < length ks \<and> ks ! i = key \<longleftrightarrow> key \<in> set ks"
  proof
    assume "key \<in> set ks"
    then have "key \<in> set (take i ks) \<union> set (drop i ks)" by (metis append_take_drop_id set_append)
    then have k: "key \<in> set (drop i ks)" using lt by auto
    then have ne: "i < length ks" by (cases "i < length ks") auto
    then have "hd (drop i ks) = ks ! i" by (rule hd_drop_conv_nth)
    moreover have "key \<le> ks ! i" using ge [of "ks ! i"] ne by (metis hd_drop_conv_nth drop_eq_Nil list.set_sel(1) not_le)
    moreover have "ks ! i \<le> key"
      using k assms(1) sorted_wrt_drop [of "(\<le>)" ks i] ne by (cases "drop i ks") (auto simp: calculation(1) [symmetric])
    ultimately show "i < length ks \<and> ks ! i = key" using ne by auto
  qed auto
qed

lemma fm_find_map:
  assumes "fm_ok m"
  shows "map_option (\<lambda>i. mValues m ! i) (fm_find key m) = fm_map m key"
    and "fm_find key m = Some i \<Longrightarrow> i < length (mKeys m) \<and> mKeys m ! i = key"
proof -
  note L = lower_bound_split [of "mKeys m", where key = key]
  have ok: "sorted (mKeys m)" "distinct (mKeys m)" "length (mValues m) = length (mKeys m)" using assms by (auto simp: fm_ok_def)
  show "map_option (\<lambda>i. mValues m ! i) (fm_find key m) = fm_map m key"
  proof (cases "key \<in> set (mKeys m)")
    case True
    then have i: "lower_bound (mKeys m) key < length (mKeys m)" "mKeys m ! lower_bound (mKeys m) key = key"
      using L(4) [OF ok(1,2)] by auto
    then show ?thesis
      using map_of_zip_nth [of "mKeys m" "mValues m" "lower_bound (mKeys m) key"] ok
      by (simp add: fm_find_def fm_map_def fm_count_def Let_def)
  next
    case False
    then have "lower_bound (mKeys m) key \<noteq> length (mKeys m) \<Longrightarrow> mKeys m ! lower_bound (mKeys m) key \<noteq> key"
      using L(1,4) [OF ok(1,2)] by auto
    moreover have "fm_map m key = None" using False ok(3) by (simp add: fm_map_def)
    ultimately show ?thesis by (auto simp: fm_find_def fm_count_def Let_def)
  qed
  show "fm_find key m = Some i \<Longrightarrow> i < length (mKeys m) \<and> mKeys m ! i = key"
    using L(1) [OF ok(1,2)] by (auto simp: fm_find_def fm_count_def Let_def split: if_splits)
qed

lemma sorted_insert_at:
  fixes key :: "'k::linorder"
  assumes "sorted xs" and "distinct xs" and "key \<notin> set xs"
    and "\<And>k. k \<in> set (take i xs) \<Longrightarrow> k < key" and "\<And>k. k \<in> set (drop i xs) \<Longrightarrow> key \<le> k"
  shows "sorted (take i xs @ key # drop i xs)" and "distinct (take i xs @ key # drop i xs)"
proof -
  have s: "sorted (take i xs @ drop i xs)" "distinct (take i xs @ drop i xs)" using assms(1,2) by simp_all
  show "sorted (take i xs @ key # drop i xs)"
    using s(1) assms(4,5) unfolding sorted_append by (auto intro: less_imp_le)
  show "distinct (take i xs @ key # drop i xs)"
    using s(2) assms(3) unfolding distinct_append by (auto dest: in_set_takeD in_set_dropD)
qed

lemma map_of_insert_at:
  assumes "length vs = length ks" and "key \<notin> set ks"
  shows "map_of (zip (take i ks @ key # drop i ks) (take i vs @ v # drop i vs)) = (map_of (zip ks vs))(key \<mapsto> v)"
proof -
  have z: "zip (take i ks @ key # drop i ks) (take i vs @ v # drop i vs)
      = zip (take i ks) (take i vs) @ (key, v) # zip (drop i ks) (drop i vs)"
    using assms(1) by (subst zip_append) simp_all
  have t: "zip ks vs = zip (take i ks) (take i vs) @ zip (drop i ks) (drop i vs)"
    using zip_append [of "take i ks" "take i vs" "drop i ks" "drop i vs"] assms(1) by simp
  have "key \<notin> dom (map_of (zip (take i ks) (take i vs)))"
    using assms(2) by (auto dest!: map_of_SomeD dest: set_zip_leftD in_set_takeD)
  then show ?thesis unfolding z t by (auto simp: map_add_def fun_eq_iff split: option.splits)
qed

lemma map_of_update_at:
  assumes "length vs = length ks" and "distinct ks" and "i < length ks"
  shows "map_of (zip ks (vs[i := v])) = (map_of (zip ks vs))(ks ! i \<mapsto> v)"
  using assms
proof (induction ks arbitrary: vs i)
  case (Cons k ks)
  then obtain w ws where vs: "vs = w # ws" by (cases vs) auto
  show ?case
  proof (cases i)
    case 0
    then show ?thesis by (simp add: vs fun_eq_iff)
  next
    case (Suc j)
    then have "map_of (zip ks (ws[j := v])) = (map_of (zip ks ws))(ks ! j \<mapsto> v)" using Cons vs by auto
    moreover have "ks ! j \<noteq> k" using Cons.prems Suc by auto
    ultimately show ?thesis using Suc by (auto simp: vs fun_eq_iff)
  qed
qed simp

lemma map_add_forget: "m1 x = None \<Longrightarrow> m2 x = None \<Longrightarrow> m2 ++ m1 = (m2(x \<mapsto> v) ++ m1)(x := None)"
  by (auto simp: map_add_def fun_eq_iff split: option.splits)

lemma map_of_remove_at:
  assumes "length vs = length ks" and "distinct ks" and "i < length ks"
  shows "map_of (zip (take i ks @ drop (Suc i) ks) (take i vs @ drop (Suc i) vs)) = (map_of (zip ks vs))(ks ! i := None)"
proof -
  have i: "ks = take i ks @ ks ! i # drop (Suc i) ks" "vs = take i vs @ vs ! i # drop (Suc i) vs"
    using assms(1,3) id_take_nth_drop by metis+
  define k1 k2 v1 v2 where kv: "k1 = take i ks" "k2 = drop (Suc i) ks" "v1 = take i vs" "v2 = drop (Suc i) vs"
  have l: "length k1 = length v1" "length k2 = length v2" using assms(1) by (simp_all add: kv)
  have "zip ks vs = zip (k1 @ ks ! i # k2) (v1 @ vs ! i # v2)" using i unfolding kv by (rule arg_cong2 [where f = zip])
  then have z: "zip ks vs = zip k1 v1 @ (ks ! i, vs ! i) # zip k2 v2" using l by simp
  have d: "ks ! i \<notin> set k1" "ks ! i \<notin> set k2" using assms(2) by (subst (asm) i(1), auto simp: kv)+
  have n: "map_of (zip k1 v1) (ks ! i) = None" "map_of (zip k2 v2) (ks ! i) = None" using d l by simp_all
  show ?thesis
    unfolding z kv [symmetric] using l map_add_forget [of "map_of (zip k1 v1)" "ks ! i" "map_of (zip k2 v2)" "vs ! i"] n by simp
qed

lemma fm_insert_map:
  assumes ok: "fm_ok m"
  shows "fm_ok (snd (fm_insert key v m))"
    and "\<not> fm_isFull m \<Longrightarrow> fst (fm_insert key v m) = OsStatusSuccess \<and> fm_map (snd (fm_insert key v m)) = (fm_map m)(key \<mapsto> v)"
    and "fm_isFull m \<Longrightarrow> fm_insert key v m = (OsStatusOutOfMemory, m)"
proof -
  define i where "i = lower_bound (mKeys m) key"
  have o: "sorted (mKeys m)" "distinct (mKeys m)" "length (mValues m) = length (mKeys m)" "length (mKeys m) \<le> mCapacity m"
    using ok by (auto simp: fm_ok_def)
  note L = lower_bound_split [OF o(1,2), where key = key, folded i_def]
  have e: "i \<noteq> fm_count m \<and> \<not> key < mKeys m ! i \<and> \<not> mKeys m ! i < key \<longleftrightarrow> key \<in> set (mKeys m)"
    using L(1,4) by (auto simp: fm_count_def)
  show "fm_isFull m \<Longrightarrow> fm_insert key v m = (OsStatusOutOfMemory, m)" by (simp add: fm_insert_def)
  show "fm_ok (snd (fm_insert key v m))"
    using ok o L(1) sorted_insert_at [OF o(1,2) _ L(2,3)] e shift_up_insert [of i "mKeys m" key] shift_up_insert [of i "mValues m" v]
    by (auto simp: fm_insert_def i_def [symmetric] Let_def fm_ok_def fm_count_def fm_isFull_def)
  assume "\<not> fm_isFull m"
  then show "fst (fm_insert key v m) = OsStatusSuccess \<and> fm_map (snd (fm_insert key v m)) = (fm_map m)(key \<mapsto> v)"
    using o L(1,4) e shift_up_insert [of i "mKeys m" key] shift_up_insert [of i "mValues m" v]
      map_of_insert_at [of "mValues m" "mKeys m" key i v] map_of_update_at [of "mValues m" "mKeys m" i v]
    by (auto simp: fm_insert_def i_def [symmetric] Let_def fm_map_def fm_count_def)
qed

lemma fm_remove_map:
  assumes ok: "fm_ok m"
  shows "fm_ok (snd (fm_remove key m))" and "fm_map (snd (fm_remove key m)) = (fm_map m)(key := None)"
    and "fst (fm_remove key m) = (if fm_map m key = None then OsStatusNotFound else OsStatusSuccess)"
proof -
  define i where "i = lower_bound (mKeys m) key"
  have o: "sorted (mKeys m)" "distinct (mKeys m)" "length (mValues m) = length (mKeys m)" "length (mKeys m) \<le> mCapacity m"
    using ok by (auto simp: fm_ok_def)
  note L = lower_bound_split [OF o(1,2), where key = key, folded i_def]
  have e: "i = fm_count m \<or> key < mKeys m ! i \<or> mKeys m ! i < key \<longleftrightarrow> key \<notin> set (mKeys m)"
    using L(1,4) by (auto simp: fm_count_def)
  have n: "fm_map m key = None \<longleftrightarrow> key \<notin> set (mKeys m)" using o(3) by (simp add: fm_map_def)
  show "fst (fm_remove key m) = (if fm_map m key = None then OsStatusNotFound else OsStatusSuccess)"
    unfolding fm_remove_def i_def [symmetric] Let_def e n by simp
  have i: "i < length (mKeys m)" "mKeys m ! i = key" if "key \<in> set (mKeys m)" using L(4) that by auto
  have r: "snd (fm_remove key m) = m\<lparr>mKeys := take i (mKeys m) @ drop (Suc i) (mKeys m),
      mValues := take i (mValues m) @ drop (Suc i) (mValues m)\<rparr>" if "key \<in> set (mKeys m)"
    using that i [OF that] shift_down_remove [of i "mKeys m"] shift_down_remove [of i "mValues m"] o(3)
    unfolding fm_remove_def i_def [symmetric] Let_def e by (simp add: fm_count_def)
  have s: "sorted (take i (mKeys m) @ drop (Suc i) (mKeys m)) \<and> distinct (take i (mKeys m) @ drop (Suc i) (mKeys m))"
    if "i < length (mKeys m)"
    using o(1,2) id_take_nth_drop [OF that]
    by (metis (no_types, lifting) distinct.simps(2) distinct_append insert_iff list.simps(15) disjoint_insert(1) sorted_append sorted_simps(2))
  show "fm_ok (snd (fm_remove key m))"
  proof (cases "key \<in> set (mKeys m)")
    case True
    then show ?thesis using r [OF True] s i(1) [OF True] o by (auto simp: fm_ok_def)
  next
    case False
    then show ?thesis using ok unfolding fm_remove_def i_def [symmetric] Let_def e by simp
  qed
  show "fm_map (snd (fm_remove key m)) = (fm_map m)(key := None)"
  proof (cases "key \<in> set (mKeys m)")
    case True
    then show ?thesis using r [OF True] i [OF True] map_of_remove_at [OF o(3,2), of i] by (simp add: fm_map_def)
  next
    case False
    then have "fm_remove key m = (OsStatusNotFound, m)" unfolding fm_remove_def i_def [symmetric] Let_def e by simp
    then show ?thesis using n False by (simp add: fun_upd_idem)
  qed
qed

section \<open>The interface of a bounded map\<close>

locale bounded_map =
  fixes ok :: "'m \<Rightarrow> bool" and full :: "'m \<Rightarrow> bool" and look :: "'m \<Rightarrow> 'k \<rightharpoonup> 'v"
    and ins :: "'k \<Rightarrow> 'v \<Rightarrow> 'm \<Rightarrow> OsStatus \<times> 'm" and del :: "'k \<Rightarrow> 'm \<Rightarrow> OsStatus \<times> 'm"
  assumes ins_law: "ok m \<Longrightarrow> \<not> full m \<Longrightarrow>
      fst (ins k v m) = OsStatusSuccess \<and> ok (snd (ins k v m)) \<and> look (snd (ins k v m)) = (look m)(k \<mapsto> v)"
    and full_law: "ok m \<Longrightarrow> full m \<Longrightarrow> ins k v m = (OsStatusOutOfMemory, m)"
    and del_law: "ok m \<Longrightarrow> ok (snd (del k m)) \<and> look (snd (del k m)) = (look m)(k := None)
      \<and> fst (del k m) = (if look m k = None then OsStatusNotFound else OsStatusSuccess)"
begin

lemma ins_del: "ok m \<Longrightarrow> \<not> full m \<Longrightarrow> look m k = None \<Longrightarrow>
    fst (del k (snd (ins k v m))) = OsStatusSuccess \<and> look (snd (del k (snd (ins k v m)))) = look m"
  using ins_law [of m k v] del_law [of "snd (ins k v m)" k] by (auto simp: fun_upd_idem)

end

interpretation flat: bounded_map fm_ok fm_isFull fm_map fm_insert fm_remove
  by unfold_locales (simp_all add: fm_insert_map fm_remove_map)

section \<open>Properties\<close>

definition example_map :: "(u64, nat) flat_map" where
  "example_map = \<lparr>mKeys = [2, 5], mValues = [20, 50], mCapacity = 3\<rparr>"

lemma example_map_ok: "fm_ok example_map" "\<not> fm_isFull example_map"
  by (simp_all add: example_map_def fm_ok_def fm_isFull_def fm_count_def)

text \<open>
  C34. The flat map refines a finite map of bounded size: \<^verbatim>\<open>find\<close> gives the value of the key,
  \<^verbatim>\<open>remove\<close> removes exactly the key and reports whether it was there, \<^verbatim>\<open>insert\<close> updates exactly the key while the map
  is not full and otherwise changes nothing, and the keys stay sorted and distinct.
\<close>

theorem flat_map_refines:
  assumes "fm_ok m"
  shows "map_option (\<lambda>i. mValues m ! i) (fm_find key m) = fm_map m key
    \<and> fm_ok (snd (fm_remove key m)) \<and> fm_map (snd (fm_remove key m)) = (fm_map m)(key := None)
    \<and> fst (fm_remove key m) = (if fm_map m key = None then OsStatusNotFound else OsStatusSuccess)
    \<and> fm_ok (snd (fm_insert key v m))
    \<and> (if fm_isFull m then fm_insert key v m = (OsStatusOutOfMemory, m)
       else fst (fm_insert key v m) = OsStatusSuccess \<and> fm_map (snd (fm_insert key v m)) = (fm_map m)(key \<mapsto> v))"
  using fm_find_map(1) [OF assms] fm_insert_map [OF assms] fm_remove_map [OF assms] by simp

theorem flat_map_refines_witness:
  "fm_map (snd (fm_insert 3 30 example_map)) = (fm_map example_map)(3 \<mapsto> 30)"
  using flat_map_refines [OF example_map_ok(1), of 3 30] example_map_ok(2) by simp

text \<open>
  \<open>lt_holds m i paddr\<close>: the physical address lies in the \<open>i\<close>-th memory of the table. The memories do not overlap
  when each ends at or before the first byte of the next.
\<close>

definition lt_end :: "lookup_table \<Rightarrow> nat \<Rightarrow> u64" where
  "lt_end m i = mKeys m ! i + ucast (me_count (mValues m ! i)) * kPageSize"

definition lt_holds :: "lookup_table \<Rightarrow> nat \<Rightarrow> u64 \<Rightarrow> bool" where
  "lt_holds m i paddr \<longleftrightarrow> i < length (mKeys m) \<and> mKeys m ! i \<le> paddr \<and> paddr < lt_end m i"

definition lt_disjoint :: "lookup_table \<Rightarrow> bool" where
  "lt_disjoint m \<longleftrightarrow> (\<forall>i. Suc i < length (mKeys m) \<longrightarrow> lt_end m i \<le> mKeys m ! Suc i)"

lemma lt_find_held:
  assumes "fm_ok m" and i: "i < length (mKeys m)" and "mKeys m ! i \<le> paddr"
    and "paddr < mKeys m ! i + ucast (me_count (mValues m ! i)) * kPageSize"
    and "Suc i < length (mKeys m) \<longrightarrow> paddr < mKeys m ! Suc i"
    and "0 < i \<longrightarrow> mKeys m ! (i - 1) + ucast (me_count (mValues m ! (i - 1))) * kPageSize \<le> mKeys m ! i"
  shows "lt_find paddr m =
    (if i = 0 \<or> paddr \<noteq> mKeys m ! i then me_vaddr (mValues m ! i) + (paddr - mKeys m ! i) else invalid_address)"
proof -
  define ks where "ks = mKeys m"
  have o: "sorted ks" "distinct ks" using assms(1) by (auto simp: fm_ok_def ks_def)
  have lt: "ks ! j < ks ! k" if "j < k" "k < length ks" for j k
    using o that sorted_nth_mono [of ks j k] nth_eq_iff_index_eq [of ks j k] by (simp add: le_neq_trans less_imp_le_nat)
  have n: "\<not> (fm_isEmpty m)" using i by (auto simp: fm_isEmpty_def fm_count_def)
  have after: "ks ! k > paddr" if "i < k" "k < length ks" for k
  proof (cases "k = Suc i")
    case True
    then show ?thesis using assms(5) that by (simp add: ks_def)
  next
    case False
    then have "ks ! Suc i < ks ! k" using lt [of "Suc i" k] that by simp
    moreover have "paddr < ks ! Suc i" using assms(5) that False by (simp add: ks_def)
    ultimately show ?thesis by simp
  qed
  have b: "lower_bound (mKeys m) paddr = (if paddr = mKeys m ! i then i else Suc i)"
  proof -
    have "takeWhile (\<lambda>k. k < paddr) ks = take (if paddr = ks ! i then i else Suc i) ks"
    proof (rule takeWhile_eq_take_P_nth)
      fix j assume "j < (if paddr = ks ! i then i else Suc i)" "j < length ks"
      then show "ks ! j < paddr" using lt [of j i] assms(3) i by (cases "j = i") (auto simp: ks_def split: if_splits)
    next
      assume "(if paddr = ks ! i then i else Suc i) < length ks"
      then show "\<not> ks ! (if paddr = ks ! i then i else Suc i) < paddr" using after [of "Suc i"] by auto
    qed
    then show ?thesis using i by (simp add: lower_bound_def ks_def)
  qed
  show ?thesis
  proof (cases "paddr = mKeys m ! i \<and> 0 < i")
    case True
    then have "mKeys m ! (i - 1) + ucast (me_count (mValues m ! (i - 1))) * kPageSize \<le> paddr" using assms(6) by simp
    then have c: "mKeys m ! (i - 1) > paddr \<or> mKeys m ! (i - 1) + ucast (me_count (mValues m ! (i - 1))) * kPageSize \<le> paddr"
      by simp
    define it where "it = lower_bound (mKeys m) paddr"
    have it: "(if it \<noteq> 0 then it - 1 else it) = i - 1" using True unfolding it_def b by auto
    have r: "\<not> (i = 0 \<or> paddr \<noteq> mKeys m ! i)" using True by blast
    show ?thesis using n unfolding lt_find_def it_def [symmetric] Let_def it if_P [OF c] if_not_P [OF r] by simp
  next
    case False
    define it where "it = lower_bound (mKeys m) paddr"
    have it: "(if it \<noteq> 0 then it - 1 else it) = i" using False unfolding it_def b by auto
    have "\<not> (mKeys m ! i > paddr \<or> mKeys m ! i + ucast (me_count (mValues m ! i)) * kPageSize \<le> paddr)"
      using assms(3,4) by (simp add: not_less not_le)
    then have "lt_find paddr m = paddr - (mKeys m ! i - me_vaddr (mValues m ! i))"
      using n unfolding lt_find_def it_def [symmetric] Let_def it by (simp only: if_False)
    moreover have r: "i = 0 \<or> paddr \<noteq> mKeys m ! i" using False by (metis gr_zeroI)
    ultimately show ?thesis unfolding if_P [OF r] by simp
  qed
qed

lemma lt_find_outside:
  assumes "fm_ok m" and "\<And>i. \<not> lt_holds m i paddr"
  shows "lt_find paddr m = invalid_address"
proof (cases "fm_isEmpty m")
  case True
  then show ?thesis by (simp add: lt_find_def)
next
  case False
  define it where "it = lower_bound (mKeys m) paddr"
  define j where "j = (if it \<noteq> 0 then it - 1 else it)"
  have "it \<le> length (mKeys m)" using lower_bound_split(1) assms(1) by (auto simp: it_def fm_ok_def)
  then have "j < length (mKeys m)" using False by (auto simp: j_def fm_isEmpty_def fm_count_def)
  then have "mKeys m ! j > paddr \<or> lt_end m j \<le> paddr" using assms(2) [of j] by (auto simp: lt_holds_def)
  then show ?thesis using False unfolding lt_find_def it_def [symmetric] Let_def j_def [symmetric] lt_end_def by simp
qed

text \<open>
  C35. Looking up a physical address in a table of memories that do not overlap: an address of the memory with the
  lowest key, and any address of another memory but its first byte, is translated to the same offset in the virtual
  range of the memory; every other address, and every address of an empty table, gives the invalid address. So the
  first byte of a memory that is not the lowest is not found, and a page table at the start of memory that was added
  later cannot be reached.
\<close>

theorem lt_find_exact:
  assumes "fm_ok m" and "lt_disjoint m"
  shows "(\<forall>i. lt_holds m i paddr \<longrightarrow> lt_find paddr m =
      (if i = 0 \<or> paddr \<noteq> mKeys m ! i then me_vaddr (mValues m ! i) + (paddr - mKeys m ! i) else invalid_address))
    \<and> ((\<nexists>i. lt_holds m i paddr) \<longrightarrow> lt_find paddr m = invalid_address)"
proof (intro conjI allI impI)
  fix i assume h: "lt_holds m i paddr"
  have d: "lt_end m j \<le> mKeys m ! Suc j" if "Suc j < length (mKeys m)" for j using assms(2) that by (simp add: lt_disjoint_def)
  have "Suc i < length (mKeys m) \<longrightarrow> paddr < mKeys m ! Suc i" using d [of i] h by (auto simp: lt_holds_def)
  moreover have "0 < i \<longrightarrow> lt_end m (i - 1) \<le> mKeys m ! i" using d [of "i - 1"] h by (auto simp: lt_holds_def)
  ultimately show "lt_find paddr m =
      (if i = 0 \<or> paddr \<noteq> mKeys m ! i then me_vaddr (mValues m ! i) + (paddr - mKeys m ! i) else invalid_address)"
    using h unfolding lt_holds_def lt_end_def by (intro lt_find_held [OF assms(1)]) auto
qed (use lt_find_outside [OF assms(1)] in blast)

definition example_table :: lookup_table where
  "example_table = \<lparr>mKeys = [0x1000, 0x8000], mValues =
     [\<lparr>me_vaddr = 0x101000, me_count = 2, me_refs = 0\<rparr>, \<lparr>me_vaddr = 0x208000, me_count = 2, me_refs = 0\<rparr>],
     mCapacity = 4\<rparr>"

lemma example_table_ok: "fm_ok example_table" "lt_disjoint example_table"
  by (auto simp: example_table_def fm_ok_def lt_disjoint_def lt_end_def kPageSize_def less_Suc_eq)

lemma example_table_holds:
  "lt_holds example_table i a \<longleftrightarrow> i = 0 \<and> 0x1000 \<le> a \<and> a < 0x3000 \<or> i = 1 \<and> 0x8000 \<le> a \<and> a < 0xA000"
  by (auto simp: example_table_def lt_holds_def lt_end_def kPageSize_def less_Suc_eq)

theorem lt_find_exact_witness:
  "lt_find 0x8000 example_table = invalid_address \<and> lt_find 0x8008 example_table = 0x208008
    \<and> lt_find 0x800 example_table = invalid_address \<and> lt_find 0x3000 example_table = invalid_address"
  using lt_find_exact [OF example_table_ok, of "0x8000"] lt_find_exact [OF example_table_ok, of "0x8008"]
    lt_find_exact [OF example_table_ok, of "0x800"] lt_find_exact [OF example_table_ok, of "0x3000"]
  unfolding example_table_holds by (simp add: example_table_def)

end
