(* ===== verification/PageTables.thy ===== *)
theory PageTables
  imports TableAllocList FlatMap
begin

text \<open>
  The page tables of an address space: \<^verbatim>\<open>km::PageTables\<close> of
  \<^verbatim>\<open>kernel/src/memory/page_tables.cpp\<close>, and \<^verbatim>\<open>copyHigherHalfMappings\<close> of
  \<^verbatim>\<open>kernel/src/memory/tables.cpp\<close>.

  The field \<open>mem\<close> is the memory of the tables: a store from virtual page addresses to the 512
  entries of the page, so that every read and write through a table pointer is the source's. A
  page that is not a table (it was never handed out, or was given back) reads as \<open>None\<close>, an
  invalid access. A reference to an entry is the address of its table and its index. Locks are
  not modelled, the class has none.
\<close>

section \<open>State\<close>

type_synonym page = "u64 list"

record PageTables =
  mCache :: lookup_table
  mAllocator :: PageTableAllocator
  mPageManager :: PageBuilder
  mRootAllocation :: PageTableAllocation
  mMiddleFlags :: PageFlags
  mem :: "u64 \<rightharpoonup> page"

definition zero_page :: page where "zero_page = replicate 512 0"

definition entry :: "u64 \<Rightarrow> nat \<Rightarrow> PageTables \<Rightarrow> u64 option" where
  "entry t i S = do { p \<leftarrow> mem S t; if i < length p then Some (p ! i) else None }"

definition set_entry :: "u64 \<Rightarrow> nat \<Rightarrow> u64 \<Rightarrow> PageTables \<Rightarrow> PageTables option" where
  "set_entry t i e S =
     do { p \<leftarrow> mem S t; if i < length p then Some (S\<lparr>mem := (mem S)(t \<mapsto> p[i := e])\<rparr>) else None }"

definition pml4 :: "PageTables \<Rightarrow> u64" where "pml4 S = getVirtual (mRootAllocation S)"
definition pt_root :: "PageTables \<Rightarrow> u64" where "pt_root S = getPhysical (mRootAllocation S)"

text \<open>\<^verbatim>\<open>asVirtual\<close>; an address that is not found gives the invalid address, at which no table lies.\<close>

definition asVirtual :: "u64 \<Rightarrow> PageTables \<Rightarrow> u64" where
  "asVirtual addr S = lt_find addr (mCache S)"

definition asPhysical :: "PageTableAllocation \<Rightarrow> u64" where
  "asPhysical allocation = getPhysical allocation"

definition getPageEntry :: "u64 \<Rightarrow> nat \<Rightarrow> PageTables \<Rightarrow> u64 option" where
  "getPageEntry table index S =
     do { e \<leftarrow> entry table index S; Some (asVirtual (address (mPageManager S) e) S) }"

text \<open>The index of an address at each level.\<close>

definition pml4i :: "u64 \<Rightarrow> nat" where "pml4i v = unat (ix_pml4e (getAddressParts v))"
definition pdpti :: "u64 \<Rightarrow> nat" where "pdpti v = unat (ix_pdpte (getAddressParts v))"
definition pdi :: "u64 \<Rightarrow> nat" where "pdi v = unat (ix_pdte (getAddressParts v))"
definition pti :: "u64 \<Rightarrow> nat" where "pti v = unat (ix_pte (getAddressParts v))"

section \<open>Table memory\<close>

definition alloc4k :: "PageTables \<Rightarrow> (u64 \<times> PageTables) option" where
  "alloc4k S =
     do { (allocation, A) \<leftarrow> pta_allocate 1 (mAllocator S);
          let S = S\<lparr>mAllocator := A\<rparr>;
          if \<not> isPresent allocation then Some (0, S)
          else do {
            let it = getVirtual allocation;
            Some (it, S\<lparr>mCache := lt_retain (getPhysical allocation) (mCache S),
                        mem := (mem S)(it \<mapsto> zero_page)\<rparr>) } }"

definition set_entry_flags :: "u64 \<Rightarrow> nat \<Rightarrow> PageFlags \<Rightarrow> u64 \<Rightarrow> PageTables \<Rightarrow> PageTables option" where
  "set_entry_flags t i flags addr S =
     do { e \<leftarrow> entry t i S; e \<leftarrow> setEntryFlags (mPageManager S) flags addr e; set_entry t i e S }"

definition trackMapping :: "AddressMapping \<Rightarrow> PageTables \<Rightarrow> OsStatus \<times> PageTables" where
  "trackMapping mapping S = (case lt_addMemory mapping (mCache S) of (status, c) \<Rightarrow> (status, S\<lparr>mCache := c\<rparr>))"

text \<open>A page that is given back holds a control block from then on, it is no table any more.\<close>

definition deallocate :: "u64 \<Rightarrow> u64 \<Rightarrow> PageTables \<Rightarrow> PageTables option" where
  "deallocate vaddr paddr S =
     do { let slide = paddr - vaddr;
          A \<leftarrow> pta_deallocate vaddr 1 slide (mAllocator S);
          Some (S\<lparr>mAllocator := A, mCache := lt_release paddr (mCache S), mem := (mem S)(vaddr := None)\<rparr>) }"

text \<open>\<^verbatim>\<open>PageTableList::next\<close> clears the page that it takes from the list.\<close>

definition claimListEntry :: "PageTableList \<Rightarrow> PageTables \<Rightarrow> (PageTableAllocation \<times> PageTableList \<times> PageTables) option" where
  "claimListEntry list S =
     do { (allocation, list) \<leftarrow> pt_list_next list;
          _ \<leftarrow> KM_CHECK (isPresent allocation);
          Some (allocation, list,
                S\<lparr>mCache := lt_retain (getPhysical allocation) (mCache S),
                  mem := (mem S)(getVirtual allocation \<mapsto> zero_page)\<rparr>) }"

text \<open>The root and the cache take the first two pages; the cache is kept in \<open>mCache\<close>.\<close>

definition pt_create :: "PageBuilder \<Rightarrow> AddressMapping \<Rightarrow> PageFlags \<Rightarrow> (OsStatus \<times> PageTables option) option" where
  "pt_create pm pteMemory flags =
     (case pta_create pteMemory kPageSize of
        (status, None) \<Rightarrow> Some (status, None)
      | (status, Some A) \<Rightarrow> do {
          (root, A) \<leftarrow> pta_allocate 1 A;
          (cache, A) \<leftarrow> pta_allocate 1 A;
          if \<not> isPresent root \<or> \<not> isPresent cache then Some (OsStatusOutOfMemory, None)
          else do {
            c \<leftarrow> lt_make 4096;
            let S = \<lparr>mCache = c, mAllocator = A, mPageManager = pm, mRootAllocation = root,
                     mMiddleFlags = flags, mem = [getVirtual root \<mapsto> zero_page]\<rparr>;
            let (status, S) = trackMapping pteMemory S;
            _ \<leftarrow> KM_CHECK (status = OsStatusSuccess);
            Some (OsStatusSuccess,
                  Some (S\<lparr>mCache := lt_retain (getPhysical cache) (lt_retain (getPhysical root) (mCache S))\<rparr>)) } })"

section \<open>Finding and making tables\<close>

definition getPageMap3 :: "u64 \<Rightarrow> nat \<Rightarrow> PageTableList \<Rightarrow> PageTables \<Rightarrow> (u64 \<times> PageTableList \<times> PageTables) option" where
  "getPageMap3 l4 i buffer S =
     do { t4 \<leftarrow> entry l4 i S;
          if \<not> present t4 then do {
            (allocation, buffer, S) \<leftarrow> claimListEntry buffer S;
            S \<leftarrow> set_entry_flags l4 i (mMiddleFlags S) (asPhysical allocation) S;
            Some (getVirtual allocation, buffer, S) }
          else Some (asVirtual (address (mPageManager S) t4) S, buffer, S) }"

definition getPageMap2 :: "u64 \<Rightarrow> nat \<Rightarrow> PageTableList \<Rightarrow> PageTables \<Rightarrow> (u64 \<times> PageTableList \<times> PageTables) option" where
  "getPageMap2 l3 i buffer S =
     do { t3 \<leftarrow> entry l3 i S;
          if \<not> present t3 then do {
            (allocation, buffer, S) \<leftarrow> claimListEntry buffer S;
            S \<leftarrow> set_entry_flags l3 i (mMiddleFlags S) (asPhysical allocation) S;
            Some (getVirtual allocation, buffer, S) }
          else Some (asVirtual (address (mPageManager S) t3) S, buffer, S) }"

text \<open>The null pointer of the three find functions is an inner \<open>None\<close>.\<close>

definition findPageMap3 :: "u64 \<Rightarrow> nat \<Rightarrow> PageTables \<Rightarrow> u64 option option" where
  "findPageMap3 l4 i S =
     do { t4 \<leftarrow> entry l4 i S;
          Some (if present t4 then Some (asVirtual (address (mPageManager S) t4) S) else None) }"

definition findPageMap2 :: "u64 \<Rightarrow> nat \<Rightarrow> PageTables \<Rightarrow> u64 option option" where
  "findPageMap2 l3 i S =
     do { t3 \<leftarrow> entry l3 i S;
          Some (if present t3 \<and> \<not> is1g t3 then Some (asVirtual (address (mPageManager S) t3) S) else None) }"

definition findPageTable :: "u64 \<Rightarrow> nat \<Rightarrow> PageTables \<Rightarrow> u64 option option" where
  "findPageTable l2 i S =
     do { pde \<leftarrow> entry l2 i S;
          Some (if present pde \<and> \<not> is2m pde then Some (asVirtual (address (mPageManager S) pde) S) else None) }"

section \<open>Splitting a 2 MiB page\<close>

partial_function (option) partialRemap2m_loop ::
  "u64 \<Rightarrow> u64 \<Rightarrow> range \<Rightarrow> u64 \<Rightarrow> MemoryType \<Rightarrow> PageTables \<Rightarrow> PageTables option" where
  "partialRemap2m_loop i pt r paddr type S =
     (if i < rback r then
        Option.bind (entry pt (pti i) S) (\<lambda>t1.
        Option.bind (set_entry pt (pti i) (setMemoryType_pte (mPageManager S) type t1) S) (\<lambda>S.
        Option.bind (set_entry_flags pt (pti i) (mMiddleFlags S) (paddr + (i - rfront r)) S) (\<lambda>S.
        partialRemap2m_loop (i + kPageSize) pt r paddr type S)))
      else Some S)"

definition partialRemap2m :: "u64 \<Rightarrow> range \<Rightarrow> u64 \<Rightarrow> MemoryType \<Rightarrow> PageTables \<Rightarrow> PageTables option" where
  "partialRemap2m pt r paddr type S =
     do { _ \<leftarrow> KM_CHECK (\<not> isEmpty r); partialRemap2m_loop (rfront r) pt r paddr type S }"

definition split2mMapping :: "u64 \<Rightarrow> nat \<Rightarrow> range \<Rightarrow> range \<Rightarrow> PageTableAllocation \<Rightarrow> PageTables \<Rightarrow> PageTables option" where
  "split2mMapping l2 i page erase allocation S =
     do { pde \<leftarrow> entry l2 i S;
          _ \<leftarrow> KM_CHECK (is2m pde);
          let pt = getVirtual allocation;
          (lo, hi) \<leftarrow> split_on page erase;
          let type = getMemoryType_pdte pde;
          let paddr = address (mPageManager S) pde;
          let hiOffset = rback erase - rfront page;
          S \<leftarrow> partialRemap2m pt lo paddr type S;
          S \<leftarrow> partialRemap2m pt hi (paddr + hiOffset) type S;
          S \<leftarrow> set_entry_flags l2 i (mMiddleFlags S) (asPhysical allocation) S;
          pde \<leftarrow> entry l2 i S;
          set_entry l2 i (set2m False pde) S }"

definition cut2mMapping :: "u64 \<Rightarrow> nat \<Rightarrow> range \<Rightarrow> range \<Rightarrow> PageTableAllocation \<Rightarrow> PageTables \<Rightarrow> PageTables option" where
  "cut2mMapping l2 i page erase allocation S =
     do { let remaining = cut page erase;
          let pt = getVirtual allocation;
          pde \<leftarrow> entry l2 i S;
          let type = getMemoryType_pdte pde;
          let paddr = address (mPageManager S) pde;
          let offset = rfront remaining - rfront page;
          S \<leftarrow> partialRemap2m pt remaining (paddr + offset) type S;
          S \<leftarrow> set_entry_flags l2 i (mMiddleFlags S) (asPhysical allocation) S;
          pde \<leftarrow> entry l2 i S;
          set_entry l2 i (set2m False pde) S }"

definition reclaim2m :: "u64 \<Rightarrow> nat \<Rightarrow> PageTables \<Rightarrow> PageTables option" where
  "reclaim2m l2 i S =
     do { pde \<leftarrow> entry l2 i S;
          S \<leftarrow> (if \<not> is2m pde then do {
                  let paddr = address (mPageManager S) pde;
                  deallocate (asVirtual paddr S) paddr S }
                else Some S);
          pde \<leftarrow> entry l2 i S;
          set_entry l2 i (set2m False (setPresent False pde)) S }"

section \<open>Mapping\<close>

text \<open>The page table that \<^verbatim>\<open>map4k\<close> writes to: a new one, the one a 2 MiB page is split into, or the one there is.\<close>

definition map4k_table :: "u64 \<Rightarrow> u64 \<Rightarrow> PageTableList \<Rightarrow> PageTables \<Rightarrow> (u64 \<times> PageTableList \<times> PageTables) option" where
  "map4k_table vaddr l2 buffer S =
     do { t2 \<leftarrow> entry l2 (pdi vaddr) S;
          if \<not> present t2 then do {
            (allocation, buffer, S) \<leftarrow> claimListEntry buffer S;
            S \<leftarrow> set_entry_flags l2 (pdi vaddr) (mMiddleFlags S) (asPhysical allocation) S;
            Some (getVirtual allocation, buffer, S) }
          else if is2m t2 then do {
            (allocation, buffer, S) \<leftarrow> claimListEntry buffer S;
            let front2m = rounddown vaddr kLargePageSize;
            let back2m = roundup vaddr kLargePageSize;
            let page = \<lparr>rfront = front2m, rback = back2m\<rparr>;
            let erase = \<lparr>rfront = vaddr, rback = vaddr + kPageSize\<rparr>;
            S \<leftarrow> split2mMapping l2 (pdi vaddr) page erase allocation S;
            Some (getVirtual allocation, buffer, S) }
          else Some (asVirtual (address (mPageManager S) t2) S, buffer, S) }"

definition map4k :: "u64 \<Rightarrow> u64 \<Rightarrow> PageFlags \<Rightarrow> MemoryType \<Rightarrow> PageTableList \<Rightarrow> PageTables \<Rightarrow> (PageTableList \<times> PageTables) option" where
  "map4k paddr vaddr flags type buffer S =
     do { let l4 = pml4 S;
          (l3, buffer, S) \<leftarrow> getPageMap3 l4 (pml4i vaddr) buffer S;
          (l2, buffer, S) \<leftarrow> getPageMap2 l3 (pdpti vaddr) buffer S;
          (pt, buffer, S) \<leftarrow> map4k_table vaddr l2 buffer S;
          t1 \<leftarrow> entry pt (pti vaddr) S;
          S \<leftarrow> set_entry pt (pti vaddr) (setMemoryType_pte (mPageManager S) type t1) S;
          S \<leftarrow> set_entry_flags pt (pti vaddr) flags paddr S;
          Some (buffer, S) }"

definition map2m :: "u64 \<Rightarrow> u64 \<Rightarrow> PageFlags \<Rightarrow> MemoryType \<Rightarrow> PageTableList \<Rightarrow> PageTables \<Rightarrow> (PageTableList \<times> PageTables) option" where
  "map2m paddr vaddr flags type buffer S =
     do { let l4 = pml4 S;
          (l3, buffer, S) \<leftarrow> getPageMap3 l4 (pml4i vaddr) buffer S;
          (l2, buffer, S) \<leftarrow> getPageMap2 l3 (pdpti vaddr) buffer S;
          t2 \<leftarrow> entry l2 (pdi vaddr) S;
          S \<leftarrow> (if present t2 \<and> \<not> is2m t2 then do {
                  let pt = address (mPageManager S) t2;
                  deallocate (asVirtual pt S) pt S }
                else Some S);
          t2 \<leftarrow> entry l2 (pdi vaddr) S;
          S \<leftarrow> set_entry l2 (pdi vaddr) (setMemoryType_pdte (mPageManager S) type (set2m True t2)) S;
          S \<leftarrow> set_entry_flags l2 (pdi vaddr) flags paddr S;
          Some (buffer, S) }"

definition map1g :: "u64 \<Rightarrow> u64 \<Rightarrow> PageFlags \<Rightarrow> MemoryType \<Rightarrow> PageTableList \<Rightarrow> PageTables \<Rightarrow> (PageTableList \<times> PageTables) option" where
  "map1g paddr vaddr flags type buffer S =
     do { let l4 = pml4 S;
          (l3, buffer, S) \<leftarrow> getPageMap3 l4 (pml4i vaddr) buffer S;
          t3 \<leftarrow> entry l3 (pdpti vaddr) S;
          S \<leftarrow> set_entry l3 (pdpti vaddr) (setMemoryType_pdpte (mPageManager S) type (set1g True t3)) S;
          S \<leftarrow> set_entry_flags l3 (pdpti vaddr) flags paddr S;
          Some (buffer, S) }"

partial_function (option) mapRange4k_loop ::
  "size_t \<Rightarrow> AddressMapping \<Rightarrow> PageFlags \<Rightarrow> MemoryType \<Rightarrow> PageTableList \<Rightarrow> PageTables \<Rightarrow> (PageTableList \<times> PageTables) option" where
  "mapRange4k_loop i mapping flags type buffer S =
     (if i < am_size mapping then
        Option.bind (map4k (am_paddr mapping + i) (am_vaddr mapping + i) flags type buffer S) (\<lambda>(buffer, S).
        mapRange4k_loop (i + kPageSize) mapping flags type buffer S)
      else Some (buffer, S))"

definition mapRange4k :: "AddressMapping \<Rightarrow> PageFlags \<Rightarrow> MemoryType \<Rightarrow> PageTableList \<Rightarrow> PageTables \<Rightarrow> (PageTableList \<times> PageTables) option" where
  "mapRange4k mapping flags type buffer S = mapRange4k_loop 0 mapping flags type buffer S"

partial_function (option) mapRange2m_loop ::
  "size_t \<Rightarrow> AddressMapping \<Rightarrow> PageFlags \<Rightarrow> MemoryType \<Rightarrow> PageTableList \<Rightarrow> PageTables \<Rightarrow> (PageTableList \<times> PageTables) option" where
  "mapRange2m_loop i mapping flags type buffer S =
     (if i < am_size mapping then
        Option.bind (map2m (am_paddr mapping + i) (am_vaddr mapping + i) flags type buffer S) (\<lambda>(buffer, S).
        mapRange2m_loop (i + kLargePageSize) mapping flags type buffer S)
      else Some (buffer, S))"

definition mapRange2m :: "AddressMapping \<Rightarrow> PageFlags \<Rightarrow> MemoryType \<Rightarrow> PageTableList \<Rightarrow> PageTables \<Rightarrow> (PageTableList \<times> PageTables) option" where
  "mapRange2m mapping flags type buffer S = mapRange2m_loop 0 mapping flags type buffer S"

partial_function (option) mapRange1g_loop ::
  "size_t \<Rightarrow> AddressMapping \<Rightarrow> PageFlags \<Rightarrow> MemoryType \<Rightarrow> PageTableList \<Rightarrow> PageTables \<Rightarrow> (PageTableList \<times> PageTables) option" where
  "mapRange1g_loop i mapping flags type buffer S =
     (if i < am_size mapping then
        Option.bind (map1g (am_paddr mapping + i) (am_vaddr mapping + i) flags type buffer S) (\<lambda>(buffer, S).
        mapRange1g_loop (i + kHugePageSize) mapping flags type buffer S)
      else Some (buffer, S))"

definition mapRange1g :: "AddressMapping \<Rightarrow> PageFlags \<Rightarrow> MemoryType \<Rightarrow> PageTableList \<Rightarrow> PageTables \<Rightarrow> (PageTableList \<times> PageTables) option" where
  "mapRange1g mapping flags type buffer S = mapRange1g_loop 0 mapping flags type buffer S"

definition mapWithList :: "AddressMapping \<Rightarrow> PageFlags \<Rightarrow> MemoryType \<Rightarrow> PageTableList \<Rightarrow> PageTables \<Rightarrow> (PageTableList \<times> PageTables) option" where
  "mapWithList mapping flags type buffer S =
     (let r = physicalRange mapping;
          front2m = roundup (rfront r) kLargePageSize;
          back2m = rounddown (rback r) kLargePageSize
      in if IsLargePageEligible mapping \<and> front2m < back2m then do {
           let head = AlignLargeRangeHead mapping;
           (buffer, S) \<leftarrow> (if \<not> am_isEmpty head then mapRange4k head flags type buffer S else Some (buffer, S));
           (buffer, S) \<leftarrow> mapRange2m (AlignLargeRangeBody mapping) flags type buffer S;
           let tail = AlignLargeRangeTail mapping;
           (if \<not> am_isEmpty tail then mapRange4k tail flags type buffer S else Some (buffer, S)) }
         else mapRange4k mapping flags type buffer S)"

section \<open>Walking\<close>

definition walkUnlocked :: "u64 \<Rightarrow> PageTables \<Rightarrow> PageWalk option" where
  "walkUnlocked ptr S =
     (let parts = getAddressParts ptr;
          result = (\<lambda>e4 e3 e2 e1.
            \<lparr>pw_address = ptr, pml4eIndex = ix_pml4e parts, pw_pml4e = e4, pdpteIndex = ix_pdpte parts, pw_pdpte = e3,
             pdteIndex = ix_pdte parts, pw_pdte = e2, pteIndex = ix_pte parts, pw_pte = e1\<rparr>);
          l4 = pml4 S
      in do {
        e4 \<leftarrow> entry l4 (pml4i ptr) S;
        if \<not> present e4 then Some (result e4 0 0 0)
        else do {
          l3 \<leftarrow> getPageEntry l4 (pml4i ptr) S;
          e3 \<leftarrow> entry l3 (pdpti ptr) S;
          if \<not> present e3 \<or> is1g e3 then Some (result e4 e3 0 0)
          else do {
            l2 \<leftarrow> getPageEntry l3 (pdpti ptr) S;
            e2 \<leftarrow> entry l2 (pdi ptr) S;
            if \<not> present e2 \<or> is2m e2 then Some (result e4 e3 e2 0)
            else do {
              pt \<leftarrow> getPageEntry l2 (pdi ptr) S;
              e1 \<leftarrow> entry pt (pti ptr) S;
              Some (result e4 e3 e2 e1) } } } })"

definition getMemoryFlags :: "u64 \<Rightarrow> PageTables \<Rightarrow> PageFlags option" where
  "getMemoryFlags ptr S = do { w \<leftarrow> walkUnlocked ptr S; Some (walk_flags w) }"

definition getPageSize :: "u64 \<Rightarrow> PageTables \<Rightarrow> PageSize option" where
  "getPageSize ptr S = do { w \<leftarrow> walkUnlocked ptr S; Some (pageSize w) }"

definition getBackingAddressUnlocked :: "u64 \<Rightarrow> PageTables \<Rightarrow> u64 option" where
  "getBackingAddressUnlocked ptr S =
     do { let offset = ptr AND 0xFFF;
          t4 \<leftarrow> entry (pml4 S) (pml4i ptr) S;
          if \<not> present t4 then Some invalid_address
          else do {
            let l3 = asVirtual (address (mPageManager S) t4) S;
            t3 \<leftarrow> entry l3 (pdpti ptr) S;
            if \<not> present t3 then Some invalid_address
            else if is1g t3 then Some (address (mPageManager S) t3 + (ptr AND 0x3FF000) + offset)
            else do {
              let l2 = asVirtual (address (mPageManager S) t3) S;
              t2 \<leftarrow> entry l2 (pdi ptr) S;
              if \<not> present t2 then Some invalid_address
              else if is2m t2 then Some (address (mPageManager S) t2 + (ptr AND 0x1FF000) + offset)
              else do {
                pt \<leftarrow> findPageTable l2 (pdi ptr) S;
                (case pt of
                   None \<Rightarrow> Some invalid_address
                 | Some pt \<Rightarrow> do {
                     t1 \<leftarrow> entry pt (pti ptr) S;
                     if \<not> present t1 then Some invalid_address
                     else Some (address (mPageManager S) t1 + offset) }) } } } }"

definition getLargePageEntry :: "u64 \<Rightarrow> PageTables \<Rightarrow> (u64 \<times> nat) option" where
  "getLargePageEntry addr S =
     do { l3 \<leftarrow> findPageMap3 (pml4 S) (pml4i addr) S;
          _ \<leftarrow> KM_CHECK (l3 \<noteq> None);
          l2 \<leftarrow> findPageMap2 (the l3) (pdpti addr) S;
          _ \<leftarrow> KM_CHECK (l2 \<noteq> None);
          Some (the l2, pdi addr) }"

section \<open>Compaction\<close>

definition IsTableEmpty :: "page \<Rightarrow> bool" where
  "IsTableEmpty p = list_all (\<lambda>e. \<not> present e) p"

definition compactPt :: "u64 \<Rightarrow> nat \<Rightarrow> PageTables \<Rightarrow> (size_t \<times> PageTables) option" where
  "compactPt pd index S =
     do { e \<leftarrow> entry pd index S;
          if \<not> present e then Some (0, S)
          else if is2m e then Some (0, S)
          else do {
            let paddr = address (mPageManager S) e;
            let pt = asVirtual paddr S;
            p \<leftarrow> mem S pt;
            if IsTableEmpty p then do {
              S \<leftarrow> deallocate pt paddr S;
              e \<leftarrow> entry pd index S;
              S \<leftarrow> set_entry pd index (setPresent False e) S;
              Some (1, S) }
            else Some (0, S) } }"

text \<open>
  The loop over the entries of a table that \<^verbatim>\<open>compactPd\<close> and \<^verbatim>\<open>compactPdpt\<close> share: compact the
  entry, then see whether it is still present.
\<close>

fun compact_loop ::
  "(u64 \<Rightarrow> nat \<Rightarrow> PageTables \<Rightarrow> (size_t \<times> PageTables) option) \<Rightarrow> u64 \<Rightarrow> nat list \<Rightarrow> size_t \<Rightarrow> bool \<Rightarrow> PageTables \<Rightarrow>
   (size_t \<times> bool \<times> PageTables) option" where
  "compact_loop f pt [] cnt reclaim S = Some (cnt, reclaim, S)"
| "compact_loop f pt (i # is) cnt reclaim S =
     do { (n, S) \<leftarrow> f pt i S;
          e \<leftarrow> entry pt i S;
          compact_loop f pt is (cnt + n) (if present e then False else reclaim) S }"

text \<open>The end of \<^verbatim>\<open>compactPd\<close> and \<^verbatim>\<open>compactPdpt\<close>.\<close>

definition compact_reclaim ::
  "u64 \<Rightarrow> nat \<Rightarrow> u64 \<Rightarrow> u64 \<Rightarrow> size_t \<Rightarrow> bool \<Rightarrow> PageTables \<Rightarrow> (size_t \<times> PageTables) option" where
  "compact_reclaim pd index pt paddr cnt reclaim S =
     (if reclaim then do {
        S \<leftarrow> deallocate pt paddr S;
        e \<leftarrow> entry pd index S;
        S \<leftarrow> set_entry pd index (setPresent False e) S;
        Some (cnt + 1, S) }
      else Some (cnt, S))"

definition compactPd :: "u64 \<Rightarrow> nat \<Rightarrow> PageTables \<Rightarrow> (size_t \<times> PageTables) option" where
  "compactPd pd index S =
     do { e \<leftarrow> entry pd index S;
          if \<not> present e then Some (0, S)
          else if is1g e then Some (0, S)
          else do {
            let paddr = address (mPageManager S) e;
            let pt = asVirtual paddr S;
            (cnt, reclaim, S) \<leftarrow> compact_loop compactPt pt [0..<512] 0 True S;
            compact_reclaim pd index pt paddr cnt reclaim S } }"

definition compactPdpt :: "u64 \<Rightarrow> nat \<Rightarrow> PageTables \<Rightarrow> (size_t \<times> PageTables) option" where
  "compactPdpt pd index S =
     do { e \<leftarrow> entry pd index S;
          if \<not> present e then Some (0, S)
          else do {
            let paddr = address (mPageManager S) e;
            let pt = asVirtual paddr S;
            (cnt, reclaim, S) \<leftarrow> compact_loop compactPd pt [0..<512] 0 True S;
            compact_reclaim pd index pt paddr cnt reclaim S } }"

fun compactPml4_loop :: "u64 \<Rightarrow> nat list \<Rightarrow> size_t \<Rightarrow> PageTables \<Rightarrow> (size_t \<times> PageTables) option" where
  "compactPml4_loop l4 [] cnt S = Some (cnt, S)"
| "compactPml4_loop l4 (i # is) cnt S =
     do { (n, S) \<leftarrow> compactPdpt l4 i S; compactPml4_loop l4 is (cnt + n) S }"

definition compactPml4 :: "u64 \<Rightarrow> PageTables \<Rightarrow> (size_t \<times> PageTables) option" where
  "compactPml4 l4 S = compactPml4_loop l4 [0..<512] 0 S"

definition compactUnlocked :: "PageTables \<Rightarrow> (size_t \<times> PageTables) option" where
  "compactUnlocked S = compactPml4 (pml4 S) S"

section \<open>Counting and reserving tables\<close>

definition maxPagesForMapping :: "range \<Rightarrow> size_t" where
  "maxPagesForMapping r = MaxPagesForMapping r"

partial_function (option) countPml4_loop :: "u64 \<Rightarrow> u64 \<Rightarrow> size_t \<Rightarrow> PageTables \<Rightarrow> size_t option" where
  "countPml4_loop i back cnt S =
     (if i < back then
        Option.bind (entry (pml4 S) (pml4i i) S) (\<lambda>t4.
        countPml4_loop (i + kPml4MemorySize) back (if \<not> present t4 then cnt + 1 else cnt) S)
      else Some cnt)"

partial_function (option) countPdpt_loop :: "u64 \<Rightarrow> u64 \<Rightarrow> size_t \<Rightarrow> PageTables \<Rightarrow> size_t option" where
  "countPdpt_loop i back cnt S =
     (if i < back then
        Option.bind (findPageMap3 (pml4 S) (pml4i i) S) (\<lambda>l3.
        case l3 of
          None \<Rightarrow> countPdpt_loop (i + kHugePageSize) back (cnt + 1) S
        | Some l3 \<Rightarrow>
            Option.bind (entry l3 (pdpti i) S) (\<lambda>t3.
            countPdpt_loop (i + kHugePageSize) back (if \<not> present t3 then cnt + 1 else cnt) S))
      else Some cnt)"

partial_function (option) countPd_loop :: "u64 \<Rightarrow> u64 \<Rightarrow> size_t \<Rightarrow> PageTables \<Rightarrow> size_t option" where
  "countPd_loop i back cnt S =
     (if i < back then
        Option.bind (findPageMap3 (pml4 S) (pml4i i) S) (\<lambda>l3.
        case l3 of
          None \<Rightarrow> countPd_loop (i + kLargePageSize) back (cnt + 1) S
        | Some l3 \<Rightarrow>
            Option.bind (findPageMap2 l3 (pdpti i) S) (\<lambda>l2.
            case l2 of
              None \<Rightarrow> countPd_loop (i + kLargePageSize) back (cnt + 1) S
            | Some l2 \<Rightarrow>
                Option.bind (entry l2 (pdi i) S) (\<lambda>t2.
                countPd_loop (i + kLargePageSize) back (if \<not> present t2 then cnt + 1 else cnt) S)))
      else Some cnt)"

definition countPagesForMapping :: "range \<Rightarrow> PageTables \<Rightarrow> size_t option" where
  "countPagesForMapping r S =
     do { let a4 = alignedOut r kPml4MemorySize;
          cnt \<leftarrow> countPml4_loop (rfront a4) (rback a4) 0 S;
          let a3 = alignedOut r kHugePageSize;
          cnt \<leftarrow> countPdpt_loop (rfront a3) (rback a3) cnt S;
          let a2 = alignedOut r kLargePageSize;
          cnt \<leftarrow> countPd_loop (rfront a2) (rback a2) cnt S;
          let cnt = (if rfront r mod kLargePageSize \<noteq> 0 then cnt + 1 else cnt);
          Some (if rback r mod kLargePageSize \<noteq> 0 then cnt + 1 else cnt) }"

record PageMappingResult =
  mTotalPagesRequired :: size_t
  mExtraPagesRequired :: size_t

definition pt_allocateList :: "size_t \<Rightarrow> PageTables \<Rightarrow> (PageTableList option \<times> PageTables) option" where
  "pt_allocateList n S = do { (l, A) \<leftarrow> allocateList n (mAllocator S); Some (l, S\<lparr>mAllocator := A\<rparr>) }"

text \<open>The list on success; otherwise the status and what was missing.\<close>

definition allocatePageTables ::
  "range \<Rightarrow> PageTables \<Rightarrow> (OsStatus \<times> PageTableList \<times> PageMappingResult option \<times> PageTables) option" where
  "allocatePageTables r S =
     do { let requiredPages = maxPagesForMapping r;
          (l, S) \<leftarrow> pt_allocateList requiredPages S;
          (case l of
             Some l \<Rightarrow> Some (OsStatusSuccess, l, None, S)
           | None \<Rightarrow> do {
               st \<leftarrow> pta_stats (mAllocator S);
               requiredPages \<leftarrow> countPagesForMapping r S;
               (l, S) \<leftarrow> pt_allocateList requiredPages S;
               (case l of
                  Some l \<Rightarrow> Some (OsStatusSuccess, l, None, S)
                | None \<Rightarrow> do {
                    (cnt, S) \<leftarrow> compactUnlocked S;
                    (l, S) \<leftarrow> pt_allocateList requiredPages S;
                    (case l of
                       Some l \<Rightarrow> Some (OsStatusSuccess, l, None, S)
                     | None \<Rightarrow>
                         Some (OsStatusOutOfMemory, [],
                               Some \<lparr>mTotalPagesRequired = requiredPages,
                                     mExtraPagesRequired = requiredPages - (pst_freeBlocks st + cnt)\<rparr>, S)) }) }) }"

definition pt_allocateExtra :: "size_t \<Rightarrow> PageTableList \<Rightarrow> PageTables \<Rightarrow> (bool \<times> PageTableList \<times> PageTables) option" where
  "pt_allocateExtra n l S =
     do { (ok, l, A) \<leftarrow> allocateExtra n l (mAllocator S); Some (ok, l, S\<lparr>mAllocator := A\<rparr>) }"

definition reservePageTablesForMapping ::
  "range \<Rightarrow> PageTableList \<Rightarrow> PageTables \<Rightarrow> (OsStatus \<times> PageTableList \<times> PageTables) option" where
  "reservePageTablesForMapping r l S =
     (let extra = (\<lambda>cnt l S. if cnt = 0 then Some (True, l, S) else pt_allocateExtra cnt l S)
      in do {
        (ok, l, S) \<leftarrow> extra (maxPagesForMapping r) l S;
        if ok then Some (OsStatusSuccess, l, S)
        else do {
          n \<leftarrow> countPagesForMapping r S;
          (ok, l, S) \<leftarrow> extra n l S;
          if ok then Some (OsStatusSuccess, l, S) else Some (OsStatusOutOfMemory, l, S) } })"

definition countRequiredPageTables :: "range \<Rightarrow> PageTables \<Rightarrow> size_t option" where
  "countRequiredPageTables r S =
     (let isMappedUsingLargePage = (\<lambda>addr. do { w \<leftarrow> walkUnlocked addr S; Some (pageSize w = eLarge) });
          frontAligned = (rfront r mod kLargePageSize = 0);
          backAligned = (rback r mod kLargePageSize = 0)
      in if frontAligned \<and> backAligned then Some 0
         else if rounddown (rfront r) kLargePageSize = rounddown (rback r) kLargePageSize
         then do { large \<leftarrow> isMappedUsingLargePage (rfront r); Some (if large then 1 else 0) }
         else do {
           a \<leftarrow> (if \<not> frontAligned then isMappedUsingLargePage (rfront r) else Some False);
           b \<leftarrow> (if \<not> backAligned then isMappedUsingLargePage (rback r) else Some False);
           Some ((if a then 1 else 0) + (if b then 1 else 0)) })"

text \<open>
  \<^verbatim>\<open>allocateExtra\<close> returns true on success; \<^verbatim>\<open>reservePageTablesForUnmapping\<close> stores that in an
  \<^verbatim>\<open>OsStatus\<close>, so that 1 (\<^verbatim>\<open>OsStatusOutOfMemory\<close>) is what it returns after a success.
\<close>

definition bool_status :: "bool \<Rightarrow> OsStatus" where
  "bool_status b = (if b then OsStatusOutOfMemory else OsStatusSuccess)"

definition reservePageTablesForUnmapping ::
  "range \<Rightarrow> PageTableList \<Rightarrow> PageTables \<Rightarrow> (OsStatus \<times> PageTableList \<times> PageTables) option" where
  "reservePageTablesForUnmapping r l S =
     do { pteCount \<leftarrow> countRequiredPageTables r S;
          if pteCount \<noteq> 0 then do {
            (ok, l, S) \<leftarrow> pt_allocateExtra pteCount l S;
            Some (bool_status ok, l, S) }
          else Some (OsStatusSuccess, l, S) }"

definition drainTableList :: "PageTableList \<Rightarrow> PageTables \<Rightarrow> PageTables option" where
  "drainTableList l S = do { A \<leftarrow> deallocateList l (mAllocator S); Some (S\<lparr>mAllocator := A\<rparr>) }"

section \<open>The public operations\<close>

definition verifyMapping :: "AddressMapping \<Rightarrow> PageTables \<Rightarrow> bool" where
  "verifyMapping mapping S \<longleftrightarrow>
     am_size mapping > 0 \<and> am_size mapping mod kPageSize = 0 \<and> am_paddr mapping mod kPageSize = 0
     \<and> am_vaddr mapping mod kPageSize = 0 \<and> isCanonicalAddress (mPageManager S) (am_vaddr mapping)"

definition addBackingMemory :: "AddressMapping \<Rightarrow> PageTables \<Rightarrow> (OsStatus \<times> PageTables) option" where
  "addBackingMemory mapping S =
     (case lt_addMemory mapping (mCache S) of
        (status, c) \<Rightarrow>
          if status \<noteq> OsStatusSuccess then Some (status, S\<lparr>mCache := c\<rparr>)
          else do {
            A \<leftarrow> addMemory (virtualRange mapping) (mAllocator S);
            Some (OsStatusSuccess, S\<lparr>mCache := c, mAllocator := A\<rparr>) })"

definition reclaimBackingMemory :: "PageTables \<Rightarrow> (OsStatus \<times> AddressMapping option \<times> PageTables) option" where
  "reclaimBackingMemory S =
     do { (status, reclaimed, c) \<leftarrow> lt_reclaimMemory (mCache S);
          let S = S\<lparr>mCache := c\<rparr>;
          if status \<noteq> OsStatusSuccess then Some (status, None, S)
          else do {
            A \<leftarrow> releaseMemory (virtualRange (the reclaimed)) (mAllocator S);
            Some (OsStatusSuccess, reclaimed, S\<lparr>mAllocator := A\<rparr>) } }"

text \<open>The loop of \<^verbatim>\<open>map\<close> that checks the result.\<close>

partial_function (option) check_mapped :: "u64 \<Rightarrow> u64 \<Rightarrow> PageTables \<Rightarrow> unit option" where
  "check_mapped i back S =
     (if i < back then
        Option.bind (getPageSize i S) (\<lambda>sz.
        Option.bind (KM_CHECK (sz \<noteq> PageSize_eNone)) (\<lambda>_. check_mapped (i + kPageSize) back S))
      else Some ())"

definition map_request ::
  "PageMappingRequest \<Rightarrow> PageTables \<Rightarrow> (OsStatus \<times> PageMappingResult option \<times> PageTables) option" where
  "map_request request S =
     do { let mapping = req_mapping request;
          (status, buffer, result, S) \<leftarrow> allocatePageTables (virtualRange mapping) S;
          if status \<noteq> OsStatusSuccess then Some (status, result, S)
          else do {
            (buffer, S) \<leftarrow> mapWithList mapping (req_flags request) (req_type request) buffer S;
            _ \<leftarrow> check_mapped (am_vaddr mapping) (am_vaddr mapping + am_size mapping) S;
            S \<leftarrow> drainTableList buffer S;
            Some (OsStatusSuccess, None, S) } }"

definition pt_map :: "AddressMapping \<Rightarrow> PageFlags \<Rightarrow> MemoryType \<Rightarrow> PageTables \<Rightarrow> (OsStatus \<times> PageTables) option" where
  "pt_map mapping flags type S =
     do { (status, request) \<leftarrow> request_create mapping flags type;
          (case request of
             None \<Rightarrow> Some (status, S)
           | Some request \<Rightarrow> do { (status, _, S) \<leftarrow> map_request request S; Some (status, S) }) }"

section \<open>Unmapping\<close>

text \<open>The range that is left to unmap is returned with the buffer.\<close>

definition earlyUnmapWithList ::
  "size_t \<Rightarrow> range \<Rightarrow> PageTableList \<Rightarrow> PageTables \<Rightarrow> (range \<times> PageTableList \<times> PageTables) option" where
  "earlyUnmapWithList earlyAllocations r buffer S =
     (if earlyAllocations = 2 then do {
        let low = \<lparr>rfront = rfront r, rback = roundup (rfront r) kLargePageSize\<rparr>;
        let high = \<lparr>rfront = rounddown (rback r) kLargePageSize, rback = rback r\<rparr>;
        let lowPage = \<lparr>rfront = rounddown (rfront r) kLargePageSize, rback = roundup (rfront r) kLargePageSize\<rparr>;
        let highPage = \<lparr>rfront = rounddown (rback r) kLargePageSize, rback = roundup (rback r) kLargePageSize\<rparr>;
        (lt, li) \<leftarrow> getLargePageEntry (rfront low) S;
        (ht, hi) \<leftarrow> getLargePageEntry (rfront high) S;
        (allocation, buffer, S) \<leftarrow> claimListEntry buffer S;
        S \<leftarrow> cut2mMapping lt li lowPage low allocation S;
        (allocation, buffer, S) \<leftarrow> claimListEntry buffer S;
        S \<leftarrow> cut2mMapping ht hi highPage high allocation S;
        Some (\<lparr>rfront = rback low, rback = rfront high\<rparr>, buffer, S) }
      else if earlyAllocations = 1 then do {
        let page = \<lparr>rfront = rounddown (rfront r) kLargePageSize, rback = roundup (rback r) kLargePageSize\<rparr>;
        if contains page r \<and> \<not> innerAdjacent page r then do {
          (t, i) \<leftarrow> getLargePageEntry (rfront r) S;
          (allocation, buffer, S) \<leftarrow> claimListEntry buffer S;
          S \<leftarrow> split2mMapping t i page r allocation S;
          Some (empty_range, buffer, S) }
        else if rfront page \<noteq> rfront r then do {
          (t, i) \<leftarrow> getLargePageEntry (rfront r) S;
          (allocation, buffer, S) \<leftarrow> claimListEntry buffer S;
          S \<leftarrow> cut2mMapping t i page r allocation S;
          Some (empty_range, buffer, S) }
        else do {
          _ \<leftarrow> KM_CHECK (rback page \<noteq> rback r);
          (t, i) \<leftarrow> getLargePageEntry (rfront r) S;
          (allocation, buffer, S) \<leftarrow> claimListEntry buffer S;
          S \<leftarrow> cut2mMapping t i page r allocation S;
          Some (empty_range, buffer, S) } }
      else Some (r, buffer, S))"

text \<open>\<^verbatim>\<open>earlyUnmap\<close> drops what is left of its list.\<close>

definition earlyUnmap :: "range \<Rightarrow> PageTables \<Rightarrow> (OsStatus \<times> range \<times> PageTables) option" where
  "earlyUnmap r S =
     do { earlyAllocations \<leftarrow> countRequiredPageTables r S;
          if earlyAllocations = 0 then Some (OsStatusSuccess, r, S)
          else do {
            (l, S) \<leftarrow> pt_allocateList earlyAllocations S;
            (case l of
               None \<Rightarrow> Some (OsStatusOutOfMemory, r, S)
             | Some buffer \<Rightarrow> do {
                 (remaining, buffer, S) \<leftarrow> earlyUnmapWithList earlyAllocations r buffer S;
                 Some (OsStatusSuccess, remaining, S) }) } }"

partial_function (option) unmap_loop :: "u64 \<Rightarrow> u64 \<Rightarrow> PageTables \<Rightarrow> PageTables option" where
  "unmap_loop i end S =
     (if i < end then
        Option.bind (findPageMap3 (pml4 S) (pml4i i) S) (\<lambda>l3.
        case l3 of
          None \<Rightarrow> unmap_loop (i + nextMultiple i (kHugePageSize * 512)) end S
        | Some l3 \<Rightarrow>
            Option.bind (findPageMap2 l3 (pdpti i) S) (\<lambda>l2.
            case l2 of
              None \<Rightarrow> unmap_loop (i + nextMultiple i kHugePageSize) end S
            | Some l2 \<Rightarrow>
                Option.bind (entry l2 (pdi i) S) (\<lambda>pde.
                if \<not> present pde then unmap_loop (i + nextMultiple i kLargePageSize) end S
                else if is2m pde then
                  Option.bind (reclaim2m l2 (pdi i) S) (\<lambda>S.
                  unmap_loop (nextMultiple i kLargePageSize) end S)
                else
                  Option.bind (findPageTable l2 (pdi i) S) (\<lambda>pt.
                  case pt of
                    None \<Rightarrow> unmap_loop (i + kPageSize) end S
                  | Some pt \<Rightarrow>
                      Option.bind (entry pt (pti i) S) (\<lambda>t1.
                      Option.bind (set_entry pt (pti i) (setPresent False t1) S) (\<lambda>S.
                      unmap_loop (i + kPageSize) end S))))))
      else Some S)"

definition unmapUnlocked :: "range \<Rightarrow> PageTables \<Rightarrow> PageTables option" where
  "unmapUnlocked r S = unmap_loop (rfront r) (rback r) S"

definition unmapWithList :: "range \<Rightarrow> PageTableList \<Rightarrow> PageTables \<Rightarrow> (PageTableList \<times> PageTables) option" where
  "unmapWithList r buffer S =
     do { earlyAllocations \<leftarrow> countRequiredPageTables r S;
          (r, buffer, S) \<leftarrow> (if earlyAllocations \<noteq> 0 then earlyUnmapWithList earlyAllocations r buffer S
                            else Some (r, buffer, S));
          S \<leftarrow> unmapUnlocked r S;
          Some (buffer, S) }"

definition unmap :: "range \<Rightarrow> PageTables \<Rightarrow> (OsStatus \<times> PageTables) option" where
  "unmap r S =
     do { let r = alignedOut r kPageSize;
          (status, r, S) \<leftarrow> earlyUnmap r S;
          if status \<noteq> OsStatusSuccess then Some (status, S)
          else do { S \<leftarrow> unmapUnlocked r S; Some (OsStatusSuccess, S) } }"

partial_function (option) unmap2m_loop :: "u64 \<Rightarrow> u64 \<Rightarrow> PageTables \<Rightarrow> PageTables option" where
  "unmap2m_loop i back S =
     (if i < back then
        Option.bind (findPageMap3 (pml4 S) (pml4i i) S) (\<lambda>l3.
        case l3 of
          None \<Rightarrow> unmap2m_loop (i + kHugePageSize * 512) back S
        | Some l3 \<Rightarrow>
            Option.bind (findPageMap2 l3 (pdpti i) S) (\<lambda>l2.
            case l2 of
              None \<Rightarrow> unmap2m_loop (i + kHugePageSize) back S
            | Some l2 \<Rightarrow>
                Option.bind (entry l2 (pdi i) S) (\<lambda>pde.
                if \<not> present pde then unmap2m_loop (i + kLargePageSize) back S
                else
                  Option.bind (reclaim2m l2 (pdi i) S) (\<lambda>S.
                  unmap2m_loop (i + kLargePageSize) back S))))
      else Some S)"

definition unmap2m :: "range \<Rightarrow> PageTables \<Rightarrow> (OsStatus \<times> PageTables) option" where
  "unmap2m r S =
     (let valid = (rfront r mod kLargePageSize = 0 \<and> rback r mod kLargePageSize = 0 \<and> range_size r \<ge> kLargePageSize)
      in if \<not> valid then Some (OsStatusInvalidInput, S)
         else do { S \<leftarrow> unmap2m_loop (rfront r) (rback r) S; Some (OsStatusSuccess, S) })"

section \<open>Statistics and shared mappings\<close>

record PageTableStats =
  allocatorStats :: PteAllocatorStats
  pml4Entries :: size_t
  pdptEntries :: size_t
  pdEntries :: size_t
  ptEntries :: size_t

text \<open>
  The four loops of \<^verbatim>\<open>stats\<close>; the tables of the two inner ones are found from the root entry again,
  whose table is \<open>l3\<close>.
\<close>

fun stats_pt :: "u64 \<Rightarrow> nat list \<Rightarrow> PageTableStats \<Rightarrow> PageTables \<Rightarrow> PageTableStats option" where
  "stats_pt l3 [] st S = Some st"
| "stats_pt l3 (l # ls) st S =
     do { pte \<leftarrow> entry l3 l S;
          stats_pt l3 ls (if present pte then st\<lparr>ptEntries := ptEntries st + 1\<rparr> else st) S }"

fun stats_pd :: "u64 \<Rightarrow> nat list \<Rightarrow> PageTableStats \<Rightarrow> PageTables \<Rightarrow> PageTableStats option" where
  "stats_pd l3 [] st S = Some st"
| "stats_pd l3 (k # ks) st S =
     do { pdte \<leftarrow> entry l3 k S;
          st \<leftarrow> (if \<not> present pdte then Some st
                else let st = st\<lparr>pdEntries := pdEntries st + 1\<rparr>
                     in if is2m pdte then Some st else stats_pt l3 [0..<512] st S);
          stats_pd l3 ks st S }"

fun stats_pdpt :: "u64 \<Rightarrow> nat list \<Rightarrow> PageTableStats \<Rightarrow> PageTables \<Rightarrow> PageTableStats option" where
  "stats_pdpt l3 [] st S = Some st"
| "stats_pdpt l3 (j # js) st S =
     do { pdpte \<leftarrow> entry l3 j S;
          st \<leftarrow> (if \<not> present pdpte then Some st
                else let st = st\<lparr>pdptEntries := pdptEntries st + 1\<rparr>
                     in if is1g pdpte then Some st else stats_pd l3 [0..<512] st S);
          stats_pdpt l3 js st S }"

fun stats_pml4 :: "nat list \<Rightarrow> PageTableStats \<Rightarrow> PageTables \<Rightarrow> PageTableStats option" where
  "stats_pml4 [] st S = Some st"
| "stats_pml4 (i # is) st S =
     do { e \<leftarrow> entry (pml4 S) i S;
          st \<leftarrow> (if \<not> present e then Some st
                else stats_pdpt (asVirtual (address (mPageManager S) e) S) [0..<512]
                       (st\<lparr>pml4Entries := pml4Entries st + 1\<rparr>) S);
          stats_pml4 is st S }"

definition pt_stats :: "PageTables \<Rightarrow> PageTableStats option" where
  "pt_stats S =
     do { st \<leftarrow> pta_stats (mAllocator S);
          stats_pml4 [0..<512]
            \<lparr>allocatorStats = st, pml4Entries = 0, pdptEntries = 0, pdEntries = 0, ptEntries = 0\<rparr> S }"

text \<open>The upper half of the root table is that of the source.\<close>

definition copyHigherHalfMappings :: "PageTables \<Rightarrow> PageTables \<Rightarrow> PageTables option" where
  "copyHigherHalfMappings tables source =
     do { p \<leftarrow> mem source (pml4 source);
          self \<leftarrow> mem tables (pml4 tables);
          Some (tables\<lparr>mem := (mem tables)(pml4 tables \<mapsto> take 256 self @ take 256 (drop 256 p) @ drop 512 self)\<rparr>) }"

declare
  partialRemap2m_loop.simps [code] and
  mapRange4k_loop.simps [code] and
  mapRange2m_loop.simps [code] and
  mapRange1g_loop.simps [code] and
  countPml4_loop.simps [code] and
  countPdpt_loop.simps [code] and
  countPd_loop.simps [code] and
  check_mapped.simps [code] and
  unmap_loop.simps [code] and
  unmap2m_loop.simps [code]

end
