(* ===== verification/PageTree.thy ===== *)
theory PageTree
  imports PageTables "HOL-Library.Sublist"
begin

text \<open>
  The tree of tables below a root. A path is a list of indices; \<open>node\<close> finds the table at the end
  of a path and \<open>at\<close> reads one of its entries. The invariant \<open>pt_inv\<close> says that the tree is a tree
  (every table is reached by one path), that its tables and the pages in reserve are apart from
  the free memory, and that an entry that is not present has no stale page size bit. Every change
  of the tables is one of three: an entry that leads nowhere is written, a fresh table is linked
  in, or a table without tables below it is taken out. This theory shows what each does to \<open>at\<close>.
\<close>

section \<open>Paths\<close>

text \<open>An entry at depth \<open>n\<close> leads to a table when it is present and is not a large page.\<close>

definition links :: "nat \<Rightarrow> u64 \<Rightarrow> bool" where
  "links n e \<longleftrightarrow> n < 3 \<and> present e \<and> (n = 0 \<or> \<not> bit e 7)"

definition target :: "PageTables \<Rightarrow> u64 \<Rightarrow> u64" where
  "target S e = asVirtual (address (mPageManager S) e) S"

fun descend :: "PageTables \<Rightarrow> u64 \<Rightarrow> nat \<Rightarrow> nat list \<Rightarrow> u64 option" where
  "descend S t n [] = Some t"
| "descend S t n (i # is) =
     do { e \<leftarrow> entry t i S; if links n e then descend S (target S e) (Suc n) is else None }"

definition node :: "PageTables \<Rightarrow> nat list \<Rightarrow> u64 option" where
  "node S p = descend S (pml4 S) 0 p"

definition at :: "PageTables \<Rightarrow> nat list \<Rightarrow> nat \<Rightarrow> u64 option" where
  "at S p i = do { t \<leftarrow> node S p; entry t i S }"

definition nodes :: "PageTables \<Rightarrow> nat list set" where
  "nodes S = {p. node S p \<noteq> None}"

lemma descend_append:
  "descend S t n (p @ q) = do { t' \<leftarrow> descend S t n p; descend S t' (n + length p) q }"
proof (induction p arbitrary: t n)
  case (Cons i p)
  then show ?case by (cases "entry t i S") auto
qed simp

lemma node_Nil [simp]: "node S [] = Some (pml4 S)"
  by (simp add: node_def)

lemma node_snoc: "node S (p @ [i]) = do { e \<leftarrow> at S p i; if links (length p) e then Some (target S e) else None }"
proof (cases "descend S (pml4 S) 0 p")
  case (Some t)
  then show ?thesis by (cases "entry t i S") (auto simp: node_def at_def descend_append)
qed (simp add: node_def at_def descend_append)

lemma node_snocD: "node S (p @ [i]) \<noteq> None \<Longrightarrow> p \<in> nodes S"
  by (cases "node S p") (auto simp: node_snoc at_def nodes_def)

lemma node_length: "node S p = Some t \<Longrightarrow> length p \<le> 3"
  by (induction p rule: rev_induct) (auto simp: node_snoc links_def bind_Some_iff split: if_splits)

lemma Nil_nodes [simp]: "[] \<in> nodes S"
  by (simp add: nodes_def)

lemma nodes_Some: "p \<in> nodes S \<Longrightarrow> \<exists>t. node S p = Some t"
  by (simp add: nodes_def)

lemma nodes_butlast: "p @ [i] \<in> nodes S \<Longrightarrow> p \<in> nodes S"
  using node_snocD by (simp add: nodes_def)

section \<open>The invariant\<close>

definition entry_ok :: "PageFlags \<Rightarrow> nat \<Rightarrow> u64 \<Rightarrow> bool" where
  "entry_ok mid n e \<longleftrightarrow> (n = 1 \<longrightarrow> \<not> bit e 7) \<and> (n = 2 \<and> \<not> present e \<longrightarrow> \<not> bit e 7)
     \<and> (links n e \<longrightarrow> writeable e = bit mid 1 \<and> executable e = bit mid 2 \<and> user e = bit mid 3)"

definition tree_ok :: "PageTables \<Rightarrow> bool" where
  "tree_ok S \<longleftrightarrow>
     (\<forall>p t. node S p = Some t \<longrightarrow> (\<exists>pg. mem S t = Some pg \<and> length pg = 512))
   \<and> (\<forall>p q t. node S p = Some t \<longrightarrow> node S q = Some t \<longrightarrow> p = q)
   \<and> (\<forall>p i e. at S p i = Some e \<longrightarrow> entry_ok (mMiddleFlags S) (length p) e)"

definition page_ok :: "PageTables \<Rightarrow> u64 \<Rightarrow> bool" where
  "page_ok S t \<longleftrightarrow> t \<noteq> 0 \<and> 4096 dvd unat t \<and> unat t + 4096 < 2 ^ 64
     \<and> fst ` free_mem (mAllocator S) \<inter> {unat t ..< unat t + 4096} = {}"

text \<open>The pages in reserve: their physical addresses fit into an entry and are found again.\<close>

definition reserve_ok :: "PageTables \<Rightarrow> PageTableList \<Rightarrow> bool" where
  "reserve_ok S l \<longleftrightarrow> distinct (map mBlock l)
     \<and> (\<forall>a \<in> set l. page_ok S (mBlock a) \<and> (\<forall>p. node S p \<noteq> Some (mBlock a))
          \<and> frame (mPageManager S) (getPhysical a) \<and> asVirtual (getPhysical a) S = mBlock a)"

definition pt_inv :: "PageTables \<Rightarrow> PageTableList \<Rightarrow> bool" where
  "pt_inv S l \<longleftrightarrow> pb_ok (mPageManager S) \<and> tree_ok S \<and> pta_pages (mAllocator S)
     \<and> (\<forall>p t. node S p = Some t \<longrightarrow> page_ok S t) \<and> reserve_ok S l"

lemma tree_okD:
  assumes "tree_ok S"
  shows "node S p = Some t \<Longrightarrow> \<exists>pg. mem S t = Some pg \<and> length pg = 512"
    and "node S p = Some t \<Longrightarrow> node S q = Some t \<Longrightarrow> p = q"
    and "at S p i = Some e \<Longrightarrow> entry_ok (mMiddleFlags S) (length p) e"
  using assms unfolding tree_ok_def by blast+

lemma tree_okI:
  assumes "\<And>p t. node S p = Some t \<Longrightarrow> \<exists>pg. mem S t = Some pg \<and> length pg = 512"
    and "\<And>p q t. node S p = Some t \<Longrightarrow> node S q = Some t \<Longrightarrow> p = q"
    and "\<And>p i e. at S p i = Some e \<Longrightarrow> entry_ok (mMiddleFlags S) (length p) e"
  shows "tree_ok S"
  using assms unfolding tree_ok_def by blast

lemma pt_invD:
  assumes "pt_inv S l"
  shows "pb_ok (mPageManager S)" "tree_ok S" "pta_pages (mAllocator S)" "reserve_ok S l"
    and "node S p = Some t \<Longrightarrow> page_ok S t"
  using assms unfolding pt_inv_def by blast+

lemma at_Some:
  assumes "tree_ok S" and "p \<in> nodes S" and "i < 512"
  shows "\<exists>e. at S p i = Some e"
  using nodes_Some [OF assms(2)] tree_okD(1) [OF assms(1)] assms(3) by (fastforce simp: at_def entry_def)

lemma at_None_iff:
  assumes "tree_ok S"
  shows "at S p i = None \<longleftrightarrow> p \<notin> nodes S \<or> 512 \<le> i"
proof (cases "node S p")
  case (Some t)
  then obtain pg where "mem S t = Some pg" "length pg = 512" using tree_okD(1) [OF assms] by blast
  then show ?thesis using Some by (auto simp: at_def entry_def nodes_def)
qed (simp add: at_def nodes_def)

lemma at_node: "node S p = Some t \<Longrightarrow> at S p i = entry t i S"
  by (simp add: at_def)

section \<open>What a change of the memory keeps\<close>

text \<open>The parts of the state that decide where an entry leads.\<close>

definition same_env :: "PageTables \<Rightarrow> PageTables \<Rightarrow> bool" where
  "same_env S S' \<longleftrightarrow> pml4 S' = pml4 S \<and> mPageManager S' = mPageManager S \<and> mMiddleFlags S' = mMiddleFlags S
     \<and> (\<forall>a. asVirtual a S' = asVirtual a S)"

lemma same_env_refl [simp]: "same_env S S"
  by (simp add: same_env_def)

lemma same_env_trans: "same_env S S1 \<Longrightarrow> same_env S1 S2 \<Longrightarrow> same_env S S2"
  by (simp add: same_env_def)

lemma same_env_target: "same_env S S' \<Longrightarrow> target S' e = target S e"
  by (simp add: same_env_def target_def)

lemma node_frame:
  assumes ok: "tree_ok S" and env: "same_env S S'" and q: "node S q = Some t"
    and fr: "\<And>p t' j. node S p = Some t' \<Longrightarrow> (t', j) \<noteq> (t, i) \<Longrightarrow> \<not> prefix (q @ [i]) p \<Longrightarrow> entry t' j S' = entry t' j S"
  shows "\<not> prefix (q @ [i]) p \<Longrightarrow> node S' p = node S p"
proof (induction p rule: rev_induct)
  case Nil
  then show ?case using env by (simp add: same_env_def)
next
  case (snoc j p)
  then have p: "node S' p = node S p" "\<not> prefix (q @ [i]) p" and ne: "p @ [j] \<noteq> q @ [i]" by auto
  show ?case
  proof (cases "node S p")
    case (Some t')
    have "(t', j) \<noteq> (t, i)" using tree_okD(2) [OF ok q, of p] Some ne by auto
    then have "entry t' j S' = entry t' j S" using fr Some p(2) by blast
    then show ?thesis using p Some by (cases "entry t' j S") (simp_all add: node_snoc at_def same_env_target [OF env])
  qed (use p in \<open>simp add: node_snoc at_def\<close>)
qed

lemma prefix_longer: "prefix (q @ [i]) p \<Longrightarrow> p \<noteq> q @ [i] \<Longrightarrow> \<exists>j. prefix (q @ [i, j]) p"
  by (metis append_one_prefix append.assoc append_Cons append_Nil prefix_length_less prefix_order.le_imp_less_or_eq)

lemma not_prefix_self [simp]: "\<not> prefix (q @ [i]) q"
  by (auto dest: prefix_length_le)

lemma node_Some_prefix: "prefix p q \<Longrightarrow> node S q = Some t \<Longrightarrow> p \<in> nodes S"
proof (induction q arbitrary: t rule: rev_induct)
  case Nil
  then show ?case by simp
next
  case (snoc x q)
  show ?case
  proof (cases "p = q @ [x]")
    case True
    then show ?thesis using snoc.prems by (simp add: nodes_def)
  next
    case False
    then have pq: "prefix p q" using snoc.prems by simp
    have "q \<in> nodes S" using snoc.prems(2) nodes_butlast [of q x S] by (simp add: nodes_def)
    then show ?thesis using snoc.IH [OF pq] nodes_Some by blast
  qed
qed

lemma node_None_prefix: "prefix p q \<Longrightarrow> node S p = None \<Longrightarrow> node S q = None"
  using node_Some_prefix [of p q S] by (cases "node S q") (auto simp: nodes_def)

section \<open>Writing an entry\<close>

definition upd_entry :: "u64 \<Rightarrow> nat \<Rightarrow> u64 \<Rightarrow> PageTables \<Rightarrow> PageTables" where
  "upd_entry t i e S = S\<lparr>mem := (mem S)(t \<mapsto> (the (mem S t))[i := e])\<rparr>"

lemma upd_entry_fields [simp]:
  "mCache (upd_entry t i e S) = mCache S" "mAllocator (upd_entry t i e S) = mAllocator S"
  "mPageManager (upd_entry t i e S) = mPageManager S" "mRootAllocation (upd_entry t i e S) = mRootAllocation S"
  "mMiddleFlags (upd_entry t i e S) = mMiddleFlags S" "pml4 (upd_entry t i e S) = pml4 S"
  "asVirtual a (upd_entry t i e S) = asVirtual a S" "same_env S (upd_entry t i e S)"
  by (simp_all add: upd_entry_def pml4_def asVirtual_def same_env_def)

lemma entry_upd_entry:
  assumes "entry t i S = Some e0"
  shows "entry t' j (upd_entry t i e S) = (if t' = t \<and> j = i then Some e else entry t' j S)"
  using assms by (auto simp: entry_def upd_entry_def bind_Some_iff split: if_splits)

lemma set_entry_upd: "entry t i S = Some e0 \<Longrightarrow> set_entry t i e S = Some (upd_entry t i e S)"
  by (auto simp: entry_def set_entry_def upd_entry_def bind_Some_iff split: if_splits)

lemma upd_entry_twice: "mem S t = Some pg \<Longrightarrow> upd_entry t i e (upd_entry t i e' S) = upd_entry t i e S"
  by (simp add: upd_entry_def)

lemma set_entry_flags_upd:
  assumes "entry t i S = Some e0" and "setEntryFlags (mPageManager S) flags a e0 = Some e"
  shows "set_entry_flags t i flags a S = Some (upd_entry t i e S)"
  using assms by (simp add: set_entry_flags_def set_entry_upd)

lemma length_upd_entry:
  "mem S t' = Some pg \<Longrightarrow> length pg = n \<Longrightarrow> \<exists>pg. mem (upd_entry t i e S) t' = Some pg \<and> length pg = n"
  by (auto simp: upd_entry_def)

text \<open>An entry that leads nowhere becomes another one that leads nowhere.\<close>

lemma upd_leaf:
  assumes inv: "pt_inv S l" and q: "node S q = Some t" and e0: "at S q i = Some e0"
    and l0: "\<not> links (length q) e0" and l1: "\<not> links (length q) e" and ok: "entry_ok (mMiddleFlags S) (length q) e"
  shows "pt_inv (upd_entry t i e S) l"
    and "node (upd_entry t i e S) = node S"
    and "at (upd_entry t i e S) = (\<lambda>p j. if p = q \<and> j = i then Some e else at S p j)"
proof -
  let ?S = "upd_entry t i e S"
  note I = pt_invD [OF inv] and T = tree_okD [OF pt_invD(2) [OF inv]]
  have en: "entry t i S = Some e0" using e0 q by (simp add: at_def)
  have fr: "\<not> prefix (q @ [i]) p \<Longrightarrow> node ?S p = node S p" for p
    by (rule node_frame [OF I(2) _ q, where i = i]) (auto simp: entry_upd_entry [OF en])
  have none: "node S (q @ [i]) = None" using e0 l0 by (simp add: node_snoc)
  have none': "node ?S (q @ [i]) = None" using fr [of q] q l1 by (simp add: node_snoc at_def entry_upd_entry [OF en])
  show n: "node ?S = node S"
  proof
    fix p
    show "node ?S p = node S p"
    proof (cases "prefix (q @ [i]) p")
      case True
      then show ?thesis using node_None_prefix [OF True] none none' by metis
    qed (rule fr)
  qed
  show a: "at ?S = (\<lambda>p j. if p = q \<and> j = i then Some e else at S p j)"
  proof (intro ext)
    fix p j
    show "at ?S p j = (if p = q \<and> j = i then Some e else at S p j)"
      using q T(2) [OF q, of p] by (cases "node S p") (auto simp: at_def n entry_upd_entry [OF en])
  qed
  have "tree_ok ?S"
  proof (rule tree_okI, unfold n a)
    show "\<exists>pg. mem ?S t' = Some pg \<and> length pg = 512" if "node S p = Some t'" for p t'
      using T(1) [OF that] length_upd_entry [of S t' _ 512 t i e] by blast
  qed (use T(2,3) ok in \<open>auto split: if_splits\<close>)
  then show "pt_inv ?S l" using I by (auto simp: pt_inv_def n reserve_ok_def page_ok_def)
qed

section \<open>Pages outside the tree\<close>

lemma lt_find_cong:
  assumes "mKeys c' = mKeys c" and "\<And>j. me_count (mValues c' ! j) = me_count (mValues c ! j)"
    and "\<And>j. me_vaddr (mValues c' ! j) = me_vaddr (mValues c ! j)"
  shows "lt_find p c' = lt_find p c"
  by (simp add: lt_find_def fm_isEmpty_def fm_count_def Let_def assms)

lemma nth_update_field: "f x = f (xs ! i) \<Longrightarrow> f (xs[i := x] ! j) = f (xs ! j)"
  by (cases "i < length xs"; cases "j = i") (simp_all add: list_update_beyond)

lemma lt_find_retain [simp]: "lt_find p (lt_retain q c) = lt_find p c"
  by (rule lt_find_cong) (auto simp: lt_retain_def split: option.split intro: nth_update_field)

lemma lt_find_release [simp]: "lt_find p (lt_release q c) = lt_find p c"
  by (rule lt_find_cong) (auto simp: lt_release_def split: option.split intro: nth_update_field)

definition spare :: "PageTables \<Rightarrow> u64 \<Rightarrow> bool" where
  "spare S v \<longleftrightarrow> page_ok S v \<and> (\<forall>p. node S p \<noteq> Some v)"

lemma node_same:
  assumes env: "same_env S S'" and m: "\<And>p t. node S p = Some t \<Longrightarrow> mem S' t = mem S t"
  shows "node S' = node S" and "at S' = at S"
proof -
  have "node S' p = node S p" for p
  proof (induction p rule: rev_induct)
    case (snoc j p)
    show ?case
    proof (cases "node S p")
      case (Some t)
      then have "entry t j S' = entry t j S" using m by (simp add: entry_def)
      then show ?thesis using snoc Some by (cases "entry t j S") (simp_all add: node_snoc at_def same_env_target [OF env])
    qed (use snoc in \<open>simp add: node_snoc at_def\<close>)
  qed (use env in \<open>simp add: same_env_def\<close>)
  then show n: "node S' = node S" by blast
  show "at S' = at S"
  proof (intro ext)
    fix p i show "at S' p i = at S p i" using m by (cases "node S p") (auto simp: at_def n entry_def)
  qed
qed

lemma inv_same:
  assumes inv: "pt_inv S l" and env: "same_env S S'" and al: "mAllocator S' = mAllocator S"
    and m: "\<And>p t. node S p = Some t \<Longrightarrow> mem S' t = mem S t"
  shows "pt_inv S' l"
proof -
  have N: "node S' = node S" "at S' = at S" using node_same [OF env] m by blast+
  note I = pt_invD [OF inv]
  have pk: "page_ok S' = page_ok S" by (simp add: page_ok_def al fun_eq_iff)
  have "tree_ok S'"
  proof (rule tree_okI, unfold N)
    show "\<exists>pg. mem S' t = Some pg \<and> length pg = 512" if "node S p = Some t" for p t
      using tree_okD(1) [OF I(2) that] m [OF that] by simp
  qed (use tree_okD(2,3) [OF I(2)] env in \<open>auto simp: same_env_def\<close>)
  then show ?thesis using I env unfolding pt_inv_def reserve_ok_def N pk by (simp add: al same_env_def)
qed

lemma pt_inv_Cons:
  assumes "pt_inv S (a # l)"
  shows "pt_inv S l" "spare S (mBlock a)" "mBlock a \<notin> mBlock ` set l" "frame (mPageManager S) (getPhysical a)"
    "asVirtual (getPhysical a) S = mBlock a" "mBlock a \<noteq> 0"
  using assms by (auto simp: pt_inv_def reserve_ok_def spare_def page_ok_def)

lemma claimListEntry_spec:
  assumes inv: "pt_inv S (a # l)"
  shows "\<exists>S1. claimListEntry (a # l) S = Some (a, l, S1) \<and> pt_inv S1 l \<and> same_env S S1 \<and> mAllocator S1 = mAllocator S
    \<and> node S1 = node S \<and> at S1 = at S \<and> spare S1 (mBlock a) \<and> mem S1 (mBlock a) = Some zero_page"
proof -
  note C = pt_inv_Cons [OF inv]
  define S1 where "S1 = S\<lparr>mCache := lt_retain (getPhysical a) (mCache S), mem := (mem S)(mBlock a \<mapsto> zero_page)\<rparr>"
  have env: "same_env S S1" by (simp add: same_env_def S1_def pml4_def asVirtual_def)
  have m: "mem S1 t = mem S t" if "node S p = Some t" for p t using that C(2) by (auto simp: S1_def spare_def)
  have N: "node S1 = node S" "at S1 = at S" using node_same [OF env] m by blast+
  have al: "mAllocator S1 = mAllocator S" by (simp add: S1_def)
  then have I: "pt_inv S1 l" using inv_same [OF C(1) env] m by blast
  have "claimListEntry (a # l) S = Some (a, l, S1)"
    using C(6) by (simp add: claimListEntry_def pt_list_next_def isPresent_def S1_def getVirtual_def)
  moreover have "spare S1 (mBlock a)" using C(2) by (simp add: spare_def N page_ok_def al)
  moreover have "mem S1 (mBlock a) = Some zero_page" by (simp add: S1_def)
  ultimately show ?thesis using N I env al by blast
qed

text \<open>Writing to a spare page leaves the tree alone.\<close>

lemma upd_spare:
  assumes inv: "pt_inv S l" and v: "spare S v"
  shows "pt_inv (upd_entry v j e S) l" "node (upd_entry v j e S) = node S" "at (upd_entry v j e S) = at S"
    "spare (upd_entry v j e S) v"
proof -
  have m: "mem (upd_entry v j e S) t = mem S t" if "node S p = Some t" for p t
    using that v by (auto simp: spare_def upd_entry_def)
  show N: "node (upd_entry v j e S) = node S" "at (upd_entry v j e S) = at S"
    using node_same [OF upd_entry_fields(8)] m by blast+
  show "pt_inv (upd_entry v j e S) l" using inv_same [OF inv upd_entry_fields(8) upd_entry_fields(2)] m by blast
  show "spare (upd_entry v j e S) v" using v by (simp add: spare_def N page_ok_def)
qed

section \<open>Linking a table in\<close>

lemma link_table:
  assumes inv: "pt_inv S l" and q: "node S q = Some t" and e0: "at S q i = Some e0" and l0: "\<not> links (length q) e0"
    and v: "spare S v" "v \<notin> mBlock ` set l" "mem S v = Some pg" "length pg = 512"
    and pg: "\<forall>e \<in> set pg. \<not> links (Suc (length q)) e \<and> entry_ok (mMiddleFlags S) (Suc (length q)) e"
    and e: "links (length q) e" "entry_ok (mMiddleFlags S) (length q) e" "target S e = v"
  shows "pt_inv (upd_entry t i e S) l"
    and "node (upd_entry t i e S) = (node S)(q @ [i] \<mapsto> v)"
    and "at (upd_entry t i e S) = (\<lambda>p j. if p = q @ [i] then (if j < 512 then Some (pg ! j) else None)
           else if p = q \<and> j = i then Some e else at S p j)"
proof -
  let ?S = "upd_entry t i e S"
  note I = pt_invD [OF inv] and T = tree_okD [OF pt_invD(2) [OF inv]]
  have en: "entry t i S = Some e0" using e0 q by (simp add: at_def)
  have tv: "t \<noteq> v" using v(1) q by (auto simp: spare_def)
  have fr: "\<not> prefix (q @ [i]) p \<Longrightarrow> node ?S p = node S p" for p
    by (rule node_frame [OF I(2) _ q, where i = i]) (auto simp: entry_upd_entry [OF en])
  have none: "node S (q @ [i]) = None" using e0 l0 by (simp add: node_snoc)
  have new: "node ?S (q @ [i]) = Some v"
    using fr [of q] q e by (simp add: node_snoc at_def entry_upd_entry [OF en] same_env_target [OF upd_entry_fields(8)])
  have newat: "at ?S (q @ [i]) j = (if j < 512 then Some (pg ! j) else None)" for j
    using tv v(3,4) by (simp add: at_def new entry_upd_entry [OF en]) (simp add: entry_def)
  have below: "node ?S ((q @ [i]) @ [j]) = None" for j
    unfolding node_snoc newat using pg v(4) by (auto simp: bind_Some_iff)
  show n: "node ?S = (node S)(q @ [i] \<mapsto> v)"
  proof
    fix p
    consider "p = q @ [i]" | "\<not> prefix (q @ [i]) p" | j where "prefix ((q @ [i]) @ [j]) p" "prefix (q @ [i]) p" "p \<noteq> q @ [i]"
      using prefix_longer [of q i p] by auto
    then show "node ?S p = ((node S)(q @ [i] \<mapsto> v)) p"
    proof cases
      case 3
      then show ?thesis
        using node_None_prefix [OF 3(1) below] node_None_prefix [OF 3(2) none] by simp
    qed (use new fr in auto)
  qed
  show a: "at ?S = (\<lambda>p j. if p = q @ [i] then (if j < 512 then Some (pg ! j) else None)
           else if p = q \<and> j = i then Some e else at S p j)"
  proof (intro ext)
    fix p j
    show "at ?S p j = (if p = q @ [i] then (if j < 512 then Some (pg ! j) else None)
           else if p = q \<and> j = i then Some e else at S p j)"
    proof (cases "p = q @ [i]")
      case False
      then have "node ?S p = node S p" by (simp add: n)
      then show ?thesis using False q T(2) [OF q, of p]
        by (cases "node S p") (auto simp: at_def entry_upd_entry [OF en])
    qed (simp add: newat)
  qed
  have "tree_ok ?S"
  proof (rule tree_okI)
    show "\<exists>pg. mem ?S t' = Some pg \<and> length pg = 512" if "node ?S p = Some t'" for p t'
      using that T(1) [of p t'] v(3,4) length_upd_entry [of S t' _ 512 t i e] unfolding n by (auto split: if_splits)
    show "p = p'" if "node ?S p = Some t'" "node ?S p' = Some t'" for p p' t'
      using that T(2) [of p t' p'] v(1) unfolding n spare_def by (auto split: if_splits)
    show "entry_ok (mMiddleFlags ?S) (length p) e'" if "at ?S p j = Some e'" for p j e'
      using that T(3) [of p j e'] pg e(2) v(4) unfolding a by (auto split: if_splits)
  qed
  moreover have "page_ok ?S = page_ok S" by (simp add: page_ok_def fun_eq_iff)
  ultimately show "pt_inv ?S l" using I v by (auto simp: pt_inv_def n reserve_ok_def spare_def)
qed

section \<open>Taking a table out\<close>

lemma pta_deallocate_page:
  assumes "pta_pages (mAllocator S)" and "page_ok S v"
  shows "\<exists>A. pta_deallocate v 1 slide (mAllocator S) = Some A \<and> pta_pages A
    \<and> free_mem A = free_mem (mAllocator S) \<union> {unat v ..< unat v + 4096} \<times> {slide}"
proof -
  let ?a = "\<lparr>mBlock = v, mSlide = slide\<rparr>"
  have "pages_ok [?a]" "\<forall>a \<in> set [?a]. fst ` free_mem (mAllocator S) \<inter> page_span a = {}"
    using assms(2) by (auto simp: pages_ok_def page_ok_def page_span_def)
  from pta.give_law [OF assms(1) this] show ?thesis
    by (auto simp: page_span_def getVirtual_def getSlide_def bind_Some_iff)
qed

lemma pages_apart:
  assumes "4096 dvd unat (t :: u64)" and "4096 dvd unat (v :: u64)" and "t \<noteq> v"
  shows "{unat v ..< unat v + 4096} \<inter> {unat t ..< unat t + 4096} = {}"
proof -
  obtain a b where ab: "unat t = 4096 * a" "unat v = 4096 * b" using assms(1,2) unfolding dvd_def by blast
  then have "a \<noteq> b" using assms(3) by (metis word_unat_eq_iff)
  then show ?thesis unfolding ab by (auto simp: not_less)
qed

lemma page_ok_give:
  assumes "page_ok S t" and "page_ok S v" and "t \<noteq> v"
    and "free_mem (mAllocator S') = free_mem (mAllocator S) \<union> {unat v ..< unat v + 4096} \<times> {slide}"
  shows "page_ok S' t"
  using assms pages_apart [of t v] unfolding page_ok_def by auto

lemma unlink_table:
  assumes inv: "pt_inv S l" and q: "node S q = Some t" and e0: "at S q i = Some e0" and l0: "links (length q) e0"
    and low: "\<And>j. q @ [i, j] \<notin> nodes S"
    and e: "\<not> links (length q) e" "entry_ok (mMiddleFlags S) (length q) e"
  shows "\<exists>S1. deallocate (target S e0) (address (mPageManager S) e0) S = Some S1
    \<and> entry t i S1 = Some e0 \<and> mPageManager S1 = mPageManager S \<and> mMiddleFlags S1 = mMiddleFlags S
    \<and> pt_inv (upd_entry t i e S1) l \<and> same_env S (upd_entry t i e S1)
    \<and> node (upd_entry t i e S1) = (node S)(q @ [i] := None)
    \<and> at (upd_entry t i e S1) = (\<lambda>p j. if p = q @ [i] then None else if p = q \<and> j = i then Some e else at S p j)"
proof -
  note I = pt_invD [OF inv] and T = tree_okD [OF pt_invD(2) [OF inv]]
  define v where "v = target S e0"
  define pa where "pa = address (mPageManager S) e0"
  have v: "node S (q @ [i]) = Some v" using e0 l0 by (simp add: node_snoc v_def)
  have pv: "page_ok S v" by (rule I(5) [OF v])
  obtain A where A: "pta_deallocate v 1 (pa - v) (mAllocator S) = Some A" "pta_pages A"
    "free_mem A = free_mem (mAllocator S) \<union> {unat v ..< unat v + 4096} \<times> {pa - v}"
    using pta_deallocate_page [OF I(3) pv] by blast
  define S1 where "S1 = S\<lparr>mAllocator := A, mCache := lt_release pa (mCache S), mem := (mem S)(v := None)\<rparr>"
  let ?S = "upd_entry t i e S1"
  have d: "deallocate v pa S = Some S1" using A(1) by (simp add: deallocate_def S1_def Let_def)
  have tv: "t \<noteq> v" using T(2) [OF q, of "q @ [i]"] v by auto
  have en0: "entry t i S = Some e0" using e0 q by (simp add: at_def)
  have en: "entry t i S1 = Some e0" using en0 tv by (simp add: S1_def entry_def)
  have env: "same_env S ?S" by (simp add: same_env_def S1_def pml4_def asVirtual_def upd_entry_def)
  have ent: "entry t' j ?S = entry t' j S" if "t' \<noteq> v" "(t', j) \<noteq> (t, i)" for t' j
    using that by (auto simp: entry_upd_entry [OF en]) (simp_all add: entry_def S1_def)
  have fr: "\<not> prefix (q @ [i]) p \<Longrightarrow> node ?S p = node S p" for p
  proof (rule node_frame [OF I(2) env q, where i = i])
    fix p t' j assume p: "node S p = Some t'" "(t', j) \<noteq> (t, i)" "\<not> prefix (q @ [i]) p"
    have "t' \<noteq> v" using T(2) [OF p(1), of "q @ [i]"] v p(3) by auto
    then show "entry t' j ?S = entry t' j S" using ent p(2) by blast
  qed
  have nq: "node ?S q = Some t" using fr [of q] q by simp
  have none: "node ?S (q @ [i]) = None" using nq e(1) by (simp add: node_snoc at_def entry_upd_entry [OF en])
  have below: "node S p = None" if "prefix (q @ [i]) p" "p \<noteq> q @ [i]" for p
  proof -
    from prefix_longer [OF that] obtain j where "prefix (q @ [i, j]) p" by blast
    then show ?thesis using node_None_prefix [of "q @ [i, j]" p S] low [of j] by (simp add: nodes_def)
  qed
  have n: "node ?S = (node S)(q @ [i] := None)"
  proof
    fix p show "node ?S p = ((node S)(q @ [i] := None)) p"
      using fr [of p] none below [of p] node_None_prefix [of "q @ [i]" p ?S] by (cases "prefix (q @ [i]) p") auto
  qed
  have a: "at ?S = (\<lambda>p j. if p = q @ [i] then None else if p = q \<and> j = i then Some e else at S p j)"
  proof (intro ext)
    fix p j
    show "at ?S p j = (if p = q @ [i] then None else if p = q \<and> j = i then Some e else at S p j)"
    proof (cases "p = q @ [i] \<or> node S p = None")
      case False
      then obtain t' where t': "node S p = Some t'" "p \<noteq> q @ [i]" by auto
      have "t' \<noteq> v" using T(2) [OF t'(1), of "q @ [i]"] v t'(2) by auto
      then have "entry t' j ?S = (if p = q \<and> j = i then Some e else entry t' j S)"
        using ent [of t' j] T(2) [OF q, of p] q t'(1) by (auto simp: entry_upd_entry [OF en])
      then show ?thesis using t' by (simp add: at_def n)
    qed (use q in \<open>auto simp: at_def n\<close>)
  qed
  have old: "node S p = Some t'" "t' \<noteq> v" if "node ?S p = Some t'" for p t'
    using that T(2) [of p t' "q @ [i]"] v unfolding n by (auto split: if_splits)
  have "tree_ok ?S"
  proof (rule tree_okI)
    show "\<exists>pg. mem ?S t' = Some pg \<and> length pg = 512" if "node ?S p = Some t'" for p t'
      using T(1) [OF old(1) [OF that]] old(2) [OF that] length_upd_entry [of S1 t' _ 512 t i e] by (auto simp: S1_def)
    show "p = p'" if "node ?S p = Some t'" "node ?S p' = Some t'" for p p' t'
      using T(2) old(1) that by blast
    show "entry_ok (mMiddleFlags ?S) (length p) e'" if "at ?S p j = Some e'" for p j e'
      using that T(3) [of p j e'] e(2) unfolding a by (auto simp: S1_def split: if_splits)
  qed
  moreover have pk: "page_ok ?S t'" if "page_ok S t'" "t' \<noteq> v" for t'
    using page_ok_give [OF that(1) pv that(2), of ?S "pa - v"] A(3) by (simp add: S1_def)
  moreover have "reserve_ok ?S l"
    using I(4) pk env old v unfolding reserve_ok_def same_env_def by metis
  moreover have "mPageManager ?S = mPageManager S" "mAllocator ?S = A" by (simp_all add: S1_def)
  moreover have "page_ok ?S t'" if "node ?S p = Some t'" for p t' using pk I(5) old [OF that] by blast
  ultimately have "pt_inv ?S l" using I(1) A(2) unfolding pt_inv_def by metis
  then show ?thesis using d en env n a unfolding v_def pa_def by (auto simp: S1_def)
qed

end
