(* ===== verification/PageMap.thy ===== *)
theory PageMap
  imports PageView
begin

text \<open>
  Mapping a page. \<open>grows\<close> says that a change only adds empty tables, which keeps the view. The
  tables on the way to a page are found or made, and then the leaf entry is written: \<open>map4k\<close> and
  \<open>map2m\<close> change the view at their page and nowhere else. Mapping a 4 KiB page inside a 2 MiB page
  splits the latter, and keeps the translation of the others of its pages.
\<close>

section \<open>Making tables\<close>

definition grows :: "PageTables \<Rightarrow> PageTables \<Rightarrow> nat list set \<Rightarrow> bool" where
  "grows S S' Q \<longleftrightarrow> same_env S S' \<and> mAllocator S' = mAllocator S \<and> nodes S' = nodes S \<union> Q \<and> view S' = view S
     \<and> (\<forall>p \<in> nodes S. \<forall>j. p @ [j] \<notin> Q \<longrightarrow> at S' p j = at S p j)
     \<and> (\<forall>p \<in> Q - nodes S. \<forall>j < 512. p @ [j] \<notin> Q \<longrightarrow> at S' p j = Some 0)"

lemma grows_refl: "Q \<subseteq> nodes S \<Longrightarrow> grows S S Q"
  by (auto simp: grows_def)

lemma grows_trans:
  assumes "grows S S1 Q1" and "grows S1 S2 Q2"
  shows "grows S S2 (Q1 \<union> Q2)"
  using assms unfolding grows_def by (auto intro: same_env_trans)

lemma view_cong:
  "at S' (pt_path n) (n mod 512) = at S (pt_path n) (n mod 512) \<Longrightarrow>
   at S' (pd_path n) (n div 512 mod 512) = at S (pd_path n) (n div 512 mod 512) \<Longrightarrow> view S' n = view S n"
  by (simp add: view_def split: option.split)

lemma view_link:
  assumes q: "length q < 3" and e0: "at S q i = Some e0" "\<not> present e0" and new: "\<And>j. at S (q @ [i]) j = None"
    and a: "at S' = (\<lambda>p j. if p = q @ [i] then (if j < 512 then Some 0 else None) else if p = q \<and> j = i then Some e else at S p j)"
  shows "view S' = view S"
proof
  fix n
  have z: "\<not> present 0" by (simp add: entry_bits)
  consider "pt_path n = q @ [i]" | "pd_path n = q @ [i]" | "pt_path n \<noteq> q @ [i]" "pd_path n \<noteq> q @ [i]" by blast
  then show "view S' n = view S n"
  proof cases
    case 1
    then have "pd_path n = q" "n div 512 mod 512 = i" by (simp_all add: pt_path_def)
    then show ?thesis using 1 e0 new z by (simp add: view_def a)
  next
    case 2
    then have l: "length q = 1" using length_paths(1) [of n] by simp
    have "length (pt_path n) \<noteq> length (q @ [i])" "length (pt_path n) \<noteq> length q" using l by simp_all
    then have "pt_path n \<noteq> q @ [i]" "pt_path n \<noteq> q" by metis+
    then have "at S' (pt_path n) (n mod 512) = at S (pt_path n) (n mod 512)" by (simp add: a)
    moreover have "at S (pd_path n) (n div 512 mod 512) = None" "at S' (pd_path n) (n div 512 mod 512) = Some 0"
      using 2 new by (simp_all add: a)
    ultimately show ?thesis using z by (simp add: view_def split: option.split)
  next
    case 3
    have "pt_path n \<noteq> q" using q by auto
    then have "at S' (pt_path n) (n mod 512) = at S (pt_path n) (n mod 512)" using 3 by (simp add: a)
    moreover have "\<not> (pd_path n = q \<and> n div 512 mod 512 = i)" using 3(1) by (auto simp: pt_path_def)
    then have "at S' (pd_path n) (n div 512 mod 512) = at S (pd_path n) (n div 512 mod 512)" using 3 by (auto simp: a)
    ultimately show ?thesis by (rule view_cong)
  qed
qed

text \<open>An entry that is not present gets a fresh table.\<close>

lemma ensure_table:
  assumes inv: "pt_inv S (a # l)" and q: "node S q = Some t" "length q < 3" and e0: "at S q i = Some e0" "\<not> present e0"
  shows "\<exists>S1 S'. claimListEntry (a # l) S = Some (a, l, S1)
    \<and> set_entry_flags t i (mMiddleFlags S1) (asPhysical a) S1 = Some S'
    \<and> pt_inv S' l \<and> node S' (q @ [i]) = Some (mBlock a) \<and> node S' q = Some t \<and> grows S S' {q @ [i]}"
proof -
  note C = pt_inv_Cons [OF inv]
  obtain S1 where S1: "claimListEntry (a # l) S = Some (a, l, S1)" "pt_inv S1 l" "same_env S S1"
    "mAllocator S1 = mAllocator S" "node S1 = node S" "at S1 = at S" "spare S1 (mBlock a)" "mem S1 (mBlock a) = Some zero_page"
    using claimListEntry_spec [OF inv] by blast
  have pb: "pb_ok (mPageManager S1)" and m: "mPageManager S1 = mPageManager S" "mMiddleFlags S1 = mMiddleFlags S"
    using pt_invD(1) [OF S1(2)] S1(3) by (auto simp: same_env_def)
  obtain e where e: "setEntryFlags (mPageManager S1) (mMiddleFlags S1) (getPhysical a) e0 = Some e"
    using setEntryFlags_Some [OF frame_le [OF C(4)]] m by metis
  note E = setEntryFlags_fields [OF pb e]
  have "entry_ok (mMiddleFlags S) (length q) e0" using tree_okD(3) [OF pt_invD(2) [OF inv] e0(1)] .
  then have b7: "\<not> bit e 7" if "length q \<noteq> 0"
    using that e0(2) E(6) q(2) unfolding entry_ok_def is_bits by (metis One_nat_def less_Suc_eq less_one numeral_2_eq_2 numeral_3_eq_3)
  have lk: "links (length q) e" "\<not> links (length q) e0" using E(1) b7 q(2) e0(2) by (auto simp: links_def)
  have ek: "entry_ok (mMiddleFlags S1) (length q) e"
    unfolding entry_ok_def using E(1,3,4,5) b7 by (metis zero_neq_one)
  have tg: "target S1 e = mBlock a"
    using E(2) C(4,5) m S1(3) by (simp add: target_def frame_def same_env_def)
  have z: "\<forall>x \<in> set zero_page. \<not> links (Suc (length q)) x \<and> entry_ok (mMiddleFlags S1) (Suc (length q)) x"
    by (auto simp: zero_page_def links_def entry_ok_def entry_bits)
  have en: "entry t i S1 = Some e0" using e0(1) q(1) S1(5,6) by (metis at_node)
  let ?S = "upd_entry t i e S1"
  have 0: "node S1 q = Some t" "at S1 q i = Some e0" "length zero_page = 512" using q e0 S1 by (simp_all add: zero_page_def)
  note L = link_table [OF S1(2) 0(1,2) lk(2) S1(7) C(3) S1(8) 0(3) z lk(1) ek tg]
  have sf: "set_entry_flags t i (mMiddleFlags S1) (asPhysical a) S1 = Some ?S"
    using set_entry_flags_upd [OF en] e by (simp add: asPhysical_def)
  have new: "node S (q @ [i]) = None" using e0 lk(2) by (simp add: node_snoc)
  have at': "at ?S = (\<lambda>p j. if p = q @ [i] then (if j < 512 then Some 0 else None) else if p = q \<and> j = i then Some e else at S p j)"
    unfolding L(3) S1(6) by (auto simp: zero_page_def fun_eq_iff)
  have vw: "view ?S = view S" by (rule view_link [OF q(2) e0 _ at']) (simp add: at_def new)
  have "grows S ?S {q @ [i]}"
    unfolding grows_def using S1(3,4) L(2) vw new
    by (auto simp: nodes_def S1(5) at' same_env_def split: if_splits)
  then show ?thesis using S1(1) sf L(1,2) q S1(5) by auto
qed

lemma getPageMap3_eq: "getPageMap3 = getPageMap2"
  by (intro ext) (simp add: getPageMap3_def getPageMap2_def)

text \<open>The number of tables that are missing.\<close>

definition missing :: "PageTables \<Rightarrow> nat list set \<Rightarrow> nat" where
  "missing S Q = card (Q - nodes S)"

lemma missing_single: "missing S {p} = (if p \<in> nodes S then 0 else 1)"
  by (simp add: missing_def insert_Diff_if)

lemma getPageMap_spec:
  assumes inv: "pt_inv S l" and q: "node S q = Some t" "length q < 2" and i: "i < 512"
    and room: "missing S {q @ [i]} \<le> length l"
  shows "\<exists>v S'. getPageMap2 t i l S = Some (v, drop (missing S {q @ [i]}) l, S') \<and> node S' (q @ [i]) = Some v
    \<and> pt_inv S' (drop (missing S {q @ [i]}) l) \<and> grows S S' {q @ [i]}"
proof -
  note ok = pt_invD(2) [OF inv]
  obtain e0 where e0: "at S q i = Some e0" using at_Some [OF ok, of q i] q i by (auto simp: nodes_def)
  have en: "entry t i S = Some e0" using e0 q(1) by (simp add: at_def)
  have ek: "entry_ok (mMiddleFlags S) (length q) e0" by (rule tree_okD(3) [OF ok e0])
  show ?thesis
  proof (cases "present e0")
    case True
    then have "links (length q) e0" using ek q(2) by (cases "length q") (auto simp: links_def entry_ok_def)
    then have n: "node S (q @ [i]) = Some (target S e0)" using e0 by (simp add: node_snoc)
    then have k: "missing S {q @ [i]} = 0" by (simp add: missing_single nodes_def)
    show ?thesis using True en n inv grows_refl [of "{q @ [i]}" S] unfolding k
      by (auto simp: getPageMap2_def target_def nodes_def)
  next
    case False
    then have "node S (q @ [i]) = None" using e0 by (simp add: node_snoc links_def)
    then have k: "missing S {q @ [i]} = 1" by (simp add: missing_single nodes_def)
    then obtain a l' where l: "l = a # l'" using room by (cases l) auto
    obtain S1 S' where "claimListEntry (a # l') S = Some (a, l', S1)"
      "set_entry_flags t i (mMiddleFlags S1) (asPhysical a) S1 = Some S'" "pt_inv S' l'"
      "node S' (q @ [i]) = Some (mBlock a)" "grows S S' {q @ [i]}"
      using ensure_table [OF inv [unfolded l] q(1) _ e0 False] q(2) by auto
    then show ?thesis using False en l unfolding k by (simp add: getPageMap2_def getVirtual_def)
  qed
qed

lemma missing_mono: "finite Q \<Longrightarrow> Q' \<subseteq> Q \<Longrightarrow> missing S Q' \<le> missing S Q"
  unfolding missing_def by (intro card_mono) auto

lemma missing_Un:
  assumes "finite Q1" "finite Q2" "nodes S1 = nodes S \<union> Q1"
  shows "missing S (Q1 \<union> Q2) = missing S Q1 + missing S1 Q2"
proof -
  have "(Q1 \<union> Q2) - nodes S = (Q1 - nodes S) \<union> (Q2 - nodes S1)" using assms(3) by auto
  moreover have "(Q1 - nodes S) \<inter> (Q2 - nodes S1) = {}" using assms(3) by auto
  ultimately show ?thesis unfolding missing_def using assms(1,2) by (simp add: card_Un_disjoint)
qed

text \<open>The tables above the page directory entry and above the page table entry of a page.\<close>

definition dirs :: "nat \<Rightarrow> nat list set" where
  "dirs n = {[n div 2 ^ 27 mod 512], pd_path n}"

definition tables :: "nat \<Rightarrow> nat list set" where
  "tables n = insert (pt_path n) (dirs n)"

lemma finite_dirs [simp]: "finite (dirs n)" "finite (tables n)"
  by (simp_all add: dirs_def tables_def)

definition find_pd :: "u64 \<Rightarrow> PageTableList \<Rightarrow> PageTables \<Rightarrow> (u64 \<times> PageTableList \<times> PageTables) option" where
  "find_pd v l S =
     do { (l3, l, S) \<leftarrow> getPageMap3 (pml4 S) (pml4i v) l S; getPageMap2 l3 (pdpti v) l S }"

lemma find_pd_spec:
  assumes inv: "pt_inv S l" and room: "missing S (dirs (vpn v)) \<le> length l"
  shows "\<exists>l2 S'. find_pd v l S = Some (l2, drop (missing S (dirs (vpn v))) l, S')
    \<and> node S' (pd_path (vpn v)) = Some l2 \<and> pt_inv S' (drop (missing S (dirs (vpn v))) l) \<and> grows S S' (dirs (vpn v))"
proof -
  define Q1 Q2 where "Q1 = {[pml4i v]}" and "Q2 = {[pml4i v, pdpti v]}"
  have Q: "dirs (vpn v) = Q1 \<union> Q2" by (auto simp: dirs_def Q1_def Q2_def paths_vpn index_parts pd_path_def)
  have mono: "missing S Q1 \<le> length l"
    using room missing_mono [of "Q1 \<union> Q2" Q1 S] unfolding Q by (simp add: Q1_def Q2_def)
  have 0: "node S [] = Some (pml4 S)" "length ([] :: nat list) < 2" by simp_all
  obtain l3 S1 where 1: "getPageMap2 (pml4 S) (pml4i v) l S = Some (l3, drop (missing S Q1) l, S1)"
    "node S1 [pml4i v] = Some l3" "pt_inv S1 (drop (missing S Q1) l)" "grows S S1 Q1"
    using getPageMap_spec [OF inv 0 index_less(1) [of v]] mono by (auto simp: Q1_def)
  have n1: "nodes S1 = nodes S \<union> Q1" using 1(4) by (simp add: grows_def)
  have m: "missing S (dirs (vpn v)) = missing S Q1 + missing S1 Q2"
    unfolding Q by (rule missing_Un [OF _ _ n1]) (simp_all add: Q1_def Q2_def)
  then have room2: "missing S1 Q2 \<le> length (drop (missing S Q1) l)" using room by simp
  obtain l2 S2 where 2: "getPageMap2 l3 (pdpti v) (drop (missing S Q1) l) S1 = Some (l2, drop (missing S1 Q2) (drop (missing S Q1) l), S2)"
    "node S2 [pml4i v, pdpti v] = Some l2" "pt_inv S2 (drop (missing S1 Q2) (drop (missing S Q1) l))" "grows S1 S2 Q2"
    using getPageMap_spec [OF 1(3,2) _ index_less(2) [of v]] room2 by (auto simp: Q2_def)
  have "find_pd v l S = Some (l2, drop (missing S (dirs (vpn v))) l, S2)"
    using 1(1) 2(1) by (simp add: find_pd_def getPageMap3_eq m add.commute)
  then show ?thesis using 2(2,3) grows_trans [OF 1(4) 2(4)] unfolding m by (auto simp: Q paths_vpn add.commute)
qed

section \<open>Leaf entries\<close>

definition maps_to :: "PageBuilder \<Rightarrow> PageFlags \<Rightarrow> u64 \<Rightarrow> u64 \<Rightarrow> bool" where
  "maps_to pb flags a e \<longleftrightarrow> present e \<and> address pb e = a
     \<and> writeable e = bit flags 1 \<and> executable e = bit flags 2 \<and> user e = bit flags 3"

lemma setEntryFlags_maps_to:
  assumes "pb_ok pb" and "frame pb a"
  shows "\<exists>e. setEntryFlags pb flags a e0 = Some e \<and> maps_to pb flags a e \<and> bit e 7 = bit e0 7"
proof -
  obtain e where e: "setEntryFlags pb flags a e0 = Some e" using setEntryFlags_Some [OF frame_le [OF assms(2)]] by blast
  show ?thesis using setEntryFlags_fields [OF assms(1) e] assms(2) e by (auto simp: maps_to_def frame_def is_bits)
qed

lemma view_upd_pte:
  assumes n: "n < 2 ^ 36" "m < 2 ^ 36" and p: "pt_path n \<in> nodes S" and e: "present e" and ok: "tree_ok S"
    and a: "at S' = (\<lambda>p j. if p = pt_path n \<and> j = n mod 512 then Some e else at S p j)"
  shows "view S' m = (if m = n then Some (eRegular, e) else view S m)"
proof (cases "m = n")
  case True
  then show ?thesis using e by (simp add: view_def a)
next
  case False
  then have "\<not> (pt_path m = pt_path n \<and> m mod 512 = n mod 512)" using same_page [OF n(2,1)] by blast
  moreover have "pd_path m \<noteq> pt_path n" by (metis length_paths numeral_eq_iff semiring_norm(89))
  ultimately have "view S' m = view S m" by (intro view_cong) (auto simp: a)
  then show ?thesis using False by simp
qed

text \<open>Writing a page table entry: the memory type, then the flags and the address.\<close>

lemma write_pte:
  assumes inv: "pt_inv S l" and n: "n < 2 ^ 36" and t: "node S (pt_path n) = Some t" and fr: "frame (mPageManager S) a"
  shows "\<exists>e0 S1 e S'. entry t (n mod 512) S = Some e0
    \<and> set_entry t (n mod 512) (setMemoryType_pte (mPageManager S) type e0) S = Some S1
    \<and> set_entry_flags t (n mod 512) flags a S1 = Some S'
    \<and> pt_inv S' l \<and> same_env S S' \<and> mAllocator S' = mAllocator S \<and> nodes S' = nodes S \<and> maps_to (mPageManager S) flags a e
    \<and> (\<forall>m < 2 ^ 36. view S' m = (if m = n then Some (eRegular, e) else view S m))"
proof -
  note ok = pt_invD(2) [OF inv] and pb = pt_invD(1) [OF inv]
  have pn: "pt_path n \<in> nodes S" using t by (simp add: nodes_def)
  obtain e0 where a0: "at S (pt_path n) (n mod 512) = Some e0" using at_Some [OF ok pn, of "n mod 512"] by auto
  have e0: "entry t (n mod 512) S = Some e0" using a0 t by (simp add: at_def)
  let ?f = "setMemoryType_pte (mPageManager S) type e0"
  obtain e where e: "setEntryFlags (mPageManager S) flags a ?f = Some e" "maps_to (mPageManager S) flags a e"
    using setEntryFlags_maps_to [OF pb fr] by blast
  have e1: "entry t (n mod 512) (upd_entry t (n mod 512) ?f S) = Some ?f" by (simp add: entry_upd_entry [OF e0])
  have w: "set_entry_flags t (n mod 512) flags a (upd_entry t (n mod 512) ?f S) = Some (upd_entry t (n mod 512) e S)"
  proof -
    have "mem S t \<noteq> None" using e0 by (auto simp: entry_def bind_Some_iff)
    then show ?thesis using set_entry_flags_upd [OF e1, of flags a e] e(1) by (auto simp: upd_entry_twice)
  qed
  have nl: "\<not> links (length (pt_path n)) x" for x by (simp add: links_def)
  have ek: "entry_ok (mMiddleFlags S) (length (pt_path n)) e" by (simp add: entry_ok_def links_def)
  note U = upd_leaf [OF inv t a0 nl nl ek]
  have "present e" using e(2) by (simp add: maps_to_def)
  then have "view (upd_entry t (n mod 512) e S) m = (if m = n then Some (eRegular, e) else view S m)" if "m < 2 ^ 36" for m
    using view_upd_pte [OF n that pn _ ok U(3)] by blast
  moreover have "nodes (upd_entry t (n mod 512) e S) = nodes S" by (simp add: nodes_def U(2))
  ultimately show ?thesis using e0 set_entry_upd [OF e0, of ?f] w U(1) e(2)
    by - (rule exI [of _ e0], rule exI [of _ "upd_entry t (n mod 512) ?f S"], rule exI [of _ e],
        rule exI [of _ "upd_entry t (n mod 512) e S"], simp)
qed

lemma find_pdE:
  assumes "find_pd v l S = Some (l2, l', S')"
  obtains l3 l1 S1 where "getPageMap3 (pml4 S) (pml4i v) l S = Some (l3, l1, S1)" "getPageMap2 l3 (pdpti v) l1 S1 = Some (l2, l', S')"
  using assms by (auto simp: find_pd_def bind_Some_iff)

section \<open>4 KiB pages\<close>

lemma map4k_table_spec:
  assumes inv: "pt_inv S l" and l2: "node S (pd_path (vpn v)) = Some l2"
    and room: "missing S {pt_path (vpn v)} \<le> length l" and small: "\<And>e. view S (vpn v) \<noteq> Some (eLarge, e)"
  shows "\<exists>pt S'. map4k_table v l2 l S = Some (pt, drop (missing S {pt_path (vpn v)}) l, S')
    \<and> node S' (pt_path (vpn v)) = Some pt \<and> pt_inv S' (drop (missing S {pt_path (vpn v)}) l) \<and> grows S S' {pt_path (vpn v)}"
proof -
  let ?n = "vpn v"
  obtain e2 where e2: "at S (pd_path ?n) (pdi v) = Some e2"
    using at_Some [OF pt_invD(2) [OF inv], of "pd_path ?n" "pdi v"] l2 index_less by (auto simp: nodes_def)
  have en2: "entry l2 (pdi v) S = Some e2" using e2 l2 by (simp add: at_def)
  have pp: "pt_path ?n = pd_path ?n @ [pdi v]" by (simp add: pt_path_def paths_vpn)
  have nd: "node S (pt_path ?n) = (if links 2 e2 then Some (target S e2) else None)" using e2 unfolding pp by (simp add: node_snoc)
  show ?thesis
  proof (cases "present e2")
    case False
    then have k: "missing S {pt_path ?n} = 1" using nd by (simp add: missing_single nodes_def links_def)
    then obtain x l' where l: "l = x # l'" using room by (cases l) auto
    have d3: "length (pd_path ?n) < 3" by simp
    from ensure_table [OF inv [unfolded l] l2 d3 e2 False] show ?thesis
      using False en2 k unfolding l pp by (auto simp: getVirtual_def map4k_table_def)
  next
    case True
    have b: "\<not> bit e2 7"
    proof
      assume "bit e2 7"
      then have "view S ?n = Some (eLarge, e2)" using nd e2 True by (simp add: view_def at_def paths_vpn links_def)
      then show False using small by blast
    qed
    then have n: "node S (pt_path ?n) = Some (target S e2)" using nd True by (simp add: links_def)
    then have k: "missing S {pt_path ?n} = 0" by (simp add: missing_single nodes_def)
    show ?thesis using True b n inv en2 grows_refl [of "{pt_path ?n}" S] unfolding k
      by (auto simp: is_bits target_def nodes_def map4k_table_def)
  qed
qed

lemma map4k_spec:
  assumes inv: "pt_inv S l" and room: "missing S (tables (vpn v)) \<le> length l" and fr: "frame (mPageManager S) a"
    and small: "\<And>e. view S (vpn v) \<noteq> Some (eLarge, e)"
  shows "\<exists>e S'. map4k a v flags type l S = Some (drop (missing S (tables (vpn v))) l, S')
    \<and> pt_inv S' (drop (missing S (tables (vpn v))) l) \<and> same_env S S' \<and> mAllocator S' = mAllocator S
    \<and> nodes S' = nodes S \<union> tables (vpn v) \<and> maps_to (mPageManager S) flags a e
    \<and> (\<forall>m < 2 ^ 36. view S' m = (if m = vpn v then Some (eRegular, e) else view S m))"
proof -
  let ?n = "vpn v"
  have Q: "tables ?n = dirs ?n \<union> {pt_path ?n}" by (simp add: tables_def)
  have room1: "missing S (dirs ?n) \<le> length l" by (rule le_trans [OF missing_mono room]) (auto simp: Q)
  let ?l = "drop (missing S (dirs ?n)) l"
  obtain l2 S2 where 2: "find_pd v l S = Some (l2, ?l, S2)" "node S2 (pd_path ?n) = Some l2"
    "pt_inv S2 ?l" "grows S S2 (dirs ?n)" using find_pd_spec [OF inv room1] by blast
  have m: "missing S (tables ?n) = missing S (dirs ?n) + missing S2 {pt_path ?n}"
    unfolding Q by (rule missing_Un) (use 2(4) in \<open>auto simp: grows_def\<close>)
  have sm: "view S2 ?n \<noteq> Some (eLarge, e)" for e using small 2(4) by (simp add: grows_def)
  let ?l' = "drop (missing S2 {pt_path ?n}) ?l"
  have room2: "missing S2 {pt_path ?n} \<le> length ?l" using room m by simp
  obtain pt S3 where 3: "map4k_table v l2 ?l S2 = Some (pt, ?l', S3)"
    "node S3 (pt_path ?n) = Some pt" "pt_inv S3 ?l'" "grows S2 S3 {pt_path ?n}"
    using map4k_table_spec [OF 2(3,2) room2 sm] by blast
  have g: "grows S S3 (tables ?n)" using grows_trans [OF 2(4) 3(4)] by (simp add: Q)
  have pm: "mPageManager S3 = mPageManager S" using g by (simp add: grows_def same_env_def)
  obtain e0 S4 e S5 where 5: "entry pt (pti v) S3 = Some e0"
    "set_entry pt (pti v) (setMemoryType_pte (mPageManager S3) type e0) S3 = Some S4"
    "set_entry_flags pt (pti v) flags a S4 = Some S5" "pt_inv S5 ?l'" "same_env S3 S5"
    "mAllocator S5 = mAllocator S3" "nodes S5 = nodes S3" "maps_to (mPageManager S3) flags a e"
    "\<forall>m < 2 ^ 36. view S5 m = (if m = ?n then Some (eRegular, e) else view S3 m)"
    using write_pte [OF 3(3) vpn_less 3(2), of a type flags] fr pm unfolding paths_vpn(3) by auto
  obtain l3 l1 S1 where f: "getPageMap3 (pml4 S) (pml4i v) l S = Some (l3, l1, S1)" "getPageMap2 l3 (pdpti v) l1 S1 = Some (l2, ?l, S2)"
    using find_pdE [OF 2(1)] by blast
  have "map4k a v flags type l S = Some (?l', S5)"
    unfolding map4k_def Let_def using f 3(1) 5(1,2,3) by simp
  moreover have "?l' = drop (missing S (tables ?n)) l" by (simp add: m add.commute)
  ultimately show ?thesis using 5(4,5,6,7,8,9) g pm by (auto simp: grows_def intro: same_env_trans)
qed

section \<open>2 MiB pages\<close>

lemma view_upd_pde:
  assumes n: "n < 2 ^ 36" "m < 2 ^ 36" and e: "present e"
    and a: "\<And>p j. at S' p j = (if p = pt_path n then None else if p = pd_path n \<and> j = n div 512 mod 512 then Some e else at S p j)"
  shows "view S' m = (if m div 512 = n div 512 then Some (eLarge, e) else view S m)"
proof -
  have d: "pd_path x \<noteq> pt_path y" for x y by (metis length_paths numeral_eq_iff semiring_norm(89))
  show ?thesis
  proof (cases "m div 512 = n div 512")
    case True
    then have "pt_path m = pt_path n" using same_large_page [OF n(2,1)] by blast
    moreover from this have "pd_path m = pd_path n" "m div 512 mod 512 = n div 512 mod 512" by (simp_all add: pt_path_def)
    ultimately show ?thesis using True e d [of n n] by (simp add: view_def a)
  next
    case False
    then have "pt_path m \<noteq> pt_path n" using same_large_page [OF n(2,1)] by blast
    moreover from this have "\<not> (pd_path m = pd_path n \<and> m div 512 mod 512 = n div 512 mod 512)" by (auto simp: pt_path_def)
    ultimately have "view S' m = view S m" using d d [symmetric] by (intro view_cong) (auto simp: a)
    then show ?thesis using False by simp
  qed
qed

lemma no_tables_below: "pt_path n @ [j] \<notin> nodes S"
proof
  assume "pt_path n @ [j] \<in> nodes S"
  then obtain t where "node S (pt_path n @ [j]) = Some t" using nodes_Some by blast
  from node_length [OF this] show False by simp
qed

text \<open>The memory type of a 2 MiB entry does not touch its page size bit.\<close>

lemma pdte_entry:
  assumes "pb_ok pb" and "frame pb a"
  shows "\<exists>e. setEntryFlags pb flags a (setMemoryType_pdte pb type (set2m True e0)) = Some e \<and> maps_to pb flags a e \<and> bit e 7"
proof -
  have "bit (setMemoryType_pdte pb type (set2m True e0)) 7"
    by (simp add: setMemoryType_pdte_def bit_paging_setMemoryType pdte_kPageAttributeBit_def entry_bits)
  then show ?thesis using setEntryFlags_maps_to [OF assms, of flags "setMemoryType_pdte pb type (set2m True e0)"] by blast
qed

lemma write_pde:
  assumes inv: "pt_inv S l" and l2: "node S (pd_path n) = Some t" and n: "n < 2 ^ 36" and e0: "entry t (n div 512 mod 512) S = Some e0"
    and e: "present e" "bit e 7"
  shows "\<exists>S1. (if present e0 \<and> \<not> is2m e0 then do {
                  let pt = address (mPageManager S) e0;
                  deallocate (asVirtual pt S) pt S }
                else Some S) = Some S1
    \<and> entry t (n div 512 mod 512) S1 = Some e0 \<and> mPageManager S1 = mPageManager S
    \<and> pt_inv (upd_entry t (n div 512 mod 512) e S1) l \<and> same_env S (upd_entry t (n div 512 mod 512) e S1)
    \<and> nodes (upd_entry t (n div 512 mod 512) e S1) = nodes S - {pt_path n}
    \<and> (pt_path n \<notin> nodes S \<longrightarrow> mAllocator S1 = mAllocator S)
    \<and> (\<forall>m < 2 ^ 36. view (upd_entry t (n div 512 mod 512) e S1) m = (if m div 512 = n div 512 then Some (eLarge, e) else view S m))"
proof -
  let ?i = "n div 512 mod 512"
  have a0: "at S (pd_path n) ?i = Some e0" using e0 l2 by (simp add: at_def)
  have pp: "pt_path n = pd_path n @ [?i]" by (simp add: pt_path_def)
  have nd: "node S (pt_path n) = (if links 2 e0 then Some (target S e0) else None)" using a0 unfolding pp by (simp add: node_snoc)
  have nl: "\<not> links (length (pd_path n)) e" and ek: "entry_ok (mMiddleFlags S) (length (pd_path n)) e"
    using e by (simp_all add: links_def entry_ok_def)
  have c: "present e0 \<and> \<not> is2m e0 \<longleftrightarrow> links 2 e0" by (simp add: links_def is_bits)
  show ?thesis
  proof (cases "links 2 e0")
    case True
    then have lk: "links (length (pd_path n)) e0" by simp
    have low: "pd_path n @ [?i, j] \<notin> nodes S" for j using no_tables_below [of n j S] by (simp add: pp)
    obtain S1 where S1: "deallocate (target S e0) (address (mPageManager S) e0) S = Some S1" "entry t ?i S1 = Some e0"
      "mPageManager S1 = mPageManager S" "pt_inv (upd_entry t ?i e S1) l" "same_env S (upd_entry t ?i e S1)"
      "node (upd_entry t ?i e S1) = (node S)(pd_path n @ [?i] := None)"
      "at (upd_entry t ?i e S1) = (\<lambda>p j. if p = pd_path n @ [?i] then None else if p = pd_path n \<and> j = ?i then Some e else at S p j)"
      using unlink_table [OF inv l2 a0 lk low nl ek] by blast
    have "pt_path n \<in> nodes S" using nd True by (simp add: nodes_def)
    moreover have "nodes (upd_entry t ?i e S1) = nodes S - {pt_path n}" by (auto simp: nodes_def S1(6) pp)
    ultimately show ?thesis using S1 True view_upd_pde [OF n _ e(1), of _ "upd_entry t ?i e S1" S]
      unfolding c by (auto simp: target_def pp Let_def)
  next
    case False
    then have nn: "pt_path n \<notin> nodes S" using nd by (simp add: nodes_def)
    have lk: "\<not> links (length (pd_path n)) e0" using False by simp
    note U = upd_leaf [OF inv l2 a0 lk nl ek]
    have none: "at S (pt_path n) j = None" for j using nn by (simp add: at_def nodes_def)
    have "at (upd_entry t ?i e S) p j = (if p = pt_path n then None else if p = pd_path n \<and> j = ?i then Some e else at S p j)" for p j
      using none by (simp add: U(3) pt_path_def)
    then have "view (upd_entry t ?i e S) m = (if m div 512 = n div 512 then Some (eLarge, e) else view S m)" if "m < 2 ^ 36" for m
      using view_upd_pde [OF n that e(1)] by blast
    moreover have "nodes (upd_entry t ?i e S) = nodes S - {pt_path n}" using nn by (auto simp: nodes_def U(2))
    ultimately show ?thesis using False nn e0 U(1) unfolding c by auto
  qed
qed

lemma map2m_spec:
  assumes inv: "pt_inv S l" and room: "missing S (dirs (vpn v)) \<le> length l" and fr: "frame (mPageManager S) a"
  shows "\<exists>e S'. map2m a v flags type l S = Some (drop (missing S (dirs (vpn v))) l, S')
    \<and> pt_inv S' (drop (missing S (dirs (vpn v))) l) \<and> same_env S S'
    \<and> (pt_path (vpn v) \<notin> nodes S \<longrightarrow> mAllocator S' = mAllocator S)
    \<and> nodes S' = nodes S \<union> dirs (vpn v) - {pt_path (vpn v)} \<and> maps_to (mPageManager S) flags a e \<and> bit e 7
    \<and> (\<forall>m < 2 ^ 36. view S' m = (if m div 512 = vpn v div 512 then Some (eLarge, e) else view S m))"
proof -
  let ?n = "vpn v" and ?l = "drop (missing S (dirs (vpn v))) l"
  obtain l2 S2 where 2: "find_pd v l S = Some (l2, ?l, S2)" "node S2 (pd_path ?n) = Some l2" "pt_inv S2 ?l" "grows S S2 (dirs ?n)"
    using find_pd_spec [OF inv room] by blast
  have pm: "mPageManager S2 = mPageManager S" using 2(4) by (simp add: grows_def same_env_def)
  obtain e0 where e0: "entry l2 (pdi v) S2 = Some e0"
    using at_Some [OF pt_invD(2) [OF 2(3)], of "pd_path ?n" "pdi v"] 2(2) index_less by (auto simp: nodes_def at_def)
  let ?f = "setMemoryType_pdte (mPageManager S) type (set2m True e0)"
  obtain e where e: "setEntryFlags (mPageManager S) flags a ?f = Some e" "maps_to (mPageManager S) flags a e" "bit e 7"
    using pdte_entry [OF pt_invD(1) [OF inv] fr] by blast
  have pe: "present e" using e(2) by (simp add: maps_to_def)
  have e0': "entry l2 (?n div 512 mod 512) S2 = Some e0" using e0 by (simp add: paths_vpn)
  from write_pde [OF 2(3,2) vpn_less e0' pe e(3)] obtain S3 where 3: "(if present e0 \<and> \<not> is2m e0 then do {
                  let pt = address (mPageManager S2) e0;
                  deallocate (asVirtual pt S2) pt S2 }
                else Some S2) = Some S3"
    "entry l2 (pdi v) S3 = Some e0" "mPageManager S3 = mPageManager S2"
    "pt_inv (upd_entry l2 (pdi v) e S3) ?l" "same_env S2 (upd_entry l2 (pdi v) e S3)"
    "nodes (upd_entry l2 (pdi v) e S3) = nodes S2 - {pt_path ?n}" "pt_path ?n \<notin> nodes S2 \<longrightarrow> mAllocator S3 = mAllocator S2"
    "\<forall>m < 2 ^ 36. view (upd_entry l2 (pdi v) e S3) m = (if m div 512 = ?n div 512 then Some (eLarge, e) else view S2 m)"
    unfolding paths_vpn by blast
  have w: "set_entry_flags l2 (pdi v) flags a (upd_entry l2 (pdi v) ?f S3) = Some (upd_entry l2 (pdi v) e S3)"
  proof -
    have "entry l2 (pdi v) (upd_entry l2 (pdi v) ?f S3) = Some ?f" by (simp add: entry_upd_entry [OF 3(2)])
    moreover have "mem S3 l2 \<noteq> None" using 3(2) by (auto simp: entry_def bind_Some_iff)
    ultimately show ?thesis using set_entry_flags_upd [of l2 "pdi v" "upd_entry l2 (pdi v) ?f S3" ?f flags a e] e(1) 3(3) pm
      by (auto simp: upd_entry_twice)
  qed
  obtain l3 l1 S1 where f: "getPageMap3 (pml4 S) (pml4i v) l S = Some (l3, l1, S1)" "getPageMap2 l3 (pdpti v) l1 S1 = Some (l2, ?l, S2)"
    using find_pdE [OF 2(1)] by blast
  have "map2m a v flags type l S = Some (?l, upd_entry l2 (pdi v) e S3)"
    unfolding map2m_def Let_def using f e0 3(1) [unfolded Let_def] 3(2,3) pm w set_entry_upd [OF 3(2), of ?f] by simp
  moreover have "pt_path ?n \<notin> nodes S \<Longrightarrow> pt_path ?n \<notin> nodes S2"
    using 2(4) by (auto simp: grows_def dirs_def pd_path_def pt_path_def)
  ultimately show ?thesis using 3(4,5,6,7,8) 2(4) e(2,3) by (auto simp: grows_def intro: same_env_trans)
qed

end
