(* ===== verification/PageSplit.thy ===== *)
theory PageSplit
  imports PageMap
begin

text \<open>
  Mapping a 4 KiB page inside a 2 MiB page. The new page table is filled before it is linked in,
  then the entry of the 2 MiB page becomes a link to it. Shown here: for an inner page the
  translation of all other pages stays as it was; for the first and the last page of the 2 MiB
  page the code stops with a bug check.
\<close>

lemma paths_differ [simp]: "pd_path x \<noteq> pt_path y" "pt_path y \<noteq> pd_path x"
  by (metis length_paths numeral_eq_iff semiring_norm(89))+

section \<open>Addresses inside a 2 MiB page\<close>

definition large_base :: "u64 \<Rightarrow> bool" where
  "large_base b \<longleftrightarrow> 2 ^ 21 dvd unat b \<and> unat b + 2 ^ 21 < 2 ^ 64"

lemma page_of:
  assumes "large_base b" and "k \<le> 512"
  shows "unat (b + of_nat k * kPageSize) = unat b + k * 4096"
proof -
  have "unat (of_nat k * kPageSize :: u64) = k * 4096"
    using assms(2) by (simp add: kPageSize_def unat_word_ariths unat_of_nat)
  then show ?thesis using assms by (subst unat_add_small) (auto simp: large_base_def)
qed

lemma pti_page:
  assumes "large_base b" and "k < 512"
  shows "pti (b + of_nat k * kPageSize) = k"
proof -
  obtain x where x: "unat b = 2 ^ 21 * x" using assms(1) by (auto simp: large_base_def)
  have "vpn (b + of_nat k * kPageSize) mod 512 = (512 * x + k) mod 512"
    using assms page_of [OF assms(1), of k] x by (simp add: vpn_def mod_mod_cancel)
  then show ?thesis using assms(2) by (simp add: paths_vpn)
qed

lemma page_less:
  assumes "large_base b" and "j \<le> 512" and "k \<le> 512"
  shows "b + of_nat j * kPageSize < b + of_nat k * kPageSize \<longleftrightarrow> j < k"
    and "b + of_nat j * kPageSize = b + of_nat k * kPageSize \<longleftrightarrow> j = k"
  using page_of [OF assms(1,2)] page_of [OF assms(1,3)] by (simp_all add: word_less_nat_alt word_unat_eq_iff)

section \<open>Filling the table\<close>

definition filled :: "PageTables \<Rightarrow> u64 \<Rightarrow> nat \<Rightarrow> nat \<Rightarrow> page \<Rightarrow> page \<Rightarrow> bool" where
  "filled S paddr k0 k1 pg pg' \<longleftrightarrow> length pg' = 512
     \<and> (\<forall>j < 512. if k0 \<le> j \<and> j < k1
          then maps_to (mPageManager S) (mMiddleFlags S) (paddr + of_nat j * kPageSize) (pg' ! j) else pg' ! j = pg ! j)"

text \<open>What the loops may change: only the contents of the spare page.\<close>

definition only_page :: "u64 \<Rightarrow> PageTableList \<Rightarrow> PageTables \<Rightarrow> PageTables \<Rightarrow> bool" where
  "only_page v l S S' \<longleftrightarrow> pt_inv S' l \<and> node S' = node S \<and> at S' = at S \<and> spare S' v \<and> same_env S S'
     \<and> mAllocator S' = mAllocator S"

lemma only_page_trans: "only_page v l S S1 \<Longrightarrow> only_page v l S1 S2 \<Longrightarrow> only_page v l S S2"
  by (auto simp: only_page_def intro: same_env_trans)

lemma remap_step:
  assumes inv: "pt_inv S l" and v: "spare S v" and pg: "mem S v = Some pg" "length pg = 512" and k: "k < 512"
    and fr: "frame (mPageManager S) a"
  shows "\<exists>e S1 S'. entry v k S = Some (pg ! k)
    \<and> set_entry v k (setMemoryType_pte (mPageManager S) type (pg ! k)) S = Some S1
    \<and> set_entry_flags v k (mMiddleFlags S1) a S1 = Some S' \<and> maps_to (mPageManager S) (mMiddleFlags S) a e
    \<and> mem S' v = Some (pg[k := e]) \<and> only_page v l S S'"
proof -
  have e0: "entry v k S = Some (pg ! k)" using pg k by (simp add: entry_def)
  let ?f = "setMemoryType_pte (mPageManager S) type (pg ! k)"
  obtain e where e: "setEntryFlags (mPageManager S) (mMiddleFlags S) a ?f = Some e" "maps_to (mPageManager S) (mMiddleFlags S) a e"
    using setEntryFlags_maps_to [OF pt_invD(1) [OF inv] fr] by blast
  have e1: "entry v k (upd_entry v k ?f S) = Some ?f" by (simp add: entry_upd_entry [OF e0])
  have "set_entry_flags v k (mMiddleFlags S) a (upd_entry v k ?f S) = Some (upd_entry v k e S)"
    using set_entry_flags_upd [OF e1, of "mMiddleFlags S" a e] e(1) pg by (simp add: upd_entry_twice)
  moreover have "mem (upd_entry v k e S) v = Some (pg[k := e])" using pg by (simp add: upd_entry_def)
  moreover have "only_page v l S (upd_entry v k e S)" using upd_spare [OF inv v] by (simp add: only_page_def)
  ultimately show ?thesis using e0 set_entry_upd [OF e0, of ?f] e(2)
    by - (rule exI [of _ e], rule exI [of _ "upd_entry v k ?f S"], rule exI [of _ "upd_entry v k e S"], simp)
qed

lemma remap_loop:
  assumes b: "large_base b" and r: "rfront r = b + of_nat k0 * kPageSize" "rback r = b + of_nat k1 * kPageSize" "k1 \<le> 512"
    and k: "k0 \<le> k" "k \<le> k1"
    and fr: "\<forall>j < 512. frame (mPageManager S) (paddr + of_nat j * kPageSize)"
    and inv: "pt_inv S l" and v: "spare S v" and pg: "mem S v = Some pg" "length pg = 512"
  shows "\<exists>S' pg'. partialRemap2m_loop (b + of_nat k * kPageSize) v r (paddr + of_nat k0 * kPageSize) type S = Some S'
    \<and> only_page v l S S' \<and> mem S' v = Some pg' \<and> filled S paddr k k1 pg pg'"
  using k fr inv v pg
proof (induction "k1 - k" arbitrary: k S pg)
  case 0
  then have "k = k1" by simp
  then show ?case using 0 r by (subst partialRemap2m_loop.simps) (auto simp: only_page_def filled_def)
next
  case (Suc d)
  then have k: "k < k1" "k < 512" "k0 \<le> k" using r(3) by simp_all
  let ?i = "b + of_nat k * kPageSize" and ?a = "paddr + of_nat k * kPageSize"
  have lt: "?i < rback r" using page_less(1) [OF b, of k k1] k r by simp
  have off: "paddr + of_nat k0 * kPageSize + (?i - rfront r) = ?a" by (simp add: r)
  have fra: "frame (mPageManager S) ?a" using Suc.prems(3) k by blast
  obtain e S1 S2 where 2: "entry v k S = Some (pg ! k)" "set_entry v k (setMemoryType_pte (mPageManager S) type (pg ! k)) S = Some S1"
    "set_entry_flags v k (mMiddleFlags S1) ?a S1 = Some S2" "maps_to (mPageManager S) (mMiddleFlags S) ?a e"
    "mem S2 v = Some (pg[k := e])" "only_page v l S S2"
    using remap_step [OF Suc.prems(4-7) k(2) fra] by blast
  have env: "mPageManager S2 = mPageManager S" "mMiddleFlags S2 = mMiddleFlags S" using 2(6) by (auto simp: only_page_def same_env_def)
  have IH: "\<exists>S' pg'. partialRemap2m_loop (b + of_nat (Suc k) * kPageSize) v r (paddr + of_nat k0 * kPageSize) type S2 = Some S'
    \<and> only_page v l S2 S' \<and> mem S' v = Some pg' \<and> filled S2 paddr (Suc k) k1 (pg[k := e]) pg'"
    using Suc.hyps(2) k 2(5,6) Suc.prems(3,7) by (intro Suc.hyps(1)) (auto simp: env only_page_def)
  then obtain S' pg' where 3: "partialRemap2m_loop (b + of_nat (Suc k) * kPageSize) v r (paddr + of_nat k0 * kPageSize) type S2 = Some S'"
    "only_page v l S2 S'" "mem S' v = Some pg'" "filled S2 paddr (Suc k) k1 (pg[k := e]) pg'" by blast
  have nxt: "?i + kPageSize = b + of_nat (Suc k) * kPageSize" by (simp add: algebra_simps)
  have "partialRemap2m_loop ?i v r (paddr + of_nat k0 * kPageSize) type S = Some S'"
    using 2(1,2,3) 3(1) lt by (subst partialRemap2m_loop.simps) (simp add: pti_page [OF b k(2)] off nxt)
  moreover have "filled S paddr k k1 pg pg'"
    using 3(4) 2(4) k Suc.prems(7) unfolding filled_def env by (auto simp: nth_list_update not_less_eq_eq split: if_splits)
  ultimately show ?case using 3(2,3) only_page_trans [OF 2(6)] by blast
qed

lemma partialRemap2m_spec:
  assumes b: "large_base b" and r: "rfront r = b + of_nat k0 * kPageSize" "rback r = b + of_nat k1 * kPageSize"
    and k: "k0 < k1" "k1 \<le> 512" and fr: "\<forall>j < 512. frame (mPageManager S) (paddr + of_nat j * kPageSize)"
    and inv: "pt_inv S l" and v: "spare S v" and pg: "mem S v = Some pg" "length pg = 512"
  shows "\<exists>S' pg'. partialRemap2m v r (paddr + of_nat k0 * kPageSize) type S = Some S'
    \<and> only_page v l S S' \<and> mem S' v = Some pg' \<and> filled S paddr k0 k1 pg pg'"
proof -
  have "rfront r \<noteq> rback r" using page_less(2) [OF b, of k0 k1] k r by simp
  then show ?thesis using remap_loop [OF b r k(2) _ _ fr inv v pg, of k0 type] k by (simp add: partialRemap2m_def isEmpty_def r(1))
qed

section \<open>Replacing the 2 MiB entry\<close>

lemma view_new_table:
  assumes n: "n < 2 ^ 36" "m < 2 ^ 36"
    and a: "at S' = (\<lambda>p j. if p = pd_path n @ [n div 512 mod 512] then (if j < 512 then Some (pg ! j) else None)
           else if p = pd_path n \<and> j = n div 512 mod 512 then Some e else at S p j)"
  shows "view S' m = (if m div 512 = n div 512 then (if present (pg ! (m mod 512)) then Some (eRegular, pg ! (m mod 512)) else None)
     else view S m)"
proof (cases "m div 512 = n div 512")
  case True
  then have "pt_path m = pd_path n @ [n div 512 mod 512]" using same_large_page [OF n(2,1)] by (simp add: pt_path_def)
  then show ?thesis using True by (simp add: view_def a)
next
  case False
  then have ne: "pt_path m \<noteq> pt_path n" using same_large_page [OF n(2,1)] by blast
  then have "\<not> (pd_path m = pd_path n \<and> m div 512 mod 512 = n div 512 mod 512)" by (auto simp: pt_path_def)
  then have "view S' m = view S m" using ne by (intro view_cong) (auto simp: a pt_path_def [symmetric])
  then show ?thesis using False by simp
qed

text \<open>The last two statements of \<^verbatim>\<open>split2mMapping\<close> and \<^verbatim>\<open>cut2mMapping\<close>.\<close>

lemma relink_pde:
  assumes inv: "pt_inv S l" and n: "n < 2 ^ 36" and t: "node S (pd_path n) = Some t"
    and e: "at S (pd_path n) (n div 512 mod 512) = Some e" "present e" "bit e 7"
    and v: "spare S (mBlock a)" "mBlock a \<notin> mBlock ` set l" "mem S (mBlock a) = Some pg" "length pg = 512"
    and fr: "frame (mPageManager S) (getPhysical a)" "asVirtual (getPhysical a) S = mBlock a"
  shows "\<exists>S1 e1 S'. set_entry_flags t (n div 512 mod 512) (mMiddleFlags S) (asPhysical a) S = Some S1
    \<and> entry t (n div 512 mod 512) S1 = Some e1 \<and> set_entry t (n div 512 mod 512) (set2m False e1) S1 = Some S'
    \<and> pt_inv S' l \<and> same_env S S' \<and> mAllocator S' = mAllocator S \<and> node S' = (node S)(pt_path n \<mapsto> mBlock a)
    \<and> (\<forall>m < 2 ^ 36. view S' m =
         (if m div 512 = n div 512 then (if present (pg ! (m mod 512)) then Some (eRegular, pg ! (m mod 512)) else None) else view S m))"
proof -
  let ?i = "n div 512 mod 512" and ?mid = "mMiddleFlags S"
  note pb = pt_invD(1) [OF inv]
  have en: "entry t ?i S = Some e" using e(1) t by (simp add: at_def)
  obtain e1 where e1: "setEntryFlags (mPageManager S) ?mid (getPhysical a) e = Some e1" "maps_to (mPageManager S) ?mid (getPhysical a) e1"
    using setEntryFlags_maps_to [OF pb fr(1)] by blast
  let ?e = "set2m False e1"
  have b7: "\<not> bit ?e 7" by (simp add: entry_bits)
  have other: "bit ?e k = bit e1 k" if "k \<noteq> 7" for k using that by (simp add: entry_bits)
  have f: "present ?e" "writeable ?e = bit ?mid 1" "executable ?e = bit ?mid 2" "user ?e = bit ?mid 3"
    using e1(2) other by (simp_all add: maps_to_def entry_bits)
  have ad: "address (mPageManager S) ?e = getPhysical a"
  proof -
    have "address (mPageManager S) ?e = address (mPageManager S) e1"
      by (rule bit_eqI) (use pb_ok_low [OF pb, of 7] in \<open>auto simp: bit_address entry_bits\<close>)
    then show ?thesis using e1(2) by (simp add: maps_to_def)
  qed
  have lk: "links (length (pd_path n)) ?e" and nl: "\<not> links (length (pd_path n)) e"
    and ek: "entry_ok ?mid (length (pd_path n)) ?e" using f b7 e by (simp_all add: links_def entry_ok_def)
  have tg: "target S ?e = mBlock a" by (simp add: target_def ad fr(2))
  have pk: "\<forall>x \<in> set pg. \<not> links (Suc (length (pd_path n))) x \<and> entry_ok ?mid (Suc (length (pd_path n))) x"
    by (simp add: links_def entry_ok_def)
  note L = link_table [OF inv t e(1) nl v pk lk ek tg]
  have en1: "entry t ?i (upd_entry t ?i e1 S) = Some e1" by (simp add: entry_upd_entry [OF en])
  have "mem S t \<noteq> None" using en by (auto simp: entry_def bind_Some_iff)
  then have w: "set_entry t ?i ?e (upd_entry t ?i e1 S) = Some (upd_entry t ?i ?e S)"
    using set_entry_upd [OF en1, of ?e] by (auto simp: upd_entry_twice)
  have "set_entry_flags t ?i ?mid (asPhysical a) S = Some (upd_entry t ?i e1 S)"
    using set_entry_flags_upd [OF en, of ?mid "getPhysical a" e1] e1(1) by (simp add: asPhysical_def)
  then show ?thesis using en1 w L(1,2) view_new_table [OF n _ L(3)]
    by - (rule exI [of _ "upd_entry t ?i e1 S"], rule exI [of _ e1], rule exI [of _ "upd_entry t ?i ?e S"], simp add: pt_path_def)
qed

lemma present_zero [simp]: "\<not> present 0"
  by (simp add: entry_bits)

lemma zero_page_nth [simp]: "j < 512 \<Longrightarrow> zero_page ! j = 0" "length zero_page = 512"
  by (simp_all add: zero_page_def)

text \<open>The pages of the split 2 MiB page, except those of the hole, map what they mapped.\<close>

definition split_view :: "PageTables \<Rightarrow> nat \<Rightarrow> u64 \<Rightarrow> nat \<Rightarrow> nat \<Rightarrow> PageTables \<Rightarrow> bool" where
  "split_view S n e k1 k2 S' \<longleftrightarrow>
     (\<forall>m < 2 ^ 36. if m div 512 = n div 512
        then if k1 \<le> m mod 512 \<and> m mod 512 < k2 then view S' m = None
             else \<exists>e'. view S' m = Some (eRegular, e')
               \<and> maps_to (mPageManager S) (mMiddleFlags S) (address (mPageManager S) e + of_nat (m mod 512) * kPageSize) e'
        else view S' m = view S m)"

lemma split_viewI:
  assumes v: "\<forall>m < 2 ^ 36. view S' m = (if m div 512 = n div 512
      then (if present (pg ! (m mod 512)) then Some (eRegular, pg ! (m mod 512)) else None) else view S m)"
    and pg: "\<And>j. j < 512 \<Longrightarrow> if k1 \<le> j \<and> j < k2 then pg ! j = 0
      else maps_to (mPageManager S) (mMiddleFlags S) (address (mPageManager S) e + of_nat j * kPageSize) (pg ! j)"
  shows "split_view S n e k1 k2 S'"
  unfolding split_view_def
proof (intro allI impI)
  fix m :: nat assume m: "m < 2 ^ 36"
  have j: "m mod 512 < 512" by simp
  have "maps_to pb f a x \<Longrightarrow> present x" for pb f a x by (simp add: maps_to_def)
  then show "if m div 512 = n div 512
        then if k1 \<le> m mod 512 \<and> m mod 512 < k2 then view S' m = None
             else \<exists>e'. view S' m = Some (eRegular, e')
               \<and> maps_to (mPageManager S) (mMiddleFlags S) (address (mPageManager S) e + of_nat (m mod 512) * kPageSize) e'
        else view S' m = view S m"
    using pg [OF j] v m by (cases "m div 512 = n div 512"; cases "k1 \<le> m mod 512 \<and> m mod 512 < k2") auto
qed

lemma split2mMapping_spec:
  assumes inv: "pt_inv S (a # l)" and n: "n < 2 ^ 36" and t: "node S (pd_path n) = Some t"
    and e: "at S (pd_path n) (n div 512 mod 512) = Some e" "present e" "bit e 7"
    and fr: "\<forall>j < 512. frame (mPageManager S) (address (mPageManager S) e + of_nat j * kPageSize)"
    and b: "large_base b" and k: "0 < k1" "k1 < k2" "k2 < 512"
    and page: "page = \<lparr>rfront = b, rback = b + of_nat 512 * kPageSize\<rparr>"
    and erase: "erase = \<lparr>rfront = b + of_nat k1 * kPageSize, rback = b + of_nat k2 * kPageSize\<rparr>"
  shows "\<exists>S1 S'. claimListEntry (a # l) S = Some (a, l, S1) \<and> split2mMapping t (n div 512 mod 512) page erase a S1 = Some S'
    \<and> pt_inv S' l \<and> same_env S S' \<and> mAllocator S' = mAllocator S \<and> node S' = (node S)(pt_path n \<mapsto> mBlock a)
    \<and> split_view S n e k1 k2 S'"
proof -
  let ?i = "n div 512 mod 512"
  note C = pt_inv_Cons [OF inv]
  obtain S1 where S1: "claimListEntry (a # l) S = Some (a, l, S1)" "pt_inv S1 l" "same_env S S1"
    "mAllocator S1 = mAllocator S" "node S1 = node S" "at S1 = at S" "spare S1 (mBlock a)" "mem S1 (mBlock a) = Some zero_page"
    using claimListEntry_spec [OF inv] by blast
  have env1: "mPageManager S1 = mPageManager S" "mMiddleFlags S1 = mMiddleFlags S" using S1(3) by (auto simp: same_env_def)
  have fr1: "\<forall>j < 512. frame (mPageManager S1) (address (mPageManager S1) e + of_nat j * kPageSize)" using fr by (simp add: env1)
  let ?lo = "\<lparr>rfront = b, rback = b + of_nat k1 * kPageSize\<rparr>"
  let ?hi = "\<lparr>rfront = b + of_nat k2 * kPageSize, rback = b + of_nat 512 * kPageSize\<rparr>"
  let ?p = "address (mPageManager S1) e" and ?ty = "getMemoryType_pdte e"
  have lo: "rfront ?lo = b + of_nat 0 * kPageSize" "rback ?lo = b + of_nat k1 * kPageSize" "0 < k1" "k1 \<le> 512" using k by simp_all
  obtain S2 pg2 where 2: "partialRemap2m (mBlock a) ?lo ?p ?ty S1 = Some S2" "only_page (mBlock a) l S1 S2"
    "mem S2 (mBlock a) = Some pg2" "filled S1 ?p 0 k1 zero_page pg2"
    using partialRemap2m_spec [OF b lo fr1 S1(2,7,8), of ?ty] by auto
  have env2: "mPageManager S2 = mPageManager S1" "mMiddleFlags S2 = mMiddleFlags S1" using 2(2) by (auto simp: only_page_def same_env_def)
  have I2: "pt_inv S2 l" "spare S2 (mBlock a)" "length pg2 = 512" using 2(2,4) by (auto simp: only_page_def filled_def)
  have fr2: "\<forall>j < 512. frame (mPageManager S2) (?p + of_nat j * kPageSize)" using fr1 by (simp add: env2)
  have hi: "rfront ?hi = b + of_nat k2 * kPageSize" "rback ?hi = b + of_nat 512 * kPageSize" "k2 < 512" "(512 :: nat) \<le> 512"
    using k by simp_all
  obtain S3 pg3 where 3: "partialRemap2m (mBlock a) ?hi (?p + of_nat k2 * kPageSize) ?ty S2 = Some S3" "only_page (mBlock a) l S2 S3"
    "mem S3 (mBlock a) = Some pg3" "filled S2 ?p k2 512 pg2 pg3"
    using partialRemap2m_spec [OF b hi fr2 I2(1,2) 2(3) I2(3), of ?ty] by blast
  have O: "only_page (mBlock a) l S1 S3" by (rule only_page_trans [OF 2(2) 3(2)])
  then have env3: "mPageManager S3 = mPageManager S" "mMiddleFlags S3 = mMiddleFlags S" "asVirtual x S3 = asVirtual x S" for x
    using S1(3) by (auto simp: only_page_def same_env_def)
  have O': "pt_inv S3 l" "node S3 = node S" "at S3 = at S" "spare S3 (mBlock a)" "length pg3 = 512"
    using O S1(5,6) 3(4) by (auto simp: only_page_def filled_def)
  have t3: "node S3 (pd_path n) = Some t" "at S3 (pd_path n) ?i = Some e" using t e(1) by (simp_all add: O')
  have f3: "frame (mPageManager S3) (getPhysical a)" "asVirtual (getPhysical a) S3 = mBlock a" using C(4,5) by (simp_all add: env3)
  obtain S4 e1 S' where 4: "set_entry_flags t ?i (mMiddleFlags S3) (asPhysical a) S3 = Some S4" "entry t ?i S4 = Some e1"
    "set_entry t ?i (set2m False e1) S4 = Some S'" "pt_inv S' l" "same_env S3 S'" "mAllocator S' = mAllocator S3"
    "node S' = (node S3)(pt_path n \<mapsto> mBlock a)"
    "\<forall>m < 2 ^ 36. view S' m = (if m div 512 = n div 512 then (if present (pg3 ! (m mod 512)) then Some (eRegular, pg3 ! (m mod 512)) else None) else view S3 m)"
    using relink_pde [OF O'(1) n t3(1,2) e(2,3) O'(4) C(3) 3(3) O'(5) f3] by blast
  have s: "split_on page erase = Some (?lo, ?hi)"
    using page_less [OF b, of k2 512] page_less [OF b, of 0 k1] k by (simp add: split_on_def contains_def page erase less_imp_le)
  have en1: "entry t ?i S1 = Some e" using t e(1) S1(5,6) by (metis at_node)
  have "split2mMapping t ?i page erase a S1 = Some S'"
    unfolding split2mMapping_def Let_def using s e(3) 2(1) 3(1) 4(1,2,3) en1
    by (simp add: is_bits getVirtual_def page erase)
  moreover have "split_view S n e k1 k2 S'"
  proof -
    have vS: "view S3 = view S" by (intro ext view_cong) (simp_all add: O')
    have "if k1 \<le> j \<and> j < k2 then pg3 ! j = 0
      else maps_to (mPageManager S) (mMiddleFlags S) (address (mPageManager S) e + of_nat j * kPageSize) (pg3 ! j)" if "j < 512" for j
      using 2(4) 3(4) that k unfolding filled_def env1 env2 by (auto split: if_splits)
    then show ?thesis using split_viewI [of S' n pg3 S] 4(8) by (simp add: vS)
  qed
  ultimately show ?thesis using S1(1,4) 4(4,5,6,7) O O'(2) S1(3) by (auto simp: only_page_def intro: same_env_trans)
qed

section \<open>Mapping a page inside a 2 MiB page\<close>

lemma large_parts:
  assumes al: "4096 dvd unat v" and top: "unat v + 2 ^ 21 < 2 ^ 64"
  shows "large_base (rounddown v kLargePageSize)"
    and "v = rounddown v kLargePageSize + of_nat (vpn v mod 512) * kPageSize"
    and "vpn v mod 512 \<noteq> 0 \<Longrightarrow> roundup v kLargePageSize = rounddown v kLargePageSize + of_nat 512 * kPageSize"
    and "vpn v mod 512 = 0 \<Longrightarrow> roundup v kLargePageSize = v"
proof -
  have L: "unat kLargePageSize = 2 ^ 21" by (simp add: kLargePageSize_def)
  define x k where "x = unat v div 2 ^ 21" and "k = vpn v mod 512"
  have k: "k = unat v div 4096 mod 512" by (simp add: k_def vpn_def mod_mod_cancel)
  obtain y where y: "unat v = 4096 * y" using al by blast
  have xy: "x = y div 512" "k = y mod 512" by (simp_all add: x_def k y)
  have v: "unat v = 2 ^ 21 * x + 4096 * k"
  proof -
    have "y = x * 512 + k" by (simp add: xy)
    then show ?thesis unfolding y by simp
  qed
  have d: "unat (rounddown v kLargePageSize) = 2 ^ 21 * x" by (simp add: unat_rounddown L x_def mult.commute)
  show b: "large_base (rounddown v kLargePageSize)" using top v by (simp add: large_base_def d)
  have k5: "k < 512" by (simp add: k_def)
  show "v = rounddown v kLargePageSize + of_nat (vpn v mod 512) * kPageSize"
    using page_of [OF b, of k] k5 v d by (simp add: word_unat_eq_iff k_def [symmetric])
  have u: "unat (roundup v kLargePageSize) = (unat v + 2 ^ 21 - 1) div 2 ^ 21 * 2 ^ 21"
    using top by (subst unat_roundup) (simp_all add: L)
  show "roundup v kLargePageSize = rounddown v kLargePageSize + of_nat 512 * kPageSize" if "vpn v mod 512 \<noteq> 0"
  proof -
    have k0: "0 < k" using that by (simp add: k_def)
    then have "(unat v + 2 ^ 21 - 1) div 2 ^ 21 = x + 1"
      using v k5 by (intro div_nat_eqI) (simp_all add: algebra_simps)
    then have "unat (roundup v kLargePageSize) = 2 ^ 21 * x + 512 * 4096" unfolding u by simp
    then show ?thesis using page_of [OF b, of 512] d by (simp add: word_unat_eq_iff)
  qed
  show "roundup v kLargePageSize = v" if "vpn v mod 512 = 0"
  proof -
    have "unat v = 2 ^ 21 * x" using that v by (simp add: k_def)
    moreover from this have "(unat v + 2 ^ 21 - 1) div 2 ^ 21 = x" by (intro div_nat_eqI) simp_all
    ultimately show ?thesis unfolding word_unat_eq_iff u by simp
  qed
qed

text \<open>The physical addresses that the pages of a 2 MiB page can have.\<close>

definition large_frames :: "PageBuilder \<Rightarrow> u64 \<Rightarrow> bool" where
  "large_frames pb e \<longleftrightarrow> (\<forall>j < 512. frame pb (address pb e + of_nat j * kPageSize))"

lemma split_view_phys:
  assumes sv: "split_view S n e k1 k2 S'" and e: "view S n = Some (eLarge, e)" "\<And>m. m < 2 ^ 36 \<Longrightarrow> m div 512 = n div 512 \<Longrightarrow> view S m = Some (eLarge, e)"
    and env: "mPageManager S' = mPageManager S" and m: "m < 2 ^ 36"
  shows "phys S' m = (if m div 512 = n div 512 \<and> k1 \<le> m mod 512 \<and> m mod 512 < k2 then None else phys S m)"
proof (cases "m div 512 = n div 512")
  case True
  then have "view S m = Some (eLarge, e)" using e(2) m by blast
  then show ?thesis using sv m True unfolding split_view_def phys_def env by (auto simp: maps_to_def split: if_splits)
next
  case False
  then show ?thesis using sv m unfolding split_view_def phys_def env by simp
qed

lemma view_large_page:
  assumes "tree_ok S" and "view S n = Some (eLarge, e)" and "n < 2 ^ 36"
  shows "at S (pd_path n) (n div 512 mod 512) = Some e" "present e" "bit e 7" "pt_path n \<notin> nodes S" "pd_path n \<in> nodes S"
    and "m < 2 ^ 36 \<Longrightarrow> m div 512 = n div 512 \<Longrightarrow> view S m = Some (eLarge, e)"
proof -
  show *: "at S (pd_path n) (n div 512 mod 512) = Some e" "present e" "bit e 7" "pt_path n \<notin> nodes S" "pd_path n \<in> nodes S"
    using assms(1,2) by (cases rule: view_cases [of S n]; auto split: if_splits)+
  show "view S m = Some (eLarge, e)" if "m < 2 ^ 36" "m div 512 = n div 512"
  proof -
    have "pt_path m = pt_path n" using same_large_page [OF that(1) assms(3)] that(2) by blast
    moreover from this have "pd_path m = pd_path n" by (simp add: pt_path_def)
    ultimately show ?thesis using * that by (simp add: view_def at_None_iff [OF assms(1), THEN iffD2])
  qed
qed

lemma dirs_present: "pd_path n \<in> nodes S \<Longrightarrow> missing S (dirs n) = 0"
  using nodes_butlast [of "[n div 2 ^ 27 mod 512]" "n div 2 ^ 18 mod 512" S]
  by (simp add: missing_def dirs_def pd_path_def)

lemma view_phys: "view S n = Some (eRegular, e) \<Longrightarrow> phys S n = Some (address (mPageManager S) e)"
  by (simp add: phys_def)

lemma phys_page_cong: "view S' n = view S n \<Longrightarrow> mPageManager S' = mPageManager S \<Longrightarrow> phys S' n = phys S n"
  by (simp add: phys_def split: option.split)

lemma find_pd_present:
  assumes inv: "pt_inv S l" and e: "view S (vpn v) = Some (eLarge, e)"
  obtains l2 S2 where "find_pd v l S = Some (l2, l, S2)" "node S2 (pd_path (vpn v)) = Some l2" "pt_inv S2 l" "grows S S2 (dirs (vpn v))"
proof -
  have m: "missing S (dirs (vpn v)) = 0" by (rule dirs_present [OF view_large_page(5) [OF pt_invD(2) [OF inv] e vpn_less]])
  show thesis using find_pd_spec [OF inv, of v] that by (auto simp: m)
qed

lemma map4k_inside_large:
  assumes inv: "pt_inv S (x # l)" and e: "view S (vpn v) = Some (eLarge, e)" and lf: "large_frames (mPageManager S) e"
    and al: "4096 dvd unat v" "unat v + 2 ^ 21 < 2 ^ 64" and k: "0 < vpn v mod 512" "vpn v mod 512 < 511"
    and fr: "frame (mPageManager S) a"
  shows "\<exists>e' S'. map4k a v flags type (x # l) S = Some (l, S') \<and> pt_inv S' l \<and> same_env S S' \<and> mAllocator S' = mAllocator S
    \<and> nodes S' = insert (pt_path (vpn v)) (nodes S)
    \<and> view S' (vpn v) = Some (eRegular, e') \<and> maps_to (mPageManager S) flags a e'
    \<and> (\<forall>m < 2 ^ 36. phys S' m = (if m = vpn v then Some a else phys S m))"
proof -
  let ?n = "vpn v" and ?k = "vpn v mod 512" and ?b = "rounddown v kLargePageSize"
  note P = large_parts [OF al]
  obtain l2 S2 where 2: "find_pd v (x # l) S = Some (l2, x # l, S2)" "node S2 (pd_path ?n) = Some l2" "pt_inv S2 (x # l)" "grows S S2 (dirs ?n)"
    by (rule find_pd_present [OF inv e])
  have env2: "same_env S S2" "mPageManager S2 = mPageManager S" "mAllocator S2 = mAllocator S" "view S2 = view S"
    using 2(4) by (auto simp: grows_def same_env_def)
  have nd2: "nodes S2 = nodes S"
    using 2(4) dirs_present [OF view_large_page(5) [OF pt_invD(2) [OF inv] e vpn_less]] by (auto simp: grows_def missing_def)
  have e2: "view S2 ?n = Some (eLarge, e)" using e by (simp add: env2)
  note V = view_large_page [OF pt_invD(2) [OF 2(3)] e2 vpn_less]
  let ?page = "\<lparr>rfront = ?b, rback = roundup v kLargePageSize\<rparr>" and ?erase = "\<lparr>rfront = v, rback = v + kPageSize\<rparr>"
  have page: "?page = \<lparr>rfront = ?b, rback = ?b + of_nat 512 * kPageSize\<rparr>" using P(3) k by simp
  have erase: "?erase = \<lparr>rfront = ?b + of_nat ?k * kPageSize, rback = ?b + of_nat (Suc ?k) * kPageSize\<rparr>"
    using P(2) by (simp add: algebra_simps)
  have lf2: "\<forall>j < 512. frame (mPageManager S2) (address (mPageManager S2) e + of_nat j * kPageSize)"
    using lf by (simp add: large_frames_def env2)
  obtain S3 S4 where 4: "claimListEntry (x # l) S2 = Some (x, l, S3)" "split2mMapping l2 (?n div 512 mod 512) ?page ?erase x S3 = Some S4"
    "pt_inv S4 l" "same_env S2 S4" "mAllocator S4 = mAllocator S2" "node S4 = (node S2)(pt_path ?n \<mapsto> mBlock x)"
    "split_view S2 ?n e ?k (Suc ?k) S4"
    using split2mMapping_spec [OF 2(3) vpn_less 2(2) V(1,2,3) lf2 P(1) k(1) _ _ page erase] k by auto
  have t: "map4k_table v l2 (x # l) S2 = Some (mBlock x, l, S4)"
    using 2(2) V(1,2,3) 4(1,2) by (simp add: map4k_table_def at_def is_bits getVirtual_def paths_vpn)
  have pm: "mPageManager S4 = mPageManager S" using 4(4) env2(2) by (simp add: same_env_def)
  have n4: "node S4 (pt_path ?n) = Some (mBlock x)" by (simp add: 4(6))
  obtain e0 S5 e' S6 where 5: "entry (mBlock x) (pti v) S4 = Some e0"
    "set_entry (mBlock x) (pti v) (setMemoryType_pte (mPageManager S4) type e0) S4 = Some S5"
    "set_entry_flags (mBlock x) (pti v) flags a S5 = Some S6" "pt_inv S6 l" "same_env S4 S6"
    "mAllocator S6 = mAllocator S4" "nodes S6 = nodes S4" "maps_to (mPageManager S4) flags a e'"
    "\<forall>m < 2 ^ 36. view S6 m = (if m = ?n then Some (eRegular, e') else view S4 m)"
    using write_pte [OF 4(3) vpn_less n4, of a type flags] fr pm unfolding paths_vpn(3) by auto
  obtain l3 l1 S1 where f: "getPageMap3 (pml4 S) (pml4i v) (x # l) S = Some (l3, l1, S1)" "getPageMap2 l3 (pdpti v) l1 S1 = Some (l2, x # l, S2)"
    using find_pdE [OF 2(1)] by blast
  have "map4k a v flags type (x # l) S = Some (l, S6)"
    unfolding map4k_def Let_def using f t 5(1,2,3) by simp
  moreover have "phys S6 m = (if m = ?n then Some a else phys S m)" if m: "m < 2 ^ 36" for m
  proof (cases "m = ?n")
    case True
    then show ?thesis using 5(5,8,9) m pm by (auto simp: phys_def maps_to_def same_env_def)
  next
    case False
    have ne: "\<not> (m div 512 = ?n div 512 \<and> ?k \<le> m mod 512 \<and> m mod 512 < Suc ?k)"
      using False div_mult_mod_eq [of m 512] div_mult_mod_eq [of ?n 512] by (metis le_antisym less_Suc_eq_le)
    have "phys S6 m = phys S4 m" using 5(5,9) m False by (intro phys_page_cong) (auto simp: same_env_def)
    also have "\<dots> = phys S2 m"
      using split_view_phys [OF 4(7) e2 V(6) _ m] 4(4) ne by (simp add: same_env_def)
    also have "\<dots> = phys S m" by (rule phys_page_cong) (simp_all add: env2)
    finally show ?thesis using False by simp
  qed
  moreover have "nodes S6 = insert (pt_path ?n) (nodes S)" using 5(7) 4(6) nd2 by (auto simp: nodes_def)
  ultimately show ?thesis using 5 4(4,5) env2 pm vpn_less [of v] by (auto intro: same_env_trans)
qed

text \<open>The first and the last page of a 2 MiB page: the rest to remap is empty, or not inside the page.\<close>

lemma map4k_large_edge:
  assumes inv: "pt_inv S l" and e: "view S (vpn v) = Some (eLarge, e)"
    and al: "4096 dvd unat v" "unat v + 2 ^ 21 < 2 ^ 64" and k: "vpn v mod 512 = 0 \<or> vpn v mod 512 = 511"
  shows "map4k a v flags type l S = None"
proof -
  let ?n = "vpn v" and ?b = "rounddown v kLargePageSize"
  note P = large_parts [OF al]
  obtain l2 S2 where 2: "find_pd v l S = Some (l2, l, S2)" "node S2 (pd_path ?n) = Some l2" "pt_inv S2 l" "grows S S2 (dirs ?n)"
    by (rule find_pd_present [OF inv e])
  have e2: "view S2 ?n = Some (eLarge, e)" using e 2(4) by (simp add: grows_def)
  note V = view_large_page [OF pt_invD(2) [OF 2(3)] e2 vpn_less]
  obtain l3 l1 S1 where f: "getPageMap3 (pml4 S) (pml4i v) l S = Some (l3, l1, S1)" "getPageMap2 l3 (pdpti v) l1 S1 = Some (l2, l, S2)"
    using find_pdE [OF 2(1)] by blast
  let ?page = "\<lparr>rfront = ?b, rback = roundup v kLargePageSize\<rparr>" and ?erase = "\<lparr>rfront = v, rback = v + kPageSize\<rparr>"
  have "split2mMapping l2 (pdi v) ?page ?erase x S3 = None" for x S3
    using k
  proof
    assume k0: "vpn v mod 512 = 0"
    have "v < v + kPageSize" using al(2) by (simp add: word_less_nat_alt kPageSize_def unat_add_small)
    then have "\<not> contains ?page ?erase" using P(4) k0 by (simp add: contains_def not_le)
    then show ?thesis by (simp add: split2mMapping_def split_on_def bind_eq_None_conv)
  next
    assume k1: "vpn v mod 512 = 511"
    have "v + kPageSize = ?b + of_nat 512 * kPageSize" using P(2) k1 by (simp add: algebra_simps)
    then have "v + kPageSize = roundup v kLargePageSize" using P(3) k1 by simp
    then have "partialRemap2m pt \<lparr>rfront = v + kPageSize, rback = roundup v kLargePageSize\<rparr> p ty T = None" for pt p ty T
      by (simp add: partialRemap2m_def isEmpty_def)
    then show ?thesis by (auto simp: split2mMapping_def split_on_def bind_eq_None_conv)
  qed
  then have "map4k_table v l2 l S2 = None"
    using 2(2) V(1,2,3) by (auto simp: map4k_table_def at_def is_bits paths_vpn bind_eq_None_conv)
  then show ?thesis unfolding map4k_def Let_def using f by simp
qed

end
