(* ===== verification/PageRange.thy ===== *)
theory PageRange
  imports PageSplit
begin

text \<open>
  Mapping a range: the loops over 4 KiB and 2 MiB pages, and \<^verbatim>\<open>mapWithList\<close>, which cuts the range
  into a head, a body of 2 MiB pages and a tail. Every page of the range ends up with the frame
  and the flags that were asked for, all other pages keep their entries, and the tables taken
  from the reserve are exactly those that were missing.
\<close>

section \<open>Pages in a row\<close>

lemma vpn_add:
  assumes "4096 dvd unat v"
  shows "vpn (v + of_nat k * kPageSize) = (vpn v + k) mod 2 ^ 36"
proof -
  obtain y where y: "unat v = 4096 * y" using assms by blast
  have "v = of_nat (4096 * y)" unfolding y [symmetric] by simp
  then have "v + of_nat k * kPageSize = of_nat (4096 * (y + k))" by (simp add: kPageSize_def algebra_simps)
  then have "unat (v + of_nat k * kPageSize) = (4096 * (y + k)) mod 2 ^ 64" by (simp only: unat_of_nat) simp
  moreover have "(4096 * (y + k)) mod 2 ^ 64 div 4096 = (y + k) mod 2 ^ 52"
    using mod_mult_mult1 [of "4096 :: nat" "y + k" "2 ^ 52"] by simp
  ultimately have "vpn (v + of_nat k * kPageSize) = (y + k) mod 2 ^ 52 mod 2 ^ 36" by (simp add: vpn_def)
  also have "\<dots> = (y + k) mod 2 ^ 36" by (rule mod_mod_cancel) simp
  finally show ?thesis by (simp add: vpn_def y mod_simps)
qed

lemma vpn_add_less: "4096 dvd unat v \<Longrightarrow> vpn v + k < 2 ^ 36 \<Longrightarrow> vpn (v + of_nat k * kPageSize) = vpn v + k"
  by (simp add: vpn_add)

lemma missing_Un':
  assumes "finite Q1" "finite Q2" "Q2 \<inter> nodes S1 = Q2 \<inter> (nodes S \<union> Q1)"
  shows "missing S (Q1 \<union> Q2) = missing S Q1 + missing S1 Q2"
proof -
  have "(Q1 \<union> Q2) - nodes S = (Q1 - nodes S) \<union> (Q2 - nodes S1)" "(Q1 - nodes S) \<inter> (Q2 - nodes S1) = {}"
    using assms(3) by auto
  then show ?thesis unfolding missing_def using assms(1,2) by (simp add: card_Un_disjoint)
qed

text \<open>A page that is mapped to a frame with the given flags.\<close>

definition mapped :: "PageTables \<Rightarrow> nat \<Rightarrow> PageFlags \<Rightarrow> u64 \<Rightarrow> bool" where
  "mapped S n flags a \<longleftrightarrow> (\<exists>sz e. view S n = Some (sz, e) \<and> phys S n = Some a
     \<and> writeable e = bit flags 1 \<and> executable e = bit flags 2 \<and> user e = bit flags 3)"

lemma mapped_cong: "view S' n = view S n \<Longrightarrow> mPageManager S' = mPageManager S \<Longrightarrow> mapped S' n flags a = mapped S n flags a"
  using phys_page_cong [of S' n S] by (simp add: mapped_def)

lemma mapped_pte: "view S n = Some (eRegular, e) \<Longrightarrow> maps_to (mPageManager S) flags a e \<Longrightarrow> mapped S n flags a"
  by (auto simp: mapped_def maps_to_def phys_def)

lemma mapped_pde:
  "view S n = Some (eLarge, e) \<Longrightarrow> maps_to (mPageManager S) flags a e \<Longrightarrow> mapped S n flags (a + of_nat (n mod 512) * kPageSize)"
  by (auto simp: mapped_def maps_to_def phys_def)

section \<open>The loop over 4 KiB pages\<close>

definition page_aligned :: "AddressMapping \<Rightarrow> nat \<Rightarrow> bool" where
  "page_aligned m N \<longleftrightarrow> 4096 dvd unat (am_vaddr m) \<and> am_size m = of_nat N * kPageSize \<and> vpn (am_vaddr m) + N \<le> 2 ^ 36"

lemma page_index_less:
  assumes "j \<le> 2 ^ 36" "N \<le> 2 ^ 36"
  shows "of_nat j * kPageSize < (of_nat N * kPageSize :: u64) \<longleftrightarrow> j < N"
proof -
  have "unat (of_nat k * kPageSize :: u64) = k * 4096" if "k \<le> 2 ^ 36" for k
    using that by (simp add: kPageSize_def unat_word_ariths unat_of_nat)
  then show ?thesis using assms by (simp add: word_less_nat_alt)
qed

text \<open>The pages from \<open>lo\<close> on are mapped one after the other, the others are left alone.\<close>

definition range_mapped :: "PageTables \<Rightarrow> PageTables \<Rightarrow> AddressMapping \<Rightarrow> PageFlags \<Rightarrow> nat \<Rightarrow> nat \<Rightarrow> bool" where
  "range_mapped S S' m flags lo hi \<longleftrightarrow>
     (\<forall>j. lo \<le> j \<and> j < hi \<longrightarrow> mapped S' (vpn (am_vaddr m) + j) flags (am_paddr m + of_nat j * kPageSize))
   \<and> (\<forall>x < 2 ^ 36. x < vpn (am_vaddr m) + lo \<or> vpn (am_vaddr m) + hi \<le> x \<longrightarrow> view S' x = view S x)"

lemma range_mapped_trans:
  assumes "range_mapped S S1 m flags lo mid" and "range_mapped S1 S2 m flags mid hi" and "lo \<le> mid" "mid \<le> hi"
    and "mPageManager S2 = mPageManager S1" and "vpn (am_vaddr m) + hi \<le> 2 ^ 36"
  shows "range_mapped S S2 m flags lo hi"
  unfolding range_mapped_def
proof (intro conjI allI impI)
  fix j assume j: "lo \<le> j \<and> j < hi"
  show "mapped S2 (vpn (am_vaddr m) + j) flags (am_paddr m + of_nat j * kPageSize)"
  proof (cases "j < mid")
    case True
    then have "view S2 (vpn (am_vaddr m) + j) = view S1 (vpn (am_vaddr m) + j)" using assms(2,4,6) by (simp add: range_mapped_def)
    then show ?thesis using assms(1,5) j True mapped_cong [of S2 _ S1] by (simp add: range_mapped_def)
  qed (use assms(2) j in \<open>auto simp: range_mapped_def\<close>)
next
  fix x assume x: "x < 2 ^ 36" "x < vpn (am_vaddr m) + lo \<or> vpn (am_vaddr m) + hi \<le> x"
  then show "view S2 x = view S x" using assms by (auto simp: range_mapped_def)
qed

lemma mapRange4k_loop_spec:
  assumes m: "page_aligned m N" and k: "k \<le> N"
    and fr: "\<forall>j < N. frame (mPageManager S) (am_paddr m + of_nat j * kPageSize)"
    and small: "\<forall>j e. k \<le> j \<and> j < N \<longrightarrow> view S (vpn (am_vaddr m) + j) \<noteq> Some (eLarge, e)"
    and inv: "pt_inv S l" and room: "missing S (\<Union>j \<in> {k..<N}. tables (vpn (am_vaddr m) + j)) \<le> length l"
  shows "\<exists>S'. mapRange4k_loop (of_nat k * kPageSize) m flags type l S
      = Some (drop (missing S (\<Union>j \<in> {k..<N}. tables (vpn (am_vaddr m) + j))) l, S')
    \<and> pt_inv S' (drop (missing S (\<Union>j \<in> {k..<N}. tables (vpn (am_vaddr m) + j))) l)
    \<and> same_env S S' \<and> mAllocator S' = mAllocator S
    \<and> nodes S' = nodes S \<union> (\<Union>j \<in> {k..<N}. tables (vpn (am_vaddr m) + j)) \<and> range_mapped S S' m flags k N"
  using k fr small inv room
proof (induction "N - k" arbitrary: k S l)
  case 0
  then have "k = N" by simp
  then show ?case using 0 m
    by (subst mapRange4k_loop.simps) (auto simp: page_aligned_def missing_def range_mapped_def)
next
  case (Suc d)
  let ?n0 = "vpn (am_vaddr m)" and ?i = "of_nat k * kPageSize :: u64"
  define U where "U = (\<Union>j \<in> {Suc k..<N}. tables (?n0 + j))"
  have k: "k < N" "k \<le> 2 ^ 36" "N \<le> 2 ^ 36" using Suc.hyps(2) m by (auto simp: page_aligned_def)
  have Us: "(\<Union>j \<in> {k..<N}. tables (?n0 + j)) = tables (?n0 + k) \<union> U"
  proof -
    have "{k..<N} = insert k {Suc k..<N}" using k(1) by auto
    then show ?thesis by (simp add: U_def)
  qed
  have vk: "vpn (am_vaddr m + ?i) = ?n0 + k" using m k by (intro vpn_add_less) (auto simp: page_aligned_def)
  have sm: "view S (vpn (am_vaddr m + ?i)) \<noteq> Some (eLarge, e)" for e using Suc.prems(3) k(1) by (auto simp: vk)
  have fin: "finite U" by (simp add: U_def)
  have rm: "missing S (tables (vpn (am_vaddr m + ?i))) \<le> length l"
    using Suc.prems(5) missing_mono [of "tables (?n0 + k) \<union> U" "tables (?n0 + k)" S] fin unfolding Us vk by simp
  have frk: "frame (mPageManager S) (am_paddr m + ?i)" using Suc.prems(2) k(1) by blast
  obtain e S1 where 1: "map4k (am_paddr m + ?i) (am_vaddr m + ?i) flags type l S = Some (drop (missing S (tables (?n0 + k))) l, S1)"
    "pt_inv S1 (drop (missing S (tables (?n0 + k))) l)" "same_env S S1" "mAllocator S1 = mAllocator S"
    "nodes S1 = nodes S \<union> tables (?n0 + k)" "maps_to (mPageManager S) flags (am_paddr m + ?i) e"
    "\<forall>x < 2 ^ 36. view S1 x = (if x = ?n0 + k then Some (eRegular, e) else view S x)"
    using map4k_spec [OF Suc.prems(4) rm frk sm, of flags type] unfolding vk by blast
  have pm: "mPageManager S1 = mPageManager S" using 1(3) by (simp add: same_env_def)
  have mi: "missing S (tables (?n0 + k) \<union> U) = missing S (tables (?n0 + k)) + missing S1 U"
    by (rule missing_Un [OF _ fin 1(5)]) simp
  have n36: "?n0 + j < 2 ^ 36" if "j < N" for j using that m by (simp add: page_aligned_def)
  have r1: "range_mapped S S1 m flags k (Suc k)"
    unfolding range_mapped_def
  proof (intro conjI allI impI)
    fix j assume "k \<le> j \<and> j < Suc k"
    then have "j = k" by simp
    then show "mapped S1 (?n0 + j) flags (am_paddr m + of_nat j * kPageSize)"
      using 1(6,7) n36 [OF k(1)] pm by (intro mapped_pte [of _ _ e]) simp_all
  qed (use 1(7) in auto)
  have sm1: "\<forall>j e. Suc k \<le> j \<and> j < N \<longrightarrow> view S1 (?n0 + j) \<noteq> Some (eLarge, e)"
    using 1(7) Suc.prems(3) n36 by (auto simp: Suc_le_eq)
  have "\<exists>S'. mapRange4k_loop (of_nat (Suc k) * kPageSize) m flags type (drop (missing S (tables (?n0 + k))) l) S1
      = Some (drop (missing S1 U) (drop (missing S (tables (?n0 + k))) l), S')
    \<and> pt_inv S' (drop (missing S1 U) (drop (missing S (tables (?n0 + k))) l))
    \<and> same_env S1 S' \<and> mAllocator S' = mAllocator S1 \<and> nodes S' = nodes S1 \<union> U \<and> range_mapped S1 S' m flags (Suc k) N"
    unfolding U_def using Suc.hyps(2) k(1) Suc.prems(2,5) 1(2) sm1 mi
    by (intro Suc.hyps(1)) (auto simp: pm Us U_def)
  then obtain S' where 2: "mapRange4k_loop (of_nat (Suc k) * kPageSize) m flags type (drop (missing S (tables (?n0 + k))) l) S1
      = Some (drop (missing S1 U) (drop (missing S (tables (?n0 + k))) l), S')"
    "pt_inv S' (drop (missing S1 U) (drop (missing S (tables (?n0 + k))) l))"
    "same_env S1 S'" "mAllocator S' = mAllocator S1" "nodes S' = nodes S1 \<union> U" "range_mapped S1 S' m flags (Suc k) N" by blast
  have lt: "?i < am_size m" using page_index_less [OF k(2,3)] k(1) m by (simp add: page_aligned_def)
  have nx: "?i + kPageSize = of_nat (Suc k) * kPageSize" by (simp add: algebra_simps)
  have "mapRange4k_loop ?i m flags type l S = Some (drop (missing S1 U) (drop (missing S (tables (?n0 + k))) l), S')"
    using lt 1(1) 2(1) by (subst mapRange4k_loop.simps) (simp add: nx)
  moreover have "range_mapped S S' m flags k N"
    using range_mapped_trans [OF r1 2(6)] k(1) m 2(3) by (simp add: page_aligned_def same_env_def)
  moreover have "drop (missing S1 U) (drop (missing S (tables (?n0 + k))) l) = drop (missing S (tables (?n0 + k) \<union> U)) l"
    unfolding mi by (simp add: add.commute)
  ultimately show ?case unfolding Us using 1(3,4,5) 2(2,3,4,5) by (auto intro: same_env_trans)
qed

section \<open>The loop over 2 MiB pages\<close>

definition large_aligned :: "AddressMapping \<Rightarrow> nat \<Rightarrow> bool" where
  "large_aligned m M \<longleftrightarrow> page_aligned m (512 * M) \<and> vpn (am_vaddr m) mod 512 = 0"

lemma large_step: "kLargePageSize = of_nat 512 * kPageSize"
  by (simp add: kLargePageSize_def kPageSize_def)

lemma same_large_block:
  fixes n0 k x :: nat
  assumes "n0 mod 512 = 0"
  shows "x div 512 = (n0 + 512 * k) div 512 \<longleftrightarrow> n0 + 512 * k \<le> x \<and> x < n0 + 512 * Suc k"
proof -
  obtain c where c: "n0 = 512 * c" using assms by (metis mod_0_imp_dvd dvdE)
  have "x div 512 = c + k \<longleftrightarrow> 512 * (c + k) \<le> x \<and> x < 512 * Suc (c + k)"
    using div_mult_mod_eq [of x 512] mod_less_divisor [of 512 x] by (auto simp: algebra_simps intro: div_nat_eqI)
  then show ?thesis by (simp add: c algebra_simps)
qed

lemma large_block_mapped:
  assumes n0: "vpn (am_vaddr m) mod 512 = 0" and bound: "vpn (am_vaddr m) + 512 * Suc k \<le> 2 ^ 36"
    and e: "maps_to (mPageManager S') flags (am_paddr m + of_nat (512 * k) * kPageSize) e"
    and v: "\<forall>x < 2 ^ 36. view S' x = (if x div 512 = (vpn (am_vaddr m) + 512 * k) div 512 then Some (eLarge, e) else view S x)"
  shows "range_mapped S S' m flags (512 * k) (512 * Suc k)"
  unfolding range_mapped_def
proof (intro conjI allI impI)
  let ?n0 = "vpn (am_vaddr m)"
  note B = same_large_block [OF n0, of _ k]
  show "view S' x = view S x" if "x < 2 ^ 36" "x < ?n0 + 512 * k \<or> ?n0 + 512 * Suc k \<le> x" for x
    using v that B [of x] by auto
  fix j assume j: "512 * k \<le> j \<and> j < 512 * Suc k"
  then have "?n0 + j < 2 ^ 36" using bound by linarith
  then have "view S' (?n0 + j) = Some (eLarge, e)" using v B [of "?n0 + j"] j by auto
  moreover have "(?n0 + j) mod 512 = j - 512 * k"
  proof -
    have "(?n0 + j) mod 512 = j mod 512" using n0 by (metis add_0 mod_add_left_eq)
    also have "\<dots> = j - 512 * k" using j by (intro mod_nat_eqI) auto
    finally show ?thesis .
  qed
  moreover have "am_paddr m + of_nat (512 * k) * kPageSize + of_nat (j - 512 * k) * kPageSize = am_paddr m + of_nat j * kPageSize"
    using j by (simp add: algebra_simps)
  ultimately show "mapped S' (?n0 + j) flags (am_paddr m + of_nat j * kPageSize)" using mapped_pde [OF _ e] by metis
qed

text \<open>The directories above a row of 2 MiB pages, and the page tables that these pages replace.\<close>

definition large_dirs :: "nat \<Rightarrow> nat \<Rightarrow> nat \<Rightarrow> nat list set" where
  "large_dirs n0 k M = (\<Union>j \<in> {k..<M}. dirs (n0 + 512 * j))"

definition replaced :: "nat \<Rightarrow> nat \<Rightarrow> nat \<Rightarrow> nat list set" where
  "replaced n0 k M = (\<lambda>j. pt_path (n0 + 512 * j)) ` {k..<M}"

lemma dirs_not_pt: "pt_path n \<notin> dirs x"
  by (simp add: dirs_def pt_path_def pd_path_def)

lemma large_sets_step:
  assumes "k < M"
  shows "large_dirs n0 k M = dirs (n0 + 512 * k) \<union> large_dirs n0 (Suc k) M"
    and "replaced n0 k M = insert (pt_path (n0 + 512 * k)) (replaced n0 (Suc k) M)"
    and "finite (large_dirs n0 k M)" and "large_dirs n0 k M \<inter> replaced n0 j M' = {}"
proof -
  have "{k..<M} = insert k {Suc k..<M}" using assms by auto
  then show "large_dirs n0 k M = dirs (n0 + 512 * k) \<union> large_dirs n0 (Suc k) M"
    "replaced n0 k M = insert (pt_path (n0 + 512 * k)) (replaced n0 (Suc k) M)"
    by (simp_all add: large_dirs_def replaced_def)
  show "finite (large_dirs n0 k M)" by (simp add: large_dirs_def)
  show "large_dirs n0 k M \<inter> replaced n0 j M' = {}" using dirs_not_pt by (auto simp: large_dirs_def replaced_def)
qed

lemma mapRange2m_loop_spec:
  assumes m: "large_aligned m M" and k: "k \<le> M"
    and fr: "\<forall>j < 512 * M. frame (mPageManager S) (am_paddr m + of_nat j * kPageSize)"
    and inv: "pt_inv S l" and room: "missing S (large_dirs (vpn (am_vaddr m)) k M) \<le> length l"
  shows "\<exists>S'. mapRange2m_loop (of_nat (512 * k) * kPageSize) m flags type l S
      = Some (drop (missing S (large_dirs (vpn (am_vaddr m)) k M)) l, S')
    \<and> pt_inv S' (drop (missing S (large_dirs (vpn (am_vaddr m)) k M)) l) \<and> same_env S S'
    \<and> (replaced (vpn (am_vaddr m)) k M \<inter> nodes S = {} \<longrightarrow> mAllocator S' = mAllocator S)
    \<and> nodes S' = nodes S \<union> large_dirs (vpn (am_vaddr m)) k M - replaced (vpn (am_vaddr m)) k M
    \<and> range_mapped S S' m flags (512 * k) (512 * M)"
  using k fr inv room
proof (induction "M - k" arbitrary: k S l)
  case 0
  then have "k = M" by simp
  then show ?case using 0 m
    by (subst mapRange2m_loop.simps)
      (auto simp: large_aligned_def page_aligned_def missing_def range_mapped_def large_dirs_def replaced_def)
next
  case (Suc d)
  let ?n0 = "vpn (am_vaddr m)" and ?i = "of_nat (512 * k) * kPageSize :: u64"
  let ?D = "dirs (?n0 + 512 * k)" and ?U = "large_dirs ?n0 (Suc k) M" and ?R = "replaced ?n0 (Suc k) M"
  have k: "k < M" using Suc.hyps(2) by simp
  have pa: "page_aligned m (512 * M)" and n0: "?n0 mod 512 = 0" using m by (simp_all add: large_aligned_def)
  have k36: "512 * k \<le> 2 ^ 36" "512 * M \<le> 2 ^ 36" "?n0 + 512 * Suc k \<le> 2 ^ 36"
    using k pa by (auto simp: page_aligned_def)
  note Z = large_sets_step [OF k, of ?n0]
  have fin: "finite ?U" by (simp add: large_dirs_def)
  have vk: "vpn (am_vaddr m + ?i) = ?n0 + 512 * k" using pa k36 by (intro vpn_add_less) (auto simp: page_aligned_def)
  have rm: "missing S (dirs (vpn (am_vaddr m + ?i))) \<le> length l"
    using Suc.prems(4) missing_mono [of "?D \<union> ?U" ?D S] fin unfolding Z vk by simp
  have frk: "frame (mPageManager S) (am_paddr m + ?i)" using Suc.prems(2) [THEN spec, of "512 * k"] k by linarith
  obtain e S1 where 1: "map2m (am_paddr m + ?i) (am_vaddr m + ?i) flags type l S = Some (drop (missing S ?D) l, S1)"
    "pt_inv S1 (drop (missing S ?D) l)" "same_env S S1" "pt_path (?n0 + 512 * k) \<notin> nodes S \<longrightarrow> mAllocator S1 = mAllocator S"
    "nodes S1 = nodes S \<union> ?D - {pt_path (?n0 + 512 * k)}" "maps_to (mPageManager S) flags (am_paddr m + ?i) e"
    "\<forall>x < 2 ^ 36. view S1 x = (if x div 512 = (?n0 + 512 * k) div 512 then Some (eLarge, e) else view S x)"
    using map2m_spec [OF Suc.prems(3) rm frk, of flags type] unfolding vk by blast
  have pm: "mPageManager S1 = mPageManager S" using 1(3) by (simp add: same_env_def)
  have "?U \<inter> nodes S1 = ?U \<inter> (nodes S \<union> ?D)" using 1(5) dirs_not_pt by (auto simp: large_dirs_def)
  then have mi: "missing S (?D \<union> ?U) = missing S ?D + missing S1 ?U" by (rule missing_Un' [OF _ fin, rotated]) simp
  have r1: "range_mapped S S1 m flags (512 * k) (512 * Suc k)"
    by (rule large_block_mapped [OF n0 k36(3) 1(6) [folded pm] 1(7)])
  have "\<exists>S'. mapRange2m_loop (of_nat (512 * Suc k) * kPageSize) m flags type (drop (missing S ?D) l) S1
      = Some (drop (missing S1 ?U) (drop (missing S ?D) l), S') \<and> pt_inv S' (drop (missing S1 ?U) (drop (missing S ?D) l))
    \<and> same_env S1 S' \<and> (?R \<inter> nodes S1 = {} \<longrightarrow> mAllocator S' = mAllocator S1) \<and> nodes S' = nodes S1 \<union> ?U - ?R
    \<and> range_mapped S1 S' m flags (512 * Suc k) (512 * M)"
    using Suc.hyps(2) k Suc.prems(2,4) 1(2) mi by (intro Suc.hyps(1)) (auto simp: pm Z)
  then obtain S' where 2: "mapRange2m_loop (of_nat (512 * Suc k) * kPageSize) m flags type (drop (missing S ?D) l) S1
      = Some (drop (missing S1 ?U) (drop (missing S ?D) l), S')" "pt_inv S' (drop (missing S1 ?U) (drop (missing S ?D) l))"
    "same_env S1 S'" "?R \<inter> nodes S1 = {} \<longrightarrow> mAllocator S' = mAllocator S1" "nodes S' = nodes S1 \<union> ?U - ?R"
    "range_mapped S1 S' m flags (512 * Suc k) (512 * M)" by blast
  have lt: "?i < am_size m" using page_index_less [OF k36(1,2)] k pa by (simp add: page_aligned_def)
  have nx: "?i + kLargePageSize = of_nat (512 * Suc k) * kPageSize" unfolding large_step by (simp add: algebra_simps)
  have "mapRange2m_loop ?i m flags type l S = Some (drop (missing S1 ?U) (drop (missing S ?D) l), S')"
    using lt 1(1) 2(1) by (subst mapRange2m_loop.simps) (simp only: nx if_True bind.bind_lunit prod.case)
  moreover have "range_mapped S S' m flags (512 * k) (512 * M)"
    using range_mapped_trans [OF r1 2(6)] k pa 2(3) by (simp add: page_aligned_def same_env_def)
  moreover have "drop (missing S1 ?U) (drop (missing S ?D) l) = drop (missing S (?D \<union> ?U)) l" unfolding mi by (simp add: add.commute)
  moreover have "nodes S' = nodes S \<union> (?D \<union> ?U) - insert (pt_path (?n0 + 512 * k)) ?R"
    using 2(5) 1(5) dirs_not_pt by (auto simp: large_dirs_def)
  moreover have "insert (pt_path (?n0 + 512 * k)) ?R \<inter> nodes S = {} \<longrightarrow> mAllocator S' = mAllocator S"
    using 1(4,5) 2(4) dirs_not_pt by (auto simp: replaced_def)
  ultimately show ?case unfolding Z using 1(3) 2(2,3) by (auto intro: same_env_trans)
qed

section \<open>Cutting a range into head, body and tail\<close>

definition sub_mapping :: "AddressMapping \<Rightarrow> nat \<Rightarrow> nat \<Rightarrow> AddressMapping" where
  "sub_mapping m c n = \<lparr>am_vaddr = am_vaddr m + of_nat c * kPageSize, am_paddr = am_paddr m + of_nat c * kPageSize,
     am_size = of_nat n * kPageSize\<rparr>"

lemma low_bits:
  assumes "p AND (kLargePageSize - 1) = v AND (kLargePageSize - 1)"
  shows "vpn p mod 512 = vpn v mod 512"
proof -
  have k: "kLargePageSize - 1 = (mask 21 :: u64)" by (simp add: kLargePageSize_def mask_eq_exp_minus_1)
  have "unat (x AND mask 21) = unat x mod 2 ^ 21" for x :: u64
    unfolding take_bit_eq_mask [symmetric] unsigned_take_bit_eq by (simp add: take_bit_eq_mod)
  then have "unat p mod 2 ^ 21 = unat v mod 2 ^ 21" using assms unfolding k by metis
  moreover have "vpn x mod 512 = unat x mod 2 ^ 21 div 4096" for x
  proof -
    have "unat x mod (4096 * 512) div 4096 = unat x div 4096 mod 512" by (subst mod_mult2_eq) simp
    then show ?thesis by (simp add: vpn_def mod_mod_cancel)
  qed
  ultimately show ?thesis by metis
qed

definition head_pages :: "u64 \<Rightarrow> nat" where
  "head_pages v = (512 - vpn v mod 512) mod 512"

lemma round_pages:
  assumes al: "4096 dvd unat v" and top: "unat v + 2 ^ 21 < 2 ^ 64"
  shows "roundup v kLargePageSize = v + of_nat (head_pages v) * kPageSize"
    and "rounddown v kLargePageSize = v - of_nat (vpn v mod 512) * kPageSize"
proof -
  note P = large_parts [OF al top]
  show d: "rounddown v kLargePageSize = v - of_nat (vpn v mod 512) * kPageSize" using P(2) by (simp add: algebra_simps)
  show "roundup v kLargePageSize = v + of_nat (head_pages v) * kPageSize"
  proof (cases "vpn v mod 512 = 0")
    case False
    then have "head_pages v = 512 - vpn v mod 512" by (simp add: head_pages_def)
    then show ?thesis using P(3) False unfolding d by (simp add: algebra_simps)
  qed (use P(4) in \<open>simp add: head_pages_def\<close>)
qed

lemma large_cut:
  assumes m: "page_aligned m N" and p: "4096 dvd unat (am_paddr m)" "unat (am_paddr m) + N * 4096 + 2 ^ 21 < 2 ^ 64"
    and top: "unat (am_vaddr m) + N * 4096 + 2 ^ 21 < 2 ^ 64" and el: "IsLargePageEligible m"
  shows "\<exists>h M t. N = h + 512 * M + t \<and> (vpn (am_vaddr m) + h) mod 512 = 0 \<and> h < 512 \<and> t < 512 \<and> 0 < M
    \<and> AlignLargeRangeHead m = sub_mapping m 0 h \<and> AlignLargeRangeBody m = sub_mapping m h (512 * M)
    \<and> AlignLargeRangeTail m = sub_mapping m (h + 512 * M) t"
proof -
  let ?v = "am_vaddr m" and ?p = "am_paddr m" and ?n0 = "vpn (am_vaddr m)"
  define h t where "h = head_pages ?v" and "t = (?n0 + N) mod 512"
  have sz: "am_size m = of_nat N * kPageSize" "4096 dvd unat ?v" "?n0 + N \<le> 2 ^ 36" using m by (simp_all add: page_aligned_def)
  have unN: "unat (am_size m) = N * 4096" unfolding sz using sz(3) by (simp add: kPageSize_def unat_word_ariths unat_of_nat)
  have ends: "unat (x + am_size m) = unat x + N * 4096" "4096 dvd unat (x + am_size m)"
    if "4096 dvd unat x" "unat x + N * 4096 + 2 ^ 21 < 2 ^ 64" for x
    using that unN by (simp_all add: unat_add_small)
  have "?p AND (kLargePageSize - 1) = ?v AND (kLargePageSize - 1)"
    using el by (simp add: IsLargePageEligible_def Let_def split: if_splits)
  then have pv: "vpn ?p mod 512 = ?n0 mod 512" by (rule low_bits)
  have vE: "vpn (x + am_size m) mod 512 = (vpn x + N) mod 512" if "4096 dvd unat x" for x
    using vpn_add [OF that, of N] unfolding sz by (simp add: mod_mod_cancel)
  have vt: "vpn (?v + am_size m) mod 512 = t" "vpn (?p + am_size m) mod 512 = t"
    using vE [OF sz(2)] vE [OF p(1)] mod_add_cong [OF pv refl, of N] by (simp_all add: t_def)
  have hh: "head_pages ?p = h" using pv by (simp add: h_def head_pages_def)
  have tail: "rounddown (x + am_size m) kLargePageSize = x + am_size m - of_nat t * kPageSize"
    if "4096 dvd unat x" "unat x + N * 4096 + 2 ^ 21 < 2 ^ 64" "vpn (x + am_size m) mod 512 = t" for x
    using round_pages(2) [of "x + am_size m"] ends [OF that(1,2)] that(2,3) by simp
  have head: "roundup x kLargePageSize = x + of_nat h * kPageSize"
    if "4096 dvd unat x" "unat x + N * 4096 + 2 ^ 21 < 2 ^ 64" "head_pages x = h" for x
    using round_pages(1) [of x] that by simp
  have h5: "h < 512" "t < 512" by (simp_all add: h_def t_def head_pages_def)
  have "roundup ?p kLargePageSize < rounddown (?p + am_size m) kLargePageSize" "kLargePageSize \<le> am_size m"
    using el by (simp_all add: IsLargePageEligible_def Let_def split: if_splits)
  then have lt: "?p + of_nat h * kPageSize < ?p + am_size m - of_nat t * kPageSize" and N5: "512 \<le> N"
    using head [OF p hh] tail [OF p vt(2)] unN by (simp_all add: word_le_nat_alt kLargePageSize_def)
  have small: "unat (of_nat x * kPageSize :: u64) = x * 4096" if "x \<le> 512" for x
    using that by (simp add: kPageSize_def unat_word_ariths unat_of_nat)
  have u1: "unat (?p + of_nat h * kPageSize) = unat ?p + h * 4096"
    using small [of h] h5 p(2) N5 by (subst unat_add_small) auto
  have u2: "unat (?p + am_size m - of_nat t * kPageSize) = unat ?p + N * 4096 - t * 4096"
    using small [of t] h5 ends(1) [OF p] N5 by (subst unat_sub_le) auto
  have ht: "h + t < N" using lt unfolding word_less_nat_alt u1 u2 by linarith
  have al: "(?n0 + h) mod 512 = 0"
  proof -
    have "(?n0 mod 512 + h) mod 512 = 0" unfolding h_def head_pages_def by (cases "?n0 mod 512 = 0") (simp_all add: mod_simps)
    then show ?thesis by (simp add: mod_simps)
  qed
  have "512 dvd N - h - t"
  proof -
    have "(?n0 + N) - t = (?n0 + h) + (N - h - t)" using ht by simp
    moreover have "512 dvd (?n0 + N) - t" unfolding t_def by (rule dvd_minus_mod)
    ultimately show ?thesis using al by (metis dvd_add_right_iff mod_0_imp_dvd)
  qed
  then obtain M where M: "N - h - t = 512 * M" by blast
  have N: "N = h + 512 * M + t" "0 < M" using M ht by (auto intro: gr0I)
  have sz': "am_size m = of_nat h * kPageSize + of_nat (512 * M) * kPageSize + of_nat t * kPageSize"
    unfolding sz(1) N(1) by (simp add: algebra_simps)
  have "AlignLargeRangeHead m = sub_mapping m 0 h" "AlignLargeRangeBody m = sub_mapping m h (512 * M)"
    "AlignLargeRangeTail m = sub_mapping m (h + 512 * M) t"
    unfolding AlignLargeRangeHead_def AlignLargeRangeBody_def AlignLargeRangeTail_def sub_mapping_def Let_def
      head [OF sz(2) top h_def [symmetric]] tail [OF sz(2) top vt(1)]
    unfolding sz' by (simp_all add: algebra_simps)
  then show ?thesis using N al h5
    by - (rule exI [of _ h], rule exI [of _ M], rule exI [of _ t], intro conjI, assumption+)
qed
section \<open>Mapping with a list of tables\<close>

lemma sub_mapping_fields [simp]:
  "am_vaddr (sub_mapping m c n) = am_vaddr m + of_nat c * kPageSize"
  "am_paddr (sub_mapping m c n) = am_paddr m + of_nat c * kPageSize" "am_size (sub_mapping m c n) = of_nat n * kPageSize"
  by (simp_all add: sub_mapping_def)

lemma sub_mapping_aligned:
  assumes m: "page_aligned m N" and c: "c + n \<le> N" "c < N \<or> vpn (am_vaddr m) + c < 2 ^ 36"
  shows "page_aligned (sub_mapping m c n) n" "vpn (am_vaddr (sub_mapping m c n)) = vpn (am_vaddr m) + c"
proof -
  have n: "4096 dvd unat (am_vaddr m)" "vpn (am_vaddr m) + N \<le> 2 ^ 36" using m by (simp_all add: page_aligned_def)
  then have "vpn (am_vaddr m) + c < 2 ^ 36" using c by linarith
  then show v: "vpn (am_vaddr (sub_mapping m c n)) = vpn (am_vaddr m) + c" using n by (simp add: vpn_add)
  obtain y where y: "unat (am_vaddr m) = 4096 * y" using n by blast
  have "am_vaddr m = of_nat (4096 * y)" unfolding y [symmetric] by simp
  then have "am_vaddr m + of_nat c * kPageSize = of_nat (4096 * (y + c))" by (simp add: kPageSize_def algebra_simps)
  then have "unat (am_vaddr m + of_nat c * kPageSize) = 4096 * (y + c) mod 2 ^ 64" by (simp only: unat_of_nat) simp
  moreover have "(4096 :: nat) dvd 4096 * (y + c) mod 2 ^ 64" by (rule dvd_mod) simp_all
  ultimately show "page_aligned (sub_mapping m c n) n" using v n c by (simp add: page_aligned_def)
qed

lemma sub_mapping_range:
  assumes "vpn (am_vaddr (sub_mapping m c n)) = vpn (am_vaddr m) + c" and r: "range_mapped S S' (sub_mapping m c n) flags 0 n"
  shows "range_mapped S S' m flags c (c + n)"
  unfolding range_mapped_def
proof (intro conjI allI impI)
  fix j assume j: "c \<le> j \<and> j < c + n"
  then obtain i where i: "j = c + i" "i < n" by (metis le_Suc_ex nat_add_left_cancel_less)
  then have "mapped S' (vpn (am_vaddr m) + c + i) flags (am_paddr m + of_nat c * kPageSize + of_nat i * kPageSize)"
    using r assms(1) by (simp add: range_mapped_def)
  then show "mapped S' (vpn (am_vaddr m) + j) flags (am_paddr m + of_nat j * kPageSize)" by (simp add: i algebra_simps)
qed (use r assms(1) in \<open>auto simp: range_mapped_def\<close>)

definition range_tables :: "nat \<Rightarrow> nat \<Rightarrow> nat list set" where
  "range_tables n0 N = (\<Union>j \<in> {0..<N}. tables (n0 + j))"

lemma mapRange4k_spec:
  assumes m: "page_aligned m N" and fr: "\<forall>j < N. frame (mPageManager S) (am_paddr m + of_nat j * kPageSize)"
    and small: "\<forall>j < N. \<forall>e. view S (vpn (am_vaddr m) + j) \<noteq> Some (eLarge, e)"
    and inv: "pt_inv S l" and room: "missing S (range_tables (vpn (am_vaddr m)) N) \<le> length l"
  shows "\<exists>S'. mapRange4k m flags type l S = Some (drop (missing S (range_tables (vpn (am_vaddr m)) N)) l, S')
    \<and> pt_inv S' (drop (missing S (range_tables (vpn (am_vaddr m)) N)) l) \<and> same_env S S' \<and> mAllocator S' = mAllocator S
    \<and> nodes S' = nodes S \<union> range_tables (vpn (am_vaddr m)) N \<and> range_mapped S S' m flags 0 N"
  using mapRange4k_loop_spec [OF m _ fr _ inv, of 0 flags type] small room unfolding range_tables_def by (simp add: mapRange4k_def)

lemma range_tables_split: "range_tables n0 (a + b) = range_tables n0 a \<union> range_tables (n0 + a) b"
proof -
  have "{0..<a + b} = {0..<a} \<union> {a..<a + b}" by auto
  also have "{a..<a + b} = (\<lambda>j. a + j) ` {0..<b}" by (simp add: add.commute)
  finally have eq: "{0..<a + b} = {0..<a} \<union> (\<lambda>j. a + j) ` {0..<b}" .
  show ?thesis unfolding range_tables_def eq by (simp only: image_Un Union_Un_distrib image_image add.assoc)
qed

lemma large_dirs_sub: "large_dirs n0 0 M \<subseteq> range_tables n0 (512 * M)"
  unfolding large_dirs_def range_tables_def tables_def by force

lemma finite_range_tables [simp]: "finite (range_tables n0 N)"
  by (simp add: range_tables_def)

definition mapping_ok :: "PageBuilder \<Rightarrow> AddressMapping \<Rightarrow> nat \<Rightarrow> bool" where
  "mapping_ok pb m N \<longleftrightarrow> page_aligned m N \<and> 4096 dvd unat (am_paddr m) \<and> unat (am_paddr m) + N * 4096 + 2 ^ 21 < 2 ^ 64
     \<and> unat (am_vaddr m) + N * 4096 + 2 ^ 21 < 2 ^ 64
     \<and> (\<forall>j < N. frame pb (am_paddr m + of_nat j * kPageSize))"

lemma sub_mapping_frames:
  assumes "mapping_ok pb m N" and "c + n \<le> N"
  shows "\<forall>j < n. frame pb (am_paddr (sub_mapping m c n) + of_nat j * kPageSize)"
proof (intro allI impI)
  fix j assume "j < n"
  then have "frame pb (am_paddr m + of_nat (c + j) * kPageSize)" using assms by (simp add: mapping_ok_def del: of_nat_add)
  then show "frame pb (am_paddr (sub_mapping m c n) + of_nat j * kPageSize)" by (simp add: algebra_simps)
qed

text \<open>The head and the tail, which may be empty.\<close>

lemma map_edge:
  assumes mo: "mapping_ok (mPageManager S) m N" and c: "c + n \<le> N" "n < 512" and inv: "pt_inv S l"
    and small: "\<forall>j e. c \<le> j \<and> j < c + n \<longrightarrow> view S (vpn (am_vaddr m) + j) \<noteq> Some (eLarge, e)"
    and room: "missing S (range_tables (vpn (am_vaddr m) + c) n) \<le> length l"
  shows "\<exists>S'. (if \<not> am_isEmpty (sub_mapping m c n) then mapRange4k (sub_mapping m c n) flags type l S else Some (l, S))
      = Some (drop (missing S (range_tables (vpn (am_vaddr m) + c) n)) l, S')
    \<and> pt_inv S' (drop (missing S (range_tables (vpn (am_vaddr m) + c) n)) l)
    \<and> same_env S S' \<and> mAllocator S' = mAllocator S \<and> nodes S' = nodes S \<union> range_tables (vpn (am_vaddr m) + c) n
    \<and> range_mapped S S' m flags c (c + n)"
proof (cases "n = 0")
  case True
  then show ?thesis using inv by (auto simp: am_isEmpty_def range_tables_def missing_def range_mapped_def)
next
  case False
  have m: "page_aligned m N" and c': "c < N" using mo c False by (simp_all add: mapping_ok_def)
  note A = sub_mapping_aligned [OF m c(1) disjI1 [OF c']]
  have "unat (am_size (sub_mapping m c n)) = n * 4096"
    using c(2) by (simp add: kPageSize_def unat_word_ariths unat_of_nat)
  then have "am_size (sub_mapping m c n) \<noteq> 0" using False by (metis mult_is_0 unat_0 zero_neq_numeral)
  then have ne: "\<not> am_isEmpty (sub_mapping m c n)" by (simp add: am_isEmpty_def)
  have small': "\<forall>j < n. \<forall>e. view S (vpn (am_vaddr (sub_mapping m c n)) + j) \<noteq> Some (eLarge, e)"
    using small unfolding A(2) by (auto simp: add.assoc)
  show ?thesis using ne mapRange4k_spec [OF A(1) sub_mapping_frames [OF mo c(1)] small' inv, of flags type] room
      sub_mapping_range [OF A(2)] unfolding A(2) by auto
qed

lemma map_body:
  assumes mo: "mapping_ok (mPageManager S) m N" and c: "c + 512 * M \<le> N" "0 < M" "(vpn (am_vaddr m) + c) mod 512 = 0"
    and inv: "pt_inv S l" and room: "missing S (large_dirs (vpn (am_vaddr m) + c) 0 M) \<le> length l"
  shows "\<exists>S'. mapRange2m (sub_mapping m c (512 * M)) flags type l S = Some (drop (missing S (large_dirs (vpn (am_vaddr m) + c) 0 M)) l, S')
    \<and> pt_inv S' (drop (missing S (large_dirs (vpn (am_vaddr m) + c) 0 M)) l) \<and> same_env S S'
    \<and> (replaced (vpn (am_vaddr m) + c) 0 M \<inter> nodes S = {} \<longrightarrow> mAllocator S' = mAllocator S)
    \<and> nodes S' = nodes S \<union> large_dirs (vpn (am_vaddr m) + c) 0 M - replaced (vpn (am_vaddr m) + c) 0 M
    \<and> range_mapped S S' m flags c (c + 512 * M)"
proof -
  have m: "page_aligned m N" and c': "c < N" using mo c by (simp_all add: mapping_ok_def)
  note A = sub_mapping_aligned [OF m c(1) disjI1 [OF c']]
  have la: "large_aligned (sub_mapping m c (512 * M)) M" using A c(3) by (simp add: large_aligned_def)
  show ?thesis using mapRange2m_loop_spec [OF la _ sub_mapping_frames [OF mo c(1)] inv, of 0 flags type] room
      sub_mapping_range [OF A(2)] unfolding A(2) mapRange2m_def by auto
qed

lemma replaced_apart:
  assumes "(n0 :: nat) mod 512 = 0" and "n0 + 512 * M + t \<le> 2 ^ 36" and "t < 512"
  shows "range_tables (n0 + 512 * M) t \<inter> replaced n0 0 M = {}"
proof -
  have "pt_path (n0 + 512 * M + i) \<noteq> pt_path (n0 + 512 * j)" if "i < t" "j < M" for i j
  proof -
    have "(n0 + 512 * M + i) div 512 \<noteq> (n0 + 512 * j) div 512"
      using same_large_block [OF assms(1), of "n0 + 512 * M + i" j] that by auto
    moreover have "n0 + 512 * M + i < 2 ^ 36" "n0 + 512 * j < 2 ^ 36" using that assms(2) by simp_all
    ultimately show ?thesis using same_large_page by blast
  qed
  then show ?thesis using dirs_not_pt by (fastforce simp: range_tables_def replaced_def tables_def)
qed

lemma replaced_head:
  assumes al: "(n0 + h) mod 512 = (0 :: nat)" and bd: "n0 + h + 512 * M \<le> 2 ^ 36" and h: "h < 512"
  shows "replaced (n0 + h) 0 M \<inter> range_tables n0 h = {}"
proof -
  have "pt_path (n0 + i) \<noteq> pt_path (n0 + h + 512 * j)" if "i < h" "j < M" for i j
  proof -
    have "(n0 + i) div 512 \<noteq> (n0 + h + 512 * j) div 512" using same_large_block [OF al, of "n0 + i" j] that by auto
    moreover have "n0 + i < 2 ^ 36" "n0 + h + 512 * j < 2 ^ 36" using that bd by simp_all
    ultimately show ?thesis using same_large_page by blast
  qed
  then show ?thesis using dirs_not_pt by (fastforce simp: range_tables_def replaced_def tables_def)
qed

text \<open>The tables of a range are enough, whichever way it is cut.\<close>

definition map_result ::
  "PageTables \<Rightarrow> PageTableList \<Rightarrow> PageTables \<Rightarrow> PageTableList \<Rightarrow> AddressMapping \<Rightarrow> PageFlags \<Rightarrow> nat \<Rightarrow> bool" where
  "map_result S l S' l' m flags N \<longleftrightarrow> pt_inv S' l' \<and> same_env S S' \<and> range_mapped S S' m flags 0 N
     \<and> (\<exists>k \<le> missing S (range_tables (vpn (am_vaddr m)) N). l' = drop k l)
     \<and> ((\<forall>j < N. pt_path (vpn (am_vaddr m) + j) \<notin> nodes S) \<longrightarrow> mAllocator S' = mAllocator S)"

lemma mapWithList_large:
  assumes el: "IsLargePageEligible m"
    and "(if \<not> am_isEmpty (AlignLargeRangeHead m) then mapRange4k (AlignLargeRangeHead m) flags type l S else Some (l, S)) = Some (l1, S1)"
    and "mapRange2m (AlignLargeRangeBody m) flags type l1 S1 = Some (l2, S2)"
    and "(if \<not> am_isEmpty (AlignLargeRangeTail m) then mapRange4k (AlignLargeRangeTail m) flags type l2 S2 else Some (l2, S2)) = r"
  shows "mapWithList m flags type l S = r"
proof -
  have "roundup (rfront (physicalRange m)) kLargePageSize < rounddown (rback (physicalRange m)) kLargePageSize"
    using el by (simp add: IsLargePageEligible_def Let_def physicalRange_def split: if_splits)
  then show ?thesis using assms by (simp add: mapWithList_def Let_def)
qed

lemma mapWithList_spec:
  assumes mo: "mapping_ok (mPageManager S) m N" and inv: "pt_inv S l"
    and small: "\<forall>j < N. \<forall>e. view S (vpn (am_vaddr m) + j) \<noteq> Some (eLarge, e)"
    and room: "missing S (range_tables (vpn (am_vaddr m)) N) \<le> length l"
  shows "\<exists>l' S'. mapWithList m flags type l S = Some (l', S') \<and> map_result S l S' l' m flags N"
proof (cases "IsLargePageEligible m")
  case False
  have "page_aligned m N" "\<forall>j < N. frame (mPageManager S) (am_paddr m + of_nat j * kPageSize)" using mo by (simp_all add: mapping_ok_def)
  from mapRange4k_spec [OF this small inv room, of flags type] show ?thesis
    using False by (auto simp: mapWithList_def Let_def map_result_def)
next
  case True
  let ?n0 = "vpn (am_vaddr m)"
  have P: "page_aligned m N" "4096 dvd unat (am_paddr m)" "unat (am_paddr m) + N * 4096 + 2 ^ 21 < 2 ^ 64"
    "unat (am_vaddr m) + N * 4096 + 2 ^ 21 < 2 ^ 64" using mo by (simp_all add: mapping_ok_def)
  obtain h M t where N: "N = h + 512 * M + t" and al: "(?n0 + h) mod 512 = 0" and ht: "h < 512" "t < 512" "0 < M"
    and cut: "AlignLargeRangeHead m = sub_mapping m 0 h" "AlignLargeRangeBody m = sub_mapping m h (512 * M)"
      "AlignLargeRangeTail m = sub_mapping m (h + 512 * M) t" using large_cut [OF P True] by (elim exE conjE) (rule that)
  let ?A = "range_tables ?n0 h" and ?B = "large_dirs (?n0 + h) 0 M" and ?C = "range_tables (?n0 + h + 512 * M) t"
  let ?R = "replaced (?n0 + h) 0 M"
  have sub: "?A \<union> ?B \<union> ?C \<subseteq> range_tables ?n0 N"
    using large_dirs_sub [of "?n0 + h" M] unfolding N range_tables_split by (auto simp: add.assoc)
  have fin: "finite ?B" "finite ?A" "finite ?C" by (simp_all add: large_dirs_def)
  have room': "missing S (?A \<union> ?B \<union> ?C) \<le> length l" by (rule le_trans [OF missing_mono [OF finite_range_tables sub] room])
  have bd: "?n0 + h + 512 * M + t \<le> 2 ^ 36" using P(1) N by (simp add: page_aligned_def)
  have sa: "0 + h \<le> N" "h + 512 * M \<le> N" "h + 512 * M + t \<le> N" using N by simp_all
  have roomA: "missing S ?A \<le> length l" by (rule le_trans [OF missing_mono room']) (use fin in auto)
  have smA: "\<forall>j e. 0 \<le> j \<and> j < 0 + h \<longrightarrow> view S (?n0 + j) \<noteq> Some (eLarge, e)" using small N by auto
  obtain S1 where 1: "(if \<not> am_isEmpty (sub_mapping m 0 h) then mapRange4k (sub_mapping m 0 h) flags type l S else Some (l, S))
      = Some (drop (missing S ?A) l, S1)" "pt_inv S1 (drop (missing S ?A) l)" "same_env S S1" "mAllocator S1 = mAllocator S"
    "nodes S1 = nodes S \<union> ?A" "range_mapped S S1 m flags 0 h"
    using map_edge [OF mo sa(1) ht(1) inv smA, of flags type] roomA by auto
  have m2: "missing S (?A \<union> (?B \<union> ?C)) = missing S ?A + missing S1 (?B \<union> ?C)" by (rule missing_Un [OF _ _ 1(5)]) (use fin in auto)
  have pm1: "mPageManager S1 = mPageManager S" using 1(3) by (simp add: same_env_def)
  have roomB: "missing S1 ?B \<le> length (drop (missing S ?A) l)"
    using room' m2 missing_mono [of "?B \<union> ?C" ?B S1] fin by (simp add: Un_assoc)
  obtain S2 where 2: "mapRange2m (sub_mapping m h (512 * M)) flags type (drop (missing S ?A) l) S1
      = Some (drop (missing S1 ?B) (drop (missing S ?A) l), S2)" "pt_inv S2 (drop (missing S1 ?B) (drop (missing S ?A) l))"
    "same_env S1 S2" "?R \<inter> nodes S1 = {} \<longrightarrow> mAllocator S2 = mAllocator S1" "nodes S2 = nodes S1 \<union> ?B - ?R"
    "range_mapped S1 S2 m flags h (h + 512 * M)"
    using map_body [OF _ sa(2) ht(3) al 1(2) roomB, of flags type] mo by (auto simp: pm1)
  have "?C \<inter> nodes S2 = ?C \<inter> (nodes S1 \<union> ?B)" using 2(5) replaced_apart [OF al bd ht(2)] by auto
  then have m3: "missing S1 (?B \<union> ?C) = missing S1 ?B + missing S2 ?C" by (rule missing_Un' [OF fin(1,3)])
  have pm2: "mPageManager S2 = mPageManager S" using 2(3) pm1 by (simp add: same_env_def)
  have smC: "\<forall>j e. h + 512 * M \<le> j \<and> j < h + 512 * M + t \<longrightarrow> view S2 (?n0 + j) \<noteq> Some (eLarge, e)"
    using small 1(6) 2(6) N bd unfolding range_mapped_def by auto
  have roomC: "missing S2 (range_tables (?n0 + (h + 512 * M)) t) \<le> length (drop (missing S1 ?B) (drop (missing S ?A) l))"
    using room' m2 m3 by (simp add: Un_assoc add.assoc)
  obtain S3 where 3: "(if \<not> am_isEmpty (sub_mapping m (h + 512 * M) t)
        then mapRange4k (sub_mapping m (h + 512 * M) t) flags type (drop (missing S1 ?B) (drop (missing S ?A) l)) S2
        else Some (drop (missing S1 ?B) (drop (missing S ?A) l), S2))
      = Some (drop (missing S2 (range_tables (?n0 + (h + 512 * M)) t)) (drop (missing S1 ?B) (drop (missing S ?A) l)), S3)"
    "pt_inv S3 (drop (missing S2 (range_tables (?n0 + (h + 512 * M)) t)) (drop (missing S1 ?B) (drop (missing S ?A) l)))"
    "same_env S2 S3" "mAllocator S3 = mAllocator S2" "range_mapped S2 S3 m flags (h + 512 * M) (h + 512 * M + t)"
    using map_edge [OF _ sa(3) ht(2) 2(2) smC roomC, of flags type] mo by (auto simp: pm2)
  have "mapWithList m flags type l S
      = Some (drop (missing S2 (range_tables (?n0 + (h + 512 * M)) t)) (drop (missing S1 ?B) (drop (missing S ?A) l)), S3)"
    by (rule mapWithList_large [OF True, unfolded cut, OF 1(1) 2(1) 3(1)])
  moreover have "range_mapped S S3 m flags 0 N"
    using range_mapped_trans [OF range_mapped_trans [OF 1(6) 2(6)] 3(5)] 2(3) 3(3) bd N by (simp add: same_env_def add.assoc)
  moreover have "mAllocator S3 = mAllocator S" if "\<forall>j < N. pt_path (?n0 + j) \<notin> nodes S"
  proof -
    have "?R \<inter> nodes S1 = {}"
      using that 1(5) N replaced_head [OF al _ ht(1), of M] bd by (auto simp: replaced_def add.assoc)
    then show ?thesis using 1(4) 2(4) 3(4) by simp
  qed
  moreover have "missing S ?A + missing S1 ?B + missing S2 (range_tables (?n0 + (h + 512 * M)) t) \<le> missing S (range_tables ?n0 N)"
    using m2 m3 missing_mono [OF finite_range_tables sub, of S] by (simp add: Un_assoc add.assoc)
  ultimately show ?thesis unfolding map_result_def using 3(2,3) 1(3) 2(3)
    by (auto intro: same_env_trans simp: add.assoc add.commute)
qed

end
