(* ===== verification/PageReserve.thy ===== *)
theory PageReserve
  imports PageRange
begin

text \<open>
  The tables that a mapping takes: the worst case count \<^verbatim>\<open>MaxPagesForMapping\<close> is enough for every
  range, pages taken from the allocator are a reserve for the tree, and what is left of it can be
  given back. Together with the loops of \<^verbatim>\<open>mapWithList\<close> this gives the correctness of \<^verbatim>\<open>map\<close>.
\<close>

lemma of_nat_unat_word: "unat w = n \<Longrightarrow> w = of_nat n"
  by (auto simp: unsigned_of_nat)

lemma unat_pages: "k * 4096 < 2 ^ 64 \<Longrightarrow> unat (of_nat k * kPageSize :: u64) = k * 4096"
  by (simp add: kPageSize_def unat_word_ariths unat_of_nat)

section \<open>The worst case number of tables\<close>

lemma roundup_of_nat:
  assumes "2 ^ 64 = unat m * c" and "0 < unat m"
  shows "roundup v (m :: u64) = of_nat ((unat v + unat m - 1) div unat m * unat m)"
proof (cases "unat v + unat m - 1 < 2 ^ 64")
  case True
  then have "unat (roundup v m) = (unat v + unat m - 1) div unat m * unat m"
    using assms(2) by (subst unat_roundup) simp_all
  then show ?thesis by (metis of_nat_unat_word)
next
  case False
  have v: "unat v < unat m * c" using unsigned_less [of v] assms(1) by simp
  have m: "unat m < 2 ^ 64" using unsigned_less [of m] by simp
  define d where "d = unat v + unat m - 1 - unat m * c"
  have d: "unat v + unat m - 1 = d + unat m * c" "d < unat m"
    using False v assms unfolding d_def by auto
  have "v + m - 1 = of_nat (unat v + unat m - 1)" using assms(2) by simp
  also have "\<dots> = of_nat d"
  proof -
    have "(of_nat (2 ^ 64) :: u64) = 0" by simp
    then have "(of_nat (unat m * c) :: u64) = 0" unfolding assms(1) .
    then show ?thesis unfolding d(1) of_nat_add by simp
  qed
  finally have "unat (v + m - 1) = d" using d(2) m by (simp add: unat_of_nat)
  then have "(v + m - 1) div m = 0" using d(2) by (simp add: word_unat_eq_iff unat_div)
  moreover have "(unat v + unat m - 1) div unat m * unat m = c * unat m" using d by simp
  moreover have "(of_nat (c * unat m) :: u64) = 0"
  proof -
    have "(of_nat (2 ^ 64) :: u64) = 0" by simp
    then show ?thesis unfolding assms(1) by (simp only: mult.commute)
  qed
  ultimately show ?thesis unfolding roundup_def by (simp only: mult_zero_left)
qed

lemma covered_pages:
  assumes v: "unat (rfront r) = 4096 * y" "unat (rback r) = 4096 * (y + N)" and N: "0 < N"
    and seg: "unat seg = 4096 * s" "0 < s" "2 ^ 52 = s * c" and few: "(y + N - 1) div s - y div s + 1 < c"
  shows "unat (GetCoveredSegments r seg) = (y + N - 1) div s - y div s + 1"
proof -
  let ?k = "(y + N - 1) div s - y div s + 1"
  have c: "2 ^ 64 = unat seg * c" "0 < unat seg" unfolding seg(1) using seg(2) seg(3) by (simp_all add: mult.commute)
  have f: "rounddown (rfront r) seg = of_nat (y div s * (4096 * s))"
  proof -
    have "unat (rounddown (rfront r) seg) = y div s * (4096 * s)" by (simp add: unat_rounddown seg(1) v(1))
    then show ?thesis by (metis of_nat_unat_word)
  qed
  have "(4096 * (y + N) + 4096 * s - 1) div (4096 * s) = (y + N - 1) div s + 1"
  proof -
    have "4096 * (y + N) + 4096 * s - 1 = (4096 * (y + N - 1) + 4095) + 4096 * s" using N by simp
    then have "(4096 * (y + N) + 4096 * s - 1) div (4096 * s) = (4096 * (y + N - 1) + 4095) div (4096 * s) + 1"
      using seg(2) by (simp only: div_add_self2)
    also have "(4096 * (y + N - 1) + 4095) div (4096 * s) = (y + N - 1) div s" unfolding div_mult2_eq by simp
    finally show ?thesis .
  qed
  then have b: "roundup (rback r) seg = of_nat (((y + N - 1) div s + 1) * (4096 * s))"
    using roundup_of_nat [OF c, of "rback r"] unfolding seg(1) v(2) by simp
  have le: "y div s \<le> (y + N - 1) div s" using N by (intro div_le_mono) simp
  then have e: "((y + N - 1) div s + 1) * (4096 * s) = ?k * (4096 * s) + y div s * (4096 * s)"
    by (simp only: add_mult_distrib [symmetric]) simp
  have "?k * (4096 * s) < c * (4096 * s)" using few seg(2) by (intro mult_strict_right_mono) simp_all
  also have "\<dots> = 2 ^ 64" using c(1) seg(1) by simp
  finally have lt: "?k * (4096 * s) < 2 ^ 64" .
  have "roundup (rback r) seg - rounddown (rfront r) seg = of_nat (?k * (4096 * s))"
    unfolding f b e of_nat_add by simp
  then have "unat (roundup (rback r) seg - rounddown (rfront r) seg) = ?k * (4096 * s)"
    using lt by (simp only: unat_of_nat) simp
  then show ?thesis using seg(2) unfolding GetCoveredSegments_def Let_def unat_div seg(1) by simp
qed

definition segments :: "nat \<Rightarrow> nat \<Rightarrow> nat \<Rightarrow> nat" where
  "segments n0 N s = (n0 + N - 1) div s - n0 div s + 1"

lemma segments_shift:
  assumes "y = q * 2 ^ 36 + n0" and "2 ^ 36 = s * d" and "0 < s" and "0 < N"
  shows "(y + N - 1) div s - y div s + 1 = segments n0 N s"
proof -
  have y: "y = s * (d * q) + n0" using assms(1,2) by (simp add: mult.assoc [symmetric]) 
  have "y + N - 1 = s * (d * q) + (n0 + N - 1)" using y assms(4) by simp
  then have "(y + N - 1) div s = d * q + (n0 + N - 1) div s" using assms(3) by simp
  moreover have "y div s = d * q + n0 div s" unfolding y using assms(3) by simp
  ultimately show ?thesis by (simp add: segments_def)
qed

lemma card_segments:
  assumes "0 < N"
  shows "card ((\<lambda>j. (n0 + j) div s) ` {0..<N}) \<le> segments n0 N s"
proof -
  have "(\<lambda>j. (n0 + j) div s) ` {0..<N} \<subseteq> {n0 div s .. (n0 + N - 1) div s}"
    by (auto intro!: div_le_mono)
  from card_mono [OF _ this] show ?thesis by (simp add: segments_def)
qed

lemma range_tables_images:
  "range_tables n0 N \<subseteq> (\<lambda>i. [i mod 512]) ` (\<lambda>j. (n0 + j) div 2 ^ 27) ` {0..<N}
     \<union> (\<lambda>i. [i div 512 mod 512, i mod 512]) ` (\<lambda>j. (n0 + j) div 2 ^ 18) ` {0..<N}
     \<union> (\<lambda>i. [i div 2 ^ 18 mod 512, i div 512 mod 512, i mod 512]) ` (\<lambda>j. (n0 + j) div 512) ` {0..<N}"
proof -
  have d: "n div 2 ^ 18 div 512 = n div 2 ^ 27" "n div 512 div 2 ^ 18 = n div 2 ^ 27" "n div 512 div 512 = n div 2 ^ 18"
    for n :: nat by (simp_all flip: div_mult2_eq)
  show ?thesis unfolding range_tables_def tables_def dirs_def pt_path_def pd_path_def image_image d by auto
qed

lemma card_range_tables:
  assumes "0 < N"
  shows "card (range_tables n0 N) \<le> segments n0 N (2 ^ 27) + segments n0 N (2 ^ 18) + segments n0 N 512"
    (is "_ \<le> ?a + ?b + ?c")
proof -
  let ?J = "\<lambda>s. (\<lambda>j. (n0 + j) div s) ` {0..<N}"
  let ?A = "(\<lambda>i. [i mod 512]) ` ?J (2 ^ 27)" and ?B = "(\<lambda>i. [i div 512 mod 512, i mod 512]) ` ?J (2 ^ 18)"
    and ?C = "(\<lambda>i. [i div 2 ^ 18 mod 512, i div 512 mod 512, i mod 512]) ` ?J 512"
  have "card (range_tables n0 N) \<le> card (?A \<union> ?B \<union> ?C)" by (rule card_mono [OF _ range_tables_images]) simp
  also have "\<dots> \<le> card ?A + card ?B + card ?C" using card_Un_le [of "?A \<union> ?B" ?C] card_Un_le [of ?A ?B] by linarith
  also have "\<dots> \<le> ?a + ?b + ?c"
    by (intro add_mono order_trans [OF card_image_le card_segments [OF assms]]) simp_all
  finally show ?thesis .
qed


lemma pages_end:
  assumes "page_aligned m N" and "unat (am_vaddr m) + N * 4096 < 2 ^ 64"
  shows "unat (am_size m) = N * 4096" "unat (am_vaddr m + am_size m) = unat (am_vaddr m) + N * 4096"
proof -
  show s: "unat (am_size m) = N * 4096"
    using assms by (simp add: page_aligned_def kPageSize_def unat_word_ariths unat_of_nat)
  show "unat (am_vaddr m + am_size m) = unat (am_vaddr m) + N * 4096"
    using assms(2) s by (subst unat_add_small) simp_all
qed

lemma covered_segments:
  assumes m: "page_aligned m N" and top: "unat (am_vaddr m) + N * 4096 < 2 ^ 64" and N: "0 < N"
    and seg: "unat seg = 4096 * s" "0 < s" "2 ^ 36 = s * d"
  shows "unat (GetCoveredSegments (virtualRange m) seg) = segments (vpn (am_vaddr m)) N s"
    and "segments (vpn (am_vaddr m)) N s \<le> 2 ^ 36"
proof -
  let ?n0 = "vpn (am_vaddr m)"
  obtain y where y: "unat (am_vaddr m) = 4096 * y" using m by (auto simp: page_aligned_def)
  have n0: "y = y div 2 ^ 36 * 2 ^ 36 + ?n0" unfolding vpn_def y by simp
  have b: "unat (rback (virtualRange m)) = 4096 * (y + N)"
    using pages_end(2) [OF m top] y by (simp add: virtualRange_def)
  have "?n0 + N \<le> s * d" using m seg(3) by (simp add: page_aligned_def)
  then have "?n0 + N - 1 < d * s" using N by (simp add: mult.commute)
  then have "(?n0 + N - 1) div s < d" by (rule less_mult_imp_div_less)
  then have k: "segments ?n0 N s \<le> d" by (simp add: segments_def)
  have "0 < d" using seg(3) by (cases d) simp_all
  then have "segments ?n0 N s < 2 ^ 16 * d" using k by simp
  then have "unat (GetCoveredSegments (virtualRange m) seg) = (y + N - 1) div s - y div s + 1"
    unfolding segments_shift [OF n0 seg(3,2) N, symmetric] using seg
    by (intro covered_pages [OF _ b N seg(1,2)]) (simp_all add: y virtualRange_def mult.commute)
  then show "unat (GetCoveredSegments (virtualRange m) seg) = segments ?n0 N s"
    using segments_shift [OF n0 seg(3,2) N] by simp
  have "d \<le> s * d" using seg(2) by simp
  then show "segments ?n0 N s \<le> 2 ^ 36" using k seg(3) by linarith
qed

text \<open>\<^verbatim>\<open>MaxPagesForMapping\<close> is enough for the tables of the range, whatever is mapped already.\<close>

lemma range_tables_bound:
  assumes m: "page_aligned m N" and top: "unat (am_vaddr m) + N * 4096 < 2 ^ 64" and N: "0 < N"
  shows "card (range_tables (vpn (am_vaddr m)) N) \<le> unat (MaxPagesForMapping (virtualRange m))"
proof -
  let ?n0 = "vpn (am_vaddr m)" and ?r = "virtualRange m"
  have c4: "unat (GetCoveredSegments ?r kPml4MemorySize) = segments ?n0 N (2 ^ 27)" "segments ?n0 N (2 ^ 27) \<le> 2 ^ 36"
    by (rule covered_segments [OF m top N, where d = "2 ^ 9" and seg = kPml4MemorySize]; simp add: kPml4MemorySize_def kHugePageSize_def)+
  have c3: "unat (GetCoveredSegments ?r kHugePageSize) = segments ?n0 N (2 ^ 18)" "segments ?n0 N (2 ^ 18) \<le> 2 ^ 36"
    by (rule covered_segments [OF m top N, where d = "2 ^ 18" and seg = kHugePageSize]; simp add: kHugePageSize_def)+
  have c2: "unat (GetCoveredSegments ?r kLargePageSize) = segments ?n0 N 512" "segments ?n0 N 512 \<le> 2 ^ 36"
    by (rule covered_segments [OF m top N, where d = "2 ^ 27" and seg = kLargePageSize]; simp add: kLargePageSize_def)+
  define x where "x = GetCoveredSegments ?r kPml4MemorySize + GetCoveredSegments ?r kHugePageSize"
  have x: "unat x = segments ?n0 N (2 ^ 27) + segments ?n0 N (2 ^ 18)"
    unfolding x_def using c4 c3 by (subst unat_add_small) simp_all
  have size: "unat (range_size ?r) = N * 4096" using pages_end(1) [OF m top] by (simp add: range_size_def virtualRange_def)
  have "unat x + segments ?n0 N 512 \<le> unat (MaxPagesForMapping ?r)"
  proof (cases "range_size ?r < kLargePageSize")
    case True
    then have "N < 512" using size by (simp add: word_less_nat_alt kLargePageSize_def)
    then have "(?n0 + N - 1) div 512 \<le> (?n0 + 512) div 512" by (intro div_le_mono) simp
    then have s2: "segments ?n0 N 512 \<le> 2" by (simp add: segments_def)
    have "unat (x + 2) = unat x + 2" "unat (x + 4) = unat x + 4" using x c3(2) c4(2) by (subst unat_add_small; simp)+
    then show ?thesis using True s2 by (simp add: MaxPagesForMapping_def Let_def x_def [symmetric])
  next
    case False
    let ?g = "GetCoveredSegments ?r kLargePageSize"
    have "unat (x + ?g) = unat x + unat ?g" "unat (x + 1 + ?g) = unat x + 1 + unat ?g" "unat (x + 1 + 1 + ?g) = unat x + 2 + unat ?g"
      using x c4(2) c3(2) c2 by (simp_all add: unat_word_ariths)
    then show ?thesis using False c2(1) by (simp add: MaxPagesForMapping_def Let_def x_def [symmetric])
  qed
  then show ?thesis using card_range_tables [OF N, of ?n0] x by linarith
qed

section \<open>Pages from the allocator\<close>

text \<open>
  The free pages can serve as tables: their physical addresses fit into an entry and the lookup
  table finds them again.
\<close>

definition supply_ok :: "PageTables \<Rightarrow> bool" where
  "supply_ok S \<longleftrightarrow> (\<forall>(x, s) \<in> free_mem (mAllocator S). 4096 dvd x \<longrightarrow>
     frame (mPageManager S) (of_nat x - s) \<and> asVirtual (of_nat x - s) S = of_nat x)"

lemma supply_ok_env: "supply_ok S \<Longrightarrow> same_env S S' \<Longrightarrow> free_mem (mAllocator S') \<subseteq> free_mem (mAllocator S) \<Longrightarrow> supply_ok S'"
  unfolding supply_ok_def same_env_def by fastforce

lemma same_mem:
  assumes "mem S' = mem S" and "same_env S S'"
  shows "node S' = node S" "at S' = at S"
  using node_same [OF assms(2)] assms(1) by simp_all

lemma view_same_at: "at S' = at S \<Longrightarrow> view S' = view S"
  by (rule ext) (simp only: view_def)

lemma take_more:
  assumes inv: "pt_inv S l0" and sup: "supply_ok S" and n: "0 < unat n" "unat n * 4096 < 2 ^ 64"
    and al: "allocateList n (mAllocator S) = Some (Some l, A)"
  shows "pt_inv (S\<lparr>mAllocator := A\<rparr>) (l @ l0)" "length l = unat n" "same_env S (S\<lparr>mAllocator := A\<rparr>)"
    "node (S\<lparr>mAllocator := A\<rparr>) = node S" "at (S\<lparr>mAllocator := A\<rparr>) = at S" "free_mem A \<subseteq> free_mem (mAllocator S)"
proof -
  let ?S = "S\<lparr>mAllocator := A\<rparr>"
  note I = pt_invD [OF inv]
  have A: "pta_pages A" "length l = unat n" "pages_ok l" "\<And>a. a \<in> set l \<Longrightarrow> page_span a \<times> {mSlide a} \<subseteq> free_mem (mAllocator S)"
    "free_mem A = {x \<in> free_mem (mAllocator S). \<forall>a \<in> set l. fst x \<notin> page_span a}"
    using pta.take_law [OF I(3) n] al by auto
  show env: "same_env S ?S" by (simp add: same_env_def pml4_def asVirtual_def)
  show N: "node ?S = node S" "at ?S = at S" using same_mem [OF _ env] by simp_all
  show "length l = unat n" "free_mem A \<subseteq> free_mem (mAllocator S)" using A(2,5) by auto
  have keep: "page_ok ?S t" if "page_ok S t" for t using that A(5) by (auto simp: page_ok_def)
  have "tree_ok ?S" using I(2) by (simp add: tree_ok_def N)
  moreover have "page_ok ?S t" if "node S p = Some t" for p t using keep [OF I(5) [OF that]] .
  moreover have m: "(unat (mBlock a), mSlide a) \<in> free_mem (mAllocator S)" if "a \<in> set l" for a
    using A(4) [OF that] by (auto simp: page_span_def)
  have "mBlock a \<noteq> mBlock b" if "a \<in> set l" "b \<in> set l0" for a b
    using m [OF that(1)] I(4) that(2) by (force simp: reserve_ok_def page_ok_def)
  then have dist: "distinct (map mBlock (l @ l0))" using A(3) I(4) by (auto simp: pages_ok_def reserve_ok_def)
  have new: "page_ok ?S (mBlock a) \<and> (\<forall>p. node ?S p \<noteq> Some (mBlock a)) \<and> frame (mPageManager ?S) (getPhysical a)
      \<and> asVirtual (getPhysical a) ?S = mBlock a" if a: "a \<in> set l" for a
  proof (intro conjI)
    have b: "mBlock a \<noteq> 0" "4096 dvd unat (mBlock a)" "unat (mBlock a) + 4096 < 2 ^ 64" using A(3) a by (auto simp: pages_ok_def)
    show "page_ok ?S (mBlock a)" using b a A(5) by (auto simp: page_ok_def page_span_def)
    show "\<forall>p. node ?S p \<noteq> Some (mBlock a)" unfolding N using I(5) m [OF a] by (force simp: page_ok_def)
    show "frame (mPageManager ?S) (getPhysical a)" "asVirtual (getPhysical a) ?S = mBlock a"
      using sup m [OF a] b(2) by (auto simp: supply_ok_def getPhysical_def asVirtual_def)
  qed
  have "page_ok ?S (mBlock a) \<and> (\<forall>p. node ?S p \<noteq> Some (mBlock a)) \<and> frame (mPageManager ?S) (getPhysical a)
      \<and> asVirtual (getPhysical a) ?S = mBlock a" if "a \<in> set l0" for a
    using that I(4) keep by (auto simp: reserve_ok_def asVirtual_def N)
  then have "reserve_ok ?S (l @ l0)" unfolding reserve_ok_def using dist new by auto
  ultimately show "pt_inv ?S (l @ l0)" using I(1) A(1) by (auto simp: pt_inv_def N)
qed

lemma take_reserve:
  assumes "pt_inv S []" and "supply_ok S" and "0 < unat n" "unat n * 4096 < 2 ^ 64"
    and "allocateList n (mAllocator S) = Some (Some l, A)"
  shows "pt_inv (S\<lparr>mAllocator := A\<rparr>) l" "length l = unat n" "same_env S (S\<lparr>mAllocator := A\<rparr>)"
    "node (S\<lparr>mAllocator := A\<rparr>) = node S" "at (S\<lparr>mAllocator := A\<rparr>) = at S" "free_mem A \<subseteq> free_mem (mAllocator S)"
  using take_more [OF assms] by simp_all

lemma reserve_perm: "pt_inv S l \<Longrightarrow> set l' = set l \<Longrightarrow> distinct (map mBlock l') \<Longrightarrow> pt_inv S l'"
  by (simp add: pt_inv_def reserve_ok_def)

lemma drain_part:
  assumes inv: "pt_inv S (l @ l0)"
  shows "\<exists>S'. drainTableList l S = Some S' \<and> pt_inv S' l0 \<and> same_env S S' \<and> node S' = node S \<and> at S' = at S
    \<and> free_mem (mAllocator S') = free_mem (mAllocator S) \<union> (\<Union>a \<in> set l. page_span a \<times> {mSlide a})"
proof -
  note I = pt_invD [OF inv]
  have r: "page_ok S (mBlock a)" "node S p \<noteq> Some (mBlock a)" if "a \<in> set l" for a p using I(4) that by (auto simp: reserve_ok_def)
  have "pages_ok l" "\<forall>a \<in> set l. fst ` free_mem (mAllocator S) \<inter> page_span a = {}"
    using I(4) by (auto simp: reserve_ok_def pages_ok_def page_ok_def page_span_def)
  from pta.give_law [OF I(3) this] obtain A where A: "deallocateList l (mAllocator S) = Some A" "pta_pages A"
    "free_mem A = free_mem (mAllocator S) \<union> (\<Union>a \<in> set l. page_span a \<times> {mSlide a})" by blast
  let ?S = "S\<lparr>mAllocator := A\<rparr>"
  have env: "same_env S ?S" by (simp add: same_env_def pml4_def asVirtual_def)
  have N: "node ?S = node S" "at ?S = at S" using same_mem [OF _ env] by simp_all
  have keep: "page_ok ?S t" if t: "page_ok S t" "\<And>a. a \<in> set l \<Longrightarrow> t \<noteq> mBlock a" for t
  proof -
    have "{unat t ..< unat t + 4096} \<inter> page_span a = {}" if "a \<in> set l" for a
      unfolding page_span_def using r(1) [OF that] t(1) t(2) [OF that] by (intro pages_apart) (auto simp: page_ok_def)
    then show ?thesis using t(1) unfolding page_ok_def by (simp add: A(3) image_Un Int_Un_distrib2 image_UN) blast
  qed
  have "page_ok ?S t" if "node S p = Some t" for p t using keep [OF I(5) [OF that]] r(2) [of _ p] that by auto
  moreover have "reserve_ok ?S l0"
    using I(4) keep by (auto simp: reserve_ok_def N asVirtual_def)
  ultimately have "pt_inv ?S l0" using I A(2) by (auto simp: pt_inv_def tree_ok_def N)
  then show ?thesis using A env N by (auto simp: drainTableList_def)
qed

lemma drain_reserve:
  assumes "pt_inv S l"
  shows "\<exists>S'. drainTableList l S = Some S' \<and> pt_inv S' [] \<and> same_env S S' \<and> node S' = node S \<and> at S' = at S
    \<and> free_mem (mAllocator S') = free_mem (mAllocator S) \<union> (\<Union>a \<in> set l. page_span a \<times> {mSlide a})"
  using drain_part [of S l "[]"] assms by simp

lemma drain_supply:
  assumes inv: "pt_inv S l" and sup: "supply_ok S" and env: "same_env S S'"
    and fr: "free_mem (mAllocator S') = free_mem (mAllocator S) \<union> (\<Union>a \<in> set l. page_span a \<times> {mSlide a})"
  shows "supply_ok S'"
proof -
  have "frame (mPageManager S) (of_nat x - mSlide a) \<and> asVirtual (of_nat x - mSlide a) S = of_nat x"
    if a: "a \<in> set l" "x \<in> page_span a" "4096 dvd x" for a x
  proof -
    have r: "4096 dvd unat (mBlock a)" "frame (mPageManager S) (getPhysical a)" "asVirtual (getPhysical a) S = mBlock a"
      using pt_invD(4) [OF inv] a(1) by (auto simp: reserve_ok_def page_ok_def)
    obtain i j where ij: "x = 4096 * i" "unat (mBlock a) = 4096 * j" using r(1) a(3) by (auto simp: dvd_def)
    then have "i = j" using a(2) by (auto simp: page_span_def)
    then have "of_nat x = mBlock a" using ij of_nat_unat_word [of "mBlock a" "4096 * j"] by simp
    then show ?thesis using r by (simp add: getPhysical_def)
  qed
  then show ?thesis using sup env unfolding supply_ok_def fr same_env_def by fastforce
qed


section \<open>Mapping a range\<close>

text \<open>The loop that checks the result sees every page of the range mapped.\<close>

lemma check_mapped_spec:
  assumes m: "page_aligned m N" and top: "unat (am_vaddr m) + N * 4096 < 2 ^ 64" and ok: "tree_ok S"
    and al: "\<forall>j < N. view S (vpn (am_vaddr m) + j) \<noteq> None" and k: "k \<le> N"
  shows "check_mapped (am_vaddr m + of_nat k * kPageSize) (am_vaddr m + am_size m) S = Some ()"
  using k
proof (induction "N - k" arbitrary: k)
  case 0
  then have "am_vaddr m + of_nat k * kPageSize = am_vaddr m + am_size m" using m by (simp add: page_aligned_def)
  then show ?case by (subst check_mapped.simps) simp
next
  case (Suc d)
  let ?v = "am_vaddr m" and ?i = "am_vaddr m + of_nat k * kPageSize"
  have k: "k < N" using Suc.hyps(2) by simp
  have n: "4096 dvd unat ?v" "vpn ?v + k < 2 ^ 36" "N \<le> 2 ^ 36" using m k by (simp_all add: page_aligned_def)
  have "unat (of_nat k * kPageSize :: u64) = k * 4096" using k n(3) by (simp add: kPageSize_def unat_word_ariths unat_of_nat)
  then have "unat ?i = unat ?v + k * 4096" using top k by (subst unat_add_small) simp_all
  then have lt: "?i < ?v + am_size m" using pages_end(2) [OF m top] k by (simp add: word_less_nat_alt)
  have "view S (vpn ?i) \<noteq> None" using al k vpn_add_less [OF n(1,2)] by simp
  then have "\<exists>sz. getPageSize ?i S = Some sz \<and> sz \<noteq> PageSize_eNone"
    unfolding getPageSize_view [OF ok] by (cases "view S (vpn ?i)") (auto simp: view_def split: option.splits if_splits)
  moreover have "check_mapped (?i + kPageSize) (?v + am_size m) S = Some ()"
  proof -
    have e: "?i + kPageSize = ?v + of_nat (Suc k) * kPageSize" by (simp add: algebra_simps)
    show ?thesis unfolding e using Suc.hyps(1) [of "Suc k"] Suc.hyps(2) k by simp
  qed
  ultimately show ?case using lt by (subst check_mapped.simps) (auto simp: KM_CHECK_def)
qed

text \<open>A request that is checked to be valid.\<close>

lemma request_create_ok: "isPageMappingRequestInputValid m flags \<Longrightarrow>
    request_create m flags type = Some (OsStatusSuccess, Some \<lparr>req_mapping = m, req_flags = flags, req_type = type\<rparr>)"
  by (simp add: request_create_def make_request_def KM_CHECK_def)

lemma map_spec:
  assumes inv: "pt_inv S []" and sup: "supply_ok S" and mo: "mapping_ok (mPageManager S) m N" and N: "0 < N"
    and valid: "isPageMappingRequestInputValid m flags"
    and small: "\<forall>j < N. \<forall>e. view S (vpn (am_vaddr m) + j) \<noteq> Some (eLarge, e)"
    and al: "allocateList (MaxPagesForMapping (virtualRange m)) (mAllocator S) = Some (Some l, A)"
    and few: "unat (MaxPagesForMapping (virtualRange m)) * 4096 < 2 ^ 64"
  shows "\<exists>S'. pt_map m flags type S = Some (OsStatusSuccess, S') \<and> pt_inv S' [] \<and> same_env S S' \<and> range_mapped S S' m flags 0 N
    \<and> ((\<forall>j < N. pt_path (vpn (am_vaddr m) + j) \<notin> nodes S) \<longrightarrow> supply_ok S')"
proof -
  let ?n0 = "vpn (am_vaddr m)" and ?M = "MaxPagesForMapping (virtualRange m)"
  have m: "page_aligned m N" and top: "unat (am_vaddr m) + N * 4096 < 2 ^ 64" using mo by (simp_all add: mapping_ok_def)
  have bd: "card (range_tables ?n0 N) \<le> unat ?M" by (rule range_tables_bound [OF m top N])
  have "?n0 + 0 \<le> ?n0" by simp
  then have "range_tables ?n0 N \<noteq> {}" using N by (auto simp: range_tables_def tables_def)
  then have pos: "0 < unat ?M" using bd by (metis card_gt_0_iff finite_range_tables less_le_trans)
  define S1 where "S1 = S\<lparr>mAllocator := A\<rparr>"
  note T = take_reserve [OF inv sup pos few al, folded S1_def]
  have v1: "view S1 = view S" by (rule view_same_at [OF T(5)])
  have pm: "mPageManager S1 = mPageManager S" by (simp add: S1_def)
  have "missing S1 (range_tables ?n0 N) \<le> card (range_tables ?n0 N)" unfolding missing_def by (rule card_mono) auto
  then have room: "missing S1 (range_tables ?n0 N) \<le> length l" using bd T(2) by linarith
  obtain l' S2 where 2: "mapWithList m flags type l S1 = Some (l', S2)" "map_result S1 l S2 l' m flags N"
    using mapWithList_spec [OF mo [folded pm] T(1) _ room, of flags type] small v1 by auto
  have R: "pt_inv S2 l'" "same_env S1 S2" "range_mapped S1 S2 m flags 0 N" using 2(2) by (auto simp: map_result_def)
  have "\<forall>j < N. view S2 (?n0 + j) \<noteq> None" using R(3) by (auto simp: range_mapped_def mapped_def)
  then have chk: "check_mapped (am_vaddr m) (am_vaddr m + am_size m) S2 = Some ()"
    using check_mapped_spec [OF m top pt_invD(2) [OF R(1)], of 0] by simp
  obtain S3 where 3: "drainTableList l' S2 = Some S3" "pt_inv S3 []" "same_env S2 S3" "at S3 = at S2"
    "free_mem (mAllocator S3) = free_mem (mAllocator S2) \<union> (\<Union>a \<in> set l'. page_span a \<times> {mSlide a})"
    using drain_reserve [OF R(1)] by blast
  have "pt_map m flags type S = Some (OsStatusSuccess, S3)"
    using al 2(1) chk 3(1) by (simp add: pt_map_def request_create_ok [OF valid] map_request_def allocatePageTables_def
        pt_allocateList_def maxPagesForMapping_def Let_def S1_def)
  moreover have "same_env S S3" using T(3) R(2) 3(3) same_env_trans by blast
  moreover have "view S3 = view S2" by (rule view_same_at [OF 3(4)])
  then have "range_mapped S S3 m flags 0 N"
    using R(3) 3(3) v1 mapped_cong [of S3 _ S2] by (simp add: range_mapped_def same_env_def)
  moreover have "supply_ok S3" if "\<forall>j < N. pt_path (?n0 + j) \<notin> nodes S"
  proof (rule drain_supply [OF R(1) _ 3(3,5)])
    have "mAllocator S2 = mAllocator S1" using 2(2) that T(4) by (simp add: map_result_def nodes_def)
    moreover have "supply_ok S1" using supply_ok_env [OF sup T(3)] T(6) by (simp add: S1_def)
    ultimately show "supply_ok S2" using supply_ok_env [OF _ R(2)] by simp
  qed
  ultimately show ?thesis using 3(2) by blast
qed

end
