(* ===== verification/PageOps.thy ===== *)
theory PageOps
  imports PageReserve
begin

text \<open>
  The public operations of the page tables: creating them establishes the invariant, and mapping a
  range makes every address of it translate to the address asked for while every other address
  keeps its translation.
\<close>

section \<open>Creating the tables\<close>

text \<open>The memory the tables are made from: not at address zero, no wrap, frames that fit into an entry.\<close>

definition memory_ok :: "PageBuilder \<Rightarrow> AddressMapping \<Rightarrow> bool" where
  "memory_ok pm P \<longleftrightarrow> am_vaddr P \<noteq> 0 \<and> unat (am_vaddr P) + unat (am_size P) < 2 ^ 64
     \<and> unat (am_paddr P) + unat (am_size P) < 2 ^ 64 \<and> unat (am_size P) < 2 ^ 44
     \<and> (\<forall>k. k * 4096 < unat (am_size P) \<longrightarrow> frame pm (am_paddr P + of_nat k * kPageSize))"

definition only_memory :: "AddressMapping \<Rightarrow> lookup_table \<Rightarrow> bool" where
  "only_memory P c \<longleftrightarrow> (\<forall>a. lt_find a c =
     (if a < am_paddr P \<or> am_paddr P + am_size P \<le> a then invalid_address else am_vaddr P + (a - am_paddr P)))"

lemma only_memory_add:
  assumes "lt_addMemory P \<lparr>mKeys = [], mValues = [], mCapacity = n\<rparr> = (OsStatusSuccess, c)"
    and sz: "unat (am_size P) < 2 ^ 44" "4096 dvd unat (am_size P)"
  shows "only_memory P c"
proof -
  obtain k where k: "unat (am_size P) = 4096 * k" using sz(2) by blast
  have s: "am_size P = of_nat (4096 * k)" by (rule of_nat_unat_word [OF k])
  have kk: "k < 2 ^ 32" using sz(1) k by simp
  have "unat (am_size P div kPageSize) = k" by (simp add: unat_div k kPageSize_def)
  then have d: "am_size P div kPageSize = of_nat k" by (rule of_nat_unat_word)
  have "unat (ucast (of_nat k :: u64) :: u32) = k" using kk by (simp add: unsigned_ucast_eq unat_of_nat take_bit_eq_mod)
  then have "(ucast (ucast (am_size P div kPageSize) :: u32) :: u64) * kPageSize = am_size P"
    unfolding d s kPageSize_def by (simp add: word_unat_eq_iff unat_word_ariths unsigned_ucast_eq unat_of_nat take_bit_eq_mod)
  then show ?thesis using assms(1)
    by (auto simp: only_memory_def lt_find_def lt_addMemory_def fm_insert_def fm_isFull_def fm_isEmpty_def fm_count_def
        lower_bound_def Let_def split: if_splits)
qed

lemma create_free_pages:
  assumes mo: "memory_ok pm P" and c: "only_memory P (mCache S)" and pm: "mPageManager S = pm"
    and al: "4096 dvd unat (am_vaddr P)" "4096 dvd unat (am_paddr P)"
    and fm: "free_mem (mAllocator S) \<subseteq> bytes (am_vaddr P) (unat (am_size P)) (am_slide P)"
  shows "supply_ok S"
  unfolding supply_ok_def
proof (clarify)
  fix x s assume x: "(x, s) \<in> free_mem (mAllocator S)" "4096 dvd x"
  then have s: "s = am_slide P" and r: "unat (am_vaddr P) \<le> x" "x < unat (am_vaddr P) + unat (am_size P)"
    using fm by (auto simp: bytes_def)
  obtain k where k: "x = unat (am_vaddr P) + 4096 * k"
    using al(1) x(2) r(1) by (metis dvd_diff_nat dvdE le_add_diff_inverse)
  have ks: "k * 4096 < unat (am_size P)" using r k by simp
  have e: "of_nat x - s = am_paddr P + of_nat k * kPageSize" by (simp add: s k am_slide_def kPageSize_def algebra_simps)
  have u: "unat (of_nat k * kPageSize :: u64) = k * 4096"
    using ks mo by (simp add: memory_ok_def kPageSize_def unat_word_ariths unat_of_nat)
  have "unat (am_paddr P + of_nat k * kPageSize) = unat (am_paddr P) + k * 4096"
    using ks mo u by (subst unat_add_small) (simp_all add: memory_ok_def)
  moreover have "unat (am_paddr P + am_size P) = unat (am_paddr P) + unat (am_size P)"
    using mo by (subst unat_add_small) (simp_all add: memory_ok_def)
  ultimately have "asVirtual (am_paddr P + of_nat k * kPageSize) S = am_vaddr P + of_nat k * kPageSize"
    using c ks by (simp add: asVirtual_def only_memory_def word_less_nat_alt word_le_nat_alt)
  moreover have "of_nat x = am_vaddr P + of_nat k * kPageSize" by (simp add: k kPageSize_def)
  moreover have "frame pm (am_paddr P + of_nat k * kPageSize)" using mo ks by (simp add: memory_ok_def)
  ultimately show "frame (mPageManager S) (of_nat x - s) \<and> asVirtual (of_nat x - s) S = of_nat x" unfolding e pm by simp
qed

lemma root_only:
  assumes "mem S = [pml4 S \<mapsto> zero_page]"
  shows "node S p = (if p = [] then Some (pml4 S) else None)" "at S p i = (if p = [] \<and> i < 512 then Some 0 else None)"
    "view S n = None"
proof -
  have a: "at S [] i = (if i < 512 then Some 0 else None)" for i
    using assms by (simp add: at_def entry_def zero_page_def)
  have 0: "\<not> links n 0" for n by (simp add: links_def entry_bits)
  have n: "node S p = None" if "p \<noteq> []" for p using that
  proof (induction p rule: rev_induct)
    case (snoc i p)
    then show ?case using a 0 node_snoc [of S "[]" i]
      by (cases "p = []") (auto simp: node_snoc at_def bind_eq_None_conv split: if_splits)
  qed simp
  show "node S p = (if p = [] then Some (pml4 S) else None)" using n by simp
  show at: "at S p i = (if p = [] \<and> i < 512 then Some 0 else None)" for p i
    using a n [of p] by (cases "p = []") (simp_all add: at_def)
  show "view S n = None" by (simp add: view_def at pt_path_def pd_path_def)
qed


lemma pta_allocate_page:
  assumes "pta_pages A"
  obtains r A' where "pta_allocate 1 A = Some (r, A')" "pta_pages A'" "free_mem A' \<subseteq> free_mem A"
    "isPresent r \<Longrightarrow> mBlock r \<noteq> 0 \<and> 4096 dvd unat (mBlock r) \<and> unat (mBlock r) + 4096 < 2 ^ 64
       \<and> fst ` free_mem A' \<inter> {unat (mBlock r) ..< unat (mBlock r) + 4096} = {}"
proof -
  obtain bs where bs: "pta_inv A bs" "mBlockSize A = kPageSize" using assms by (auto simp: pta_pages_def pta_ok_def)
  have u: "unat (1 :: size_t) * unat (mBlockSize A) = 4096" by (simp add: bs kPageSize_def)
  obtain r A' bs' where 1: "pta_allocate 1 A = Some (r, A')" "pta_inv A' bs'" "mBlockSize A' = mBlockSize A"
    "if isPresent r then block_from A 4096 (mBlock r) A' \<and> mSlide r = bslide (cblocks A') (mBlock r)
     else free_mem A' = free_mem A"
    using pta_allocate_inv [OF bs(1), of 1] unfolding u by auto
  have "free_mem A' \<subseteq> free_mem A" using 1(4) by (auto simp: block_from_def without_def split: if_splits)
  moreover have "mBlock r \<noteq> 0 \<and> 4096 dvd unat (mBlock r) \<and> unat (mBlock r) + 4096 < 2 ^ 64
       \<and> fst ` free_mem A' \<inter> {unat (mBlock r) ..< unat (mBlock r) + 4096} = {}" if "isPresent r"
    using 1(4) that bs(2) by (auto simp: block_from_def without_def kPageSize_def)
  ultimately show ?thesis using that [OF 1(1)] 1(2,3) bs(2) by (auto simp: pta_pages_def pta_ok_def)
qed

lemma pt_create_spec:
  assumes pb: "pb_ok pm" and mo: "memory_ok pm P" and al: "4096 dvd unat (am_paddr P)"
    and c: "pt_create pm P flags = Some (OsStatusSuccess, Some S)"
  shows "pt_inv S []" "supply_ok S" "view S n = None" "mPageManager S = pm" "mMiddleFlags S = flags" "nodes S = {[]}"
proof -
  obtain A where A: "pta_create P kPageSize = (OsStatusSuccess, Some A)"
    using c by (auto simp: pt_create_def pta_create_def Let_def split: if_splits)
  have v: "am_vaddr P \<noteq> 0" "unat (am_vaddr P) + unat (am_size P) < 2 ^ 64" using mo by (simp_all add: memory_ok_def)
  note C = pta_create_inv [OF A v]
  have P: "pta_pages A" using C(1,2) by (auto simp: pta_pages_def pta_ok_def)
  have A1: "bsize (cblocks A) (am_vaddr P) = am_size P" using A by (auto simp: pta_create_def bsize_def cb_def split: if_splits)
  have dv: "4096 dvd unat (am_vaddr P)" "4096 dvd unat (am_size P)"
    using C(1,2) A1 by (auto simp: pta_inv_def areas_ok_def kPageSize_def)
  obtain r B where r: "pta_allocate 1 A = Some (r, B)" "pta_pages B" "free_mem B \<subseteq> free_mem A"
    "isPresent r \<Longrightarrow> mBlock r \<noteq> 0 \<and> 4096 dvd unat (mBlock r) \<and> unat (mBlock r) + 4096 < 2 ^ 64
       \<and> fst ` free_mem B \<inter> {unat (mBlock r) ..< unat (mBlock r) + 4096} = {}"
    using pta_allocate_page [OF P] by metis
  obtain h D where h: "pta_allocate 1 B = Some (h, D)" "pta_pages D" "free_mem D \<subseteq> free_mem B"
    using pta_allocate_page [OF r(2)] by metis
  obtain c0 c1 where c0: "lt_make 4096 = Some c0" "lt_addMemory P c0 = (OsStatusSuccess, c1)" "isPresent r"
    and S: "S = \<lparr>mCache = lt_retain (getPhysical h) (lt_retain (getPhysical r) c1), mAllocator = D, mPageManager = pm,
      mRootAllocation = r, mMiddleFlags = flags, mem = [getVirtual r \<mapsto> zero_page]\<rparr>"
    using c unfolding pt_create_def A by (auto simp: r(1) h(1) trackMapping_def KM_CHECK_def bind_Some_iff split: if_splits prod.splits)
  have "only_memory P c1"
    using only_memory_add [of P _ c1] c0(1,2) dv(2) mo by (auto simp: lt_make_def fm_make_def KM_CHECK_def memory_ok_def)
  then have om: "only_memory P (mCache S)" by (simp add: S only_memory_def)
  have mS: "mem S = [pml4 S \<mapsto> zero_page]" by (simp add: S pml4_def)
  note R = root_only [OF mS]
  have fr: "free_mem (mAllocator S) \<subseteq> free_mem A" "free_mem (mAllocator S) \<subseteq> free_mem B" using r(3) h(3) by (auto simp: S)
  have pg: "page_ok S (pml4 S)" using r(4) [OF c0(3)] fr(2) by (auto simp: page_ok_def S pml4_def getVirtual_def)
  have "tree_ok S" by (rule tree_okI) (auto simp: R mS zero_page_def entry_ok_def links_def entry_bits split: if_splits)
  moreover have "mPageManager S = pm" "mAllocator S = D" by (simp_all add: S)
  ultimately show "pt_inv S []" using pb h(2) pg by (auto simp: pt_inv_def R(1) reserve_ok_def split: if_splits)
  show "supply_ok S" using create_free_pages [OF mo om _ dv(1) al] fr(1) C(3) by (simp add: S)
  show "view S n = None" by (rule R(3))
  show "nodes S = {[]}" by (auto simp: nodes_def R(1) split: if_splits)
  show "mPageManager S = pm" "mMiddleFlags S = flags" by (simp_all add: S)
qed


section \<open>An example\<close>

definition example_pm :: PageBuilder where
  "example_pm = make_PageBuilder 40 48
     \<lparr>deferred = 7, uncached = 3, writeCombined = 5, lay_writeThrough = 1, writeProtect = 4, writeBack = 0\<rparr>"

definition example_memory :: AddressMapping where
  "example_memory = \<lparr>am_vaddr = 0x100000, am_paddr = 0x200000, am_size = 0x10000\<rparr>"

definition example_pt :: PageTables where
  "example_pt = the (snd (the (pt_create example_pm example_memory 15)))"

definition example_pages :: AddressMapping where
  "example_pages = \<lparr>am_vaddr = 0x7000000, am_paddr = 0x9000000, am_size = 0x3000\<rparr>"

lemma example_pt_create: "pt_create example_pm example_memory 15 = Some (OsStatusSuccess, Some example_pt)"
proof -
  have "case pt_create example_pm example_memory 15 of Some (st, Some S) \<Rightarrow> st = OsStatusSuccess | _ \<Rightarrow> False"
    by code_simp
  then show ?thesis by (auto simp: example_pt_def split: option.splits prod.splits)
qed

lemma example_max: "MaxPagesForMapping (virtualRange example_pages) = 4"
  by code_simp

lemma example_reserve: "case allocateList (MaxPagesForMapping (virtualRange example_pages)) (mAllocator example_pt) of Some (Some l, A) \<Rightarrow> True | _ \<Rightarrow> False"
  by code_simp

lemma example_frame: "unat a < 2 ^ 40 \<Longrightarrow> 4096 dvd unat a \<Longrightarrow> frame example_pm a"
proof -
  assume a: "unat a < 2 ^ 40" "4096 dvd unat a"
  obtain q where q: "unat a = 4096 * q" using a(2) by blast
  have b: "12 \<le> k \<and> k < 40" if "bit a k" for k
  proof -
    have "bit (unat a) k" using that by (simp add: bit_unsigned_iff)
    then have o: "odd (unat a div 2 ^ k)" by (simp add: bit_iff_odd)
    have "unat a div 2 ^ k = 0" if "40 \<le> k" using less_le_trans [OF a(1) power_increasing [OF that, of 2]] by simp
    moreover have "even (unat a div 2 ^ k)" if "k < 12"
    proof -
      have "(4096 :: nat) = 2 ^ k * 2 ^ (12 - k)" using that by (simp flip: power_add)
      then have "unat a = 2 ^ k * (2 ^ (12 - k) * q)" using q by (simp only: mult.assoc)
      then have "unat a div 2 ^ k = 2 ^ (12 - k) * q" by (metis nonzero_mult_div_cancel_left power_not_zero zero_neq_numeral)
      then show ?thesis using that by simp
    qed
    ultimately show ?thesis using o by fastforce
  qed
  show "frame example_pm a"
    unfolding frame_def example_pm_def make_PageBuilder_def
    by (rule bit_word_eqI) (auto simp: bit_simps bit_addressMask dest: b)
qed

lemma example_memory_ok: "memory_ok example_pm example_memory"
  unfolding memory_ok_def
  by (auto simp: example_memory_def kPageSize_def unat_word_ariths unat_of_nat intro!: example_frame dvd_mod)

lemma example_ok: "pt_inv example_pt []" "supply_ok example_pt" "view example_pt n = None" "mPageManager example_pt = example_pm"
  "nodes example_pt = {[]}"
proof -
  have "pb_ok example_pm" by (auto simp: example_pm_def pb_ok_def make_PageBuilder_def intro: exI [of _ 40])
  from pt_create_spec [OF this example_memory_ok _ example_pt_create]
  show "pt_inv example_pt []" "supply_ok example_pt" "view example_pt n = None" "mPageManager example_pt = example_pm"
    "nodes example_pt = {[]}" by (simp_all add: example_memory_def)
qed

lemma example_mapping_ok: "mapping_ok example_pm example_pages 3"
  unfolding mapping_ok_def page_aligned_def
  by (auto simp: example_pages_def vpn_def kPageSize_def unat_word_ariths unat_of_nat intro!: example_frame dvd_mod)


section \<open>Mapping is correct\<close>

lemma page_offset:
  assumes "4096 dvd unat v" and "k < 4096"
  shows "vpn (v + of_nat k) = vpn v" "(v + of_nat k) AND 0xFFF = of_nat k"
proof -
  obtain y where y: "unat v = 4096 * y" using assms(1) by blast
  have "unat v < 2 ^ 64" using unsigned_less [of v] by simp
  then have "4096 * y + k < 2 ^ 64" using assms(2) y by simp
  moreover have uk: "unat (of_nat k :: u64) = k" using assms(2) by (simp add: unat_of_nat)
  ultimately have u: "unat (v + of_nat k) = 4096 * y + k" using y by (subst unat_add_small) simp_all
  have "(4096 * y + k) div 4096 = y" using assms(2) by simp
  then show "vpn (v + of_nat k) = vpn v" unfolding vpn_def u y by simp
  have "(0xFFF :: u64) = mask 12" by (simp add: mask_eq_exp_minus_1)
  then have "unat ((v + of_nat k) AND 0xFFF) = unat (take_bit 12 (v + of_nat k))" by (simp add: take_bit_eq_mask)
  also have "\<dots> = take_bit 12 (unat (v + of_nat k))" by (rule unsigned_take_bit_eq)
  also have "\<dots> = k" unfolding u using assms(2) by (simp add: take_bit_eq_mod)
  finally show "(v + of_nat k) AND 0xFFF = of_nat k" by (rule of_nat_unat_word)
qed

text \<open>What a client of the page tables sees of a mapped range.\<close>

definition translates :: "PageTables \<Rightarrow> AddressMapping \<Rightarrow> bool" where
  "translates S m \<longleftrightarrow>
     (\<forall>k < unat (am_size m). getBackingAddressUnlocked (am_vaddr m + of_nat k) S = Some (am_paddr m + of_nat k))"

definition outside :: "AddressMapping \<Rightarrow> u64 \<Rightarrow> bool" where
  "outside m v \<longleftrightarrow> vpn v < vpn (am_vaddr m) \<or> vpn (am_vaddr m) + unat (am_size m) div 4096 \<le> vpn v"

lemma range_mapped_translates:
  assumes m: "page_aligned m N" and ok: "tree_ok S'" and r: "range_mapped S S' m flags 0 N"
  shows "translates S' m"
  unfolding translates_def
proof (intro allI impI)
  fix k assume k: "k < unat (am_size m)"
  have al: "4096 dvd unat (am_vaddr m)" "am_size m = of_nat N * kPageSize" "vpn (am_vaddr m) + N \<le> 2 ^ 36"
    using m by (simp_all add: page_aligned_def)
  have "unat (am_size m) = N * 4096" using al(2,3) by (simp add: kPageSize_def unat_word_ariths unat_of_nat)
  then have j: "k div 4096 < N" using k by (simp add: less_mult_imp_div_less)
  let ?a = "am_vaddr m + of_nat (k div 4096) * kPageSize"
  have "am_vaddr m + of_nat k = ?a + of_nat (k mod 4096)"
    using arg_cong [OF div_mult_mod_eq [of k 4096], of "of_nat :: nat \<Rightarrow> u64"]
    by (simp only: of_nat_add of_nat_mult kPageSize_def) (simp add: algebra_simps)
  moreover have "4096 dvd unat ?a"
    using sub_mapping_aligned(1) [OF m, of "k div 4096" 0] j by (simp add: page_aligned_def)
  note O = page_offset [OF this, of "k mod 4096"]
  moreover have "vpn ?a = vpn (am_vaddr m) + k div 4096" using vpn_add_less [OF al(1), of "k div 4096"] al(3) j by simp
  moreover have "phys S' (vpn (am_vaddr m) + k div 4096) = Some (am_paddr m + of_nat (k div 4096) * kPageSize)"
    using r j by (auto simp: range_mapped_def mapped_def)
  moreover have "of_nat k = (of_nat (k div 4096) * kPageSize + of_nat (k mod 4096) :: u64)"
    using arg_cong [OF div_mult_mod_eq [of k 4096], of "of_nat :: nat \<Rightarrow> u64"]
    by (simp only: of_nat_add of_nat_mult kPageSize_def) (simp add: algebra_simps)
  ultimately show "getBackingAddressUnlocked (am_vaddr m + of_nat k) S' = Some (am_paddr m + of_nat k)"
    by (simp add: getBackingAddress_view [OF ok] add.assoc)
qed

lemma range_mapped_outside:
  assumes m: "page_aligned m N" and ok: "tree_ok S" "tree_ok S'" and env: "same_env S S'"
    and r: "range_mapped S S' m flags 0 N" and v: "outside m v"
  shows "getBackingAddressUnlocked v S' = getBackingAddressUnlocked v S"
proof -
  have "unat (am_size m) = N * 4096" using m by (simp add: page_aligned_def kPageSize_def unat_word_ariths unat_of_nat)
  then have "view S' (vpn v) = view S (vpn v)" using r v vpn_less [of v] by (auto simp: range_mapped_def outside_def)
  then have "phys S' (vpn v) = phys S (vpn v)" using env by (intro phys_page_cong) (simp_all add: same_env_def)
  then show ?thesis by (simp add: getBackingAddress_view ok)
qed

text \<open>
  C23. Mapping a valid range of pages in which no 2 MiB page is mapped succeeds when the allocator can
  give the worst case number of tables: every address of the range then translates to the physical
  address asked for, every address outside keeps its translation, the tables are still a tree apart from
  the free memory, and the rest of the reserve is given back. Counting the worst case never
  runs short, so the loops never panic.
\<close>

theorem map_correct:
  assumes "pt_inv S []" and "supply_ok S" and "mapping_ok (mPageManager S) m N" and "0 < N"
    and "isPageMappingRequestInputValid m flags"
    and "\<forall>j < N. \<forall>e. view S (vpn (am_vaddr m) + j) \<noteq> Some (eLarge, e)"
    and "allocateList (MaxPagesForMapping (virtualRange m)) (mAllocator S) = Some (Some l, A)"
    and "unat (MaxPagesForMapping (virtualRange m)) * 4096 < 2 ^ 64"
  shows "\<exists>S'. pt_map m flags type S = Some (OsStatusSuccess, S') \<and> pt_inv S' [] \<and> translates S' m
    \<and> (\<forall>v. outside m v \<longrightarrow> getBackingAddressUnlocked v S' = getBackingAddressUnlocked v S)
    \<and> ((\<forall>j < N. pt_path (vpn (am_vaddr m) + j) \<notin> nodes S) \<longrightarrow> supply_ok S')"
proof -
  have m: "page_aligned m N" using assms(3) by (simp add: mapping_ok_def)
  obtain S' where S': "pt_map m flags type S = Some (OsStatusSuccess, S')" "pt_inv S' []" "same_env S S'"
    "range_mapped S S' m flags 0 N" "(\<forall>j < N. pt_path (vpn (am_vaddr m) + j) \<notin> nodes S) \<longrightarrow> supply_ok S'"
    using map_spec [OF assms] by blast
  note t = pt_invD(2) [OF assms(1)] pt_invD(2) [OF S'(2)]
  show ?thesis using S' range_mapped_translates [OF m t(2) S'(4)] range_mapped_outside [OF m t S'(3,4)] by blast
qed

theorem map_correct_witness:
  "\<exists>S'. pt_map example_pages 7 eWriteBack example_pt = Some (OsStatusSuccess, S') \<and> translates S' example_pages"
proof -
  obtain l A where "allocateList (MaxPagesForMapping (virtualRange example_pages)) (mAllocator example_pt) = Some (Some l, A)"
    using example_reserve by (auto split: option.splits prod.splits)
  moreover have "unat (MaxPagesForMapping (virtualRange example_pages)) * 4096 < 2 ^ 64" by (simp add: example_max)
  moreover have "isPageMappingRequestInputValid example_pages 7" by code_simp
  ultimately show ?thesis
    using map_correct [OF example_ok(1,2), of example_pages 3 7 l A eWriteBack] example_mapping_ok
    by (auto simp: example_ok)
qed

end
