(* ===== verification/PageCompact.thy ===== *)
theory PageCompact
  imports PageOps
begin

text \<open>
  Compaction gives back every table without a present entry, from the page tables up to the page
  directory pointer tables. It never panics, keeps every translation, returns the number of tables
  it took out, and leaves no empty table behind.
\<close>

section \<open>Taking out an empty table\<close>

definition no_entries :: "PageTables \<Rightarrow> nat list \<Rightarrow> bool" where
  "no_entries S p \<longleftrightarrow> (\<forall>j e. at S p j = Some e \<longrightarrow> \<not> present e)"

lemma setPresent_off: "\<not> present (setPresent False e)" "\<not> links n (setPresent False e)"
  by (simp_all add: links_def entry_bits bit_simps)

lemma setPresent_off_ok: "entry_ok mid n e \<Longrightarrow> links n e \<Longrightarrow> entry_ok mid n (setPresent False e)"
  by (auto simp: entry_ok_def links_def entry_bits bit_simps)

lemma no_entries_low: "no_entries S (q @ [i]) \<Longrightarrow> q @ [i, j] \<notin> nodes S"
  using node_snoc [of S "q @ [i]" j] by (auto simp: no_entries_def nodes_def links_def bind_Some_iff split: if_splits)

lemma unlink_empty:
  assumes inv: "pt_inv S l" and q: "node S q = Some t" and e0: "at S q i = Some e0" and l0: "links (length q) e0"
    and em: "no_entries S (q @ [i])"
  shows "\<exists>S1. deallocate (target S e0) (address (mPageManager S) e0) S = Some S1 \<and> entry t i S1 = Some e0
    \<and> pt_inv (upd_entry t i (setPresent False e0) S1) l \<and> same_env S (upd_entry t i (setPresent False e0) S1)
    \<and> node (upd_entry t i (setPresent False e0) S1) = (node S)(q @ [i] := None)
    \<and> at (upd_entry t i (setPresent False e0) S1)
       = (\<lambda>p j. if p = q @ [i] then None else if p = q \<and> j = i then Some (setPresent False e0) else at S p j)
    \<and> view (upd_entry t i (setPresent False e0) S1) = view S"
proof -
  let ?e = "setPresent False e0"
  have ok: "entry_ok (mMiddleFlags S) (length q) ?e"
    using setPresent_off_ok [OF tree_okD(3) [OF pt_invD(2) [OF inv] e0] l0] .
  obtain S1 where S1: "deallocate (target S e0) (address (mPageManager S) e0) S = Some S1" "entry t i S1 = Some e0"
    "pt_inv (upd_entry t i ?e S1) l" "same_env S (upd_entry t i ?e S1)" "node (upd_entry t i ?e S1) = (node S)(q @ [i] := None)"
    and a: "at (upd_entry t i ?e S1) = (\<lambda>p j. if p = q @ [i] then None else if p = q \<and> j = i then Some ?e else at S p j)"
    using unlink_table [OF inv q e0 l0 no_entries_low [OF em] setPresent_off(2) ok] by blast
  let ?S = "upd_entry t i ?e S1"
  have len: "length q < 3" using l0 by (simp add: links_def)
  have "view ?S n = view S n" for n
  proof -
    have np: "\<not> present e" if "at S (q @ [i]) j = Some e" for j e using em that by (auto simp: no_entries_def)
    consider "pt_path n = q @ [i]" | "pd_path n = q @ [i]" | "pt_path n \<noteq> q @ [i]" "pd_path n \<noteq> q @ [i]" by blast
    then show ?thesis
    proof cases
      case 1
      then have "pd_path n = q" "n div 512 mod 512 = i" by (simp_all add: pt_path_def)
      moreover have "q @ [i] \<in> nodes S" using e0 l0 by (simp add: nodes_def node_snoc)
      then obtain x where "at S (q @ [i]) (n mod 512) = Some x" using at_Some [OF pt_invD(2) [OF inv], of _ "n mod 512"] by auto
      ultimately show ?thesis using 1 np by (auto simp: view_def a setPresent_off split: option.split)
    next
      case 2
      have nd: "pt_path n \<notin> nodes S" using no_entries_low [OF em] 2 by (simp add: pt_path_def)
      then have "at S (pt_path n) (n mod 512) = None" by (simp add: at_def nodes_def)
      moreover have "pt_path n \<noteq> q" "pt_path n \<noteq> q @ [i]" using 2 by (auto simp: pt_path_def)
      ultimately show ?thesis using 2 np by (auto simp: view_def a split: option.split)
    next
      case 3
      have "pt_path n \<noteq> q" using len by auto
      moreover have "at S (pt_path n) (n mod 512) = None" if "pd_path n = q" "n div 512 mod 512 = i"
        using that 3 by (simp add: pt_path_def)
      ultimately show ?thesis using 3 by (intro view_cong) (auto simp: a pt_path_def)
    qed
  qed
  then have "view ?S = view S" by blast
  then show ?thesis using S1 a by blast
qed

section \<open>What compacting below an entry does\<close>

definition compacted :: "PageTables \<Rightarrow> PageTables \<Rightarrow> PageTableList \<Rightarrow> nat list \<Rightarrow> nat set \<Rightarrow> size_t \<Rightarrow> bool" where
  "compacted S S' l q I n \<longleftrightarrow> pt_inv S' l \<and> same_env S S' \<and> view S' = view S \<and> nodes S' \<subseteq> nodes S
     \<and> (\<forall>p. (\<forall>i \<in> I. \<not> prefix (q @ [i]) p) \<longrightarrow> node S' p = node S p \<and> (\<forall>j. p = q \<and> j \<in> I \<or> at S' p j = at S p j))
     \<and> (\<forall>p \<in> nodes S'. \<forall>i \<in> I. prefix (q @ [i]) p \<longrightarrow> \<not> no_entries S' p)
     \<and> n = of_nat (card (nodes S - nodes S'))"

lemma compactedD:
  assumes "compacted S S' l q I n"
  shows "pt_inv S' l" "same_env S S'" "view S' = view S" "nodes S' \<subseteq> nodes S" "n = of_nat (card (nodes S - nodes S'))"
    and "(\<And>i. i \<in> I \<Longrightarrow> \<not> prefix (q @ [i]) p) \<Longrightarrow> node S' p = node S p"
    and "(\<And>i. i \<in> I \<Longrightarrow> \<not> prefix (q @ [i]) p) \<Longrightarrow> p \<noteq> q \<or> j \<notin> I \<Longrightarrow> at S' p j = at S p j"
    and "p \<in> nodes S' \<Longrightarrow> i \<in> I \<Longrightarrow> prefix (q @ [i]) p \<Longrightarrow> \<not> no_entries S' p"
  using assms unfolding compacted_def by blast+

lemma node_indices: "tree_ok S \<Longrightarrow> node S p = Some t \<Longrightarrow> set p \<subseteq> {..<512}"
proof (induction p arbitrary: t rule: rev_induct)
  case (snoc i p)
  then obtain e t' where "at S p i = Some e" "node S p = Some t'" by (auto simp: node_snoc at_def bind_Some_iff)
  moreover from this have "i < 512" using at_None_iff [OF snoc.prems(1), of p i] by auto
  ultimately show ?case using snoc.IH snoc.prems(1) by simp
qed simp

lemma finite_nodes: "tree_ok S \<Longrightarrow> finite (nodes S)"
  by (rule finite_subset [OF _ finite_lists_length_le [of "{..<512}" 3]])
    (auto simp: nodes_def dest: node_indices node_length)

lemma compacted_refl:
  assumes "pt_inv S l" and "\<And>i. i \<in> I \<Longrightarrow> q @ [i] \<notin> nodes S"
  shows "compacted S S l q I 0"
proof -
  have "p \<notin> nodes S" if "i \<in> I" "prefix (q @ [i]) p" for p i
    using node_Some_prefix [OF that(2), of S] assms(2) [OF that(1)] by (cases "node S p") (auto simp: nodes_def)
  then show ?thesis using assms(1) by (auto simp: compacted_def)
qed

lemma prefix_branch: "prefix (q @ [i]) p \<Longrightarrow> prefix (q @ [j]) p \<Longrightarrow> i = j"
  by (auto simp: prefix_def)

lemma compacted_trans:
  assumes 1: "compacted S S1 l q I n" and 2: "compacted S1 S2 l q J m" and d: "I \<inter> J = {}" and fin: "finite (nodes S)"
  shows "compacted S S2 l q (I \<union> J) (n + m)"
  unfolding compacted_def
proof (intro conjI allI ballI impI)
  note D1 = compactedD [OF 1] and D2 = compactedD [OF 2]
  show "pt_inv S2 l" "same_env S S2" "view S2 = view S" "nodes S2 \<subseteq> nodes S"
    using D1(1-4) D2(1-4) same_env_trans by auto
  show "node S2 p = node S p" if "\<forall>i \<in> I \<union> J. \<not> prefix (q @ [i]) p" for p using that D1(6) D2(6) by simp
  show "p = q \<and> j \<in> I \<union> J \<or> at S2 p j = at S p j" if "\<forall>i \<in> I \<union> J. \<not> prefix (q @ [i]) p" for p j
    using that D1(7) [of p j] D2(7) [of p j] by (metis UnCI)
  have "nodes S - nodes S2 = (nodes S - nodes S1) \<union> (nodes S1 - nodes S2)" using D1(4) D2(4) by blast
  moreover have "card ((nodes S - nodes S1) \<union> (nodes S1 - nodes S2)) = card (nodes S - nodes S1) + card (nodes S1 - nodes S2)"
    using fin finite_subset [OF D1(4) fin] by (intro card_Un_disjoint) auto
  ultimately show "n + m = of_nat (card (nodes S - nodes S2))" using D1(5) D2(5) by simp
next
  note D1 = compactedD [OF 1] and D2 = compactedD [OF 2]
  fix p i assume p: "p \<in> nodes S2" and i: "i \<in> I \<union> J" and pre: "prefix (q @ [i]) p"
  show "\<not> no_entries S2 p"
  proof (cases "i \<in> J")
    case False
    have nj: "\<not> prefix (q @ [j]) p" if "j \<in> J" for j using prefix_branch [OF pre, of j] that False by blast
    have "p \<noteq> q" using pre by auto
    then have "at S2 p = at S1 p" using D2(7) [OF nj] by blast
    moreover have "p \<in> nodes S1" using p D2(4) by blast
    ultimately show ?thesis using D1(8) [OF _ _ pre] i False by (auto simp: no_entries_def)
  qed (use D2(8) [OF p _ pre] in blast)
qed


section \<open>The loops\<close>

text \<open>Compacting an entry of a table of depth \<open>k\<close>.\<close>

definition compacts :: "(u64 \<Rightarrow> nat \<Rightarrow> PageTables \<Rightarrow> (size_t \<times> PageTables) option) \<Rightarrow> nat \<Rightarrow> bool" where
  "compacts f k \<longleftrightarrow> (\<forall>S l q t i. pt_inv S l \<longrightarrow> node S q = Some t \<longrightarrow> length q = k \<longrightarrow> i < 512 \<longrightarrow>
     (\<exists>n S'. f t i S = Some (n, S') \<and> compacted S S' l q {i} n))"

lemma compact_loop_spec:
  assumes f: "compacts f k" and inv: "pt_inv S l" and q: "node S q = Some t" "length q = k"
    and "is": "distinct is" "set is \<subseteq> {..<512}"
  shows "\<exists>n r S'. compact_loop f t is cnt rc S = Some (cnt + n, r, S') \<and> compacted S S' l q (set is) n
    \<and> (r \<longleftrightarrow> rc \<and> (\<forall>i \<in> set is. \<forall>e. at S' q i = Some e \<longrightarrow> \<not> present e))"
  using inv q "is"
proof (induction "is" arbitrary: S cnt rc)
  case Nil
  then show ?case using compacted_refl [of S l "{}" q] by auto
next
  case (Cons i js)
  obtain n S1 where 1: "f t i S = Some (n, S1)" "compacted S S1 l q {i} n"
    using f Cons.prems unfolding compacts_def by fastforce
  note D1 = compactedD [OF 1(2)]
  have q1: "node S1 q = Some t" using D1(6) [of q] Cons.prems(2) by simp
  obtain e where e: "at S1 q i = Some e" using at_Some [OF pt_invD(2) [OF D1(1)], of q i] q1 Cons.prems by (auto simp: nodes_def)
  define rc' where "rc' = (if present e then False else rc)"
  obtain m r S2 where 2: "compact_loop f t js (cnt + n) rc' S1 = Some (cnt + n + m, r, S2)" "compacted S1 S2 l q (set js) m"
    "r \<longleftrightarrow> rc' \<and> (\<forall>i \<in> set js. \<forall>e. at S2 q i = Some e \<longrightarrow> \<not> present e)"
    using Cons.IH [OF D1(1) q1, of "cnt + n" rc'] Cons.prems by auto
  have "compacted S S2 l q ({i} \<union> set js) (n + m)"
    using Cons.prems by (intro compacted_trans [OF 1(2) 2(2)] finite_nodes pt_invD(2)) auto
  moreover have "at S2 q i = Some e" using compactedD(7) [OF 2(2), of q i] e Cons.prems(4) by simp
  moreover have "entry t i S1 = Some e" using e q1 by (simp add: at_def)
  ultimately show ?case using 1(1) 2(1,3) by (auto simp: rc'_def add.assoc)
qed

lemma prefix_step: "prefix (q @ [i]) p \<Longrightarrow> p \<noteq> q @ [i] \<Longrightarrow> set p \<subseteq> {..<512} \<Longrightarrow> \<exists>j < 512. prefix ((q @ [i]) @ [j]) p"
  by (auto simp: prefix_def) (metis list.set_intros(1) lessThan_iff neq_Nil_conv subsetD)

lemma compact_reclaim_spec:
  assumes inv: "pt_inv S l" and q: "node S q = Some t" "i < 512" and e0: "at S q i = Some e0" and l0: "links (length q) e0"
    and c: "compacted S S1 l (q @ [i]) {..<512} n" and r: "r \<longleftrightarrow> (\<forall>j < 512. \<forall>e. at S1 (q @ [i]) j = Some e \<longrightarrow> \<not> present e)"
  shows "\<exists>m S'. compact_reclaim t i (target S e0) (address (mPageManager S) e0) n r S1 = Some (m, S') \<and> compacted S S' l q {i} m"
proof -
  note D = compactedD [OF c]
  have fin: "finite (nodes S)" by (rule finite_nodes [OF pt_invD(2) [OF inv]])
  have up: "\<not> prefix ((q @ [i]) @ [j]) p" if "\<not> prefix (q @ [i]) p" for p j using that by (auto simp: prefix_def)
  have same: "node S1 p = node S p" "at S1 p j = at S p j" if "\<not> prefix (q @ [i]) p" for p j
    using D(6) [of p] D(7) [of p j] up [OF that] that by auto
  have q1: "node S1 q = Some t" "at S1 q i = Some e0" using same [of q] q e0 by simp_all
  have ent: "entry t i S1 = Some e0" using q1 by (simp add: at_def)
  have env: "target S1 e0 = target S e0" "mPageManager S1 = mPageManager S" using D(2) by (auto simp: same_env_def target_def)
  have below: "\<not> no_entries S1 p" if p: "p \<in> nodes S1" "prefix (q @ [i]) p" "p \<noteq> q @ [i]" for p
  proof -
    obtain x where "node S1 p = Some x" using p(1) nodes_Some by blast
    then have "set p \<subseteq> {..<512}" by (rule node_indices [OF pt_invD(2) [OF D(1)]])
    then obtain j where "j < 512" "prefix ((q @ [i]) @ [j]) p" using prefix_step [OF p(2,3)] by blast
    then show ?thesis using D(8) [OF p(1), of j] by simp
  qed
  have all: "no_entries S1 (q @ [i]) \<longleftrightarrow> r"
    using at_None_iff [OF pt_invD(2) [OF D(1)], of "q @ [i]"] unfolding r no_entries_def
    by (metis linorder_not_le option.distinct(1))
  show ?thesis
  proof (cases r)
    case False
    have "\<not> no_entries S1 p" if "p \<in> nodes S1" "prefix (q @ [i]) p" for p
      using below [OF that] all False by (cases "p = q @ [i]") auto
    then have "compacted S S1 l q {i} n" unfolding compacted_def using D(1-5) same by auto
    then show ?thesis using False by (auto simp: compact_reclaim_def)
  next
    case True
    let ?e = "setPresent False e0"
    obtain S2 where 2: "deallocate (target S1 e0) (address (mPageManager S1) e0) S1 = Some S2" "entry t i S2 = Some e0"
      "pt_inv (upd_entry t i ?e S2) l" "same_env S1 (upd_entry t i ?e S2)" "node (upd_entry t i ?e S2) = (node S1)(q @ [i] := None)"
      "view (upd_entry t i ?e S2) = view S1"
      and a: "at (upd_entry t i ?e S2) = (\<lambda>p j. if p = q @ [i] then None else if p = q \<and> j = i then Some ?e else at S1 p j)"
      using unlink_empty [OF D(1) q1 l0] True all by blast
    let ?S = "upd_entry t i ?e S2"
    have run: "compact_reclaim t i (target S e0) (address (mPageManager S) e0) n r S1 = Some (n + 1, ?S)"
      using True 2(1,2) by (simp add: compact_reclaim_def env set_entry_upd [OF 2(2)])
    have nd: "nodes ?S = nodes S1 - {q @ [i]}" unfolding nodes_def 2(5) by auto
    have q2: "q @ [i] \<in> nodes S1" using q1(2) l0 by (simp add: nodes_def node_snoc)
    have "nodes S - nodes ?S = insert (q @ [i]) (nodes S - nodes S1)" using nd q2 D(4) by blast
    then have "card (nodes S - nodes ?S) = Suc (card (nodes S - nodes S1))" using fin q2 by simp
    then have cnt: "n + 1 = of_nat (card (nodes S - nodes ?S))" using D(5) by simp
    have "compacted S ?S l q {i} (n + 1)"
      unfolding compacted_def
    proof (intro conjI allI ballI impI)
      show "node ?S p = node S p" if "\<forall>x \<in> {i}. \<not> prefix (q @ [x]) p" for p using that same(1) [of p] 2(5) by auto
      show "p = q \<and> j \<in> {i} \<or> at ?S p j = at S p j" if "\<forall>x \<in> {i}. \<not> prefix (q @ [x]) p" for p j
        using that same(2) [of p j] by (auto simp: a)
      show "\<not> no_entries ?S p" if p: "p \<in> nodes ?S" "x \<in> {i}" "prefix (q @ [x]) p" for p x
      proof -
        have "p \<in> nodes S1" "p \<noteq> q @ [i]" using p(1) unfolding nd by blast+
        moreover have "x = i" "p \<noteq> q" using p(2,3) not_prefix_self [of q x] by blast+
        ultimately show ?thesis using below [of p] p(3) by (simp add: no_entries_def a)
      qed
      show "same_env S ?S" by (rule same_env_trans [OF D(2) 2(4)])
      show "nodes ?S \<subseteq> nodes S" using D(4) nd by blast
    qed (use 2(3,6) D(3) cnt in simp_all)
    then show ?thesis using run by blast
  qed
qed


section \<open>The levels\<close>

lemma not_linked: "at S q i = Some e \<Longrightarrow> \<not> links (length q) e \<Longrightarrow> q @ [i] \<notin> nodes S"
  by (simp add: nodes_def node_snoc)

lemma entry_at:
  assumes "pt_inv S l" and "node S q = Some t" and "i < 512"
  obtains e where "entry t i S = Some e" "at S q i = Some e" "entry_ok (mMiddleFlags S) (length q) e"
  using at_Some [OF pt_invD(2) [OF assms(1)], of q i] tree_okD(3) [OF pt_invD(2) [OF assms(1)]] assms(2,3)
  by (auto simp: nodes_def at_def)

lemma compactPt_spec: "compacts compactPt 2"
  unfolding compacts_def
proof (intro allI impI)
  fix S l q t i assume inv: "pt_inv S l" and q: "node S q = Some t" "length q = 2" "i < (512 :: nat)"
  obtain e where e: "entry t i S = Some e" "at S q i = Some e" "entry_ok (mMiddleFlags S) (length q) e"
    by (rule entry_at [OF inv q(1,3)])
  show "\<exists>n S'. compactPt t i S = Some (n, S') \<and> compacted S S' l q {i} n"
  proof (cases "links 2 e")
    case False
    then have "compactPt t i S = Some (0, S)" using e(1) by (auto simp: compactPt_def links_def is_bits)
    moreover have "compacted S S l q {i} 0" using compacted_refl [OF inv, of "{i}" q] not_linked [OF e(2)] False q(2) by simp
    ultimately show ?thesis by blast
  next
    case True
    then have l: "present e" "\<not> is2m e" by (auto simp: links_def is_bits)
    have nd: "node S (q @ [i]) = Some (target S e)" using e(2) True q(2) by (simp add: node_snoc)
    obtain pg where pg: "mem S (target S e) = Some pg" "length pg = 512" using tree_okD(1) [OF pt_invD(2) [OF inv] nd] by blast
    have at: "at S (q @ [i]) j = (if j < 512 then Some (pg ! j) else None)" for j using nd pg by (simp add: at_def entry_def)
    have em: "IsTableEmpty pg \<longleftrightarrow> (\<forall>j < 512. \<forall>e. at S (q @ [i]) j = Some e \<longrightarrow> \<not> present e)"
      using pg(2) by (simp add: IsTableEmpty_def list_all_length at)
    have low: "(q @ [i]) @ [j] \<notin> nodes S" for j
      using node_length [of S "(q @ [i]) @ [j]"] q(2) by (cases "node S ((q @ [i]) @ [j])") (auto simp: nodes_def)
    have c: "compacted S S l (q @ [i]) {..<512} 0" by (rule compacted_refl [OF inv low])
    have "compactPt t i S = compact_reclaim t i (target S e) (address (mPageManager S) e) 0 (IsTableEmpty pg) S"
      using e(1) l pg(1) by (simp add: compactPt_def compact_reclaim_def target_def Let_def)
    then show ?thesis using compact_reclaim_spec [OF inv q(1,3) e(2) _ c em] True q(2) by simp
  qed
qed

lemma compact_level:
  assumes f: "compacts f (Suc k)" and k: "k < 2"
    and g: "\<And>t i S e. entry t i S = Some e \<Longrightarrow> \<not> present e \<Longrightarrow> g t i S = Some (0, S)"
    and g': "\<And>t i S e. entry t i S = Some e \<Longrightarrow> present e \<Longrightarrow> k = 1 \<longrightarrow> \<not> bit e 7 \<Longrightarrow>
      g t i S = do { (cnt, reclaim, S') \<leftarrow> compact_loop f (target S e) [0..<512] 0 True S;
                     compact_reclaim t i (target S e) (address (mPageManager S) e) cnt reclaim S' }"
  shows "compacts g k"
  unfolding compacts_def
proof (intro allI impI)
  fix S l q t i assume inv: "pt_inv S l" and q: "node S q = Some t" "length q = k" "i < (512 :: nat)"
  obtain e where e: "entry t i S = Some e" "at S q i = Some e" "entry_ok (mMiddleFlags S) (length q) e"
    by (rule entry_at [OF inv q(1,3)])
  show "\<exists>n S'. g t i S = Some (n, S') \<and> compacted S S' l q {i} n"
  proof (cases "present e")
    case False
    then have "\<not> links (length q) e" by (simp add: links_def)
    then have "compacted S S l q {i} 0" using compacted_refl [OF inv, of "{i}" q] not_linked [OF e(2)] by simp
    then show ?thesis using g [OF e(1) False] by blast
  next
    case True
    have b7: "k = 1 \<longrightarrow> \<not> bit e 7" using e(3) q(2) by (simp add: entry_ok_def)
    have l: "links (length q) e" using True b7 k q(2) unfolding links_def by (cases "k = 1") simp_all
    have nd: "node S (q @ [i]) = Some (target S e)" using e(2) l by (simp add: node_snoc)
    have set: "set [0..<512] = {..<512 :: nat}" by auto
    have "set [0..<512] \<subseteq> {..<512 :: nat}" "distinct [0..<512 :: nat]" "length (q @ [i]) = Suc k" using q(2) set by auto
    then obtain n r S1 where 1: "compact_loop f (target S e) [0..<512] 0 True S = Some (0 + n, r, S1)"
      "compacted S S1 l (q @ [i]) {..<512} n"
      and r: "r \<longleftrightarrow> True \<and> (\<forall>j \<in> {..<512}. \<forall>e. at S1 (q @ [i]) j = Some e \<longrightarrow> \<not> present e)"
      using compact_loop_spec [OF f inv nd _ _, of "[0..<512]" 0 True] unfolding set by blast
    have r': "r \<longleftrightarrow> (\<forall>j < 512. \<forall>e. at S1 (q @ [i]) j = Some e \<longrightarrow> \<not> present e)" using r by auto
    show ?thesis using compact_reclaim_spec [OF inv q(1,3) e(2) l 1(2) r'] 1(1) g' [OF e(1) True b7] by simp
  qed
qed

lemma compactPd_spec: "compacts compactPd 1"
  by (rule compact_level [of compactPt]) (use compactPt_spec in \<open>simp_all add: compactPd_def Let_def is_bits target_def numeral_2_eq_2\<close>)

lemma compactPdpt_spec: "compacts compactPdpt 0"
  by (rule compact_level [of compactPd]) (use compactPd_spec in \<open>simp_all add: compactPdpt_def Let_def target_def\<close>)

lemma compactPml4_loop_spec:
  assumes inv: "pt_inv S l" and "is": "distinct is" "set is \<subseteq> {..<512}"
  shows "\<exists>n S'. compactPml4_loop (pml4 S) is cnt S = Some (cnt + n, S') \<and> compacted S S' l [] (set is) n"
  using inv "is"
proof (induction "is" arbitrary: S cnt)
  case Nil
  then show ?case using compacted_refl [of S l "{}" "[]"] by auto
next
  case (Cons i js)
  obtain n S1 where 1: "compactPdpt (pml4 S) i S = Some (n, S1)" "compacted S S1 l [] {i} n"
    using compactPdpt_spec Cons.prems node_Nil [of S] unfolding compacts_def by fastforce
  have p: "pml4 S1 = pml4 S" using compactedD(2) [OF 1(2)] by (simp add: same_env_def)
  obtain m S2 where 2: "compactPml4_loop (pml4 S) js (cnt + n) S1 = Some (cnt + n + m, S2)" "compacted S1 S2 l [] (set js) m"
    using Cons.IH [OF compactedD(1) [OF 1(2)], of "cnt + n"] Cons.prems p by auto
  have "compacted S S2 l [] ({i} \<union> set js) (n + m)"
    using Cons.prems by (intro compacted_trans [OF 1(2) 2(2)] finite_nodes pt_invD(2)) auto
  then show ?case using 1(1) 2(1) by (auto simp: add.assoc)
qed

lemma compactUnlocked_spec:
  assumes "pt_inv S l"
  shows "\<exists>n S'. compactUnlocked S = Some (n, S') \<and> compacted S S' l [] {..<512} n"
proof -
  have set: "set [0..<512] = {..<512 :: nat}" by auto
  show ?thesis using compactPml4_loop_spec [OF assms, of "[0..<512]" 0] unfolding set by (simp add: compactUnlocked_def compactPml4_def)
qed

end
