(* ===== verification/PageUnmap.thy ===== *)
theory PageUnmap
  imports PageCompact
begin

text \<open>
  Unmapping: where the page directories of a range are there, \<^verbatim>\<open>unmapUnlocked\<close> clears every page of
  it, 2 MiB pages as a whole, and keeps all others.
\<close>

section \<open>One step of the loop\<close>

lemma find_dirs:
  assumes "pd_path (vpn v) \<in> nodes S"
  obtains l3 l2 where "findPageMap3 (pml4 S) (pml4i v) S = Some (Some l3)" "findPageMap2 l3 (pdpti v) S = Some (Some l2)"
    "node S (pd_path (vpn v)) = Some l2"
proof -
  obtain l2 where l2: "node S ([pml4i v] @ [pdpti v]) = Some l2" using assms nodes_Some by (auto simp: paths_vpn)
  then obtain e3 where e3: "at S [pml4i v] (pdpti v) = Some e3" "links 1 e3" "target S e3 = l2"
    unfolding node_snoc by (auto simp: bind_Some_iff split: if_splits)
  then obtain l3 where l3: "node S ([] @ [pml4i v]) = Some l3" "entry l3 (pdpti v) S = Some e3"
    by (auto simp: at_def bind_Some_iff)
  then obtain e4 where e4: "at S [] (pml4i v) = Some e4" "links 0 e4" "target S e4 = l3"
    unfolding node_snoc by (auto simp: bind_Some_iff split: if_splits)
  have "findPageMap3 (pml4 S) (pml4i v) S = Some (Some l3)"
    using e4 by (auto simp: findPageMap3_def at_def links_def target_def)
  moreover have "findPageMap2 l3 (pdpti v) S = Some (Some l2)"
    using e3(2,3) l3(2) by (auto simp: findPageMap2_def links_def target_def is_bits)
  ultimately show ?thesis using that l2 by (simp add: paths_vpn)
qed

text \<open>Clearing one page.\<close>

lemma clear_pte:
  assumes inv: "pt_inv S l" and n: "n < 2 ^ 36" and t: "node S (pt_path n) = Some t"
  shows "\<exists>e0 S'. entry t (n mod 512) S = Some e0 \<and> set_entry t (n mod 512) (setPresent False e0) S = Some S'
    \<and> pt_inv S' l \<and> same_env S S' \<and> mAllocator S' = mAllocator S \<and> nodes S' = nodes S
    \<and> (\<forall>m < 2 ^ 36. view S' m = (if m = n then None else view S m))"
proof -
  have pn: "pt_path n \<in> nodes S" using t by (simp add: nodes_def)
  obtain e0 where a0: "at S (pt_path n) (n mod 512) = Some e0" using at_Some [OF pt_invD(2) [OF inv] pn, of "n mod 512"] by auto
  have e0: "entry t (n mod 512) S = Some e0" using a0 t by (simp add: at_def)
  have nl: "\<not> links (length (pt_path n)) x" for x by (simp add: links_def)
  have ek: "entry_ok (mMiddleFlags S) (length (pt_path n)) x" for x by (simp add: entry_ok_def links_def)
  note U = upd_leaf [OF inv t a0 nl nl ek, of "setPresent False e0"]
  let ?S = "upd_entry t (n mod 512) (setPresent False e0) S"
  have "view ?S m = (if m = n then None else view S m)" if m: "m < 2 ^ 36" for m
  proof (cases "m = n")
    case True
    then show ?thesis by (simp add: view_def U(3) setPresent_off)
  next
    case False
    then have "\<not> (pt_path m = pt_path n \<and> m mod 512 = n mod 512)" using same_page [OF m n] by blast
    moreover have "pd_path m \<noteq> pt_path n" by (metis length_paths numeral_eq_iff semiring_norm(89))
    ultimately show ?thesis using False by (simp, intro view_cong) (auto simp: U(3))
  qed
  then show ?thesis using e0 set_entry_upd [OF e0] U(1,2) by (auto simp: nodes_def)
qed

text \<open>Clearing a 2 MiB page.\<close>

lemma clear_pde:
  assumes inv: "pt_inv S l" and n: "n < 2 ^ 36" and t: "node S (pd_path n) = Some t" and e: "view S n = Some (eLarge, e)"
  shows "entry t (n div 512 mod 512) S = Some e \<and> present e \<and> is2m e \<and> (\<exists>S'. reclaim2m t (n div 512 mod 512) S = Some S'
    \<and> pt_inv S' l \<and> same_env S S' \<and> mAllocator S' = mAllocator S \<and> nodes S' = nodes S
    \<and> (\<forall>m < 2 ^ 36. view S' m = (if m div 512 = n div 512 then None else view S m)))"
proof -
  note V = view_large_page [OF pt_invD(2) [OF inv] e n]
  let ?i = "n div 512 mod 512" and ?e = "set2m False (setPresent False e)"
  have en: "entry t ?i S = Some e" using V(1) t by (simp add: at_def)
  have b: "is2m e" using V(3) by (simp add: is_bits)
  have nl: "\<not> links (length (pd_path n)) e" "\<not> links (length (pd_path n)) ?e"
    using V(3) by (simp_all add: links_def entry_bits bit_simps)
  have ek: "entry_ok (mMiddleFlags S) (length (pd_path n)) ?e" using nl(2) by (simp add: entry_ok_def entry_bits bit_simps)
  note U = upd_leaf [OF inv t V(1) nl ek]
  let ?S = "upd_entry t ?i ?e S"
  have np: "\<not> present ?e" by (simp add: entry_bits bit_simps)
  have "view ?S m = (if m div 512 = n div 512 then None else view S m)" if m: "m < 2 ^ 36" for m
  proof (cases "m div 512 = n div 512")
    case True
    then have p: "pt_path m = pt_path n" using same_large_page [OF m n] by blast
    then have "at S (pt_path m) j = None" for j using V(4) by (simp add: at_def nodes_def)
    moreover have "pd_path m = pd_path n" "m div 512 mod 512 = ?i" "pt_path m \<noteq> pd_path n" using p by (auto simp: pt_path_def)
    ultimately show ?thesis using True np by (simp add: view_def U(3))
  next
    case False
    then have "\<not> (pd_path m = pd_path n \<and> m div 512 mod 512 = ?i)" using same_large_page [OF m n] by (auto simp: pt_path_def)
    moreover have "pt_path m \<noteq> pd_path n" by (metis length_paths numeral_eq_iff semiring_norm(89))
    ultimately show ?thesis using False by (simp, intro view_cong) (auto simp: U(3))
  qed
  moreover have "reclaim2m t ?i S = Some ?S" using en b by (simp add: reclaim2m_def set_entry_upd [OF en])
  ultimately show ?thesis using en b V(2) U(1,2) by (auto simp: nodes_def)
qed

section \<open>The loop\<close>

definition range_dirs :: "PageTables \<Rightarrow> nat \<Rightarrow> nat \<Rightarrow> bool" where
  "range_dirs S lo hi \<longleftrightarrow> (\<forall>n. lo \<le> n \<and> n < hi \<longrightarrow> pt_path n \<in> nodes S \<or> (\<exists>e. view S n = Some (eLarge, e)))"

text \<open>The pages that go: those of the range, and those of a 2 MiB page that begins outside of it.\<close>

definition goes :: "PageTables \<Rightarrow> nat \<Rightarrow> nat \<Rightarrow> nat \<Rightarrow> bool" where
  "goes S lo hi x \<longleftrightarrow> lo \<le> x \<and> x < hi
     \<or> (\<exists>e n. view S x = Some (eLarge, e) \<and> lo \<le> n \<and> n < hi \<and> n div 512 = x div 512)"

definition unmapped :: "PageTables \<Rightarrow> PageTables \<Rightarrow> nat \<Rightarrow> nat \<Rightarrow> bool" where
  "unmapped S S' lo hi \<longleftrightarrow> (\<forall>x < 2 ^ 36. view S' x = (if goes S lo hi x then None else view S x))"

lemma view_table: "tree_ok S \<Longrightarrow> pt_path n \<in> nodes S \<Longrightarrow> view S n \<noteq> Some (eLarge, e)"
  by (cases rule: view_cases [of S n]) (auto split: if_splits)

lemma unmapped_pte:
  assumes ok: "tree_ok S" and n: "n < hi" "hi \<le> 2 ^ 36" and p: "pt_path n \<in> nodes S"
    and v: "\<forall>m < 2 ^ 36. view S1 m = (if m = n then None else view S m)" and u: "unmapped S1 S' (Suc n) hi"
  shows "unmapped S S' n hi"
  unfolding unmapped_def
proof (intro allI impI)
  fix x :: nat assume x: "x < 2 ^ 36"
  have same: "pt_path n = pt_path x" if "n div 512 = x div 512" using same_large_page [of n x] x n that by simp
  have "goes S n hi x \<longleftrightarrow> x = n \<or> goes S1 (Suc n) hi x"
  proof
    assume "goes S n hi x"
    then consider "n \<le> x" "x < hi" | e m where "view S x = Some (eLarge, e)" "n \<le> m" "m < hi" "m div 512 = x div 512"
      unfolding goes_def by blast
    then show "x = n \<or> goes S1 (Suc n) hi x"
    proof cases
      case 1
      then show ?thesis by (cases "x = n") (auto simp: goes_def)
    next
      case 2
      have "m \<noteq> n" using view_table [OF ok, of x e] p same 2(1,4) by auto
      then show ?thesis using 2 v x by (cases "x = n") (auto simp: goes_def intro!: exI [of _ m])
    qed
  next
    assume "x = n \<or> goes S1 (Suc n) hi x"
    then show "goes S n hi x" using n v x by (auto simp: goes_def split: if_splits)
  qed
  then show "view S' x = (if goes S n hi x then None else view S x)" using u v x by (auto simp: unmapped_def)
qed

lemma unmapped_pde:
  assumes ok: "tree_ok S" and n: "n < hi" "hi \<le> 2 ^ 36" and e: "view S n = Some (eLarge, e)"
    and v: "\<forall>m < 2 ^ 36. view S1 m = (if m div 512 = n div 512 then None else view S m)"
    and u: "unmapped S1 S' ((n div 512 + 1) * 512) hi"
  shows "unmapped S S' n hi"
  unfolding unmapped_def
proof (intro allI impI)
  fix x :: nat assume x: "x < 2 ^ 36"
  let ?n' = "(n div 512 + 1) * 512"
  have next': "?n' \<le> m" if "n \<le> m" "m div 512 \<noteq> n div 512" for m
  proof -
    have "n div 512 + 1 \<le> m div 512" using that div_le_mono [of n m 512] by simp
    then have "?n' \<le> m div 512 * 512" by (rule mult_le_mono1)
    then show ?thesis using div_times_less_eq_dividend [of m 512] by linarith
  qed
  have "goes S n hi x \<longleftrightarrow> x div 512 = n div 512 \<or> goes S1 ?n' hi x"
  proof
    assume "goes S n hi x"
    then consider "n \<le> x" "x < hi" | e m where "view S x = Some (eLarge, e)" "n \<le> m" "m < hi" "m div 512 = x div 512"
      unfolding goes_def by blast
    then show "x div 512 = n div 512 \<or> goes S1 ?n' hi x"
    proof cases
      case 1
      then show ?thesis using next' [of x] by (auto simp: goes_def)
    next
      case 2
      then show ?thesis using next' [of m] v x by (cases "x div 512 = n div 512") (auto simp: goes_def intro!: exI [of _ m])
    qed
  next
    assume a: "x div 512 = n div 512 \<or> goes S1 ?n' hi x"
    have "n < 2 ^ 36" using n by simp
    then have "x div 512 = n div 512 \<Longrightarrow> view S x = Some (eLarge, e)" using view_large_page(6) [OF ok e _ x] by blast
    moreover have "n < ?n'" by (simp add: dividend_less_div_times)
    ultimately show "goes S n hi x" using a n v x by (fastforce simp: goes_def split: if_splits)
  qed
  then show "view S' x = (if goes S n hi x then None else view S x)" using u v x by (auto simp: unmapped_def)
qed


lemma next_block: "n + (512 - n mod 512) = (n div 512 + 1) * (512 :: nat)"
proof -
  define a b where "a = n div 512" and "b = n mod 512"
  have "n = a * 512 + b" "b < 512" by (simp_all add: a_def b_def)
  then show ?thesis unfolding a_def [symmetric] b_def [symmetric] by simp
qed

lemma nextMultiple_page:
  assumes al: "4096 dvd unat v" and top: "unat v + 2 ^ 21 < 2 ^ 64"
  shows "nextMultiple v kLargePageSize = v + of_nat (512 - vpn v mod 512) * kPageSize"
proof -
  have L: "unat kLargePageSize = 2 ^ 21" by (simp add: kLargePageSize_def)
  obtain y where y: "unat v = 4096 * y" using al by blast
  have "unat (nextMultiple v kLargePageSize) = (unat v div 2 ^ 21 + 1) * 2 ^ 21"
    unfolding L [symmetric] by (rule unat_nextMultiple) (use top L in simp_all)
  also have "\<dots> = unat v + (512 - vpn v mod 512) * 4096"
  proof -
    have "vpn v mod 512 = y mod 512" by (simp add: vpn_def y mod_mod_cancel)
    moreover have "4096 * y div 2 ^ 21 = y div 512" using div_mult_mult1 [of "4096 :: nat" y 512] by simp
    moreover have "4096 * y = y div 512 * 2 ^ 21 + y mod 512 * 4096"
      using arg_cong [OF div_mult_mod_eq [of y 512], of "\<lambda>x. 4096 * x"] unfolding distrib_left by simp
    moreover have "(512 - y mod 512) * 4096 = 2 ^ 21 - y mod 512 * 4096" "y mod 512 * 4096 \<le> 2 ^ 21"
      by (simp_all add: diff_mult_distrib)
    ultimately show ?thesis unfolding y by simp
  qed
  also have "\<dots> = unat (v + of_nat (512 - vpn v mod 512) * kPageSize)"
  proof -
    have "unat (of_nat (512 - vpn v mod 512) * kPageSize :: u64) = (512 - vpn v mod 512) * 4096"
      by (rule unat_pages) simp
    moreover have "(512 - vpn v mod 512) * 4096 \<le> 2 ^ 21" by simp
    ultimately show ?thesis using top by (subst unat_add_small) simp_all
  qed
  finally show ?thesis by (rule word_eqI_unat)
qed

definition pages_of :: "range \<Rightarrow> nat \<Rightarrow> bool" where
  "pages_of r N \<longleftrightarrow> 4096 dvd unat (rfront r) \<and> rback r = rfront r + of_nat N * kPageSize
     \<and> unat (rfront r) + N * 4096 + 2 ^ 21 < 2 ^ 64 \<and> vpn (rfront r) + N \<le> 2 ^ 36"

lemma pages_of_index:
  assumes r: "pages_of r N" and k: "k \<le> N + 512"
  shows "unat (rfront r + of_nat k * kPageSize) = unat (rfront r) + k * 4096"
    and "rfront r + of_nat k * kPageSize < rback r \<longleftrightarrow> k < N"
proof -
  have u: "unat (rfront r + of_nat k * kPageSize) = unat (rfront r) + k * 4096" if "k \<le> N + 512" for k
  proof -
    have "unat (of_nat k * kPageSize :: u64) = k * 4096" using r that by (intro unat_pages) (simp add: pages_of_def)
    then show ?thesis using r that by (subst unat_add_small) (simp_all add: pages_of_def)
  qed
  show "unat (rfront r + of_nat k * kPageSize) = unat (rfront r) + k * 4096" by (rule u [OF k])
  show "rfront r + of_nat k * kPageSize < rback r \<longleftrightarrow> k < N"
    using u [OF k] u [of N] r by (simp add: word_less_nat_alt pages_of_def)
qed

lemma unmap_loop_spec:
  assumes r: "pages_of r N" and inv: "pt_inv S l" and dirs: "range_dirs S (vpn (rfront r) + k) (vpn (rfront r) + N)"
    and k: "k \<le> N + 512"
  shows "\<exists>S'. unmap_loop (rfront r + of_nat k * kPageSize) (rback r) S = Some S' \<and> pt_inv S' l \<and> same_env S S'
    \<and> mAllocator S' = mAllocator S \<and> nodes S' = nodes S \<and> unmapped S S' (vpn (rfront r) + k) (vpn (rfront r) + N)"
  using inv dirs k
proof (induction "N - k" arbitrary: k S rule: less_induct)
  case less
  let ?n0 = "vpn (rfront r)" and ?i = "rfront r + of_nat k * kPageSize"
  note inv = less.prems(1) and ix = pages_of_index [OF r less.prems(3)]
  show ?case
  proof (cases "k < N")
    case False
    then have "unmap_loop ?i (rback r) S = Some S" using ix(2) by (subst unmap_loop.simps) simp
    moreover have "unmapped S S (?n0 + k) (?n0 + N)" using False by (auto simp: unmapped_def goes_def)
    ultimately show ?thesis using inv by auto
  next
    case True
    have ok: "tree_ok S" by (rule pt_invD(2) [OF inv])
    have al: "4096 dvd unat (rfront r)" "?n0 + N \<le> 2 ^ 36" "unat (rfront r) + N * 4096 + 2 ^ 21 < 2 ^ 64"
      using r by (simp_all add: pages_of_def)
    have v: "vpn ?i = ?n0 + k" using vpn_add_less [OF al(1), of k] True al(2) by simp
    have n: "?n0 + k < ?n0 + N" "?n0 + k < 2 ^ 36" using True al(2) by simp_all
    have lt: "?i < rback r" using ix(2) True by simp
    consider (table) "pt_path (?n0 + k) \<in> nodes S" | (large) e where "view S (?n0 + k) = Some (eLarge, e)"
      using less.prems(2) n by (auto simp: range_dirs_def)
    then show ?thesis
    proof cases
      case table
      then have "pd_path (vpn ?i) \<in> nodes S" unfolding v pt_path_def by (rule nodes_butlast)
      then obtain l3 l2 where f: "findPageMap3 (pml4 S) (pml4i ?i) S = Some (Some l3)"
        "findPageMap2 l3 (pdpti ?i) S = Some (Some l2)" "node S (pd_path (?n0 + k)) = Some l2" using find_dirs v by metis
      obtain t where t: "node S (pt_path (?n0 + k)) = Some t" using table nodes_Some by blast
      then obtain e2 where e2: "entry l2 (pdi ?i) S = Some e2" "links 2 e2" "target S e2 = t"
        using f(3) paths_vpn(4) [of ?i] unfolding pt_path_def node_snoc v by (auto simp: at_def bind_Some_iff split: if_splits)
      obtain e0 S1 where c: "entry t (pti ?i) S = Some e0" "set_entry t (pti ?i) (setPresent False e0) S = Some S1"
        "pt_inv S1 l" "same_env S S1" "mAllocator S1 = mAllocator S" "nodes S1 = nodes S"
        "\<forall>m < 2 ^ 36. view S1 m = (if m = ?n0 + k then None else view S m)"
        using clear_pte [OF inv n(2) t] paths_vpn(3) [of ?i] v by auto
      have nx: "?i + kPageSize = rfront r + of_nat (Suc k) * kPageSize" by (simp add: algebra_simps)
      have step: "unmap_loop ?i (rback r) S = unmap_loop (rfront r + of_nat (Suc k) * kPageSize) (rback r) S1"
        using lt f(1,2) e2 c(1,2) unfolding nx [symmetric]
        by (subst unmap_loop.simps) (simp add: links_def is_bits findPageTable_def target_def)
      have "range_dirs S1 (?n0 + Suc k) (?n0 + N)"
        using less.prems(2) c(6,7) al(2) by (auto simp: range_dirs_def)
      then obtain S' where S': "unmap_loop (rfront r + of_nat (Suc k) * kPageSize) (rback r) S1 = Some S'" "pt_inv S' l" "same_env S1 S'"
        "mAllocator S' = mAllocator S1" "nodes S' = nodes S1" "unmapped S1 S' (?n0 + Suc k) (?n0 + N)"
        using less.hyps [of "Suc k" S1, OF diff_less_mono2 [OF lessI True] c(3)] True by (auto simp del: of_nat_Suc)
      have "unmapped S S' (?n0 + k) (?n0 + N)" using unmapped_pte [OF ok n(1) al(2) table c(7)] S'(6) by simp
      then show ?thesis using step S' c(5,6) same_env_trans [OF c(4) S'(3)] by simp
    next
      case large
      have "pd_path (vpn ?i) \<in> nodes S" using view_large_page(5) [OF ok large n(2)] by (simp add: v)
      then obtain l3 l2 where f: "findPageMap3 (pml4 S) (pml4i ?i) S = Some (Some l3)"
        "findPageMap2 l3 (pdpti ?i) S = Some (Some l2)" "node S (pd_path (?n0 + k)) = Some l2" using find_dirs v by metis
      obtain S1 where c: "entry l2 (pdi ?i) S = Some e" "present e" "is2m e" "reclaim2m l2 (pdi ?i) S = Some S1"
        "pt_inv S1 l" "same_env S S1" "mAllocator S1 = mAllocator S" "nodes S1 = nodes S"
        "\<forall>m < 2 ^ 36. view S1 m = (if m div 512 = (?n0 + k) div 512 then None else view S m)"
        using clear_pde [OF inv n(2) f(3) large] paths_vpn(4) [of ?i] v by auto
      define k' where "k' = k + (512 - (?n0 + k) mod 512)"
      have k': "k < k'" "k' \<le> N + 512" using True by (simp_all add: k'_def)
      have k'3: "?n0 + k' = ((?n0 + k) div 512 + 1) * 512"
        using next_block [of "?n0 + k"] by (simp add: k'_def add.assoc)
      have "4096 dvd unat ?i" using al(1) ix(1) by simp
      then have nx: "nextMultiple ?i kLargePageSize = rfront r + of_nat k' * kPageSize"
        using nextMultiple_page [of ?i] ix(1) al(3) True v by (simp add: k'_def algebra_simps)
      have step: "unmap_loop ?i (rback r) S = unmap_loop (rfront r + of_nat k' * kPageSize) (rback r) S1"
        using lt f(1,2) c(1-4) by (subst unmap_loop.simps) (simp add: nx)
      have "range_dirs S1 (?n0 + k') (?n0 + N)"
        unfolding range_dirs_def
      proof (intro allI impI)
        fix m assume m: "?n0 + k' \<le> m \<and> m < ?n0 + N"
        then have "(?n0 + k') div 512 \<le> m div 512" by (intro div_le_mono) simp
        then have "m div 512 \<noteq> (?n0 + k) div 512" unfolding k'3 by simp
        moreover have "pt_path m \<in> nodes S \<or> (\<exists>e. view S m = Some (eLarge, e))"
          using less.prems(2) m k'(1) by (auto simp: range_dirs_def)
        ultimately show "pt_path m \<in> nodes S1 \<or> (\<exists>e. view S1 m = Some (eLarge, e))" using c(8,9) m al(2) by auto
      qed
      then obtain S' where S': "unmap_loop (rfront r + of_nat k' * kPageSize) (rback r) S1 = Some S'" "pt_inv S' l" "same_env S1 S'"
        "mAllocator S' = mAllocator S1" "nodes S' = nodes S1" "unmapped S1 S' (?n0 + k') (?n0 + N)"
        using less.hyps [of k' S1, OF diff_less_mono2 [OF k'(1) True] c(5)] k'(2) by auto
      have "unmapped S S' (?n0 + k) (?n0 + N)" using unmapped_pde [OF ok n(1) al(2) large c(9)] S'(6) unfolding k'3 by blast
      then show ?thesis using step S' c(7,8) same_env_trans [OF c(6) S'(3)] by simp
    qed
  qed
qed

section \<open>Unmapping a range\<close>

lemma backing_cong:
  assumes "tree_ok S" "tree_ok S'" "same_env S S'" "view S' (vpn v) = view S (vpn v)"
  shows "getBackingAddressUnlocked v S' = getBackingAddressUnlocked v S"
  using assms phys_page_cong [of S' "vpn v" S] by (simp add: getBackingAddress_view same_env_def)

lemma backing_none: "tree_ok S \<Longrightarrow> view S (vpn v) = None \<Longrightarrow> getBackingAddressUnlocked v S = Some invalid_address"
  by (simp add: getBackingAddress_view phys_def)

lemma mod_large:
  assumes "4096 dvd unat v"
  shows "v mod kLargePageSize = 0 \<longleftrightarrow> vpn v mod 512 = 0"
proof -
  obtain y where y: "unat v = 4096 * y" using assms by blast
  have "unat (v mod kLargePageSize) = 4096 * (y mod 512)"
    using mod_mult_mult1 [of "4096 :: nat" y 512] by (simp add: unat_mod y kLargePageSize_def)
  moreover have "vpn v mod 512 = y mod 512" by (simp add: vpn_def y mod_mod_cancel)
  ultimately show ?thesis by (simp add: word_unat_eq_iff)
qed

lemma alignedOut_pages:
  assumes r: "pages_of r N"
  shows "alignedOut r kPageSize = r"
proof -
  have K: "unat kPageSize = 4096" by (simp add: kPageSize_def)
  have b: "unat (rback r) = unat (rfront r) + N * 4096" using pages_of_index(1) [OF r, of N] r by (simp add: pages_of_def)
  obtain y where y: "unat (rfront r) = 4096 * y" using r by (auto simp: pages_of_def)
  have "rounddown (rfront r) kPageSize = rfront r" by (simp add: word_unat_eq_iff unat_rounddown K y)
  moreover have "roundup (rback r) kPageSize = rback r"
  proof -
    have b': "unat (rback r) = 4096 * (y + N)" using b y by simp
    have "unat (roundup (rback r) kPageSize) = (unat (rback r) + unat kPageSize - 1) div unat kPageSize * unat kPageSize"
      using r b by (intro unat_roundup) (simp_all add: K pages_of_def)
    also have "\<dots> = 4096 * (y + N)"
    proof -
      have "4096 * (y + N) + 4096 - 1 = 4095 + (y + N) * 4096" by simp
      then show ?thesis unfolding b' K by (simp only: div_mult_self1) simp
    qed
    finally show ?thesis using b' by (simp add: word_unat_eq_iff)
  qed
  ultimately show ?thesis by (simp add: alignedOut_def Let_def)
qed

lemma walk_large:
  assumes "tree_ok S"
  shows "do { w \<leftarrow> walkUnlocked v S; Some (pageSize w = eLarge) } = Some (\<exists>e. view S (vpn v) = Some (eLarge, e))"
proof -
  obtain w where w: "walkUnlocked v S = Some w" and sz: "pageSize w = (case view S (vpn v) of None \<Rightarrow> PageSize_eNone | Some (sz, e) \<Rightarrow> sz)"
    using getPageSize_view [OF assms, of v] by (auto simp: getPageSize_def bind_Some_iff)
  have "sz = eRegular \<or> sz = eLarge" if "view S (vpn v) = Some (sz, e)" for sz e
    using that by (auto simp: view_def split: option.splits if_splits)
  then show ?thesis using w sz by (auto split: option.splits prod.splits)
qed

text \<open>The range is cut out of no 2 MiB page: its two ends are 2 MiB boundaries or lie under page tables.\<close>

definition clean_ends :: "PageTables \<Rightarrow> nat \<Rightarrow> nat \<Rightarrow> bool" where
  "clean_ends S n0 N \<longleftrightarrow> (n0 mod 512 = 0 \<or> pt_path n0 \<in> nodes S)
     \<and> ((n0 + N) mod 512 = 0 \<or> pt_path (n0 + N - 1) \<in> nodes S)"

lemma last_block: "0 < N \<Longrightarrow> (n0 + N) mod 512 \<noteq> 0 \<Longrightarrow> (n0 + N - 1) div 512 = (n0 + N) div (512 :: nat)"
proof -
  assume N: "0 < N" "(n0 + N) mod 512 \<noteq> 0"
  have "n0 + N - 1 = (n0 + N) div 512 * 512 + ((n0 + N) mod 512 - 1)" using N div_mult_mod_eq [of "n0 + N" 512] by linarith
  moreover have "(n0 + N) mod 512 - 1 < 512" using mod_less_divisor [of 512 "n0 + N"] by simp
  ultimately show ?thesis by (simp only: div_mult_self3) simp
qed

lemma no_early_tables:
  assumes r: "pages_of r N" and N: "0 < N" and ok: "tree_ok S" and ce: "clean_ends S (vpn (rfront r)) N"
  shows "countRequiredPageTables r S = Some 0"
proof -
  let ?n0 = "vpn (rfront r)"
  have al: "4096 dvd unat (rfront r)" "rback r = rfront r + of_nat N * kPageSize" "?n0 + N \<le> 2 ^ 36"
    using r by (simp_all add: pages_of_def)
  have b: "unat (rback r) = unat (rfront r) + N * 4096" using pages_of_index(1) [OF r, of N] al(2) by simp
  have bal: "4096 dvd unat (rback r)" using al(1) b by simp
  have vb: "vpn (rback r) = (?n0 + N) mod 2 ^ 36" using vpn_add [OF al(1), of N] al(2) by simp
  then have vb5: "vpn (rback r) mod 512 = (?n0 + N) mod 512" by (simp add: mod_mod_cancel)
  have front: "\<nexists>e. view S ?n0 = Some (eLarge, e)" if "?n0 mod 512 \<noteq> 0"
    using view_table [OF ok, of ?n0] ce that by (auto simp: clean_ends_def)
  have last: "\<nexists>e. view S x = Some (eLarge, e)" if x: "(?n0 + N) mod 512 \<noteq> 0" "x div 512 = (?n0 + N) div 512" "x < 2 ^ 36" for x
  proof -
    have "pt_path (?n0 + N - 1) \<in> nodes S" using ce x(1) by (simp add: clean_ends_def)
    moreover have "(?n0 + N - 1) div 512 = x div 512" using last_block [OF N x(1)] x(2) by simp
    then have "pt_path (?n0 + N - 1) = pt_path x" using same_large_page [of "?n0 + N - 1" x] x(3) al(3) N by simp
    ultimately show ?thesis using view_table [OF ok, of x] by auto
  qed
  have bk: "\<nexists>e. view S (vpn (rback r)) = Some (eLarge, e)" if "(?n0 + N) mod 512 \<noteq> 0"
  proof -
    have "?n0 + N \<noteq> 2 ^ 36" using that by (intro notI) simp
    then have "vpn (rback r) = ?n0 + N" using vb al(3) by simp
    then show ?thesis using last [OF that] vpn_less [of "rback r"] by simp
  qed
  have same: "\<nexists>e. view S ?n0 = Some (eLarge, e)"
    if rd: "rounddown (rfront r) kLargePageSize = rounddown (rback r) kLargePageSize" "\<not> (?n0 mod 512 = 0 \<and> (?n0 + N) mod 512 = 0)"
  proof (cases "?n0 mod 512 = 0")
    case True
    obtain y where y: "unat (rfront r) = 4096 * y" using al(1) by blast
    have L: "unat kLargePageSize = 4096 * 512" by (simp add: kLargePageSize_def)
    have b': "unat (rback r) = 4096 * (y + N)" using b y by simp
    have "unat (rounddown (rfront r) kLargePageSize) = unat (rounddown (rback r) kLargePageSize)" using rd(1) by (rule arg_cong)
    then have "4096 * y div (4096 * 512) * (4096 * 512) = 4096 * (y + N) div (4096 * 512) * (4096 * 512)"
      unfolding unat_rounddown L y b' .
    then have "y div 512 * (4096 * 512) = (y + N) div 512 * (4096 * 512)" by (simp only: div_mult_mult1_if) simp
    then have "y div 512 = (y + N) div 512" by (simp only: mult_cancel2) simp
    moreover define c where "c = 2 ^ 27 * (y div 2 ^ 36)"
    have yc: "y = ?n0 + 512 * c" unfolding vpn_def y c_def by simp
    have "y div 512 = ?n0 div 512 + c" unfolding yc by simp
    moreover have "(y + N) div 512 = (?n0 + N) div 512 + c"
    proof -
      have "y + N = (?n0 + N) + 512 * c" using yc by simp
      then show ?thesis by simp
    qed
    ultimately have "?n0 div 512 = (?n0 + N) div 512" by simp
    then show ?thesis using last [of ?n0] rd(2) True vpn_less [of "rfront r"] by simp
  qed (use front in blast)
  note e = mod_large [OF al(1)] mod_large [OF bal, unfolded vb5]
  show ?thesis using front bk same
    by (auto simp: countRequiredPageTables_def Let_def e walk_large [OF ok])
qed


lemma goes_clean:
  assumes ok: "tree_ok S" and ce: "clean_ends S n0 N" and N: "0 < N" "n0 + N \<le> 2 ^ 36" and x: "x < 2 ^ 36"
  shows "goes S n0 (n0 + N) x \<longleftrightarrow> n0 \<le> x \<and> x < n0 + N"
proof -
  have False if g: "view S x = Some (eLarge, e)" "n0 \<le> m" "m < n0 + N" "m div 512 = x div 512" and out: "x < n0 \<or> n0 + N \<le> x" for e m
    using out
  proof
    assume lt: "x < n0"
    have "n0 div 512 \<le> m div 512" "x div 512 \<le> n0 div 512" using g(2) lt by (intro div_le_mono; simp)+
    then have b: "n0 div 512 = x div 512" using g(4) by simp
    have "n0 mod 512 \<noteq> 0" using lt div_mult_mod_eq [of n0 512] div_times_less_eq_dividend [of x 512] b by auto
    then have "pt_path n0 \<in> nodes S" using ce by (simp add: clean_ends_def)
    moreover have "pt_path n0 = pt_path x" using same_large_page [of n0 x] N x b by simp
    ultimately show False using view_table [OF ok, of x e] g(1) by simp
  next
    assume ge: "n0 + N \<le> x"
    have "m div 512 \<le> (n0 + N - 1) div 512" "(n0 + N - 1) div 512 \<le> (n0 + N) div 512" "(n0 + N) div 512 \<le> x div 512"
      using g(3) ge by (intro div_le_mono; simp)+
    then have b: "(n0 + N - 1) div 512 = x div 512" "(n0 + N) div 512 = x div 512" using g(4) by simp_all
    have "(n0 + N) mod 512 \<noteq> 0"
      using N(1) div_mult_mod_eq [of "n0 + N" 512] div_times_less_eq_dividend [of "n0 + N - 1" 512] b by auto
    then have "pt_path (n0 + N - 1) \<in> nodes S" using ce by (simp add: clean_ends_def)
    moreover have "pt_path (n0 + N - 1) = pt_path x" using same_large_page [of "n0 + N - 1" x] N x b by simp
    ultimately show False using view_table [OF ok, of x e] g(1) by simp
  qed
  then show ?thesis unfolding goes_def by (meson not_le)
qed

lemma unmap_spec:
  assumes inv: "pt_inv S l" and r: "pages_of r N" "0 < N" and dirs: "range_dirs S (vpn (rfront r)) (vpn (rfront r) + N)"
    and ce: "clean_ends S (vpn (rfront r)) N"
  shows "\<exists>S'. unmap r S = Some (OsStatusSuccess, S') \<and> pt_inv S' l \<and> same_env S S' \<and> mAllocator S' = mAllocator S \<and> nodes S' = nodes S
    \<and> (\<forall>x < 2 ^ 36. view S' x = (if vpn (rfront r) \<le> x \<and> x < vpn (rfront r) + N then None else view S x))"
proof -
  let ?n0 = "vpn (rfront r)"
  have ok: "tree_ok S" by (rule pt_invD(2) [OF inv])
  have N: "?n0 + N \<le> 2 ^ 36" using r(1) by (simp add: pages_of_def)
  obtain S' where S': "unmap_loop (rfront r) (rback r) S = Some S'" "pt_inv S' l" "same_env S S'" "mAllocator S' = mAllocator S"
    "nodes S' = nodes S" "unmapped S S' ?n0 (?n0 + N)"
    using unmap_loop_spec [OF r(1) inv, of 0] dirs by auto
  have "unmap r S = Some (OsStatusSuccess, S')"
    using S'(1) no_early_tables [OF r ok ce] alignedOut_pages [OF r(1)]
    by (simp add: unmap_def earlyUnmap_def unmapUnlocked_def Let_def)
  moreover have "view S' x = (if ?n0 \<le> x \<and> x < ?n0 + N then None else view S x)" if "x < 2 ^ 36" for x
    using S'(6) that goes_clean [OF ok ce r(2) N that] by (simp add: unmapped_def)
  ultimately show ?thesis using S' by blast
qed

text \<open>The example: the 512 pages from \<open>0x40000000\<close> on, mapped to \<open>0x80000000\<close>.\<close>

definition example_block :: AddressMapping where
  "example_block = \<lparr>am_vaddr = 0x40000000, am_paddr = 0x80000000, am_size = 0x200000\<rparr>"

lemma example_block_max: "MaxPagesForMapping (virtualRange example_block) = 3"
  by code_simp

lemma example_block_reserve:
  "case allocateList (MaxPagesForMapping (virtualRange example_block)) (mAllocator example_pt) of Some (Some l, A) \<Rightarrow> True | _ \<Rightarrow> False"
  by code_simp

lemma example_block_ok: "mapping_ok example_pm example_block 512"
  unfolding mapping_ok_def page_aligned_def
  by (auto simp: example_block_def vpn_def kPageSize_def unat_word_ariths unat_of_nat intro!: example_frame dvd_mod)

lemma example_block_mapped:
  obtains S where "pt_map example_block 7 eWriteBack example_pt = Some (OsStatusSuccess, S)" "pt_inv S []"
    "range_mapped example_pt S example_block 7 0 512" "supply_ok S"
proof -
  obtain l A where "allocateList (MaxPagesForMapping (virtualRange example_block)) (mAllocator example_pt) = Some (Some l, A)"
    using example_block_reserve by (auto split: option.splits prod.splits)
  moreover have "unat (MaxPagesForMapping (virtualRange example_block)) * 4096 < 2 ^ 64" by (simp add: example_block_max)
  moreover have "isPageMappingRequestInputValid example_block 7" by code_simp
  moreover have "pt_path n \<notin> nodes example_pt" for n by (simp add: example_ok(5) pt_path_def)
  ultimately show ?thesis
    using map_spec [OF example_ok(1,2), of example_block 512 7 l A eWriteBack] example_block_ok that
    by (auto simp: example_ok)
qed

lemma view_range_dirs:
  assumes "tree_ok S" and "\<And>n. lo \<le> n \<Longrightarrow> n < hi \<Longrightarrow> view S n \<noteq> None"
  shows "range_dirs S lo hi"
  unfolding range_dirs_def
proof (intro allI impI)
  fix n assume "lo \<le> n \<and> n < hi"
  then have "view S n \<noteq> None" using assms(2) by simp
  then show "pt_path n \<in> nodes S \<or> (\<exists>e. view S n = Some (eLarge, e))" by (cases rule: view_cases [OF assms(1), of n]) auto
qed

text \<open>
  C24. Unmapping a range of pages that lies under page directories, and that is cut out of no 2 MiB
  page, succeeds without taking memory: no address of the range translates any more, every
  other address keeps its translation, and the invariant holds.
\<close>

theorem unmap_correct:
  assumes "pt_inv S l" and "pages_of r N" "0 < N" and "range_dirs S (vpn (rfront r)) (vpn (rfront r) + N)"
    and "clean_ends S (vpn (rfront r)) N"
  shows "\<exists>S'. unmap r S = Some (OsStatusSuccess, S') \<and> pt_inv S' l \<and> mAllocator S' = mAllocator S
    \<and> (\<forall>v. getBackingAddressUnlocked v S' =
         (if vpn (rfront r) \<le> vpn v \<and> vpn v < vpn (rfront r) + N then Some invalid_address
          else getBackingAddressUnlocked v S))"
proof -
  obtain S' where S': "unmap r S = Some (OsStatusSuccess, S')" "pt_inv S' l" "same_env S S'" "mAllocator S' = mAllocator S"
    "\<forall>x < 2 ^ 36. view S' x = (if vpn (rfront r) \<le> x \<and> x < vpn (rfront r) + N then None else view S x)"
    using unmap_spec [OF assms] by blast
  have "getBackingAddressUnlocked v S' = (if vpn (rfront r) \<le> vpn v \<and> vpn v < vpn (rfront r) + N then Some invalid_address
          else getBackingAddressUnlocked v S)" for v
    using S'(5) [rule_format, OF vpn_less [of v]] backing_none [OF pt_invD(2) [OF S'(2)], of v]
      backing_cong [OF pt_invD(2) [OF assms(1)] pt_invD(2) [OF S'(2)] S'(3), of v]
    by (cases "vpn (rfront r) \<le> vpn v \<and> vpn v < vpn (rfront r) + N") auto
  then show ?thesis using S' by blast
qed

theorem unmap_correct_witness:
  "\<exists>S S'. pt_map example_block 7 eWriteBack example_pt = Some (OsStatusSuccess, S)
     \<and> unmap (virtualRange example_block) S = Some (OsStatusSuccess, S')
     \<and> getBackingAddressUnlocked 0x40001234 S' = Some invalid_address"
proof -
  obtain S where S: "pt_map example_block 7 eWriteBack example_pt = Some (OsStatusSuccess, S)" "pt_inv S []"
    "range_mapped example_pt S example_block 7 0 512" by (rule example_block_mapped)
  let ?r = "virtualRange example_block"
  have n0: "vpn (rfront ?r) = 2 ^ 18" "vpn (am_vaddr example_block) = 2 ^ 18" by (simp_all add: virtualRange_def example_block_def vpn_def)
  have r: "pages_of ?r 512" by (simp add: pages_of_def virtualRange_def example_block_def vpn_def kPageSize_def)
  have dirs: "range_dirs S (vpn (rfront ?r)) (vpn (rfront ?r) + 512)"
  proof (rule view_range_dirs [OF pt_invD(2) [OF S(2)]])
    fix n assume n: "vpn (rfront ?r) \<le> n" "n < vpn (rfront ?r) + 512"
    then have "n = 2 ^ 18 + (n - 2 ^ 18)" "n - 2 ^ 18 < 512" unfolding n0 by simp_all
    then show "view S n \<noteq> None" using S(3) unfolding range_mapped_def mapped_def n0 by (metis option.distinct(1) zero_le)
  qed
  have ce: "clean_ends S (vpn (rfront ?r)) 512" unfolding n0 by (simp add: clean_ends_def)
  obtain S' where S': "unmap ?r S = Some (OsStatusSuccess, S')"
    "\<forall>v. getBackingAddressUnlocked v S' = (if vpn (rfront ?r) \<le> vpn v \<and> vpn v < vpn (rfront ?r) + 512 then Some invalid_address
          else getBackingAddressUnlocked v S)"
    using unmap_correct [OF S(2) r _ dirs ce] by auto
  have "vpn 0x40001234 = 2 ^ 18 + 1" by (simp add: vpn_def)
  then have "getBackingAddressUnlocked 0x40001234 S' = Some invalid_address" using S'(2) unfolding n0 by simp
  then show ?thesis using S(1) S'(1) by blast
qed

text \<open>
  C25. Compaction never panics. It gives back exactly the tables that it counts, keeps every
  translation and the invariant, and no table without a present entry but the root is left.
\<close>

theorem compact_correct:
  assumes "pt_inv S l"
  shows "\<exists>n S'. compactUnlocked S = Some (n, S') \<and> pt_inv S' l \<and> nodes S' \<subseteq> nodes S
    \<and> n = of_nat (card (nodes S - nodes S')) \<and> (\<forall>p \<in> nodes S'. p \<noteq> [] \<longrightarrow> \<not> no_entries S' p)
    \<and> (\<forall>v. getBackingAddressUnlocked v S' = getBackingAddressUnlocked v S)"
proof -
  obtain n S' where 1: "compactUnlocked S = Some (n, S')" and c: "compacted S S' l [] {..<512} n"
    using compactUnlocked_spec [OF assms] by blast
  note D = compactedD [OF c]
  have "getBackingAddressUnlocked v S' = getBackingAddressUnlocked v S" for v
    by (rule backing_cong [OF pt_invD(2) [OF assms] pt_invD(2) [OF D(1)] D(2)]) (simp add: D(3))
  moreover have "\<not> no_entries S' p" if p: "p \<in> nodes S'" "p \<noteq> []" for p
  proof -
    obtain t where "node S' p = Some t" using p(1) nodes_Some by blast
    then have "set p \<subseteq> {..<512}" by (rule node_indices [OF pt_invD(2) [OF D(1)]])
    then show ?thesis using D(8) [OF p(1), of "hd p"] p(2) by (cases p) auto
  qed
  ultimately show ?thesis using 1 D(1,4,5) by blast
qed


theorem compact_correct_witness:
  "\<exists>S n S'. pt_map example_block 7 eWriteBack example_pt = Some (OsStatusSuccess, S) \<and> compactUnlocked S = Some (n, S')
     \<and> getBackingAddressUnlocked 0x40001234 S' = Some 0x80001234"
proof -
  obtain S where S: "pt_map example_block 7 eWriteBack example_pt = Some (OsStatusSuccess, S)" "pt_inv S []"
    "range_mapped example_pt S example_block 7 0 512" by (rule example_block_mapped)
  have "translates S example_block"
    using range_mapped_translates [OF _ pt_invD(2) [OF S(2)] S(3)] example_block_ok by (simp add: mapping_ok_def)
  then have "getBackingAddressUnlocked (am_vaddr example_block + of_nat 0x1234) S = Some (am_paddr example_block + of_nat 0x1234)"
    unfolding translates_def by (rule allE [of _ "0x1234"]) (simp add: example_block_def)
  then have "getBackingAddressUnlocked 0x40001234 S = Some 0x80001234" by (simp add: example_block_def)
  then show ?thesis using S(1) compact_correct [OF S(2)] by fastforce
qed

end
