(* ===== verification/PageSpec.thy ===== *)
theory PageSpec
  imports PageUnmap
begin

text \<open>
  What the operations on single pages promise, in terms of translations, and what creating the
  tables and giving back a table do.
\<close>

section \<open>A reserve for the example\<close>

lemma example_reserved:
  obtains l S where "pt_inv S l" "length l = 4" "mPageManager S = example_pm" "nodes S = {[]}" "\<And>n. view S n = None"
    "mAllocator S = snd (the (allocateList 4 (mAllocator example_pt)))"
proof -
  obtain l A where al: "allocateList (MaxPagesForMapping (virtualRange example_pages)) (mAllocator example_pt) = Some (Some l, A)"
    using example_reserve by (auto split: option.splits prod.splits)
  let ?S = "example_pt\<lparr>mAllocator := A\<rparr>"
  note T = take_reserve [OF example_ok(1,2), of 4 l A]
  have al4: "allocateList 4 (mAllocator example_pt) = Some (Some l, A)" using al by (simp add: example_max)
  have "pt_inv ?S l" "length l = 4" "node ?S = node example_pt" "at ?S = at example_pt" using T al4 by simp_all
  moreover from this(3) have "nodes ?S = {[]}" using example_ok(5) by (simp add: nodes_def)
  moreover have "view ?S n = None" for n using view_same_at [of ?S example_pt] calculation(4) example_ok(3) by simp
  ultimately show ?thesis using that [of ?S l] example_ok(4) al4 by simp
qed

lemma missing_le: "finite Q \<Longrightarrow> missing S Q \<le> card Q"
  unfolding missing_def by (rule card_mono) auto

lemma card_tables: "card (tables n) \<le> 3" "card (dirs n) \<le> 2"
  by (simp_all add: tables_def dirs_def card_insert_if)

section \<open>Single pages\<close>

lemma backing_phys: "tree_ok S \<Longrightarrow> phys S (vpn v) = Some a \<Longrightarrow> getBackingAddressUnlocked v S = Some (a + (v AND 0xFFF))"
  by (simp add: getBackingAddress_view)

text \<open>
  Mapping a 4 KiB page where no 2 MiB page is mapped takes exactly the missing tables from the
  list, makes the page translate to the frame asked for, and changes no other translation.
\<close>

lemma map4k_correct:
  assumes "pt_inv S l" and "missing S (tables (vpn v)) \<le> length l" and "frame (mPageManager S) a"
    and "\<And>e. view S (vpn v) \<noteq> Some (eLarge, e)"
  shows "\<exists>S'. map4k a v flags type l S = Some (drop (missing S (tables (vpn v))) l, S')
    \<and> pt_inv S' (drop (missing S (tables (vpn v))) l) \<and> mAllocator S' = mAllocator S
    \<and> (\<forall>w. getBackingAddressUnlocked w S' = (if vpn w = vpn v then Some (a + (w AND 0xFFF)) else getBackingAddressUnlocked w S))"
proof -
  let ?l = "drop (missing S (tables (vpn v))) l"
  obtain e S' where S': "map4k a v flags type l S = Some (?l, S')" "pt_inv S' ?l" "same_env S S'" "mAllocator S' = mAllocator S"
    "maps_to (mPageManager S) flags a e" "\<forall>m < 2 ^ 36. view S' m = (if m = vpn v then Some (eRegular, e) else view S m)"
    using map4k_spec [OF assms(1-3), of flags type] assms(4) by blast
  note ok = pt_invD(2) [OF assms(1)] pt_invD(2) [OF S'(2)]
  have "getBackingAddressUnlocked w S' = (if vpn w = vpn v then Some (a + (w AND 0xFFF)) else getBackingAddressUnlocked w S)" for w
  proof (cases "vpn w = vpn v")
    case True
    then have "phys S' (vpn w) = Some a" using S'(3,5,6) vpn_less [of w] by (simp add: phys_def maps_to_def same_env_def)
    then show ?thesis using True backing_phys [OF ok(2)] by simp
  next
    case False
    then show ?thesis using backing_cong [OF ok S'(3), of w] S'(6) vpn_less [of w] by simp
  qed
  then show ?thesis using S'(1,2,4) by blast
qed

text \<open>
  Mapping a 2 MiB page makes its 512 pages translate to the 2 MiB frame, whatever was mapped there
  before (a page table that is replaced is given back), and changes no other translation.
\<close>

lemma map2m_correct:
  assumes "pt_inv S l" and "missing S (dirs (vpn v)) \<le> length l" and "frame (mPageManager S) a"
  shows "\<exists>S'. map2m a v flags type l S = Some (drop (missing S (dirs (vpn v))) l, S')
    \<and> pt_inv S' (drop (missing S (dirs (vpn v))) l)
    \<and> (\<forall>w. getBackingAddressUnlocked w S' =
         (if vpn w div 512 = vpn v div 512 then Some (a + of_nat (vpn w mod 512) * kPageSize + (w AND 0xFFF))
          else getBackingAddressUnlocked w S))"
proof -
  let ?l = "drop (missing S (dirs (vpn v))) l"
  obtain e S' where S': "map2m a v flags type l S = Some (?l, S')" "pt_inv S' ?l" "same_env S S'"
    "maps_to (mPageManager S) flags a e"
    "\<forall>m < 2 ^ 36. view S' m = (if m div 512 = vpn v div 512 then Some (eLarge, e) else view S m)"
    using map2m_spec [OF assms, of flags type] by blast
  note ok = pt_invD(2) [OF assms(1)] pt_invD(2) [OF S'(2)]
  have "getBackingAddressUnlocked w S' = (if vpn w div 512 = vpn v div 512
      then Some (a + of_nat (vpn w mod 512) * kPageSize + (w AND 0xFFF)) else getBackingAddressUnlocked w S)" for w
  proof (cases "vpn w div 512 = vpn v div 512")
    case True
    then have "phys S' (vpn w) = Some (a + of_nat (vpn w mod 512) * kPageSize)"
      using S'(3,4,5) vpn_less [of w] by (simp add: phys_def maps_to_def same_env_def)
    then show ?thesis using True backing_phys [OF ok(2)] by simp
  next
    case False
    then show ?thesis using backing_cong [OF ok S'(3), of w] S'(5) vpn_less [of w] by simp
  qed
  then show ?thesis using S'(1,2) by blast
qed

text \<open>
  C27. Mapping a 4 KiB page into the middle of a 2 MiB page replaces the 2 MiB page by a page table:
  the page translates to the new frame, and all other pages, those of the 2 MiB page
  included, translate as before.
\<close>

theorem map4k_splits_large:
  assumes "pt_inv S (x # l)" and "view S (vpn v) = Some (eLarge, e)" and "large_frames (mPageManager S) e"
    and "4096 dvd unat v" "unat v + 2 ^ 21 < 2 ^ 64" and "0 < vpn v mod 512" "vpn v mod 512 < 511"
    and "frame (mPageManager S) a"
  shows "\<exists>S'. map4k a v flags type (x # l) S = Some (l, S') \<and> pt_inv S' l \<and> mAllocator S' = mAllocator S
    \<and> (\<forall>w. getBackingAddressUnlocked w S' = (if vpn w = vpn v then Some (a + (w AND 0xFFF)) else getBackingAddressUnlocked w S))"
proof -
  obtain S' where S': "map4k a v flags type (x # l) S = Some (l, S')" "pt_inv S' l" "mAllocator S' = mAllocator S"
    "\<forall>m < 2 ^ 36. phys S' m = (if m = vpn v then Some a else phys S m)"
    using map4k_inside_large [OF assms, of flags type] by blast
  have "getBackingAddressUnlocked w S' = (if vpn w = vpn v then Some (a + (w AND 0xFFF)) else getBackingAddressUnlocked w S)" for w
    using S'(4) vpn_less [of w] by (simp add: getBackingAddress_view pt_invD(2) [OF S'(2)] pt_invD(2) [OF assms(1)])
  then show ?thesis using S'(1-3) by blast
qed

text \<open>The example with the 2 MiB page at \<open>0x40000000\<close> mapped.\<close>

lemma example_large:
  obtains x l S e where "pt_inv S (x # l)" "view S (2 ^ 18) = Some (eLarge, e)" "view S (2 ^ 18 + 1) = Some (eLarge, e)"
    "large_frames (mPageManager S) e" "mPageManager S = example_pm"
    "mAllocator S = snd (the (allocateList 4 (mAllocator example_pt)))"
proof -
  obtain l S where S: "pt_inv S l" "length l = 4" "mPageManager S = example_pm" "nodes S = {[]}"
    "mAllocator S = snd (the (allocateList 4 (mAllocator example_pt)))" using example_reserved by metis
  have n: "vpn 0x40000000 = 2 ^ 18" by (simp add: vpn_def)
  have ms: "missing S (dirs (vpn 0x40000000)) \<le> 2"
    using missing_le [of "dirs (vpn 0x40000000)" S] card_tables(2) [of "vpn 0x40000000"] by simp
  have "frame (mPageManager S) 0x80000000" unfolding S(3) by (rule example_frame) simp_all
  moreover have "pt_path (vpn 0x40000000) \<notin> nodes S" by (simp add: S(4) pt_path_def)
  ultimately obtain e S' where S': "pt_inv S' (drop (missing S (dirs (vpn 0x40000000))) l)" "same_env S S'"
    "maps_to (mPageManager S) 7 0x80000000 e"
    "\<forall>m < 2 ^ 36. view S' m = (if m div 512 = 2 ^ 18 div 512 then Some (eLarge, e) else view S m)"
    "mAllocator S' = mAllocator S"
    using map2m_spec [OF S(1), of "0x40000000" "0x80000000" 7 eWriteBack] ms S(2) unfolding n by auto
  obtain x k where "drop (missing S (dirs (vpn 0x40000000))) l = x # k"
    using ms S(2) by (cases "drop (missing S (dirs (vpn 0x40000000))) l") auto
  moreover have "large_frames example_pm e"
    using S'(3) unfolding large_frames_def maps_to_def S(3)
    by (auto simp: kPageSize_def unat_word_ariths unat_of_nat intro!: example_frame dvd_mod)
  ultimately show ?thesis using that [of S' x k e] S' S(3,5) by (simp add: same_env_def)
qed

theorem map4k_splits_large_witness:
  "\<exists>l S l' S'. getPageSize 0x40001000 S = Some eLarge \<and> map4k 0x9000000 0x40001000 7 eWriteBack l S = Some (l', S')
     \<and> getBackingAddressUnlocked 0x40001234 S' = Some 0x9000234"
proof -
  obtain x l S e where S: "pt_inv S (x # l)" "view S (2 ^ 18 + 1) = Some (eLarge, e)" "large_frames (mPageManager S) e"
    "mPageManager S = example_pm" using example_large by metis
  have n: "vpn 0x40001000 = 2 ^ 18 + 1" "vpn 0x40001234 = 2 ^ 18 + 1" by (simp_all add: vpn_def)
  have "frame (mPageManager S) 0x9000000" unfolding S(4) by (rule example_frame) simp_all
  then obtain S' where "map4k 0x9000000 0x40001000 7 eWriteBack (x # l) S = Some (l, S')"
    "\<forall>w. getBackingAddressUnlocked w S' = (if vpn w = 2 ^ 18 + 1 then Some (0x9000000 + (w AND 0xFFF)) else getBackingAddressUnlocked w S)"
    using map4k_splits_large [OF S(1), of "0x40001000" e "0x9000000" 7 eWriteBack] S(2,3) unfolding n by auto
  moreover have "getPageSize 0x40001000 S = Some eLarge"
    unfolding getPageSize_view [OF pt_invD(2) [OF S(1)]] n using S(2) by simp
  ultimately show ?thesis using n(2) by fastforce
qed

text \<open>
  C28. Mapping a 4 KiB page at either end of a mapped 2 MiB page always ends in a failed check, since the part of
  the page on one side of it is empty.
\<close>

theorem map4k_large_edge_panics:
  assumes "pt_inv S l" and "view S (vpn v) = Some (eLarge, e)" and "4096 dvd unat v" "unat v + 2 ^ 21 < 2 ^ 64"
    and "vpn v mod 512 = 0 \<or> vpn v mod 512 = 511"
  shows "map4k a v flags type l S = None"
  by (rule map4k_large_edge [OF assms])

theorem map4k_large_edge_panics_witness:
  "\<exists>l S. getPageSize 0x40000000 S = Some eLarge \<and> map4k 0x9000000 0x40000000 7 eWriteBack l S = None"
proof -
  obtain x l S e where S: "pt_inv S (x # l)" "view S (2 ^ 18) = Some (eLarge, e)" using example_large by metis
  have n: "vpn 0x40000000 = 2 ^ 18" by (simp add: vpn_def)
  have "map4k 0x9000000 0x40000000 7 eWriteBack (x # l) S = None"
    using map4k_large_edge_panics [OF S(1), of "0x40000000" e "0x9000000" 7 eWriteBack] S(2) unfolding n by simp
  moreover have "getPageSize 0x40000000 S = Some eLarge"
    unfolding getPageSize_view [OF pt_invD(2) [OF S(1)]] n using S(2) by simp
  ultimately show ?thesis by blast
qed

section \<open>The tables themselves\<close>

text \<open>
  C26. Page tables that were created over valid memory satisfy the invariant: the root is the only table,
  nothing is mapped, and every free page can serve as a table.
\<close>

theorem pt_create_establishes:
  assumes "pb_ok pm" and "memory_ok pm P" and "4096 dvd unat (am_paddr P)"
    and "pt_create pm P flags = Some (OsStatusSuccess, Some S)"
  shows "pt_inv S [] \<and> supply_ok S \<and> nodes S = {[]} \<and> (\<forall>v. getBackingAddressUnlocked v S = Some invalid_address)"
  using pt_create_spec [OF assms] by (simp add: backing_none pt_invD(2))

theorem pt_create_establishes_witness:
  "pt_inv example_pt [] \<and> getBackingAddressUnlocked 0x1234 example_pt = Some invalid_address"
proof -
  have "pb_ok example_pm" by (auto simp: example_pm_def pb_ok_def make_PageBuilder_def intro: exI [of _ 40])
  then show ?thesis using pt_create_establishes [OF _ example_memory_ok _ example_pt_create] by (simp add: example_memory_def)
qed

text \<open>
  The worst case count is at least the number of tables on the paths of all pages of a range.
\<close>

lemma max_pages_enough:
  assumes "page_aligned m N" and "unat (am_vaddr m) + N * 4096 < 2 ^ 64" and "0 < N"
  shows "card (range_tables (vpn (am_vaddr m)) N) \<le> unat (MaxPagesForMapping (virtualRange m))"
  by (rule range_tables_bound [OF assms])

lemma deallocated_head:
  assumes "pta_deallocate p n s A = Some A1" and "mHead A \<noteq> Some p"
  shows "mHead A1 = Some p" "cblocks A1 p = Some \<lparr>cb_next = mHead A, cb_prev = None, cb_size = n * mBlockSize A, cb_slide = s\<rparr>"
  using assms by (auto simp: pta_deallocate_def cb_upd_opt_def cb_upd_def bind_Some_iff split: option.splits)

lemma twice_slide: "v - (pa - v) = pa \<longleftrightarrow> 2 * (pa - v) = 0" for v pa :: u64
  by (auto simp: algebra_simps)

text \<open>
  C29. A page table that is given back is handed out again by the next allocation with the wrong physical
  address: \<^verbatim>\<open>asPhysical\<close> gives \<open>v - (pa - v)\<close>, which is the table's physical address \<open>pa\<close> only when twice the
  distance between \<open>pa\<close> and \<open>v\<close> is zero. The documentation of \<^verbatim>\<open>asPhysical\<close> promises \<open>pa\<close>; \<^verbatim>\<open>PageTables::deallocate\<close>
  computes the slide with the opposite sign of the one that allocations are read with.
\<close>

theorem reclaimed_table_address:
  assumes ok: "pta_pages (mAllocator S)" and v: "page_ok S v"
  shows "\<exists>S' a A. deallocate v pa S = Some S' \<and> pta_allocate 1 (mAllocator S') = Some (a, A)
    \<and> getVirtual a = v \<and> asPhysical a = v - (pa - v) \<and> (asPhysical a = pa \<longleftrightarrow> 2 * (pa - v) = 0)"
proof -
  let ?A = "mAllocator S"
  obtain bs where bs: "pta_inv ?A bs" "mBlockSize ?A = kPageSize" using ok by (auto simp: pta_pages_def pta_ok_def)
  have u: "unat (1 :: size_t) * unat (mBlockSize ?A) = 4096" "unat (mBlockSize ?A) = 4096" by (simp_all add: bs kPageSize_def)
  obtain A1 where A1: "pta_deallocate v 1 (pa - v) ?A = Some A1" "pta_inv A1 (v # bs)" "mBlockSize A1 = mBlockSize ?A"
    using pta_deallocate_inv [OF bs(1), of v 1 "pa - v", unfolded u] v by (auto simp: page_ok_def)
  have nv: "mHead ?A \<noteq> Some v"
    using A1(2) bs(1) by (auto simp: pta_inv_def list_at_def hd_or_def split: list.splits)
  note H = deallocated_head [OF A1(1) nv]
  have f: "nx (cblocks A1) v = mHead ?A" "bsize (cblocks A1) v = kPageSize" "bslide (cblocks A1) v = pa - v"
    using H(2) bs(2) by (simp_all add: nx_def bsize_def bslide_def cb_def)
  obtain A2 where A2: "setHead (nx (cblocks A1) v) A1 = Some A2" "bslide (cblocks A2) v = pa - v" "v \<in> dom (cblocks A2)"
    using take_whole [OF A1(2)] f(3) by (auto simp: block_from_def)
  have sh: "setHead (mHead ?A) A1 = Some A2" using A2(1) unfolding f(1) .
  have "(kPageSize :: size_t) \<noteq> 0" by (simp add: kPageSize_def)
  then have "AllocateBlock (1 * mBlockSize A1) A1 = Some (Some v, A2)"
    unfolding AllocateBlock_def A1(3) bs(2) H(1) by (simp add: H(2) bs(2) sh KM_CHECK_def)
  moreover have "cblocks A2 v = Some (cb (cblocks A2) v)" "cb_slide (cb (cblocks A2) v) = pa - v" using A2(2,3) by simp_all
  ultimately have "pta_allocate 1 A1 = Some (\<lparr>mBlock = v, mSlide = pa - v\<rparr>, A2)" by (simp add: pta_allocate_def)
  then show ?thesis
    using A1(1) twice_slide [of v pa] by (auto simp: deallocate_def Let_def getVirtual_def asPhysical_def getPhysical_def)
qed

lemma example_root: "pml4 example_pt = 0x10F000" "getPhysical (mRootAllocation example_pt) = 0x20F000"
  by code_simp+

theorem reclaimed_table_address_witness:
  "\<exists>S' a A. deallocate 0x10F000 0x20F000 example_pt = Some S' \<and> pta_allocate 1 (mAllocator S') = Some (a, A)
     \<and> getVirtual a = 0x10F000 \<and> asPhysical a = 0xF000"
proof -
  have "page_ok example_pt 0x10F000" using pt_invD(5) [OF example_ok(1), of "[]" "pml4 example_pt"] by (simp add: example_root)
  then show ?thesis using reclaimed_table_address [OF pt_invD(3) [OF example_ok(1)], of "0x10F000" "0x20F000"] by fastforce
qed

end
