(* ===== verification/MappingAllocation.thy ===== *)
theory MappingAllocation
  imports TlsfHeap PageEntry
begin

text \<open>
  Handles on mapped memory: \<^verbatim>\<open>km::MappingAllocation\<close> of \<^verbatim>\<open>kernel/include/memory/allocator.hpp\<close>, a physical
  allocation with the virtual one it is mapped at, and \<^verbatim>\<open>km::StackMappingAllocation\<close> of
  \<^verbatim>\<open>kernel/src/memory/stack_mapping.cpp\<close>, which has a guard page on each side as well.

  A handle points to the control block of its heap. Reading its address or size therefore takes
  the heap: \<open>pm\<close> is the heap of physical memory and \<open>vm\<close> that of the virtual addresses.
\<close>

section \<open>Allocation handles\<close>

definition ga_size :: "tlsf_heap \<Rightarrow> ptr option \<Rightarrow> size_t option" where
  "ga_size h a = do { p \<leftarrow> a; b \<leftarrow> blocks h p; Some (blk_size b) }"

definition ga_address :: "tlsf_heap \<Rightarrow> ptr option \<Rightarrow> size_t option" where
  "ga_address h a = do { p \<leftarrow> a; b \<leftarrow> blocks h p; Some (blk_offset b) }"

definition ga_range :: "tlsf_heap \<Rightarrow> ptr option \<Rightarrow> range option" where
  "ga_range h a = do { addr \<leftarrow> ga_address h a; sz \<leftarrow> ga_size h a; Some (range_of addr sz) }"

section \<open>Mappings\<close>

record MappingAllocation =
  ma_memory :: "ptr option"
  ma_address :: "ptr option"

definition ma_unchecked :: "tlsf_heap \<Rightarrow> tlsf_heap \<Rightarrow> ptr option \<Rightarrow> ptr option \<Rightarrow> MappingAllocation option" where
  "ma_unchecked pm vm memory addr =
     do { _ \<leftarrow> KM_CHECK (memory \<noteq> None);
          _ \<leftarrow> KM_CHECK (addr \<noteq> None);
          m \<leftarrow> ga_size pm memory;
          a \<leftarrow> ga_size vm addr;
          _ \<leftarrow> KM_CHECK (m = a);
          Some \<lparr>ma_memory = memory, ma_address = addr\<rparr> }"

definition ma_create ::
  "tlsf_heap \<Rightarrow> tlsf_heap \<Rightarrow> ptr option \<Rightarrow> ptr option \<Rightarrow> (OsStatus \<times> MappingAllocation option) option" where
  "ma_create pm vm memory addr =
     do { valid \<leftarrow> (if memory \<noteq> None \<and> addr \<noteq> None
                   then do { m \<leftarrow> ga_size pm memory; a \<leftarrow> ga_size vm addr; Some (m = a) }
                   else Some False);
          if \<not> valid then Some (OsStatusInvalidInput, None)
          else do { r \<leftarrow> ma_unchecked pm vm memory addr; Some (OsStatusSuccess, Some r) } }"

definition ma_baseMemory :: "tlsf_heap \<Rightarrow> MappingAllocation \<Rightarrow> u64 option" where
  "ma_baseMemory pm m = ga_address pm (ma_memory m)"

definition ma_memoryRange :: "tlsf_heap \<Rightarrow> MappingAllocation \<Rightarrow> range option" where
  "ma_memoryRange pm m = ga_range pm (ma_memory m)"

definition ma_baseAddress :: "tlsf_heap \<Rightarrow> MappingAllocation \<Rightarrow> u64 option" where
  "ma_baseAddress vm m = ga_address vm (ma_address m)"

definition ma_range :: "tlsf_heap \<Rightarrow> MappingAllocation \<Rightarrow> range option" where
  "ma_range vm m = ga_range vm (ma_address m)"

definition ma_size :: "tlsf_heap \<Rightarrow> MappingAllocation \<Rightarrow> size_t option" where
  "ma_size pm m = ga_size pm (ma_memory m)"

definition ma_mapping :: "tlsf_heap \<Rightarrow> tlsf_heap \<Rightarrow> MappingAllocation \<Rightarrow> AddressMapping option" where
  "ma_mapping pm vm m =
     do { v \<leftarrow> ma_baseAddress vm m;
          p \<leftarrow> ma_baseMemory pm m;
          s \<leftarrow> ma_size pm m;
          Some \<lparr>am_vaddr = v, am_paddr = p, am_size = s\<rparr> }"

section \<open>Stacks\<close>

record StackMapping =
  sm_stack :: AddressMapping
  sm_total :: range

definition sm_baseAddress :: "StackMapping \<Rightarrow> u64" where
  "sm_baseAddress m = am_vaddr (sm_stack m) + am_size (sm_stack m)"

record StackMappingAllocation =
  mMemoryAllocation :: "ptr option"
  mAddressAllocation :: "ptr option"
  mGuardHead :: "ptr option"
  mGuardTail :: "ptr option"

text \<open>The test of a guard against the stack: \<open>None\<close> when a handle is dangling.\<close>

definition guard_head_ok :: "tlsf_heap \<Rightarrow> ptr option \<Rightarrow> ptr option \<Rightarrow> bool option" where
  "guard_head_ok vm head addr =
     (if head = None then Some True
      else do { h \<leftarrow> ga_range vm head; a \<leftarrow> ga_range vm addr; Some (rback h = rfront a) })"

definition guard_tail_ok :: "tlsf_heap \<Rightarrow> ptr option \<Rightarrow> ptr option \<Rightarrow> bool option" where
  "guard_tail_ok vm tail addr =
     (if tail = None then Some True
      else do { t \<leftarrow> ga_range vm tail; a \<leftarrow> ga_range vm addr; Some (rfront t = rback a) })"

definition sma_unchecked ::
  "tlsf_heap \<Rightarrow> tlsf_heap \<Rightarrow> ptr option \<Rightarrow> ptr option \<Rightarrow> ptr option \<Rightarrow> ptr option \<Rightarrow> StackMappingAllocation option" where
  "sma_unchecked pm vm memory addr head tail =
     do { _ \<leftarrow> KM_CHECK (memory \<noteq> None);
          _ \<leftarrow> KM_CHECK (addr \<noteq> None);
          m \<leftarrow> ga_size pm memory;
          a \<leftarrow> ga_size vm addr;
          _ \<leftarrow> KM_CHECK (m = a);
          h \<leftarrow> guard_head_ok vm head addr;
          _ \<leftarrow> KM_CHECK h;
          t \<leftarrow> guard_tail_ok vm tail addr;
          _ \<leftarrow> KM_CHECK t;
          Some \<lparr>mMemoryAllocation = memory, mAddressAllocation = addr, mGuardHead = head, mGuardTail = tail\<rparr> }"

definition sma_create ::
  "tlsf_heap \<Rightarrow> tlsf_heap \<Rightarrow> ptr option \<Rightarrow> ptr option \<Rightarrow> ptr option \<Rightarrow> ptr option
     \<Rightarrow> (OsStatus \<times> StackMappingAllocation option) option" where
  "sma_create pm vm memory addr head tail =
     (if memory = None \<or> addr = None then Some (OsStatusInvalidInput, None)
      else do {
        m \<leftarrow> ga_size pm memory;
        a \<leftarrow> ga_size vm addr;
        if m \<noteq> a then Some (OsStatusInvalidInput, None)
        else do {
          h \<leftarrow> guard_head_ok vm head addr;
          if \<not> h then Some (OsStatusInvalidInput, None)
          else do {
            t \<leftarrow> guard_tail_ok vm tail addr;
            if \<not> t then Some (OsStatusInvalidInput, None)
            else do {
              r \<leftarrow> sma_unchecked pm vm memory addr head tail;
              Some (OsStatusSuccess, Some r) } } } })"

definition hasGuardHead :: "StackMappingAllocation \<Rightarrow> bool" where "hasGuardHead m \<longleftrightarrow> mGuardHead m \<noteq> None"
definition hasGuardTail :: "StackMappingAllocation \<Rightarrow> bool" where "hasGuardTail m \<longleftrightarrow> mGuardTail m \<noteq> None"

definition sma_baseMemory :: "tlsf_heap \<Rightarrow> StackMappingAllocation \<Rightarrow> u64 option" where
  "sma_baseMemory pm m = ga_address pm (mMemoryAllocation m)"

definition sma_memory :: "tlsf_heap \<Rightarrow> StackMappingAllocation \<Rightarrow> range option" where
  "sma_memory pm m = ga_range pm (mMemoryAllocation m)"

definition sma_stack :: "tlsf_heap \<Rightarrow> StackMappingAllocation \<Rightarrow> range option" where
  "sma_stack vm m = ga_range vm (mAddressAllocation m)"

definition sma_baseAddress :: "tlsf_heap \<Rightarrow> StackMappingAllocation \<Rightarrow> u64 option" where
  "sma_baseAddress vm m = ga_address vm (mAddressAllocation m)"

definition stackBaseAddress :: "tlsf_heap \<Rightarrow> StackMappingAllocation \<Rightarrow> u64 option" where
  "stackBaseAddress vm m =
     do { a \<leftarrow> sma_baseAddress vm m; s \<leftarrow> ga_size vm (mAddressAllocation m); Some (a + s) }"

definition stackSize :: "tlsf_heap \<Rightarrow> StackMappingAllocation \<Rightarrow> size_t option" where
  "stackSize pm m = ga_size pm (mMemoryAllocation m)"

definition totalSize :: "tlsf_heap \<Rightarrow> tlsf_heap \<Rightarrow> StackMappingAllocation \<Rightarrow> size_t option" where
  "totalSize pm vm m =
     do { s \<leftarrow> ga_size pm (mMemoryAllocation m);
          h \<leftarrow> (if hasGuardHead m then ga_size vm (mGuardHead m) else Some 0);
          t \<leftarrow> (if hasGuardTail m then ga_size vm (mGuardTail m) else Some 0);
          Some (s + h + t) }"

definition stackMapping :: "tlsf_heap \<Rightarrow> tlsf_heap \<Rightarrow> StackMappingAllocation \<Rightarrow> StackMapping option" where
  "stackMapping pm vm m =
     do { v \<leftarrow> sma_baseAddress vm m;
          p \<leftarrow> sma_baseMemory pm m;
          s \<leftarrow> ga_size pm (mMemoryAllocation m);
          r \<leftarrow> ga_range vm (mAddressAllocation m);
          r \<leftarrow> (if hasGuardHead m
               then do { g \<leftarrow> ga_size vm (mGuardHead m); Some (r\<lparr>rfront := rfront r - g\<rparr>) } else Some r);
          r \<leftarrow> (if hasGuardTail m
               then do { g \<leftarrow> ga_size vm (mGuardTail m); Some (r\<lparr>rback := rback r + g\<rparr>) } else Some r);
          Some \<lparr>sm_stack = \<lparr>am_vaddr = v, am_paddr = p, am_size = s\<rparr>, sm_total = r\<rparr> }"

section \<open>The handles of allocated blocks\<close>

lemma ga_block [simp]:
  "blocks h p = Some b \<Longrightarrow> ga_size h (Some p) = Some (blk_size b)"
  "blocks h p = Some b \<Longrightarrow> ga_address h (Some p) = Some (blk_offset b)"
  "blocks h p = Some b \<Longrightarrow> ga_range h (Some p) = Some (range_of (blk_offset b) (blk_size b))"
  by (simp_all add: ga_size_def ga_address_def ga_range_def)

text \<open>
  \<^verbatim>\<open>create\<close> makes the tests that the constructor asserts, so that it never panics on handles that are not dangling. The total range of
  an accepted stack is the guard in front, the stack and the guard behind, without a gap.
\<close>

lemma sma_create_total:
  assumes "blocks pm m = Some mb" "blocks vm a = Some ab" "blocks vm h = Some hb" "blocks vm t = Some tb"
  shows "if blk_size mb = blk_size ab \<and> blk_offset hb + blk_size hb = blk_offset ab \<and> blk_offset tb = blk_offset ab + blk_size ab
    then \<exists>r M. sma_create pm vm (Some m) (Some a) (Some h) (Some t) = Some (OsStatusSuccess, Some r)
      \<and> stackMapping pm vm r = Some M \<and> sm_total M = \<lparr>rfront = blk_offset hb, rback = blk_offset tb + blk_size tb\<rparr>
      \<and> totalSize pm vm r = Some (rback (sm_total M) - rfront (sm_total M))
      \<and> stackBaseAddress vm r = Some (sm_baseAddress M) \<and> sm_baseAddress M = blk_offset tb
    else sma_create pm vm (Some m) (Some a) (Some h) (Some t) = Some (OsStatusInvalidInput, None)"
  using assms
  by (auto simp: sma_create_def sma_unchecked_def guard_head_ok_def guard_tail_ok_def stackMapping_def totalSize_def hasGuardHead_def
      hasGuardTail_def sma_baseAddress_def sma_baseMemory_def stackBaseAddress_def sm_baseAddress_def range_of_def KM_CHECK_def algebra_simps)

end
