(* ===== verification/AddressSpace.thy ===== *)
theory AddressSpace
  imports TlsfFind PageSpec MappingAllocation
begin

text \<open>
  A virtual address space: \<^verbatim>\<open>km::AddressSpace\<close> of \<^verbatim>\<open>kernel/src/memory/address_space.cpp\<close>. It owns page tables and a
  heap that hands out the virtual addresses of the space, and keeps the two in step: an address is mapped
  only while it is allocated.

  The spin lock is part of the state. It is not recursive, so that locking it again on the same thread never
  returns, which is the value \<open>None\<close>. Messages to the log are not modelled.
\<close>

section \<open>State\<close>

record AddressSpace =
  as_locked :: bool
  as_tables :: PageTables
  as_heap :: tlsf_heap

definition as_lock :: "AddressSpace \<Rightarrow> AddressSpace option" where
  "as_lock S = (if as_locked S then None else Some (S\<lparr>as_locked := True\<rparr>))"

definition as_unlock :: "AddressSpace \<Rightarrow> AddressSpace" where
  "as_unlock S = S\<lparr>as_locked := False\<rparr>"

text \<open>The test of a range that must consist of whole pages.\<close>

definition page_range_ok :: "range \<Rightarrow> bool" where
  "page_range_ok r \<longleftrightarrow> \<not> (isEmpty r \<or> r \<noteq> alignedOut r kPageSize)"

section \<open>Reserving and unmapping\<close>

definition as_reserve :: "range \<Rightarrow> AddressSpace \<Rightarrow> (OsStatus \<times> ptr option \<times> AddressSpace) option" where
  "as_reserve r S =
     (if \<not> page_range_ok r then Some (OsStatusInvalidInput, None, S)
      else do {
        S \<leftarrow> as_lock S;
        (status, a, h) \<leftarrow> TlsfHeap.reserve r (as_heap S);
        Some (status, a, as_unlock (S\<lparr>as_heap := h\<rparr>)) })"

definition as_reserve_logged :: "range \<Rightarrow> AddressSpace \<Rightarrow> AddressSpace option" where
  "as_reserve_logged r S = do { (status, a, S) \<leftarrow> as_reserve r S; Some S }"

definition as_unmap_range :: "range \<Rightarrow> AddressSpace \<Rightarrow> (OsStatus \<times> AddressSpace) option" where
  "as_unmap_range r S =
     (if \<not> page_range_ok r then Some (OsStatusInvalidInput, S)
      else do {
        S \<leftarrow> as_lock S;
        (status, allocation) \<leftarrow> findAllocation (as_heap S) (rfront r);
        if status \<noteq> OsStatusSuccess then Some (status, as_unlock S)
        else do {
          (status, T) \<leftarrow> unmap r (as_tables S);
          let S = S\<lparr>as_tables := T\<rparr>;
          if status \<noteq> OsStatusSuccess then Some (status, as_unlock S)
          else do {
            h \<leftarrow> TlsfHeap.free allocation (as_heap S);
            Some (OsStatusSuccess, as_unlock (S\<lparr>as_heap := h\<rparr>)) } } })"

definition as_unmap :: "ptr option \<Rightarrow> AddressSpace \<Rightarrow> (OsStatus \<times> AddressSpace) option" where
  "as_unmap allocation S =
     do { r \<leftarrow> ga_range (as_heap S) allocation;
          (status, T) \<leftarrow> unmap r (as_tables S);
          let S = S\<lparr>as_tables := T\<rparr>;
          if status \<noteq> OsStatusSuccess then Some (status, S)
          else do {
            S \<leftarrow> as_lock S;
            h \<leftarrow> TlsfHeap.free allocation (as_heap S);
            Some (OsStatusSuccess, as_unlock (S\<lparr>as_heap := h\<rparr>)) } }"

definition as_unmap_mapping :: "MappingAllocation \<Rightarrow> AddressSpace \<Rightarrow> (OsStatus \<times> AddressSpace) option" where
  "as_unmap_mapping allocation S = as_unmap (ma_address allocation) S"

section \<open>Mapping\<close>

definition as_map :: "range \<Rightarrow> PageFlags \<Rightarrow> MemoryType \<Rightarrow> AddressSpace \<Rightarrow> (OsStatus \<times> ptr option \<times> AddressSpace) option" where
  "as_map memory flags type S =
     (if \<not> page_range_ok memory then Some (OsStatusInvalidInput, None, S)
      else do {
        S \<leftarrow> as_lock S;
        (vmem, h) \<leftarrow> aligned_alloc kPageSize (range_size memory) (as_heap S);
        let S = S\<lparr>as_heap := h\<rparr>;
        if vmem = None then Some (OsStatusOutOfMemory, None, as_unlock S)
        else do {
          v \<leftarrow> ga_address h vmem;
          let m = \<lparr>am_vaddr = v, am_paddr = rfront memory, am_size = range_size memory\<rparr>;
          (status, T) \<leftarrow> pt_map m flags type (as_tables S);
          let S = S\<lparr>as_tables := T\<rparr>;
          if status \<noteq> OsStatusSuccess then do {
            h \<leftarrow> TlsfHeap.free vmem (as_heap S);
            Some (status, None, as_unlock (S\<lparr>as_heap := h\<rparr>)) }
          else do {
            _ \<leftarrow> KM_CHECK (vmem \<noteq> None);
            Some (OsStatusSuccess, vmem, as_unlock S) } } })"

text \<open>The overload with a hint ignores it and returns the mapping.\<close>

definition as_map_hint ::
  "range \<Rightarrow> PageFlags \<Rightarrow> MemoryType \<Rightarrow> AddressSpace \<Rightarrow> (OsStatus \<times> AddressMapping option \<times> AddressSpace) option" where
  "as_map_hint r flags type S =
     (if \<not> page_range_ok r then Some (OsStatusInvalidInput, None, S)
      else do {
        S \<leftarrow> as_lock S;
        (vmem, h) \<leftarrow> aligned_alloc kPageSize (range_size r) (as_heap S);
        let S = S\<lparr>as_heap := h\<rparr>;
        if vmem = None then Some (OsStatusOutOfMemory, None, as_unlock S)
        else do {
          v \<leftarrow> ga_address h vmem;
          let m = \<lparr>am_vaddr = v, am_paddr = rfront r, am_size = range_size r\<rparr>;
          (status, T) \<leftarrow> pt_map m flags type (as_tables S);
          let S = S\<lparr>as_tables := T\<rparr>;
          if status \<noteq> OsStatusSuccess then do {
            h \<leftarrow> TlsfHeap.free vmem (as_heap S);
            Some (status, None, as_unlock (S\<lparr>as_heap := h\<rparr>)) }
          else Some (OsStatusSuccess, Some m, as_unlock S) } })"

definition as_map_address :: "range \<Rightarrow> PageFlags \<Rightarrow> MemoryType \<Rightarrow> AddressSpace \<Rightarrow> (u64 option \<times> AddressSpace) option" where
  "as_map_address r flags type S =
     (if \<not> page_range_ok r then Some (None, S)
      else do {
        (status, a, S) \<leftarrow> as_map r flags type S;
        if status \<noteq> OsStatusSuccess then Some (None, S)
        else do { v \<leftarrow> ga_address (as_heap S) a; Some (Some v, S) } })"

definition mapGenericObject ::
  "range \<Rightarrow> PageFlags \<Rightarrow> MemoryType \<Rightarrow> AddressSpace \<Rightarrow> (u64 option \<times> ptr option \<times> AddressSpace) option" where
  "mapGenericObject r flags type S =
     (let offset = rfront r AND 0xFFF; al = alignedOut r kPageSize
      in if isEmpty al then Some (None, None, S)
      else do {
        (status, memory, S) \<leftarrow> as_map al flags type S;
        if status \<noteq> OsStatusSuccess then Some (None, None, S)
        else do {
          _ \<leftarrow> KM_CHECK (memory \<noteq> None);
          base \<leftarrow> ga_address (as_heap S) memory;
          Some (Some (base + offset), memory, S) } })"

text \<open>Mapping an allocation of physical memory, whose heap is \<open>pm\<close>.\<close>

definition as_map_memory ::
  "tlsf_heap \<Rightarrow> ptr option \<Rightarrow> PageFlags \<Rightarrow> MemoryType \<Rightarrow> AddressSpace
     \<Rightarrow> (OsStatus \<times> MappingAllocation option \<times> AddressSpace) option" where
  "as_map_memory pm memory flags type S =
     do { r \<leftarrow> ga_range pm memory;
          (status, result, S) \<leftarrow> as_map r flags type S;
          if status \<noteq> OsStatusSuccess then Some (status, None, S)
          else do {
            a \<leftarrow> ma_unchecked pm (as_heap S) memory result;
            Some (OsStatusSuccess, Some a, S) } }"

section \<open>Stacks\<close>

text \<open>
  \<^verbatim>\<open>mapStack\<close> on a range of memory: the address range gets a page more on each side. Both error paths
  call \<^verbatim>\<open>unmap\<close>, which takes the lock that is held.
\<close>

definition as_mapStack ::
  "range \<Rightarrow> PageFlags \<Rightarrow> AddressSpace \<Rightarrow> (OsStatus \<times> ptr option list \<times> AddressSpace) option" where
  "as_mapStack memory flags S =
     do { S \<leftarrow> as_lock S;
          (vmem, h) \<leftarrow> aligned_alloc kPageSize (range_size memory + (2 * kPageSize)) (as_heap S);
          let S = S\<lparr>as_heap := h\<rparr>;
          if vmem = None then Some (OsStatusOutOfMemory, [], as_unlock S)
          else do {
            r \<leftarrow> ga_range h vmem;
            let points = [rfront r + kPageSize, rback r - kPageSize];
            (status, results, h) \<leftarrow> splitv vmem points [None, None, None] (as_heap S);
            let S = S\<lparr>as_heap := h\<rparr>;
            if status \<noteq> OsStatusSuccess then do {
              (inner, S) \<leftarrow> as_unmap vmem S;
              _ \<leftarrow> KM_CHECK (inner = OsStatusSuccess);
              Some (status, [], as_unlock S) }
            else do {
              stack \<leftarrow> span_get 1 results;
              v \<leftarrow> ga_address (as_heap S) stack;
              let m = \<lparr>am_vaddr = v, am_paddr = rfront memory, am_size = range_size memory\<rparr>;
              (status, T) \<leftarrow> pt_map m flags eWriteBack (as_tables S);
              let S = S\<lparr>as_tables := T\<rparr>;
              if status \<noteq> OsStatusSuccess then do {
                (inner, S) \<leftarrow> as_unmap vmem S;
                _ \<leftarrow> KM_CHECK (inner = OsStatusSuccess);
                h \<leftarrow> foldl (\<lambda>h a. Option.bind h (TlsfHeap.free a)) (Some (as_heap S)) results;
                Some (status, [], as_unlock (S\<lparr>as_heap := h\<rparr>)) }
              else Some (OsStatusSuccess, results, as_unlock S) } } }"

definition as_mapStack_range ::
  "range \<Rightarrow> PageFlags \<Rightarrow> AddressSpace \<Rightarrow> (OsStatus \<times> StackMapping option \<times> AddressSpace) option" where
  "as_mapStack_range r flags S =
     do { (status, results, S) \<leftarrow> as_mapStack r flags S;
          if status \<noteq> OsStatusSuccess then Some (status, None, S)
          else do {
            head \<leftarrow> span_get 0 results;
            stack \<leftarrow> span_get 1 results;
            tail \<leftarrow> span_get 2 results;
            v \<leftarrow> ga_address (as_heap S) stack;
            hr \<leftarrow> ga_range (as_heap S) head;
            tr \<leftarrow> ga_range (as_heap S) tail;
            Some (OsStatusSuccess,
              Some \<lparr>sm_stack = \<lparr>am_vaddr = v, am_paddr = rfront r, am_size = range_size r\<rparr>, sm_total = merge hr tr\<rparr>, S) } }"

definition as_mapStack_memory ::
  "tlsf_heap \<Rightarrow> ptr option \<Rightarrow> PageFlags \<Rightarrow> AddressSpace \<Rightarrow> (OsStatus \<times> StackMappingAllocation option \<times> AddressSpace) option" where
  "as_mapStack_memory pm memory flags S =
     do { r \<leftarrow> ga_range pm memory;
          (status, results, S) \<leftarrow> as_mapStack r flags S;
          if status \<noteq> OsStatusSuccess then Some (status, None, S)
          else do {
            head \<leftarrow> span_get 0 results;
            stack \<leftarrow> span_get 1 results;
            tail \<leftarrow> span_get 2 results;
            a \<leftarrow> sma_unchecked pm (as_heap S) memory stack head tail;
            Some (OsStatusSuccess, Some a, S) } }"

text \<open>The loop of \<^verbatim>\<open>unmapStack\<close> over its three allocations; an unmapping that fails panics.\<close>

fun unmap_results :: "ptr option list \<Rightarrow> AddressSpace \<Rightarrow> AddressSpace option" where
  "unmap_results [] S = Some S"
| "unmap_results (a # as) S =
     do { r \<leftarrow> ga_range (as_heap S) a;
          (status, T) \<leftarrow> unmap r (as_tables S);
          _ \<leftarrow> KM_CHECK (status = OsStatusSuccess);
          unmap_results as (S\<lparr>as_tables := T\<rparr>) }"

definition unmapStack :: "StackMapping \<Rightarrow> AddressSpace \<Rightarrow> (OsStatus \<times> AddressSpace) option" where
  "unmapStack mapping S =
     do { S \<leftarrow> as_lock S;
          (status, a0) \<leftarrow> findAllocation (as_heap S) (rfront (sm_total mapping));
          if status \<noteq> OsStatusSuccess then Some (status, as_unlock S)
          else do {
            (status, a1) \<leftarrow> findAllocation (as_heap S) (am_vaddr (sm_stack mapping));
            if status \<noteq> OsStatusSuccess then Some (status, as_unlock S)
            else do {
              (status, a2) \<leftarrow> findAllocation (as_heap S) (rback (sm_total mapping) - kPageSize);
              if status \<noteq> OsStatusSuccess then Some (status, as_unlock S)
              else do {
                S \<leftarrow> unmap_results [a0, a1, a2] S;
                h \<leftarrow> TlsfHeap.free a0 (as_heap S);
                h \<leftarrow> TlsfHeap.free a1 h;
                h \<leftarrow> TlsfHeap.free a2 h;
                Some (OsStatusSuccess, as_unlock (S\<lparr>as_heap := h\<rparr>)) } } } }"

section \<open>Creation and queries\<close>

definition updateHigherHalfMappings :: "PageTables \<Rightarrow> AddressSpace \<Rightarrow> AddressSpace option" where
  "updateHigherHalfMappings source S =
     do { T \<leftarrow> copyHigherHalfMappings (as_tables S) source; Some (S\<lparr>as_tables := T\<rparr>) }"

text \<open>\<open>outcomes\<close> are the results of the heap's requests for memory; \<open>S\<close> is the space that is filled in.\<close>

definition as_create ::
  "bool list \<Rightarrow> PageBuilder \<Rightarrow> AddressMapping \<Rightarrow> PageFlags \<Rightarrow> range \<Rightarrow> AddressSpace \<Rightarrow> (OsStatus \<times> AddressSpace) option" where
  "as_create outcomes pm pteMemory flags vmem S =
     do { (status, T) \<leftarrow> pt_create pm pteMemory flags;
          let S = (case T of None \<Rightarrow> S | Some T \<Rightarrow> S\<lparr>as_tables := T\<rparr>);
          if status \<noteq> OsStatusSuccess then Some (status, S)
          else do {
            (status, h) \<leftarrow> create outcomes vmem;
            let S = (case h of None \<Rightarrow> S | Some h \<Rightarrow> S\<lparr>as_heap := h\<rparr>);
            Some (status, S) } }"

definition as_create_from ::
  "bool list \<Rightarrow> AddressSpace \<Rightarrow> AddressMapping \<Rightarrow> PageFlags \<Rightarrow> range \<Rightarrow> AddressSpace \<Rightarrow> (OsStatus \<times> AddressSpace) option" where
  "as_create_from outcomes source pteMemory flags vmem S =
     do { (status, S) \<leftarrow> as_create outcomes (mPageManager (as_tables source)) pteMemory flags vmem S;
          if status \<noteq> OsStatusSuccess then Some (status, S)
          else do {
            S \<leftarrow> updateHigherHalfMappings (as_tables source) S;
            Some (OsStatusSuccess, S) } }"

definition as_getBackingAddress :: "u64 \<Rightarrow> AddressSpace \<Rightarrow> u64 option" where
  "as_getBackingAddress v S = getBackingAddressUnlocked v (as_tables S)"

definition as_root :: "AddressSpace \<Rightarrow> u64" where
  "as_root S = pt_root (as_tables S)"

definition as_stats :: "AddressSpace \<Rightarrow> (TlsfHeapStats \<times> AddressSpace) option" where
  "as_stats S = do { S \<leftarrow> as_lock S; st \<leftarrow> TlsfHeap.stats (as_heap S); Some (st, as_unlock S) }"

end
