(* ===== verification/AddressSpaceInv.thy ===== *)
theory AddressSpaceInv
  imports AddressSpace
begin

text \<open>
  The invariant that ties the two parts of an address space together, and what mapping and unmapping do to both:
  a page of the managed range is mapped only inside an allocation, and a 2 MiB page lies inside one allocation.
\<close>

section \<open>Pages of an allocation\<close>

definition span :: "u64 \<Rightarrow> u64 \<Rightarrow> nat set" where
  "span a s = {vpn a ..< vpn a + unat s div 4096}"

text \<open>The managed range lies in one half of the address space, away from its end.\<close>

definition area_ok :: "nat \<Rightarrow> nat \<Rightarrow> bool" where
  "area_ok base n \<longleftrightarrow> 4096 dvd base \<and> base + n + 2 ^ 21 < 2 ^ 64 \<and> base div 4096 mod 2 ^ 36 + n div 4096 \<le> 2 ^ 36"

definition managed :: "nat \<Rightarrow> nat \<Rightarrow> nat set" where
  "managed base n = {base div 4096 mod 2 ^ 36 ..< base div 4096 mod 2 ^ 36 + n div 4096}"

definition whole :: "u64 \<times> u64 \<Rightarrow> bool" where
  "whole r \<longleftrightarrow> 4096 dvd unat (fst r) \<and> 4096 dvd unat (snd r)"

lemma area_vpn:
  assumes "area_ok base n" and "4096 dvd unat a" and "4096 dvd unat s" and "0 < unat s" and "base \<le> unat a" "unat a + unat s \<le> base + n"
  shows "vpn a = base div 4096 mod 2 ^ 36 + (unat a - base) div 4096" "vpn a + unat s div 4096 \<le> base div 4096 mod 2 ^ 36 + n div 4096"
proof -
  obtain b where b: "base = 4096 * b" using assms(1) by (auto simp: area_ok_def)
  obtain y z where y: "unat a = 4096 * y" "unat s = 4096 * z" using assms(2,3) unfolding dvd_def by blast
  have le: "b \<le> y" "0 < z" using assms(4,5) b y by auto
  have "4096 * (y - b + z) \<le> n" using assms(6) b y le by (simp add: algebra_simps)
  then have k: "y - b + z \<le> n div 4096" by (simp add: less_eq_div_iff_mult_less_eq)
  have top: "b mod 2 ^ 36 + n div 4096 \<le> 2 ^ 36" using assms(1) b by (simp add: area_ok_def)
  have "y mod 2 ^ 36 = (b + (y - b)) mod 2 ^ 36" using le by simp
  also have "\<dots> = (b mod 2 ^ 36 + (y - b)) mod 2 ^ 36" by (simp add: mod_add_left_eq)
  also have "\<dots> = b mod 2 ^ 36 + (y - b)" using top k le(2) by (intro mod_less) linarith
  finally have "y mod 2 ^ 36 = b mod 2 ^ 36 + (y - b)" .
  then show "vpn a = base div 4096 mod 2 ^ 36 + (unat a - base) div 4096" "vpn a + unat s div 4096 \<le> base div 4096 mod 2 ^ 36 + n div 4096"
    using k le b y by (simp_all add: vpn_def flip: diff_mult_distrib2)
qed

lemma spans_apart:
  assumes "area_ok base n" and "whole (a, s)" "whole (a', s')" and "0 < unat s" "0 < unat s'"
    and "base \<le> unat a" "unat a + unat s \<le> base + n" "base \<le> unat a'" "unat a' + unat s' \<le> base + n"
    and "unat a + unat s \<le> unat a' \<or> unat a' + unat s' \<le> unat a"
  shows "span a s \<inter> span a' s' = {}"
proof -
  have w: "4096 dvd unat a" "4096 dvd unat s" "4096 dvd unat a'" "4096 dvd unat s'" using assms(2,3) by (simp_all add: whole_def)
  note v = area_vpn(1) [OF assms(1) w(1,2) assms(4,6,7)] area_vpn(1) [OF assms(1) w(3,4) assms(5,8,9)]
  obtain b y z y' z' where e: "base = 4096 * b" "unat a = 4096 * y" "unat s = 4096 * z" "unat a' = 4096 * y'" "unat s' = 4096 * z'"
    using w assms(1) unfolding area_ok_def dvd_def by blast
  have o: "y + z \<le> y' \<or> y' + z' \<le> y" "b \<le> y" "b \<le> y'" using assms(6,8,10) e by auto
  obtain k k' where k: "y = b + k" "y' = b + k'" using o(2,3) le_Suc_ex by metis
  have "vpn a = b mod 2 ^ 36 + k" "vpn a' = b mod 2 ^ 36 + k'" using v e k by simp_all
  then show ?thesis using e k o(1) by (auto simp: span_def)
qed

section \<open>Large pages\<close>

lemma large_block:
  assumes "tree_ok S" and "view S n = Some (eLarge, e)" and "x div 512 = n div (512 :: nat)"
  shows "view S x = Some (eLarge, e)"
proof -
  have eq: "x div 2 ^ 27 = n div 2 ^ 27" "x div 2 ^ 18 = n div 2 ^ 18"
    using assms(3) div_mult2_eq [of _ 512 "2 ^ 18"] div_mult2_eq [of _ 512 "2 ^ 9"] by simp_all
  then have p: "pt_path x = pt_path n" "pd_path x = pd_path n" using assms(3) by (simp_all add: pt_path_def pd_path_def)
  have l: "pt_path n \<notin> nodes S \<and> at S (pd_path n) (n div 512 mod 512) = Some e \<and> present e"
    by (rule view_cases [OF assms(1), of n]) (use assms(2) in \<open>auto split: if_splits\<close>)
  then have "at S (pt_path n) (x mod 512) = None" by (simp add: at_None_iff [OF assms(1)])
  then show ?thesis using l assms(3) by (simp add: view_def p)
qed

section \<open>The invariant\<close>

definition as_inv :: "nat \<Rightarrow> AddressSpace \<Rightarrow> bool" where
  "as_inv base S \<longleftrightarrow> \<not> as_locked S \<and> heap_ok base (as_heap S) \<and> pt_inv (as_tables S) [] \<and> area_ok base (unat (mSize (as_heap S)))
     \<and> (\<forall>r \<in> ran (live (as_heap S)). whole r)
     \<and> (\<forall>x \<in> managed base (unat (mSize (as_heap S))). view (as_tables S) x \<noteq> None
          \<longrightarrow> (\<exists>(a, s) \<in> ran (live (as_heap S)). x \<in> span a s))
     \<and> (\<forall>(a, s) \<in> ran (live (as_heap S)). \<forall>x \<in> span a s. \<forall>e. view (as_tables S) x = Some (eLarge, e)
          \<longrightarrow> {x div 512 * 512 ..< x div 512 * 512 + 512} \<subseteq> span a s)"

lemma as_invD:
  assumes "as_inv base S"
  shows "\<not> as_locked S" "heap_ok base (as_heap S)" "pt_inv (as_tables S) []" "area_ok base (unat (mSize (as_heap S)))"
    and "live (as_heap S) p = Some (a, s) \<Longrightarrow> whole (a, s)"
    and "x \<in> managed base (unat (mSize (as_heap S))) \<Longrightarrow> view (as_tables S) x \<noteq> None \<Longrightarrow> \<exists>p a s. live (as_heap S) p = Some (a, s) \<and> x \<in> span a s"
    and "live (as_heap S) p = Some (a, s) \<Longrightarrow> x \<in> span a s \<Longrightarrow> view (as_tables S) x = Some (eLarge, e)
      \<Longrightarrow> {x div 512 * 512 ..< x div 512 * 512 + 512} \<subseteq> span a s"
  using assms unfolding as_inv_def ran_def by (blast, blast, blast, blast, blast, fastforce, blast)

lemma as_live_within:
  assumes "heap_ok base h" and "live h p = Some (a, s)"
  shows "0 < unat s" "base \<le> unat a" "unat a + unat s \<le> base + unat (mSize h)"
  using assms live_within unfolding heap_ok_def by metis+

lemma heap_spans_apart:
  assumes "heap_ok base h" and "area_ok base (unat (mSize h))" and "live h p = Some (a, s)" "live h q = Some (a', s')" "p \<noteq> q"
    and "whole (a, s)" "whole (a', s')"
  shows "span a s \<inter> span a' s' = {}"
  using spans_apart [OF assms(2,6,7)] as_live_within [OF assms(1,3)] as_live_within [OF assms(1,4)]
    tlsf.disjoint_law [OF assms(1,3,4,5)] by blast

lemma span_in_area:
  assumes "heap_ok base h" and "area_ok base (unat (mSize h))" and "live h p = Some (a, s)" and "whole (a, s)"
  shows "span a s \<subseteq> managed base (unat (mSize h))" "vpn a + unat s div 4096 \<le> 2 ^ 36" "unat a + unat s + 2 ^ 21 < 2 ^ 64"
proof -
  note w = as_live_within [OF assms(1,3)]
  have v: "vpn a = base div 4096 mod 2 ^ 36 + (unat a - base) div 4096" "vpn a + unat s div 4096 \<le> base div 4096 mod 2 ^ 36 + unat (mSize h) div 4096"
    using area_vpn [OF assms(2) _ _ w] assms(4) by (simp_all add: whole_def)
  show "span a s \<subseteq> managed base (unat (mSize h))" using v by (auto simp: span_def managed_def)
  show "vpn a + unat s div 4096 \<le> 2 ^ 36" "unat a + unat s + 2 ^ 21 < 2 ^ 64" using v(2) w(3) assms(2) unfolding area_ok_def by linarith+
qed

section \<open>Mapping\<close>

text \<open>\<open>N\<close> pages of physical memory from \<open>f\<close> on, all of them addressable.\<close>

definition frames :: "PageBuilder \<Rightarrow> u64 \<Rightarrow> nat \<Rightarrow> bool" where
  "frames pb f N \<longleftrightarrow> 0 < N \<and> 4096 dvd unat f \<and> unat f + N * 4096 + 2 ^ 21 < 2 ^ 64 \<and> (\<forall>j < N. frame pb (f + of_nat j * kPageSize))"

definition pages_at :: "u64 \<Rightarrow> nat \<Rightarrow> range" where
  "pages_at f N = range_of f (of_nat N * kPageSize)"

lemma unat_page_bytes: "N * 4096 < 2 ^ 64 \<Longrightarrow> unat (of_nat N * kPageSize :: u64) = N * 4096"
  by (simp add: kPageSize_def unat_word_ariths unat_of_nat)

lemma aligned_unchanged:
  assumes "4096 dvd unat (v :: u64)" and "unat v + 4096 < 2 ^ 64"
  shows "rounddown v kPageSize = v" "roundup v kPageSize = v"
proof -
  obtain y where y: "unat v = 4096 * y" using assms(1) by blast
  have k: "unat (kPageSize :: u64) = 4096" by (simp add: kPageSize_def)
  have d: "unat (v div kPageSize) = y" by (simp add: unat_div_distrib k y)
  have "unat (v div kPageSize * kPageSize) = unat v" using assms(2) by (subst unat_mult_small) (simp_all add: d k y)
  then show "rounddown v kPageSize = v" by (simp add: rounddown_def word_unat_eq_iff)
  have "unat (v + kPageSize - 1) = 4096 * y + 4095" using assms(2) y k
    by (subst unat_sub_le; subst unat_add_small) simp_all
  then have d': "unat ((v + kPageSize - 1) div kPageSize) = y" by (simp add: unat_div_distrib k)
  have "unat ((v + kPageSize - 1) div kPageSize * kPageSize) = unat v" using assms(2) by (subst unat_mult_small) (simp_all add: d' k y)
  then show "roundup v kPageSize = v" by (simp add: roundup_def word_unat_eq_iff)
qed

lemma pages_at_ok:
  assumes "4096 dvd unat f" and "0 < N" and "unat f + N * 4096 + 4096 < 2 ^ 64"
  shows "page_range_ok (pages_at f N)" "range_size (pages_at f N) = of_nat N * kPageSize" "rfront (pages_at f N) = f"
    "unat (rback (pages_at f N)) = unat f + N * 4096"
proof -
  have u: "unat (of_nat N * kPageSize :: u64) = N * 4096" using assms(3) by (intro unat_page_bytes) simp
  have b: "unat (f + of_nat N * kPageSize) = unat f + N * 4096" using assms(3) by (subst unat_add_small) (simp_all add: u)
  show "range_size (pages_at f N) = of_nat N * kPageSize" "rfront (pages_at f N) = f" "unat (rback (pages_at f N)) = unat f + N * 4096"
    by (simp_all add: pages_at_def range_of_def range_size_def b)
  have ne: "f \<noteq> f + of_nat N * kPageSize" using b assms(2) by (metis add_left_cancel mult_is_0 nat_neq_iff zero_neq_numeral add_0_right)
  have d: "4096 dvd unat (f + of_nat N * kPageSize)" unfolding b using assms(1) by simp
  have al: "rounddown f kPageSize = f" "roundup (f + of_nat N * kPageSize) kPageSize = f + of_nat N * kPageSize"
    using aligned_unchanged(1) [OF assms(1)] aligned_unchanged(2) [OF d] assms(3) b by simp_all
  show "page_range_ok (pages_at f N)"
    using ne al by (simp add: page_range_ok_def pages_at_def range_of_def isEmpty_def alignedOut_def)
qed


lemma ga_live:
  assumes "live h p = Some (a, s)"
  shows "ga_address h (Some p) = Some a" "ga_size h (Some p) = Some s" "ga_range h (Some p) = Some (range_of a s)"
  using assms by (auto simp: live_def ga_address_def ga_size_def ga_range_def split: option.splits if_splits)

lemma aligned_mod: "4096 dvd unat v \<Longrightarrow> isAlignedTo v kPageSize" for v :: u64
  unfolding isAlignedTo_def by (simp add: kPageSize_def unat_mod_distrib word_unat_eq_iff)

lemma live_mapping_ok:
  assumes ok: "heap_ok base h" and ar: "area_ok base (unat (mSize h))" and l: "live h p = Some (a, of_nat N * kPageSize)"
    and w: "4096 dvd unat a" and fr: "frames pb f N"
  shows "mapping_ok pb \<lparr>am_vaddr = a, am_paddr = f, am_size = of_nat N * kPageSize\<rparr> N" "unat (of_nat N * kPageSize :: u64) = N * 4096"
    "whole (a, of_nat N * kPageSize)"
proof -
  have "unat f + N * 4096 + 2 ^ 21 < 2 ^ 64" using fr by (simp add: frames_def)
  then show u: "unat (of_nat N * kPageSize :: u64) = N * 4096" by (intro unat_page_bytes) linarith
  then show wh: "whole (a, of_nat N * kPageSize)" using w by (simp add: whole_def)
  show "mapping_ok pb \<lparr>am_vaddr = a, am_paddr = f, am_size = of_nat N * kPageSize\<rparr> N"
    using span_in_area [OF ok ar l wh] fr w u by (simp add: mapping_ok_def page_aligned_def frames_def)
qed

lemma request_valid:
  assumes "4096 dvd unat a" "4096 dvd unat f" "0 < N" "N * 4096 < 2 ^ 64" "flags \<noteq> eNone"
  shows "isPageMappingRequestInputValid \<lparr>am_vaddr = a, am_paddr = f, am_size = of_nat N * kPageSize\<rparr> flags"
proof -
  have u: "unat (of_nat N * kPageSize :: u64) = N * 4096" by (rule unat_page_bytes [OF assms(4)])
  then have "(of_nat N * kPageSize :: u64) \<noteq> 0" using assms(3) by (metis mult_is_0 not_gr_zero unat_0 zero_neq_numeral)
  moreover have "isAlignedTo (of_nat N * kPageSize :: u64) kPageSize" using u by (intro aligned_mod) simp
  ultimately show ?thesis using assms(1,2,5) aligned_mod by (simp add: isPageMappingRequestInputValid_def)
qed

text \<open>A new allocation lies on pages that are not mapped.\<close>

lemma fresh_span:
  assumes inv: "as_inv base S" and ok: "heap_ok base h" and sz: "mSize h = mSize (as_heap S)" and sub: "live (as_heap S) \<subseteq>\<^sub>m live h"
    and q: "live h q = Some (a, s)" "live (as_heap S) q = None" and w: "whole (a, s)" and x: "x \<in> span a s"
  shows "view (as_tables S) x = None"
proof (rule ccontr)
  assume v: "view (as_tables S) x \<noteq> None"
  note I = as_invD [OF inv]
  have ar: "area_ok base (unat (mSize h))" using I(4) sz by simp
  have "x \<in> managed base (unat (mSize (as_heap S)))" using span_in_area(1) [OF ok ar q(1) w] x sz by auto
  then obtain r a' s' where r: "live (as_heap S) r = Some (a', s')" "x \<in> span a' s'" using I(6) v by blast
  then have "live h r = Some (a', s')" "r \<noteq> q" using sub q(2) by (auto simp: map_le_def dom_def)
  then show False using heap_spans_apart [OF ok ar q(1) _ _ w I(5) [OF r(1)]] r(2) x by blast
qed

text \<open>The invariant after allocations were added, one of which, \<open>p\<close>, was mapped.\<close>

lemma as_inv_mapped:
  assumes inv: "as_inv base S" and ok: "heap_ok base h" and sz: "mSize h = mSize (as_heap S)"
    and l: "live (as_heap S) p = None" "live (as_heap S) \<subseteq>\<^sub>m live h" "live h p = Some (a, s)"
    and wh: "\<And>q a' s'. live h q = Some (a', s') \<Longrightarrow> whole (a', s')" and T: "pt_inv T []"
    and out: "\<forall>x < 2 ^ 36. x \<notin> span a s \<longrightarrow> view T x = view (as_tables S) x"
  shows "as_inv base \<lparr>as_locked = False, as_tables = T, as_heap = h\<rparr>"
proof -
  note I = as_invD [OF inv]
  have ar: "area_ok base (unat (mSize h))" using I(4) sz by simp
  have old: "live h q = Some (a', s')" if "live (as_heap S) q = Some (a', s')" for q a' s' using that l(2) by (auto simp: map_le_def dom_def)
  have apart: "span a' s' \<inter> span a'' s'' = {}" if "live h q = Some (a', s')" "live h r = Some (a'', s'')" "q \<noteq> r" for q r a' s' a'' s''
    by (rule heap_spans_apart [OF ok ar that wh [OF that(1)] wh [OF that(2)]])
  have fresh: "view (as_tables S) x = None" if q: "live h q = Some (a', s')" "live (as_heap S) q = None" and x: "x \<in> span a' s'" for x q a' s'
    by (rule fresh_span [OF inv ok sz l(2) q wh [OF q(1)] x])
  have in36: "x < 2 ^ 36" if "live h q = Some (a', s')" "x \<in> span a' s'" for q a' s' x
    using that span_in_area(2) [OF ok ar that(1) wh [OF that(1)]] by (simp add: span_def)
  have cover: "\<exists>q a' s'. live h q = Some (a', s') \<and> x \<in> span a' s'" if x: "x \<in> managed base (unat (mSize h))" "view T x \<noteq> None" for x
  proof (cases "x \<in> span a s")
    case False
    have "x < 2 ^ 36" using x(1) ar by (simp add: managed_def area_ok_def)
    then have "view (as_tables S) x \<noteq> None" using out False x(2) by simp
    then show ?thesis using I(6) x(1) sz old by (metis (no_types, lifting))
  qed (use l(3) in blast)
  have large: "{x div 512 * 512 ..< x div 512 * 512 + 512} \<subseteq> span a' s'"
    if q: "live h q = Some (a', s')" and x: "x \<in> span a' s'" "view T x = Some (eLarge, e)" for q a' s' x e
  proof (cases "q = p")
    case True
    then have e: "a' = a" "s' = s" using q l(3) by auto
    show ?thesis
    proof
      fix y assume y: "y \<in> {x div 512 * 512 ..< x div 512 * 512 + 512}"
      then have d: "y div 512 = x div 512" by auto
      have "x div 512 < 2 ^ 27" using in36 [OF q x(1)] by (simp add: div_less_iff_less_mult)
      then have "y < 2 ^ 36" using y by simp
      show "y \<in> span a' s'"
      proof (rule ccontr)
        assume ny: "y \<notin> span a' s'"
        have "view T y = Some (eLarge, e)" by (rule large_block [OF pt_invD(2) [OF T] x(2) d])
        then have "view (as_tables S) y = Some (eLarge, e)" using out ny e \<open>y < 2 ^ 36\<close> by simp
        then have "view (as_tables S) x = Some (eLarge, e)" by (rule large_block [OF pt_invD(2) [OF I(3)] _ d [symmetric]])
        then show False using fresh [OF l(3,1)] x(1) e by simp
      qed
    qed
  next
    case False
    have "x \<notin> span a s" using apart [OF q l(3) False] x(1) by blast
    then have v: "view (as_tables S) x = Some (eLarge, e)" using out x(2) in36 [OF q x(1)] by simp
    have "live (as_heap S) q \<noteq> None"
    proof
      assume "live (as_heap S) q = None"
      then show False using fresh [OF q _ x(1)] v by simp
    qed
    then obtain a0 s0 where "live (as_heap S) q = Some (a0, s0)" by auto
    then have "live (as_heap S) q = Some (a', s')" using old q by fastforce
    then show ?thesis using I(7) x(1) v by blast
  qed
  show ?thesis unfolding as_inv_def ran_def using ok T ar wh cover large by (simp, fastforce)
qed


lemma alloc_outcome:
  assumes inv: "as_inv base S" and rdy: "heap_ready base kPageSize sz (as_heap S)" and al: "aligned_alloc kPageSize sz (as_heap S) = Some (Some p, h)"
  obtains a where "heap_ok base h" "mSize h = mSize (as_heap S)" "live (as_heap S) p = None" "live h = (live (as_heap S))(p \<mapsto> (a, sz))"
    "4096 dvd unat a"
proof -
  obtain r h' where o: "aligned_alloc kPageSize sz (as_heap S) = Some (r, h')" "heap_ok base h'"
    "case r of None \<Rightarrow> live h' = live (as_heap S)
     | Some p \<Rightarrow> live (as_heap S) p = None \<and> (\<exists>a. a mod kPageSize = 0 \<and> live h' = (live (as_heap S))(p \<mapsto> (a, sz)))"
    using tlsf.alloc_law [OF as_invD(2) [OF inv] rdy] by blast
  have e: "r = Some p" "h' = h" using o(1) al by simp_all
  obtain a where a: "heap_ok base h" "live (as_heap S) p = None" "a mod kPageSize = 0" "live h = (live (as_heap S))(p \<mapsto> (a, sz))"
    using o(2,3) unfolding e option.case by metis
  have "unat a mod 4096 = 0" using a(3) using unat_mod_distrib [of a kPageSize] by (simp add: kPageSize_def)
  then have "4096 dvd unat a" by auto
  then show ?thesis using that a aligned_alloc_size [OF al] by blast
qed

lemma as_map_spec:
  assumes inv: "as_inv base S" and sup: "supply_ok (as_tables S)" and rdy: "heap_ready base kPageSize (of_nat N * kPageSize) (as_heap S)"
    and fr: "frames (mPageManager (as_tables S)) f N" and fl: "flags \<noteq> eNone"
    and al: "aligned_alloc kPageSize (of_nat N * kPageSize) (as_heap S) = Some (Some p, h)" and lp: "live h p = Some (a, s)"
    and tab: "allocateList (MaxPagesForMapping (pages_at a N)) (mAllocator (as_tables S)) = Some (Some l, A)"
    and few: "unat (MaxPagesForMapping (pages_at a N)) * 4096 < 2 ^ 64"
  shows "\<exists>S'. as_map (pages_at f N) flags type S = Some (OsStatusSuccess, Some p, S') \<and> as_inv base S' \<and> as_heap S' = h
    \<and> live (as_heap S) p = None \<and> live h = (live (as_heap S))(p \<mapsto> (a, of_nat N * kPageSize)) \<and> whole (a, of_nat N * kPageSize)
    \<and> same_env (as_tables S) (as_tables S')
    \<and> range_mapped (as_tables S) (as_tables S') \<lparr>am_vaddr = a, am_paddr = f, am_size = of_nat N * kPageSize\<rparr> flags 0 N"
proof -
  let ?s = "of_nat N * kPageSize :: u64" and ?T = "as_tables S"
  let ?m = "\<lparr>am_vaddr = a, am_paddr = f, am_size = ?s\<rparr>"
  note I = as_invD [OF inv]
  obtain a0 where h: "heap_ok base h" "mSize h = mSize (as_heap S)" "live (as_heap S) p = None" "live h = (live (as_heap S))(p \<mapsto> (a0, ?s))"
    "4096 dvd unat a0" by (rule alloc_outcome [OF inv rdy al])
  have a: "a0 = a" "s = ?s" using lp h(4) by auto
  have ar: "area_ok base (unat (mSize h))" using I(4) h(2) by simp
  have l: "live h p = Some (a, ?s)" using lp a by simp
  note M = live_mapping_ok [OF h(1) ar l _ fr] h(5) [unfolded a(1)]
  have u: "unat ?s = N * 4096" and w: "whole (a, ?s)" and mo: "mapping_ok (mPageManager ?T) ?m N" using M by auto
  have vr: "virtualRange ?m = pages_at a N" by (simp add: virtualRange_def pages_at_def range_of_def)
  have fr': "0 < N" "4096 dvd unat f" "unat f + N * 4096 + 2 ^ 21 < 2 ^ 64" using fr by (simp_all add: frames_def)
  note P = pages_at_ok [OF fr'(2,1)]
  have bd: "unat f + N * 4096 + 4096 < 2 ^ 64" "N * 4096 < 2 ^ 64" using fr'(3) by simp_all
  have sub: "live (as_heap S) \<subseteq>\<^sub>m live h" using h(3,4) by (auto simp: map_le_def dom_def)
  have ns: "view ?T (vpn a + j) = None" if j: "j < N" for j
    by (rule fresh_span [OF inv h(1,2) sub l h(3) w]) (use j u in \<open>simp add: span_def\<close>)
  obtain T' where T': "pt_map ?m flags type ?T = Some (OsStatusSuccess, T')" "pt_inv T' []" "same_env ?T T'" "range_mapped ?T T' ?m flags 0 N"
    using map_spec [OF I(3) sup mo fr'(1) request_valid [OF M(4) fr'(2,1) bd(2) fl], of l A type] ns tab few vr by auto
  have out: "\<forall>x < 2 ^ 36. x \<notin> span a ?s \<longrightarrow> view T' x = view ?T x"
    using T'(4) u by (auto simp: range_mapped_def span_def not_le)
  let ?S = "\<lparr>as_locked = False, as_tables = T', as_heap = h\<rparr>"
  have "as_map (pages_at f N) flags type S = Some (OsStatusSuccess, Some p, ?S)"
    using P [OF bd(1)] I(1) al T'(1) ga_live(1) [OF l]
    by (cases S) (simp add: as_map_def as_lock_def as_unlock_def Let_def)
  moreover have "as_inv base ?S"
  proof (rule as_inv_mapped [OF inv h(1-3) sub l _ T'(2) out])
    show "whole (a', s')" if "live h q = Some (a', s')" for q a' s' using that I(5) w h(4) a by (auto split: if_splits)
  qed
  ultimately show ?thesis using h(3,4) a w T'(3,4) by auto
qed


section \<open>Unmapping\<close>

lemma as_inv_unmapped:
  assumes inv: "as_inv base S" and ok: "heap_ok base h" and sz: "mSize h = mSize (as_heap S)"
    and l: "live (as_heap S) p = Some (a, s)" "live h = (live (as_heap S))(p := None)" and T: "pt_inv T []"
    and v: "\<forall>x < 2 ^ 36. view T x = (if x \<in> span a s then None else view (as_tables S) x)"
  shows "as_inv base \<lparr>as_locked = False, as_tables = T, as_heap = h\<rparr>"
proof -
  note I = as_invD [OF inv]
  have ar: "area_ok base (unat (mSize h))" using I(4) sz by simp
  have old: "q \<noteq> p" "live (as_heap S) q = Some (a', s')" "whole (a', s')" "span a' s' \<inter> span a s = {}" "span a' s' \<subseteq> {..< 2 ^ 36}"
    if q: "live h q = Some (a', s')" for q a' s'
  proof -
    show 1: "q \<noteq> p" "live (as_heap S) q = Some (a', s')" using q l(2) by (auto split: if_splits)
    show 2: "whole (a', s')" by (rule I(5) [OF 1(2)])
    show "span a' s' \<inter> span a s = {}" by (rule heap_spans_apart [OF I(2,4) 1(2) l(1) 1(1) 2 I(5) [OF l(1)]])
    show "span a' s' \<subseteq> {..< 2 ^ 36}" using span_in_area(2) [OF I(2,4) 1(2) 2] by (auto simp: span_def)
  qed
  have cover: "\<exists>q a' s'. live h q = Some (a', s') \<and> x \<in> span a' s'" if x: "x \<in> managed base (unat (mSize h))" "view T x \<noteq> None" for x
  proof -
    have "x < 2 ^ 36" using x(1) ar by (simp add: managed_def area_ok_def)
    then have n: "x \<notin> span a s" "view (as_tables S) x \<noteq> None" using v x(2) by (auto split: if_splits)
    then obtain q a' s' where q: "live (as_heap S) q = Some (a', s')" "x \<in> span a' s'" using I(6) x(1) sz n(2) by metis
    then have "q \<noteq> p" using n(1) l(1) by auto
    then show ?thesis using q l(2) by (metis fun_upd_other)
  qed
  have large: "{x div 512 * 512 ..< x div 512 * 512 + 512} \<subseteq> span a' s'"
    if q: "live h q = Some (a', s')" and x: "x \<in> span a' s'" "view T x = Some (eLarge, e)" for q a' s' x e
  proof -
    have "view (as_tables S) x = Some (eLarge, e)" using v x old(4,5) [OF q] by (auto split: if_splits)
    then show ?thesis using I(7) old(2) [OF q] x(1) by blast
  qed
  show ?thesis unfolding as_inv_def ran_def using ok T ar old(3) cover large by (simp, fastforce)
qed

text \<open>An allocation all of whose pages are mapped: its pages go, and its 2 MiB pages end where it ends.\<close>

definition all_mapped :: "PageTables \<Rightarrow> u64 \<Rightarrow> u64 \<Rightarrow> bool" where
  "all_mapped T a s \<longleftrightarrow> (\<forall>x \<in> span a s. view T x \<noteq> None)"

lemma whole_pages:
  assumes "4096 dvd unat (s :: u64)"
  shows "s = of_nat (unat s div 4096) * kPageSize"
proof -
  obtain z where z: "unat s = 4096 * z" using assms by blast
  have "unat s < 2 ^ 64" using unsigned_less [of s] by simp
  then have "unat (of_nat z * kPageSize :: u64) = z * 4096" using z by (intro unat_page_bytes) simp
  then show ?thesis using z by (simp add: word_unat_eq_iff)
qed

lemma unmap_span:
  assumes inv: "as_inv base S" and l: "live (as_heap S) p = Some (a, s)" and m: "all_mapped (as_tables S) a s"
  shows "\<exists>T. unmap (range_of a s) (as_tables S) = Some (OsStatusSuccess, T) \<and> pt_inv T [] \<and> same_env (as_tables S) T
    \<and> mAllocator T = mAllocator (as_tables S)
    \<and> (\<forall>x < 2 ^ 36. view T x = (if x \<in> span a s then None else view (as_tables S) x))"
proof -
  let ?N = "unat s div 4096" and ?r = "range_of a s" and ?T = "as_tables S"
  note I = as_invD [OF inv]
  have w: "4096 dvd unat a" "4096 dvd unat s" using I(5) [OF l] by (simp_all add: whole_def)
  note A = span_in_area [OF I(2,4) l I(5) [OF l]] and B = as_live_within [OF I(2) l]
  have s: "s = of_nat ?N * kPageSize" by (rule whole_pages [OF w(2)])
  have N: "0 < ?N" "?N * 4096 = unat s" using B(1) w(2) by (auto simp: dvd_imp_le div_greater_zero_iff)
  have f: "rfront ?r = a" by (simp add: range_of_def)
  have r: "pages_of ?r ?N" using w(1) A(2,3) N s by (simp add: pages_of_def range_of_def)
  have in_span: "vpn a + k \<in> span a s" if "k < ?N" for k using that by (simp add: span_def)
  have dirs: "range_dirs ?T (vpn a) (vpn a + ?N)"
    using m by (intro view_range_dirs [OF pt_invD(2) [OF I(3)]]) (auto simp: all_mapped_def span_def)
  have node: "pt_path x \<in> nodes ?T \<or> (\<exists>e. view ?T x = Some (eLarge, e))" if "x \<in> span a s" for x
    using dirs that by (auto simp: range_dirs_def span_def)
  have ends: "{x div 512 * 512 ..< x div 512 * 512 + 512} \<subseteq> span a s" if "x \<in> span a s" "pt_path x \<notin> nodes ?T" for x
    using node [OF that(1)] that I(7) [OF l that(1)] by blast
  have "clean_ends ?T (vpn a) ?N"
  proof -
    have lo: "vpn a mod 512 = 0" if "pt_path (vpn a) \<notin> nodes ?T"
    proof -
      have "vpn a div 512 * 512 \<in> span a s" using ends [of "vpn a"] in_span [of 0] N(1) that by (auto simp: subset_iff)
      then show ?thesis by (simp add: span_def) (metis le_add_same_cancel1 div_mult_mod_eq le_zero_eq nat_le_iff_add add_le_same_cancel1)
    qed
    have hi: "(vpn a + ?N) mod 512 = 0" if "pt_path (vpn a + ?N - 1) \<notin> nodes ?T"
    proof -
      obtain x where e: "vpn a + ?N = Suc x" using N(1) by (metis add_gr_0 gr0_conv_Suc)
      have x: "x \<in> span a s" "pt_path x \<notin> nodes ?T" using e N(1) that by (auto simp: span_def)
      have "x div 512 * 512 + 511 \<in> span a s" using ends [OF x] by (auto simp: subset_iff)
      then have "x div 512 * 512 + 511 \<le> x" using e by (simp add: span_def)
      moreover define d m where "d = x div 512" and "m = x mod 512"
      have "m < 512" "x = d * 512 + m" by (simp_all add: d_def m_def)
      ultimately have "Suc x = (d + 1) * 512" by (simp add: d_def [symmetric])
      then show ?thesis using e by (metis mod_mult_self2_is_0)
    qed
    show ?thesis unfolding clean_ends_def using lo hi by blast
  qed
  then obtain T where "unmap ?r ?T = Some (OsStatusSuccess, T)" "pt_inv T []" "same_env ?T T" "mAllocator T = mAllocator ?T"
    "\<forall>x < 2 ^ 36. view T x = (if vpn a \<le> x \<and> x < vpn a + ?N then None else view ?T x)"
    using unmap_spec [OF I(3) r N(1)] dirs f by auto
  then show ?thesis by (auto simp: span_def)
qed

end
