(* ===== verification/TlsfSplitv.thy ===== *)
theory TlsfSplitv
  imports TlsfFind
begin

text \<open>
  Splitting an allocation at two points, as the mapping of a stack with its guard pages does.
\<close>

text \<open>The block pool can give two blocks.\<close>

definition two_blocks :: "tlsf_heap \<Rightarrow> ptr \<Rightarrow> ptr \<Rightarrow> bool" where
  "two_blocks h n1 n2 \<longleftrightarrow> (\<exists>h1 h2. construct zero_block h = (Some n1, h1) \<and> construct zero_block h1 = (Some n2, h2))"

lemma construct_two:
  assumes inv: "tlsf_inv base h ps fl {}" and room: "pool_room 2 (mBlockPool h)"
    and c: "construct zero_block h = (Some n1, h1)" "construct zero_block h1 = (Some n2, h2)"
  shows "tlsf_core base h2 ps fl {n1, n2}" "n1 \<noteq> n2" "live h2 = live h" "live h n1 = None" "live h n2 = None"
    "apart (used h2) (ps @ [mNullBlock h2])" "mSize h2 = mSize h"
proof -
  have room2: "pool_room (Suc 1) (mBlockPool h)" using room by (simp add: numeral_2_eq_2)
  note A = construct_inv [OF inv room2 c(1)]
  have c1: "tlsf_core base h1 ps fl {n1}" and l1: "live h n1 = None" using A(6) by simp_all
  have r1: "pool_room (Suc 0) (mBlockPool h1)" using A(1) by simp
  have B: "tlsf_core base h2 ps fl {n2, n1}" "keeps (dom (blocks h1)) h1 h2" "n2 \<notin> dom (blocks h1)"
    using construct_core [OF c1 r1] c(2) by (auto simp: insert_commute)
  show "tlsf_core base h2 ps fl {n1, n2}" using B(1) by (simp add: insert_commute)
  show "n1 \<noteq> n2" using core_dom [OF c1] B(3) by auto
  have k: "keeps (set (ps @ [mNullBlock h1])) h1 h2" by (rule keeps_subset [OF B(2)]) (use core_dom [OF c1] in auto)
  show l2: "live h2 = live h" using keeps_live [OF c1 B(1) k] A(2) by simp
  show "live h n1 = None" by (rule l1)
  have "live h1 n2 = None" using B(3) by (auto simp: live_alt)
  then show "live h n2 = None" using A(2) by simp
  show "apart (used h2) (ps @ [mNullBlock h2])"
    using keeps_apart [OF k] A(4) keepsD(5) [OF k] by simp
  have "mSize h1 = mSize h" using construct_core [OF inv_core [OF inv] room2] c(1) by (auto dest: keepsD(1))
  then show "mSize h2 = mSize h" using keepsD(1) [OF k] by simp
qed

lemma splitv_two:
  assumes ok: "heap_ok base h" and room: "pool_room 2 (mBlockPool h)" and two: "two_blocks h n1 n2" and l: "live h p = Some (a, s)"
    and k: "0 < unat x" "unat x < unat y" "unat y < unat s"
  shows "\<exists>h'. splitv (Some p) [a + x, a + y] [None, None, None] h = Some (OsStatusSuccess, [Some p, Some n1, Some n2], h')
    \<and> heap_ok base h' \<and> live h' = (live h)(p \<mapsto> (a, x), n1 \<mapsto> (a + x, y - x), n2 \<mapsto> (a + y, s - y)) \<and> mSize h' = mSize h
    \<and> n1 \<noteq> n2 \<and> live h n1 = None \<and> live h n2 = None"
proof -
  obtain ps fl where inv: "tlsf_inv base h ps fl {}" using ok by (auto simp: heap_ok_def)
  obtain h1 h2 where c: "construct zero_block h = (Some n1, h1)" "construct zero_block h1 = (Some n2, h2)" using two by (auto simp: two_blocks_def)
  note T = construct_two [OF inv room c]
  have pn: "p \<noteq> n1" "p \<noteq> n2" using l T(4,5) by auto
  have bnd: "unat a + unat s < 2 ^ 64" using live_within(3) [OF inv l] inv_bound [OF inv] by simp
  have u: "unat (a + x) = unat a + unat x" "unat (a + y) = unat a + unat y" "unat (a + s) = unat a + unat s" "unat (y - x) = unat y - unat x"
    "unat (s - x) = unat s - unat x"
    using bnd k by (auto intro!: unat_add_small unat_sub_le)
  have l2: "live h2 p = Some (a, s)" using l T(3) by simp
  obtain h3 ps3 where s3: "splitBlock p (a + x) n1 h2 = Some (p, n1, h3)" "tlsf_core base h3 ps3 fl {n2}"
    "apart (used h3) (ps3 @ [mNullBlock h3])" "live h3 = (live h)(p \<mapsto> (a, x), n1 \<mapsto> (a + x, s - x))" "mSize h3 = mSize h2"
    using splitBlock_core [OF T(1,6) _ l2 k(1), of n1] k T(2,3) by (auto simp: insert_Diff_if)
  have l3: "live h3 n1 = Some (a + x, s - x)" using s3(4) by simp
  have d: "unat y - unat x < unat s - unat x" using k by linarith
  obtain h4 ps4 where s4: "splitBlock n1 (a + y) n2 h3 = Some (n1, n2, h4)" "tlsf_core base h4 ps4 fl {}" "apart (used h4) (ps4 @ [mNullBlock h4])"
    "live h4 = (live h3)(n1 \<mapsto> (a + x, y - x), n2 \<mapsto> (a + y, s - y))" "mSize h4 = mSize h3"
    using splitBlock_core [OF s3(2,3) _ l3, of n2 "y - x"] k u d by auto
  have ok4: "heap_ok base h4" using s4(2,3) by (auto simp: heap_ok_def tlsf_inv_def)
  have rng: "allocation_range h p = Some (range_of a s)" by (rule allocation_range_live [OF l])
  have con: "contains_addr (range_of a s) (a + x)" "contains_addr (range_of a s) (a + y)" "a + x \<le> a + y" "a + x \<noteq> a + y" "a \<noteq> a + x" "a \<noteq> a + y"
    "a + s \<noteq> a + x" "a + s \<noteq> a + y"
    using k u by (auto simp: contains_addr_def range_of_def word_less_nat_alt word_le_nat_alt word_unat_eq_iff)
  have "splitv (Some p) [a + x, a + y] [None, None, None] h = Some (OsStatusSuccess, [Some p, Some n1, Some n2], h4)"
    using con rng c s3(1) s4(1)
    by (simp add: splitv_def numeral_2_eq_2 span_set_def span_get_def numeral_3_eq_3 range_of_def)
  moreover have "live h4 = (live h)(p \<mapsto> (a, x), n1 \<mapsto> (a + x, y - x), n2 \<mapsto> (a + y, s - y))"
    using s4(4) s3(4) by (simp add: fun_upd_twist)
  ultimately show ?thesis using ok4 s4(5) s3(5) T by auto
qed

end
