(* ===== verification/AddressSpaceSpec.thy ===== *)
theory AddressSpaceSpec
  imports AddressSpaceInv TlsfSplitv
begin

text \<open>
  What a client of an address space sees: mapping, unmapping, their failures, and the places where an error
  path does not do what it is meant to.
\<close>

section \<open>Failures\<close>

lemma allocateList_refuses: "allocateList n A = Some (None, A') \<Longrightarrow> A' = A"
  unfolding allocateList_def by (auto split: if_splits option.splits prod.splits simp: bind_eq_Some_conv)

lemma pt_allocateList_refuses: "pt_allocateList n S = Some (None, S') \<Longrightarrow> S' = S"
  unfolding pt_allocateList_def by (auto simp: bind_eq_Some_conv dest: allocateList_refuses)

lemma allocatePageTables_refuses:
  assumes "pt_inv S []" and "allocatePageTables r S = Some (status, l, e, S')" and "status \<noteq> OsStatusSuccess"
  shows "pt_inv S' [] \<and> same_env S S' \<and> view S' = view S"
proof -
  obtain n S1 where c: "compactUnlocked S = Some (n, S1)" "compacted S S1 [] [] {..<512} n"
    using compactUnlocked_spec [OF assms(1)] by blast
  have "S' = S1" using assms(2,3) c(1) unfolding allocatePageTables_def Let_def
    by (auto simp: bind_eq_Some_conv split: option.splits prod.splits dest!: pt_allocateList_refuses)
  then show ?thesis using compactedD(1-3) [OF c(2)] by simp
qed

lemma pt_map_refuses:
  assumes "pt_inv S []" and "pt_map m flags type S = Some (status, S')" and "status \<noteq> OsStatusSuccess"
  shows "pt_inv S' [] \<and> same_env S S' \<and> view S' = view S"
proof -
  consider "S' = S" | r l e where "allocatePageTables r S = Some (status, l, e, S')"
    using assms(2,3) unfolding pt_map_def map_request_def request_create_def Let_def
    by (auto simp: bind_eq_Some_conv split: option.splits prod.splits if_splits)
  then show ?thesis using assms(1,3) allocatePageTables_refuses by cases (auto simp: same_env_def)
qed

text \<open>The heap and the tables of an address space may change as long as allocations and translations stay.\<close>

lemma as_inv_cong:
  assumes "as_inv base S" and "heap_ok base h" "mSize h = mSize (as_heap S)" "live h = live (as_heap S)"
    and "pt_inv T []" "view T = view (as_tables S)"
  shows "as_inv base \<lparr>as_locked = False, as_tables = T, as_heap = h\<rparr>"
  using assms unfolding as_inv_def by simp

lemma as_eta: "\<lparr>as_locked = as_locked S, as_tables = as_tables S, as_heap = as_heap S\<rparr> = S"
  by simp

lemma as_map_refuses:
  assumes inv: "as_inv base S" and rdy: "heap_ready base kPageSize (range_size memory) (as_heap S)"
    and m: "as_map memory flags type S = Some (status, r, S')" and st: "status \<noteq> OsStatusSuccess"
  shows "r = None \<and> as_inv base S' \<and> live (as_heap S') = live (as_heap S) \<and> view (as_tables S') = view (as_tables S)
    \<and> same_env (as_tables S) (as_tables S')"
proof (cases "page_range_ok memory")
  case False
  then show ?thesis using m inv by (auto simp: as_map_def same_env_def)
next
  case True
  note I = as_invD [OF inv]
  obtain x h where al: "aligned_alloc kPageSize (range_size memory) (as_heap S) = Some (x, h)" "heap_ok base h"
    "case x of None \<Rightarrow> live h = live (as_heap S)
     | Some p \<Rightarrow> live (as_heap S) p = None \<and> (\<exists>a. a mod kPageSize = 0 \<and> live h = (live (as_heap S))(p \<mapsto> (a, range_size memory)))"
    using tlsf.alloc_law [OF I(2) rdy] by blast
  have sz: "mSize h = mSize (as_heap S)" by (rule aligned_alloc_size [OF al(1)])
  show ?thesis
  proof (cases x)
    case None
    then have "r = None" "S' = \<lparr>as_locked = False, as_tables = as_tables S, as_heap = h\<rparr>"
      using m True I(1) al(1) by (cases S; auto simp: as_map_def as_lock_def as_unlock_def)+
    then show ?thesis using as_inv_cong [OF inv al(2) sz _ I(3) refl] al(3) None by (simp add: same_env_def)
  next
    case (Some p)
    then obtain a where a: "live (as_heap S) p = None" "live h = (live (as_heap S))(p \<mapsto> (a, range_size memory))" using al(3) by auto
    have l: "live h p = Some (a, range_size memory)" using a(2) by simp
    obtain h' where h': "TlsfHeap.free (Some p) h = Some h'" "heap_ok base h'" "live h' = (live h)(p := None)"
      using tlsf.dealloc_law [OF al(2) l] by blast
    have l': "live h' = live (as_heap S)" using h'(3) a by (simp add: fun_upd_idem)
    have sz': "mSize h' = mSize (as_heap S)" using free_size [OF h'(1)] sz by simp
    obtain T where T: "pt_map \<lparr>am_vaddr = a, am_paddr = rfront memory, am_size = range_size memory\<rparr> flags type (as_tables S) = Some (status, T)"
      "r = None" "S' = \<lparr>as_locked = False, as_tables = T, as_heap = h'\<rparr>"
      using m st True I(1) al(1) Some h'(1) ga_live(1) [OF l]
      by (cases S) (auto simp: as_map_def as_lock_def as_unlock_def Let_def bind_eq_Some_conv KM_CHECK_def split: if_splits)
    note R = pt_map_refuses [OF I(3) T(1) st]
    show ?thesis using R T(2,3) l' as_inv_cong [OF inv h'(2) sz' l', of T] by simp
  qed
qed

section \<open>Unmapping\<close>

lemma as_unmap_spec:
  assumes inv: "as_inv base S" and l: "live (as_heap S) p = Some (a, s)" and m: "all_mapped (as_tables S) a s"
  shows "\<exists>S'. as_unmap (Some p) S = Some (OsStatusSuccess, S') \<and> as_unmap_range (range_of a s) S = Some (OsStatusSuccess, S')
    \<and> as_inv base S' \<and> live (as_heap S') = (live (as_heap S))(p := None) \<and> same_env (as_tables S) (as_tables S')
    \<and> (\<forall>x < 2 ^ 36. view (as_tables S') x = (if x \<in> span a s then None else view (as_tables S) x))"
proof -
  note I = as_invD [OF inv]
  obtain T where T: "unmap (range_of a s) (as_tables S) = Some (OsStatusSuccess, T)" "pt_inv T []" "same_env (as_tables S) T"
    "\<forall>x < 2 ^ 36. view T x = (if x \<in> span a s then None else view (as_tables S) x)" using unmap_span [OF assms] by blast
  obtain h where h: "TlsfHeap.free (Some p) (as_heap S) = Some h" "heap_ok base h" "live h = (live (as_heap S))(p := None)"
    using tlsf.dealloc_law [OF I(2) l] by blast
  have w: "4096 dvd unat a" "4096 dvd unat s" using I(5) [OF l] by (simp_all add: whole_def)
  let ?N = "unat s div 4096"
  have s: "s = of_nat ?N * kPageSize" by (rule whole_pages [OF w(2)])
  have N: "0 < ?N" "?N * 4096 = unat s" using as_live_within(1) [OF I(2) l] w(2) by (auto simp: dvd_imp_le div_greater_zero_iff)
  have r: "range_of a s = pages_at a ?N" using s by (simp add: pages_at_def)
  have ok: "page_range_ok (range_of a s)" "rfront (range_of a s) = a"
    using pages_at_ok [OF w(1) N(1)] span_in_area(3) [OF I(2,4) l I(5) [OF l]] N(2) unfolding r by simp_all
  let ?S = "\<lparr>as_locked = False, as_tables = T, as_heap = h\<rparr>"
  have 1: "as_unmap (Some p) S = Some (OsStatusSuccess, ?S)"
    using T(1) h(1) I(1) ga_live(3) [OF l] by (cases S) (simp add: as_unmap_def as_lock_def as_unlock_def)
  have 2: "as_unmap_range (range_of a s) S = Some (OsStatusSuccess, ?S)"
    using T(1) h(1) I(1) ok findAllocation_live [OF I(2) l] by (cases S) (simp add: as_unmap_range_def as_lock_def as_unlock_def)
  have "as_inv base ?S" by (rule as_inv_unmapped [OF inv h(2) free_size [OF h(1)] l h(3) T(2,4)])
  then show ?thesis using 1 2 T(3,4) h(3) by auto
qed

section \<open>An example\<close>

definition example_vmem :: range where
  "example_vmem = \<lparr>rfront = 0x7000000, rback = 0x7010000\<rparr>"

definition example_as :: AddressSpace where
  "example_as = \<lparr>as_locked = False, as_tables = example_pt, as_heap = the (snd (the (create [True, True, True] example_vmem)))\<rparr>"

definition example_mapped :: tlsf_heap where
  "example_mapped = snd (the (aligned_alloc kPageSize 0x3000 (as_heap example_as)))"

lemma example_as_fields: "as_tables example_as = example_pt" "\<not> as_locked example_as"
  by (simp_all add: example_as_def)

lemma example_as_heap: "heap_ok 0x7000000 (as_heap example_as)" "live (as_heap example_as) = Map.empty" "mSize (as_heap example_as) = 0x10000"
proof -
  have "fst (the (create [True, True, True] example_vmem)) = OsStatusSuccess" by code_simp
  then obtain h where "create [True, True, True] example_vmem = Some (OsStatusSuccess, Some h)" "tlsf_inv 0x7000000 h [] (\<lambda>_. []) {}"
    "live h = Map.empty" "mSize h = 0x10000"
    using create_inv [of example_vmem "[True, True, True]"] by (auto simp: example_vmem_def range_size_def)
  then show "heap_ok 0x7000000 (as_heap example_as)" "live (as_heap example_as) = Map.empty" "mSize (as_heap example_as) = 0x10000"
    unfolding heap_ok_def by (auto simp: example_as_def)
qed

lemma example_as_inv: "as_inv 0x7000000 example_as"
  using example_as_heap example_ok(1,3) by (simp add: as_inv_def example_as_fields area_ok_def)

lemma example_as_ready: "heap_ready 0x7000000 kPageSize (of_nat 3 * kPageSize) (as_heap example_as)"
proof -
  have "nextBlockCapacity (mBlockPool (as_heap example_as)) = 24" by code_simp
  then show ?thesis using example_as_heap by (simp add: heap_ready_def pool_room_def request_ok_def kPageSize_def)
qed

lemma example_mapped: "aligned_alloc kPageSize (of_nat 3 * kPageSize) (as_heap example_as) = Some (Some (Slot 0 0), example_mapped)"
  "live example_mapped (Slot 0 0) = Some (0x7000000, 0x3000)"
proof -
  have "fst (the (aligned_alloc kPageSize 0x3000 (as_heap example_as))) = Some (Slot 0 0)" by code_simp
  then show "aligned_alloc kPageSize (of_nat 3 * kPageSize) (as_heap example_as) = Some (Some (Slot 0 0), example_mapped)"
    using tlsf.alloc_law [OF example_as_heap(1) example_as_ready]
    by (auto simp: example_mapped_def kPageSize_def)
  show "live example_mapped (Slot 0 0) = Some (0x7000000, 0x3000)" by code_simp
qed

lemma example_as_tables:
  obtains l A where "allocateList (MaxPagesForMapping (pages_at 0x7000000 3)) (mAllocator (as_tables example_as)) = Some (Some l, A)"
    "unat (MaxPagesForMapping (pages_at 0x7000000 3)) * 4096 < 2 ^ 64"
proof -
  have "pages_at 0x7000000 3 = virtualRange example_pages"
    by (simp add: pages_at_def virtualRange_def range_of_def example_pages_def kPageSize_def)
  then show ?thesis using that example_reserve example_max by (auto simp: example_as_fields split: option.splits prod.splits)
qed

lemma example_frames: "frames (mPageManager (as_tables example_as)) 0x9000000 3"
  by (auto simp: frames_def example_as_fields example_ok kPageSize_def unat_word_ariths unat_of_nat intro!: example_frame dvd_mod)

section \<open>The public operations\<close>

text \<open>What \<^verbatim>\<open>map\<close> needs: room in the heap's block pool, physical memory that can be addressed, and enough pages for tables.\<close>

definition map_ready :: "nat \<Rightarrow> AddressSpace \<Rightarrow> u64 \<Rightarrow> nat \<Rightarrow> PageFlags \<Rightarrow> bool" where
  "map_ready base S f N flags \<longleftrightarrow> as_inv base S \<and> supply_ok (as_tables S) \<and> heap_ready base kPageSize (of_nat N * kPageSize) (as_heap S)
     \<and> frames (mPageManager (as_tables S)) f N \<and> flags \<noteq> eNone"

definition tables_ready :: "AddressSpace \<Rightarrow> u64 \<Rightarrow> nat \<Rightarrow> bool" where
  "tables_ready S a N \<longleftrightarrow> unat (MaxPagesForMapping (pages_at a N)) * 4096 < 2 ^ 64
     \<and> (\<exists>l A. allocateList (MaxPagesForMapping (pages_at a N)) (mAllocator (as_tables S)) = Some (Some l, A))"

lemma as_map_outcome:
  assumes "map_ready base S f N flags"
    and al: "aligned_alloc kPageSize (of_nat N * kPageSize) (as_heap S) = Some (Some p, h)" and "live h p = Some (a, s)" and "tables_ready S a N"
  shows "\<exists>S'. as_map (pages_at f N) flags type S = Some (OsStatusSuccess, Some p, S') \<and> as_inv base S' \<and> live (as_heap S) p = None
    \<and> live (as_heap S') = (live (as_heap S))(p \<mapsto> (a, of_nat N * kPageSize)) \<and> unat (of_nat N * kPageSize :: u64) = N * 4096
    \<and> translates (as_tables S') \<lparr>am_vaddr = a, am_paddr = f, am_size = of_nat N * kPageSize\<rparr>
    \<and> (\<forall>x \<in> span a (of_nat N * kPageSize). view (as_tables S) x = None \<and> view (as_tables S') x \<noteq> None)
    \<and> (\<forall>x < 2 ^ 36. x \<notin> span a (of_nat N * kPageSize) \<longrightarrow> view (as_tables S') x = view (as_tables S) x)
    \<and> same_env (as_tables S) (as_tables S')"
proof -
  let ?s = "of_nat N * kPageSize :: u64"
  let ?m = "\<lparr>am_vaddr = a, am_paddr = f, am_size = ?s\<rparr>"
  have R: "as_inv base S" "supply_ok (as_tables S)" "heap_ready base kPageSize ?s (as_heap S)"
    "frames (mPageManager (as_tables S)) f N" "flags \<noteq> eNone" using assms(1) by (simp_all add: map_ready_def)
  obtain l A where t: "allocateList (MaxPagesForMapping (pages_at a N)) (mAllocator (as_tables S)) = Some (Some l, A)"
    "unat (MaxPagesForMapping (pages_at a N)) * 4096 < 2 ^ 64" using assms(4) by (auto simp: tables_ready_def)
  obtain S' where S': "as_map (pages_at f N) flags type S = Some (OsStatusSuccess, Some p, S')" "as_inv base S'" "as_heap S' = h"
    "live (as_heap S) p = None" "live h = (live (as_heap S))(p \<mapsto> (a, ?s))" "whole (a, ?s)"
    "same_env (as_tables S) (as_tables S')" "range_mapped (as_tables S) (as_tables S') ?m flags 0 N"
    using as_map_spec [OF R al assms(3) t, of type] by blast
  note I = as_invD [OF S'(2)]
  have l: "live (as_heap S') p = Some (a, ?s)" using S'(3,5) by simp
  have mo: "mapping_ok (mPageManager (as_tables S)) ?m N" and u: "unat ?s = N * 4096"
    using live_mapping_ok [OF I(2,4) l _ R(4)] S'(6) by (simp_all add: whole_def)
  have tr: "translates (as_tables S') ?m" using range_mapped_translates [OF _ pt_invD(2) [OF I(3)] S'(8)] mo by (simp add: mapping_ok_def)
  have new: "view (as_tables S') x \<noteq> None" if x: "x \<in> span a ?s" for x
  proof -
    obtain j where "x = vpn a + j" "j < N" using x u by (auto simp: span_def nat_le_iff_add)
    then show ?thesis using S'(8) by (auto simp: range_mapped_def mapped_def)
  qed
  have sub: "live (as_heap S) \<subseteq>\<^sub>m live (as_heap S')" using S'(3-5) by (auto simp: map_le_def dom_def)
  have fresh: "view (as_tables S) x = None" if x: "x \<in> span a ?s" for x
    by (rule fresh_span [OF R(1) I(2) _ sub l S'(4,6) x]) (simp add: S'(3) aligned_alloc_size [OF al])
  have out: "\<forall>x < 2 ^ 36. x \<notin> span a ?s \<longrightarrow> view (as_tables S') x = view (as_tables S) x"
    using S'(8) u by (auto simp: range_mapped_def span_def not_le)
  show ?thesis using S'(1-5,7) tr u new fresh out by auto
qed

lemma backing_unchanged:
  assumes "as_inv base S" "as_inv base' S'" "same_env (as_tables S) (as_tables S')" "view (as_tables S') (vpn v) = view (as_tables S) (vpn v)"
  shows "getBackingAddressUnlocked v (as_tables S') = getBackingAddressUnlocked v (as_tables S)"
  by (rule backing_cong [OF pt_invD(2) [OF as_invD(3) [OF assms(1)]] pt_invD(2) [OF as_invD(3) [OF assms(2)]] assms(3,4)])

lemma backing_gone:
  assumes "as_inv base S" "view (as_tables S) (vpn v) = None"
  shows "getBackingAddressUnlocked v (as_tables S) = Some invalid_address"
  by (rule backing_none [OF pt_invD(2) [OF as_invD(3) [OF assms(1)]] assms(2)])

lemma example_map_ready: "map_ready 0x7000000 example_as 0x9000000 3 7" "tables_ready example_as 0x7000000 3"
proof -
  obtain l A where t: "allocateList (MaxPagesForMapping (pages_at 0x7000000 3)) (mAllocator (as_tables example_as)) = Some (Some l, A)"
    "unat (MaxPagesForMapping (pages_at 0x7000000 3)) * 4096 < 2 ^ 64" by (rule example_as_tables)
  show "map_ready 0x7000000 example_as 0x9000000 3 7" "tables_ready example_as 0x7000000 3"
    using example_as_inv example_as_ready example_frames t
    by (auto simp: map_ready_def tables_ready_def example_as_fields example_ok eNone_def)
qed

text \<open>The example after the mapping.\<close>

lemma example_as_mapped:
  obtains S where "as_map (pages_at 0x9000000 3) 7 eWriteBack example_as = Some (OsStatusSuccess, Some (Slot 0 0), S)" "as_inv 0x7000000 S"
    "live (as_heap S) (Slot 0 0) = Some (0x7000000, 0x3000)" "all_mapped (as_tables S) 0x7000000 0x3000"
    "translates (as_tables S) \<lparr>am_vaddr = 0x7000000, am_paddr = 0x9000000, am_size = 0x3000\<rparr>"
  using as_map_outcome [OF example_map_ready(1) example_mapped example_map_ready(2), of eWriteBack]
  by (auto simp: all_mapped_def kPageSize_def)

text \<open>
  C5. When the heap has an address range for the request and the allocator of page tables has enough pages for it, mapping
  physical memory never panics and succeeds: the result is a new allocation that meets no other, each byte of it translates to the byte of
  the memory, no address outside of it changes its translation, and the invariant of the address space is kept.
\<close>

theorem as_map_correct:
  assumes "map_ready base S f N flags"
    and "aligned_alloc kPageSize (of_nat N * kPageSize) (as_heap S) = Some (Some p, h)" and "live h p = Some (a, s)" and "tables_ready S a N"
  shows "\<exists>S'. as_map (pages_at f N) flags type S = Some (OsStatusSuccess, Some p, S') \<and> as_inv base S'
    \<and> live (as_heap S) p = None \<and> live (as_heap S') = (live (as_heap S))(p \<mapsto> (a, of_nat N * kPageSize))
    \<and> translates (as_tables S') \<lparr>am_vaddr = a, am_paddr = f, am_size = of_nat N * kPageSize\<rparr>
    \<and> (\<forall>v. vpn v \<notin> span a (of_nat N * kPageSize)
          \<longrightarrow> getBackingAddressUnlocked v (as_tables S') = getBackingAddressUnlocked v (as_tables S))"
proof -
  have inv: "as_inv base S" using assms(1) by (simp add: map_ready_def)
  show ?thesis using as_map_outcome [OF assms] backing_unchanged [OF inv] vpn_less by blast
qed

theorem as_map_correct_witness:
  "\<exists>S'. as_map (pages_at 0x9000000 3) 7 eWriteBack example_as = Some (OsStatusSuccess, Some (Slot 0 0), S')
     \<and> getBackingAddressUnlocked 0x7001234 (as_tables S') = Some 0x9001234"
proof -
  from as_map_correct [OF example_map_ready(1) example_mapped example_map_ready(2), of eWriteBack] obtain S' where
    S': "as_map (pages_at 0x9000000 3) 7 eWriteBack example_as = Some (OsStatusSuccess, Some (Slot 0 0), S')"
    "translates (as_tables S') \<lparr>am_vaddr = 0x7000000, am_paddr = 0x9000000, am_size = of_nat 3 * kPageSize\<rparr>" by blast
  have "getBackingAddressUnlocked (0x7000000 + of_nat 0x1234) (as_tables S') = Some (0x9000000 + of_nat 0x1234)"
    using S'(2) by (auto simp: translates_def kPageSize_def dest!: spec [of _ "0x1234"])
  then show ?thesis using S'(1) by auto
qed

text \<open>
  C6. Unmapping an allocation whose pages are all mapped never panics and succeeds, by its handle and by its range alike: the allocation is gone,
  none of its addresses translates any more, and no other allocation and no other translation changes.
\<close>

theorem as_unmap_correct:
  assumes "as_inv base S" and "live (as_heap S) p = Some (a, s)" and "all_mapped (as_tables S) a s"
  shows "\<exists>S'. as_unmap (Some p) S = Some (OsStatusSuccess, S') \<and> as_unmap_range (range_of a s) S = Some (OsStatusSuccess, S')
    \<and> as_inv base S' \<and> live (as_heap S') = (live (as_heap S))(p := None)
    \<and> (\<forall>v. getBackingAddressUnlocked v (as_tables S') =
          (if vpn v \<in> span a s then Some invalid_address else getBackingAddressUnlocked v (as_tables S)))"
proof -
  obtain S' where S': "as_unmap (Some p) S = Some (OsStatusSuccess, S')" "as_unmap_range (range_of a s) S = Some (OsStatusSuccess, S')"
    "as_inv base S'" "live (as_heap S') = (live (as_heap S))(p := None)" "same_env (as_tables S) (as_tables S')"
    "\<forall>x < 2 ^ 36. view (as_tables S') x = (if x \<in> span a s then None else view (as_tables S) x)"
    using as_unmap_spec [OF assms] by blast
  have "getBackingAddressUnlocked v (as_tables S') =
      (if vpn v \<in> span a s then Some invalid_address else getBackingAddressUnlocked v (as_tables S))" for v
    using S'(6) vpn_less [of v] backing_gone [OF S'(3), of v] backing_unchanged [OF assms(1) S'(3,5), of v] by auto
  then show ?thesis using S' by blast
qed

theorem as_unmap_correct_witness:
  "\<exists>S S'. as_map (pages_at 0x9000000 3) 7 eWriteBack example_as = Some (OsStatusSuccess, Some (Slot 0 0), S)
     \<and> as_unmap (Some (Slot 0 0)) S = Some (OsStatusSuccess, S') \<and> getBackingAddressUnlocked 0x7001234 (as_tables S') = Some invalid_address"
proof -
  obtain S where S: "as_map (pages_at 0x9000000 3) 7 eWriteBack example_as = Some (OsStatusSuccess, Some (Slot 0 0), S)" "as_inv 0x7000000 S"
    "live (as_heap S) (Slot 0 0) = Some (0x7000000, 0x3000)" "all_mapped (as_tables S) 0x7000000 0x3000" by (rule example_as_mapped)
  have "vpn 0x7001234 \<in> span 0x7000000 0x3000" by (simp add: span_def vpn_def)
  then show ?thesis using S(1) as_unmap_correct [OF S(2-4)] by (auto dest!: spec [of _ "0x7001234"])
qed

text \<open>
  Mapping and unmapping are inverse: after a successful \<^verbatim>\<open>map\<close> the \<^verbatim>\<open>unmap\<close> of its result succeeds, and then the allocations and the
  translation of every address are what they were before.
\<close>

lemma as_map_unmap_roundtrip:
  assumes "map_ready base S f N flags"
    and "aligned_alloc kPageSize (of_nat N * kPageSize) (as_heap S) = Some (Some p, h)" and "live h p = Some (a, s)" and "tables_ready S a N"
  shows "\<exists>S1 S2. as_map (pages_at f N) flags type S = Some (OsStatusSuccess, Some p, S1) \<and> as_unmap (Some p) S1 = Some (OsStatusSuccess, S2)
    \<and> as_inv base S2 \<and> live (as_heap S2) = live (as_heap S)
    \<and> (\<forall>v. getBackingAddressUnlocked v (as_tables S2) = getBackingAddressUnlocked v (as_tables S))"
proof -
  let ?s = "of_nat N * kPageSize :: u64"
  have inv: "as_inv base S" using assms(1) by (simp add: map_ready_def)
  obtain S1 where S1: "as_map (pages_at f N) flags type S = Some (OsStatusSuccess, Some p, S1)" "as_inv base S1" "live (as_heap S) p = None"
    "live (as_heap S1) = (live (as_heap S))(p \<mapsto> (a, ?s))" "same_env (as_tables S) (as_tables S1)"
    "\<forall>x \<in> span a ?s. view (as_tables S) x = None \<and> view (as_tables S1) x \<noteq> None"
    "\<forall>x < 2 ^ 36. x \<notin> span a ?s \<longrightarrow> view (as_tables S1) x = view (as_tables S) x"
    using as_map_outcome [OF assms, of type] by blast
  have m: "all_mapped (as_tables S1) a ?s" using S1(6) by (simp add: all_mapped_def)
  have l: "live (as_heap S1) p = Some (a, ?s)" using S1(4) by simp
  obtain S2 where S2: "as_unmap (Some p) S1 = Some (OsStatusSuccess, S2)" "as_inv base S2" "live (as_heap S2) = (live (as_heap S1))(p := None)"
    "same_env (as_tables S1) (as_tables S2)" "\<forall>x < 2 ^ 36. view (as_tables S2) x = (if x \<in> span a ?s then None else view (as_tables S1) x)"
    using as_unmap_spec [OF S1(2) l m] by blast
  have v: "view (as_tables S2) (vpn v) = view (as_tables S) (vpn v)" for v using S2(5) S1(6,7) vpn_less [of v] by auto
  have env: "same_env (as_tables S) (as_tables S2)" using S1(5) S2(4) by (simp add: same_env_def)
  have "live (as_heap S2) = live (as_heap S)" using S2(3) S1(3,4) by (simp add: fun_upd_idem)
  then show ?thesis using S1(1) S2(1,2) backing_unchanged [OF inv S2(2) env v] by blast
qed

text \<open>
  A mapping that fails is undone, whatever failed: no result is returned, the address range that was taken for it is free again,
  every translation is as it was and the invariant holds.
\<close>

lemma as_map_failure_restores:
  assumes "as_inv base S" and "heap_ready base kPageSize (range_size memory) (as_heap S)"
    and "as_map memory flags type S = Some (status, r, S')" and "status \<noteq> OsStatusSuccess"
  shows "r = None \<and> as_inv base S' \<and> live (as_heap S') = live (as_heap S)
    \<and> (\<forall>v. getBackingAddressUnlocked v (as_tables S') = getBackingAddressUnlocked v (as_tables S))"
proof -
  have R: "r = None" "as_inv base S'" "live (as_heap S') = live (as_heap S)" "view (as_tables S') = view (as_tables S)"
    "same_env (as_tables S) (as_tables S')" using as_map_refuses [OF assms] by blast+
  then show ?thesis using backing_unchanged [OF assms(1) R(2,5)] by simp
qed

lemma example_map_none:
  "as_map (pages_at 0x9000000 3) eNone eWriteBack example_as = Some (OsStatusInvalidInput, None, example_as\<lparr>as_heap := h\<rparr>)"
  if "TlsfHeap.free (Some (Slot 0 0)) example_mapped = Some h"
proof -
  note P = pages_at_ok [of "0x9000000" 3]
  have r: "range_size (pages_at 0x9000000 3) = of_nat 3 * kPageSize" "page_range_ok (pages_at 0x9000000 3)" "rfront (pages_at 0x9000000 3) = 0x9000000"
    using P by simp_all
  show ?thesis
    using that r example_mapped example_as_fields(2) ga_live(1) [OF example_mapped(2)]
    by (simp add: as_map_def as_lock_def as_unlock_def Let_def pt_map_def request_create_def isPageMappingRequestInputValid_def)
qed

section \<open>Error paths\<close>

text \<open>
  C8. Unmapping the first pages of a larger allocation succeeds and frees the whole allocation, while the pages behind stay mapped: their
  addresses still translate although the heap may hand them out again.
\<close>

theorem partial_unmap_frees_all:
  assumes inv: "as_inv base S" and l: "live (as_heap S) p = Some (a, s)" and m: "all_mapped (as_tables S) a s"
    and small: "\<forall>x \<in> span a s. \<forall>e. view (as_tables S) x \<noteq> Some (eLarge, e)" and k: "0 < k" "k < unat s div 4096"
  shows "\<exists>S'. as_unmap_range (pages_at a k) S = Some (OsStatusSuccess, S') \<and> live (as_heap S') = (live (as_heap S))(p := None)
    \<and> (\<forall>v. vpn v \<in> span a s \<longrightarrow> vpn a + k \<le> vpn v
          \<longrightarrow> getBackingAddressUnlocked v (as_tables S') = getBackingAddressUnlocked v (as_tables S))
    \<and> \<not> as_inv base S'"
proof -
  note I = as_invD [OF inv]
  let ?T = "as_tables S" and ?N = "unat s div 4096"
  have w: "whole (a, s)" "4096 dvd unat a" using I(5) [OF l] by (simp_all add: whole_def)
  note A = span_in_area [OF I(2,4) l w(1)]
  have "k * 4096 \<le> unat s div 4096 * 4096" using k(2) by simp
  also have "\<dots> \<le> unat s" by (rule div_times_less_eq_dividend)
  finally have kb: "k * 4096 \<le> unat s" .
  have r: "pages_of (pages_at a k) k" using w(2) A(2,3) k kb by (simp add: pages_of_def pages_at_def range_of_def)
  have f: "rfront (pages_at a k) = a" "page_range_ok (pages_at a k)" using pages_at_ok [OF w(2) k(1)] A(3) kb by simp_all
  have dirs: "range_dirs ?T (vpn a) (vpn a + ?N)"
    using m by (intro view_range_dirs [OF pt_invD(2) [OF I(3)]]) (auto simp: all_mapped_def span_def)
  have node: "pt_path x \<in> nodes ?T" if "x \<in> span a s" for x using dirs small that by (auto simp: range_dirs_def span_def)
  have "vpn a \<in> span a s" "vpn a + k - 1 \<in> span a s" using k by (auto simp: span_def)
  then have ce: "clean_ends ?T (vpn a) k" using node unfolding clean_ends_def by blast
  have dk: "range_dirs ?T (vpn a) (vpn a + k)" using dirs k by (auto simp: range_dirs_def)
  obtain T where T: "unmap (pages_at a k) ?T = Some (OsStatusSuccess, T)" "pt_inv T []" "same_env ?T T"
    "\<forall>x < 2 ^ 36. view T x = (if vpn a \<le> x \<and> x < vpn a + k then None else view ?T x)"
    using unmap_spec [OF I(3) r k(1)] dk ce f(1) by auto
  obtain h where h: "TlsfHeap.free (Some p) (as_heap S) = Some h" "heap_ok base h" "live h = (live (as_heap S))(p := None)"
    using tlsf.dealloc_law [OF I(2) l] by blast
  let ?S = "\<lparr>as_locked = False, as_tables = T, as_heap = h\<rparr>"
  have 1: "as_unmap_range (pages_at a k) S = Some (OsStatusSuccess, ?S)"
    using T(1) h(1) I(1) f findAllocation_live [OF I(2) l] by (cases S) (simp add: as_unmap_range_def as_lock_def as_unlock_def)
  have 2: "getBackingAddressUnlocked v T = getBackingAddressUnlocked v ?T" if "vpn a + k \<le> vpn v" for v
    using that T(4) vpn_less [of v] backing_cong [OF pt_invD(2) [OF I(3)] pt_invD(2) [OF T(2)] T(3), of v] by simp
  have "\<not> as_inv base ?S"
  proof
    assume "as_inv base ?S"
    note J = as_invD [OF this]
    let ?x = "vpn a + k"
    have x: "?x \<in> span a s" using k by (simp add: span_def)
    then have "view ?T ?x \<noteq> None" "?x < 2 ^ 36" using m A(2) by (auto simp: all_mapped_def span_def)
    then have v: "view T ?x \<noteq> None" using T(4) by simp
    have "?x \<in> managed base (unat (mSize h))" using A(1) x free_size [OF h(1)] by auto
    then obtain q a' s' where q: "live h q = Some (a', s')" "?x \<in> span a' s'" using J(6) [of ?x] v by auto
    then have "live (as_heap S) q = Some (a', s')" "q \<noteq> p" using h(3) by (auto split: if_splits)
    then show False using heap_spans_apart [OF I(2,4) l _ _ w(1) I(5)] q(2) x by blast
  qed
  then show ?thesis using 1 2 h(3) by (intro exI [of _ ?S]) simp
qed

lemma example_small:
  assumes "as_inv 0x7000000 S" and "live (as_heap S) (Slot 0 0) = Some (0x7000000, 0x3000)"
  shows "\<forall>x \<in> span 0x7000000 0x3000. \<forall>e. view (as_tables S) x \<noteq> Some (eLarge, e)"
proof (intro ballI allI notI)
  fix x e assume x: "x \<in> span 0x7000000 0x3000" "view (as_tables S) x = Some (eLarge, e)"
  have "{x div 512 * 512 ..< x div 512 * 512 + 512} \<subseteq> span 0x7000000 0x3000" by (rule as_invD(7) [OF assms x])
  then have "card {x div 512 * 512 ..< x div 512 * 512 + 512} \<le> card (span 0x7000000 0x3000)" by (rule card_mono [rotated]) (simp add: span_def)
  then show False by (simp add: span_def)
qed

theorem partial_unmap_frees_all_witness:
  "\<exists>S S'. as_map (pages_at 0x9000000 3) 7 eWriteBack example_as = Some (OsStatusSuccess, Some (Slot 0 0), S)
     \<and> as_unmap_range (pages_at 0x7000000 1) S = Some (OsStatusSuccess, S') \<and> live (as_heap S') (Slot 0 0) = None
     \<and> getBackingAddressUnlocked 0x7001234 (as_tables S') = Some 0x9001234"
proof -
  obtain S where S: "as_map (pages_at 0x9000000 3) 7 eWriteBack example_as = Some (OsStatusSuccess, Some (Slot 0 0), S)" "as_inv 0x7000000 S"
    "live (as_heap S) (Slot 0 0) = Some (0x7000000, 0x3000)" "all_mapped (as_tables S) 0x7000000 0x3000"
    "translates (as_tables S) \<lparr>am_vaddr = 0x7000000, am_paddr = 0x9000000, am_size = 0x3000\<rparr>" by (rule example_as_mapped)
  have b: "getBackingAddressUnlocked (0x7000000 + of_nat 0x1234) (as_tables S) = Some (0x9000000 + of_nat 0x1234)"
    using S(5) by (auto simp: translates_def dest!: spec [of _ "0x1234"])
  have "vpn 0x7001234 \<in> span 0x7000000 0x3000" "vpn 0x7000000 + 1 \<le> vpn 0x7001234" by (simp_all add: span_def vpn_def)
  then show ?thesis
    using S(1) b partial_unmap_frees_all [OF S(2-4) example_small [OF S(2,3)], of 1] by (auto dest!: spec [of _ "0x7001234"])
qed

text \<open>
  C9. When the page tables refuse a stack, because its memory is not whole pages or the flags are empty, \<^verbatim>\<open>mapStack\<close> does not report an
  error: the error path takes the lock of the address space a second time, so that the call never returns.
\<close>

theorem mapStack_failure_never_returns:
  assumes "\<not> as_locked S" and "aligned_alloc kPageSize (range_size memory + 2 * kPageSize) (as_heap S) = Some (Some p, h)"
    and "\<forall>v. \<not> isPageMappingRequestInputValid \<lparr>am_vaddr = v, am_paddr = rfront memory, am_size = range_size memory\<rparr> flags"
  shows "as_mapStack memory flags S = None"
proof -
  have stuck: "as_locked U \<Longrightarrow> as_unmap x U \<noteq> Some (OsStatusSuccess, U')" for x U U'
    by (auto simp: as_unmap_def as_lock_def bind_eq_Some_conv Let_def split: if_splits)
  have refused: "pt_map \<lparr>am_vaddr = v, am_paddr = rfront memory, am_size = range_size memory\<rparr> flags eWriteBack T = Some (OsStatusInvalidInput, T)" for v T
    using assms(3) by (simp add: pt_map_def request_create_def)
  show ?thesis
  proof (rule ccontr)
    assume "as_mapStack memory flags S \<noteq> None"
    then obtain y where "as_mapStack memory flags S = Some y" by blast
    then show False using assms(1,2) refused stuck unfolding as_mapStack_def
      by (auto simp: as_lock_def Let_def bind_eq_Some_conv KM_CHECK_def split: if_splits)
  qed
qed

theorem mapStack_failure_never_returns_witness: "as_mapStack (pages_at 0x9000000 1) eNone example_as = None"
proof (rule mapStack_failure_never_returns [OF example_as_fields(2)])
  have "range_size (pages_at 0x9000000 1) + 2 * kPageSize = of_nat 3 * kPageSize"
    using pages_at_ok(2) [of "0x9000000" 1] by (simp add: kPageSize_def)
  then show "aligned_alloc kPageSize (range_size (pages_at 0x9000000 1) + 2 * kPageSize) (as_heap example_as) = Some (Some (Slot 0 0), example_mapped)"
    using example_mapped(1) by simp
qed (simp add: isPageMappingRequestInputValid_def)

end
