(* ===== verification/AddressSpaceStack.thy ===== *)
theory AddressSpaceStack
  imports AddressSpaceSpec
begin

text \<open>
  Stacks: the mapping of a stack takes the addresses of two more pages and leaves them unmapped on both sides.
\<close>

lemma page_sum: "unat (kPageSize :: u64) = 4096" "of_nat N * kPageSize + 2 * kPageSize = (of_nat (N + 2) * kPageSize :: u64)"
  "kPageSize + of_nat N * kPageSize = (of_nat (N + 1) * kPageSize :: u64)"
  by (simp add: kPageSize_def, simp_all add: algebra_simps)

text \<open>What \<^verbatim>\<open>mapStack\<close> needs: an address range for the stack and two more pages, two blocks to split it, and pages for tables.\<close>

definition stack_ready :: "nat \<Rightarrow> AddressSpace \<Rightarrow> u64 \<Rightarrow> nat \<Rightarrow> PageFlags \<Rightarrow> bool" where
  "stack_ready base S f N flags \<longleftrightarrow> as_inv base S \<and> supply_ok (as_tables S) \<and> heap_ready base kPageSize (of_nat (N + 2) * kPageSize) (as_heap S)
     \<and> frames (mPageManager (as_tables S)) f N \<and> (N + 2) * 4096 < 2 ^ 64 \<and> flags \<noteq> eNone"

definition split_ready :: "tlsf_heap \<Rightarrow> ptr \<Rightarrow> ptr \<Rightarrow> bool" where
  "split_ready h n1 n2 \<longleftrightarrow> pool_room 2 (mBlockPool h) \<and> two_blocks h n1 n2"

lemma as_mapStack_spec:
  assumes rdy: "stack_ready base S f N flags"
    and al: "aligned_alloc kPageSize (of_nat (N + 2) * kPageSize) (as_heap S) = Some (Some p, h)" and lp: "live h p = Some (a, s)"
    and two: "split_ready h n1 n2" and tab: "tables_ready S (a + kPageSize) N"
  shows "\<exists>S'. as_mapStack (pages_at f N) flags S = Some (OsStatusSuccess, [Some p, Some n1, Some n2], S') \<and> as_inv base S'
    \<and> live (as_heap S') = (live (as_heap S))(p \<mapsto> (a, kPageSize), n1 \<mapsto> (a + kPageSize, of_nat N * kPageSize),
         n2 \<mapsto> (a + of_nat (N + 1) * kPageSize, kPageSize))
    \<and> distinct [p, n1, n2] \<and> (\<forall>x \<in> span a kPageSize \<union> span (a + of_nat (N + 1) * kPageSize) kPageSize. view (as_tables S') x = None)
    \<and> same_env (as_tables S) (as_tables S')
    \<and> range_mapped (as_tables S) (as_tables S') \<lparr>am_vaddr = a + kPageSize, am_paddr = f, am_size = of_nat N * kPageSize\<rparr> flags 0 N"
proof -
  let ?s = "of_nat (N + 2) * kPageSize :: u64" and ?y = "of_nat (N + 1) * kPageSize :: u64" and ?n = "of_nat N * kPageSize :: u64" and ?T = "as_tables S"
  let ?v = "a + kPageSize"
  let ?m = "\<lparr>am_vaddr = ?v, am_paddr = f, am_size = ?n\<rparr>"
  have R: "as_inv base S" "supply_ok ?T" "heap_ready base kPageSize ?s (as_heap S)" "frames (mPageManager ?T) f N" "(N + 2) * 4096 < 2 ^ 64" "flags \<noteq> eNone"
    using rdy by (simp_all add: stack_ready_def)
  note I = as_invD [OF R(1)]
  obtain a0 where h: "heap_ok base h" "mSize h = mSize (as_heap S)" "live (as_heap S) p = None" "live h = (live (as_heap S))(p \<mapsto> (a0, ?s))"
    "4096 dvd unat a0" by (rule alloc_outcome [OF R(1,3) al])
  have a: "a0 = a" "s = ?s" using lp h(4) by auto
  have ld: "live h p = Some (a, ?s)" using lp a by simp
  have fr: "0 < N" "4096 dvd unat f" "unat f + N * 4096 + 2 ^ 21 < 2 ^ 64" using R(4) by (simp_all add: frames_def)
  have u: "unat ?n = N * 4096" "unat ?y = (N + 1) * 4096" "unat ?s = (N + 2) * 4096" 
    using R(5) unat_page_bytes [of N] unat_page_bytes [of "N + 1"] unat_page_bytes [of "N + 2"] by simp_all
  have w: "whole (a, ?s)" using h(5) a u(3) by (simp add: whole_def)
  have ar: "area_ok base (unat (mSize h))" using I(4) h(2) by simp
  have top: "unat a + (N + 2) * 4096 + 2 ^ 21 < 2 ^ 64" using span_in_area(3) [OF h(1) ar ld w] u(3) by simp
  have ua: "unat ?v = unat a + 4096" "unat (a + ?y) = unat a + (N + 1) * 4096"
    using top u(2) page_sum(1) by (auto simp: unat_add_small)
  obtain h' where h': "splitv (Some p) [?v, a + ?y] [None, None, None] h = Some (OsStatusSuccess, [Some p, Some n1, Some n2], h')"
    "heap_ok base h'" "live h' = (live h)(p \<mapsto> (a, kPageSize), n1 \<mapsto> (?v, ?y - kPageSize), n2 \<mapsto> (a + ?y, ?s - ?y))" "mSize h' = mSize h"
    "n1 \<noteq> n2" "live h n1 = None" "live h n2 = None"
    using splitv_two [OF h(1) _ _ ld, of n1 n2 kPageSize ?y] two u page_sum(1) fr(1) by (auto simp: split_ready_def)
  have df: "?y - kPageSize = ?n" "?s - ?y = kPageSize" "a + ?s - kPageSize = a + ?y" by (simp_all add: algebra_simps)
  have l': "live h' = (live (as_heap S))(p \<mapsto> (a, kPageSize), n1 \<mapsto> (?v, ?n), n2 \<mapsto> (a + ?y, kPageSize))" using h'(3) h(4) a(1) df by simp
  have new: "live (as_heap S) n1 = None" "live (as_heap S) n2 = None" "n1 \<noteq> p" "n2 \<noteq> p" using h'(6,7) h(4) by (auto split: if_splits)
  have l1: "live h' n1 = Some (?v, ?n)" using l' h'(5) by simp
  have sub: "live (as_heap S) \<subseteq>\<^sub>m live h'" using l' h(3) new(1,2) by (auto simp: map_le_def dom_def)
  have wh: "whole (a', s')" if "live h' q = Some (a', s')" for q a' s'
    using that I(5) h(5) a(1) u ua page_sum(1) unfolding l' by (auto simp: whole_def split: if_splits)
  have ar': "area_ok base (unat (mSize h'))" using ar h'(4) by simp
  have mo: "mapping_ok (mPageManager ?T) ?m N" using live_mapping_ok [OF h'(2) ar' l1 _ R(4)] ua(1) h(5) a(1) by simp
  have fresh: "view ?T x = None" if q: "live h' q = Some (a', s')" "live (as_heap S) q = None" and x: "x \<in> span a' s'" for q a' s' x
    by (rule fresh_span [OF R(1) h'(2) _ sub q wh [OF q(1)] x]) (simp add: h'(4) h(2))
  have ns: "view ?T (vpn ?v + j) = None" if j: "j < N" for j
    by (rule fresh [OF l1 new(1)]) (use j u(1) in \<open>simp add: span_def\<close>)
  have vr: "virtualRange ?m = pages_at ?v N" by (simp add: virtualRange_def pages_at_def range_of_def)
  have av: "4096 dvd unat ?v" using ua(1) h(5) a(1) by simp
  have bd: "N * 4096 < 2 ^ 64" using R(5) by simp
  obtain l A where tt: "allocateList (MaxPagesForMapping (pages_at ?v N)) (mAllocator ?T) = Some (Some l, A)"
    "unat (MaxPagesForMapping (pages_at ?v N)) * 4096 < 2 ^ 64" using tab by (auto simp: tables_ready_def)
  obtain T' where T': "pt_map ?m flags eWriteBack ?T = Some (OsStatusSuccess, T')" "pt_inv T' []" "same_env ?T T'" "range_mapped ?T T' ?m flags 0 N"
    using map_spec [OF I(3) R(2) mo fr(1) request_valid [OF av fr(2,1) bd R(6)], of l A eWriteBack] ns tt vr by auto
  have out: "\<forall>x < 2 ^ 36. x \<notin> span ?v ?n \<longrightarrow> view T' x = view ?T x"
    using T'(4) u(1) by (auto simp: range_mapped_def span_def not_le)
  let ?S = "\<lparr>as_locked = False, as_tables = T', as_heap = h'\<rparr>"
  note P = pages_at_ok [OF fr(2,1)]
  have sz: "range_size (pages_at f N) + 2 * kPageSize = ?s" "range_size (pages_at f N) = ?n" "rfront (pages_at f N) = f"
    using P fr(3) page_sum(2) by simp_all
  define s' y' where d: "s' = ?s" "y' = ?y"
  have e: "of_nat N * kPageSize + 2 * kPageSize = s'" "a + s' - kPageSize = a + y'" using page_sum(2) [of N] df(3) d by simp_all
  have "as_mapStack (pages_at f N) flags S = Some (OsStatusSuccess, [Some p, Some n1, Some n2], ?S)"
    using I(1) al [folded d] T'(1) h'(1) [folded d] ga_live(3) [OF ld, folded d] ga_live(1) [OF l1] e(1)
    by (cases S) (simp add: as_mapStack_def sz(2,3) as_lock_def as_unlock_def Let_def range_of_def span_get_def e(2))
  moreover have "as_inv base ?S"
    by (rule as_inv_mapped [OF R(1) h'(2) _ new(1) sub l1 wh T'(2) out]) (use h'(4) h(2) in simp)
  moreover have gone: "view T' x = None" if q: "live h' q = Some (a', s')" "live (as_heap S) q = None" "q \<noteq> n1" and x: "x \<in> span a' s'" for q a' s' x
  proof -
    have "x < 2 ^ 36" using x span_in_area(2) [OF h'(2) ar' q(1) wh [OF q(1)]] by (simp add: span_def)
    moreover have "x \<notin> span ?v ?n" using heap_spans_apart [OF h'(2) ar' q(1) l1 q(3) wh [OF q(1)] wh [OF l1]] x by blast
    ultimately show ?thesis using out fresh [OF q(1,2) x] by simp
  qed
  moreover have "\<forall>x \<in> span a kPageSize \<union> span (a + ?y) kPageSize. view T' x = None"
  proof -
    have "live h' p = Some (a, kPageSize)" "live h' n2 = Some (a + ?y, kPageSize)" using l' new by simp_all
    then show ?thesis using gone [OF _ h(3)] gone [OF _ new(2)] new(3) h'(5) by blast
  qed
  moreover have "distinct [p, n1, n2]" using new h'(5) by auto
  ultimately show ?thesis using l' T'(3,4) by (intro exI [of _ ?S] conjI) (simp_all only: AddressSpace.select_convs)
qed


text \<open>
  C7. Mapping a stack never panics and succeeds when there is an address range, blocks to split it and pages for tables: the stack
  translates to its memory, the pages in front of it and behind it are reserved and have no translation, and nothing else changes.
\<close>

theorem as_mapStack_correct:
  assumes "stack_ready base S f N flags"
    and "aligned_alloc kPageSize (of_nat (N + 2) * kPageSize) (as_heap S) = Some (Some p, h)" and "live h p = Some (a, s)"
    and "split_ready h n1 n2" and "tables_ready S (a + kPageSize) N"
  shows "\<exists>S'. as_mapStack (pages_at f N) flags S = Some (OsStatusSuccess, [Some p, Some n1, Some n2], S') \<and> as_inv base S'
    \<and> live (as_heap S') = (live (as_heap S))(p \<mapsto> (a, kPageSize), n1 \<mapsto> (a + kPageSize, of_nat N * kPageSize),
         n2 \<mapsto> (a + of_nat (N + 1) * kPageSize, kPageSize))
    \<and> translates (as_tables S') \<lparr>am_vaddr = a + kPageSize, am_paddr = f, am_size = of_nat N * kPageSize\<rparr>
    \<and> (\<forall>v. vpn v \<in> span a kPageSize \<union> span (a + of_nat (N + 1) * kPageSize) kPageSize
          \<longrightarrow> getBackingAddressUnlocked v (as_tables S') = Some invalid_address)
    \<and> (\<forall>v. vpn v \<notin> span (a + kPageSize) (of_nat N * kPageSize)
          \<longrightarrow> getBackingAddressUnlocked v (as_tables S') = getBackingAddressUnlocked v (as_tables S))"
proof -
  let ?n = "of_nat N * kPageSize :: u64" and ?y = "of_nat (N + 1) * kPageSize :: u64"
  let ?m = "\<lparr>am_vaddr = a + kPageSize, am_paddr = f, am_size = ?n\<rparr>"
  have inv: "as_inv base S" and fr: "frames (mPageManager (as_tables S)) f N" using assms(1) by (simp_all add: stack_ready_def)
  obtain S' where S': "as_mapStack (pages_at f N) flags S = Some (OsStatusSuccess, [Some p, Some n1, Some n2], S')" "as_inv base S'"
    "live (as_heap S') = (live (as_heap S))(p \<mapsto> (a, kPageSize), n1 \<mapsto> (a + kPageSize, ?n), n2 \<mapsto> (a + ?y, kPageSize))"
    "distinct [p, n1, n2]" "\<forall>x \<in> span a kPageSize \<union> span (a + ?y) kPageSize. view (as_tables S') x = None"
    "same_env (as_tables S) (as_tables S')" "range_mapped (as_tables S) (as_tables S') ?m flags 0 N"
    using as_mapStack_spec [OF assms] by metis
  note I = as_invD [OF S'(2)]
  have l: "live (as_heap S') n1 = Some (a + kPageSize, ?n)" using S'(3,4) by simp
  have mo: "mapping_ok (mPageManager (as_tables S)) ?m N" and u: "unat ?n = N * 4096"
    using live_mapping_ok [OF I(2,4) l _ fr] I(5) [OF l] by (simp_all add: whole_def)
  have tr: "translates (as_tables S') ?m" using range_mapped_translates [OF _ pt_invD(2) [OF I(3)] S'(7)] mo by (simp add: mapping_ok_def)
  have out: "view (as_tables S') (vpn v) = view (as_tables S) (vpn v)" if "vpn v \<notin> span (a + kPageSize) ?n" for v
    using S'(7) u that vpn_less [of v] by (auto simp: range_mapped_def span_def not_le)
  show ?thesis using S'(1-3,5) tr backing_gone [OF S'(2)] backing_unchanged [OF inv S'(2,6) out] by blast
qed

theorem as_mapStack_correct_witness:
  "\<exists>S'. as_mapStack (pages_at 0x9000000 1) 7 example_as = Some (OsStatusSuccess, [Some (Slot 0 0), Some (Slot 0 2), Some (Slot 0 3)], S')
     \<and> getBackingAddressUnlocked 0x7000123 (as_tables S') = Some invalid_address
     \<and> getBackingAddressUnlocked 0x7001234 (as_tables S') = Some 0x9000234
     \<and> getBackingAddressUnlocked 0x7002345 (as_tables S') = Some invalid_address"
proof -
  have three: "of_nat (1 + 2) * kPageSize = (of_nat 3 * kPageSize :: u64)" by simp
  have fr: "frames (mPageManager (as_tables example_as)) 0x9000000 1" using example_frames by (auto simp: frames_def dest!: spec [of _ 0])
  have rdy: "stack_ready 0x7000000 example_as 0x9000000 1 7"
    using example_as_inv example_as_ready fr by (simp add: stack_ready_def three example_as_fields example_ok eNone_def)
  have "fst (construct zero_block example_mapped) = Some (Slot 0 2)" by code_simp
  moreover have "fst (construct zero_block (snd (construct zero_block example_mapped))) = Some (Slot 0 3)" by code_simp
  ultimately have "two_blocks example_mapped (Slot 0 2) (Slot 0 3)" unfolding two_blocks_def by (metis prod.collapse)
  moreover have "nextBlockCapacity (mBlockPool example_mapped) = 24" by code_simp
  ultimately have two: "split_ready example_mapped (Slot 0 2) (Slot 0 3)" by (simp add: split_ready_def pool_room_def)
  have "MaxPagesForMapping (pages_at 0x7001000 1) = 4" by code_simp
  moreover have "case allocateList 4 (mAllocator example_pt) of Some (Some l, A) \<Rightarrow> True | _ \<Rightarrow> False" by code_simp
  ultimately have tab: "tables_ready example_as (0x7000000 + kPageSize) 1"
    by (auto simp: tables_ready_def kPageSize_def example_as_fields split: option.splits prod.splits)
  obtain S' where S': "as_mapStack (pages_at 0x9000000 1) 7 example_as = Some (OsStatusSuccess, [Some (Slot 0 0), Some (Slot 0 2), Some (Slot 0 3)], S')"
    "translates (as_tables S') \<lparr>am_vaddr = 0x7000000 + kPageSize, am_paddr = 0x9000000, am_size = of_nat 1 * kPageSize\<rparr>"
    "\<forall>v. vpn v \<in> span 0x7000000 kPageSize \<union> span (0x7000000 + of_nat (1 + 1) * kPageSize) kPageSize
          \<longrightarrow> getBackingAddressUnlocked v (as_tables S') = Some invalid_address"
    using as_mapStack_correct [OF rdy _ example_mapped(2) two tab] example_mapped(1) by (auto simp: three)
  have "vpn 0x7000123 \<in> span 0x7000000 kPageSize" "vpn 0x7002345 \<in> span (0x7000000 + of_nat (1 + 1) * kPageSize) kPageSize"
    by (simp_all add: span_def vpn_def kPageSize_def)
  moreover have "getBackingAddressUnlocked (0x7000000 + kPageSize + of_nat 0x234) (as_tables S') = Some (0x9000000 + of_nat 0x234)"
    using S'(2) by (auto simp: translates_def kPageSize_def dest!: spec [of _ "0x234"])
  then have "getBackingAddressUnlocked 0x7001234 (as_tables S') = Some 0x9000234" by (simp add: kPageSize_def)
  ultimately show ?thesis using S'(1,3) by blast
qed

end
