(* ===== verification/InlinedVector.thy ===== *)
theory InlinedVector
  imports Prelude
begin

text \<open>
  The vector with inline storage, \<^verbatim>\<open>sm::InlinedVector<T, N>\<close> of
  \<^verbatim>\<open>kernel/include/std/inlined_vector.hpp\<close>, for element types that are trivially destructible.

  The elements are kept as a list. The size word is the source's: its top bit tells whether the elements are in
  the heap. The capacity of the heap storage is a field; the inline capacity \<open>n\<close> is
  the template argument \<^verbatim>\<open>N\<close> and is passed to the operations that use it. Requests to the
  allocator take their outcome from the list \<open>iv_mem\<close>, an exhausted list is a failed request.

  Shown here: \<open>add\<close>, \<open>remove\<close> and \<open>reserveExact\<close> act as the operations on lists, a failed
  request changes nothing, and the size and the capacity always agree with the elements.
\<close>

section \<open>Definitions\<close>

record 'a InlinedVector =
  iv_data :: "'a list"
  iv_size :: size_t
  iv_heapCapacity :: size_t
  iv_mem :: "bool list"

definition kHeapFlag :: size_t where "kHeapFlag = push_bit 63 1"

definition iv_make :: "bool list \<Rightarrow> 'a InlinedVector" where
  "iv_make outcomes = \<lparr>iv_data = [], iv_size = 0, iv_heapCapacity = 0, iv_mem = outcomes\<rparr>"

definition isHeapAllocated :: "'a InlinedVector \<Rightarrow> bool" where
  "isHeapAllocated v \<longleftrightarrow> iv_size v AND kHeapFlag \<noteq> 0"

definition iv_count :: "'a InlinedVector \<Rightarrow> size_t" where
  "iv_count v = iv_size v AND NOT kHeapFlag"

definition iv_capacity :: "size_t \<Rightarrow> 'a InlinedVector \<Rightarrow> size_t" where
  "iv_capacity n v = (if isHeapAllocated v then iv_heapCapacity v else n)"

definition iv_isEmpty :: "'a InlinedVector \<Rightarrow> bool" where
  "iv_isEmpty v \<longleftrightarrow> iv_count v = 0"

definition iv_setSize :: "size_t \<Rightarrow> 'a InlinedVector \<Rightarrow> 'a InlinedVector" where
  "iv_setSize newSize v = v\<lparr>iv_size := (iv_size v AND kHeapFlag) OR newSize\<rparr>"

definition iv_request :: "'a InlinedVector \<Rightarrow> bool \<times> 'a InlinedVector" where
  "iv_request v = (case iv_mem v of [] \<Rightarrow> (False, v) | ok # rest \<Rightarrow> (ok, v\<lparr>iv_mem := rest\<rparr>))"

definition iv_reserveExact :: "size_t \<Rightarrow> size_t \<Rightarrow> 'a InlinedVector \<Rightarrow> OsStatus \<times> 'a InlinedVector" where
  "iv_reserveExact n newCapacity v =
     (let oldCapacity = iv_capacity n v
      in if newCapacity \<le> oldCapacity then (OsStatusSuccess, v)
         else if isHeapAllocated v then
           (case iv_request v of
              (False, v) \<Rightarrow> (OsStatusOutOfMemory, v)
            | (True, v) \<Rightarrow> (OsStatusSuccess, v\<lparr>iv_heapCapacity := newCapacity\<rparr>))
         else if newCapacity > n then
           (case iv_request v of
              (False, v) \<Rightarrow> (OsStatusOutOfMemory, v)
            | (True, v) \<Rightarrow> (OsStatusSuccess, v\<lparr>iv_heapCapacity := newCapacity, iv_size := iv_size v OR kHeapFlag\<rparr>))
         else (OsStatusSuccess, v))"

definition iv_reserve :: "size_t \<Rightarrow> size_t \<Rightarrow> 'a InlinedVector \<Rightarrow> OsStatus \<times> 'a InlinedVector" where
  "iv_reserve n sz v = iv_reserveExact n (max sz (iv_capacity n v)) v"

definition iv_ensureExtra :: "size_t \<Rightarrow> size_t \<Rightarrow> 'a InlinedVector \<Rightarrow> OsStatus \<times> 'a InlinedVector" where
  "iv_ensureExtra n extra v =
     (if iv_count v + extra \<ge> iv_capacity n v then iv_reserveExact n (iv_capacity n v + extra) v
      else (OsStatusSuccess, v))"

definition iv_clear :: "'a InlinedVector \<Rightarrow> 'a InlinedVector" where
  "iv_clear v = iv_setSize 0 (v\<lparr>iv_data := []\<rparr>)"

definition iv_at :: "size_t \<Rightarrow> 'a InlinedVector \<Rightarrow> 'a option" where
  "iv_at index v = (if unat index < length (iv_data v) then Some (iv_data v ! unat index) else None)"

definition iv_front :: "'a InlinedVector \<Rightarrow> 'a option" where "iv_front v = iv_at 0 v"
definition iv_back :: "'a InlinedVector \<Rightarrow> 'a option" where "iv_back v = iv_at (iv_count v - 1) v"

definition iv_add :: "size_t \<Rightarrow> 'a \<Rightarrow> 'a InlinedVector \<Rightarrow> OsStatus \<times> 'a InlinedVector" where
  "iv_add n value v =
     (let (status, v) = iv_ensureExtra n 1 v
      in if status \<noteq> OsStatusSuccess then (status, v)
         else (OsStatusSuccess, iv_setSize (iv_count v + 1) (v\<lparr>iv_data := iv_data v @ [value]\<rparr>)))"

definition iv_add_range :: "size_t \<Rightarrow> 'a list \<Rightarrow> 'a InlinedVector \<Rightarrow> OsStatus \<times> 'a InlinedVector" where
  "iv_add_range n values v =
     (let extra = of_nat (length values); (status, v) = iv_ensureExtra n extra v
      in if status \<noteq> OsStatusSuccess then (status, v)
         else (OsStatusSuccess, iv_setSize (iv_count v + extra) (v\<lparr>iv_data := iv_data v @ values\<rparr>)))"

text \<open>\<open>d\<close> is the default constructed element.\<close>

definition iv_resize :: "size_t \<Rightarrow> 'a \<Rightarrow> size_t \<Rightarrow> 'a InlinedVector \<Rightarrow> OsStatus \<times> 'a InlinedVector" where
  "iv_resize n d sz v =
     (if sz < iv_count v then (OsStatusSuccess, iv_setSize sz (v\<lparr>iv_data := take (unat sz) (iv_data v)\<rparr>))
      else if sz > iv_count v then
        (let (status, v') = iv_ensureExtra n (sz - iv_count v) v
         in if status \<noteq> OsStatusSuccess then (status, v')
            else (OsStatusSuccess,
                  iv_setSize sz (v'\<lparr>iv_data := iv_data v' @ replicate (unat sz - length (iv_data v')) d\<rparr>)))
      else (OsStatusSuccess, v))"

text \<open>The elements after \<open>index\<close> move down by one.\<close>

definition iv_remove :: "size_t \<Rightarrow> 'a InlinedVector \<Rightarrow> 'a InlinedVector option" where
  "iv_remove index v =
     (if unat index < length (iv_data v)
      then Some (iv_setSize (iv_count v - 1)
             (v\<lparr>iv_data := take (unat index) (iv_data v) @ drop (Suc (unat index)) (iv_data v)\<rparr>))
      else None)"

text \<open>The loop of \<^verbatim>\<open>remove_if\<close>: after a removal the same index is looked at again.\<close>

partial_function (option) iv_remove_if_loop :: "size_t \<Rightarrow> 'a \<Rightarrow> 'a InlinedVector \<Rightarrow> 'a InlinedVector option" where
  "iv_remove_if_loop i element v =
     (if i < iv_count v then
        Option.bind (iv_at i v) (\<lambda>x.
        if x = element then Option.bind (iv_remove i v) (\<lambda>v. iv_remove_if_loop (i - 1 + 1) element v)
        else iv_remove_if_loop (i + 1) element v)
      else Some v)"

definition iv_remove_if :: "'a \<Rightarrow> 'a InlinedVector \<Rightarrow> 'a InlinedVector option" where
  "iv_remove_if element v = iv_remove_if_loop 0 element v"

declare iv_remove_if_loop.simps [code]

section \<open>The invariant\<close>

definition iv_ok :: "size_t \<Rightarrow> 'a InlinedVector \<Rightarrow> bool" where
  "iv_ok n v \<longleftrightarrow> 0 < n \<and> n < kHeapFlag \<and> unat (iv_count v) = length (iv_data v) \<and> iv_count v \<le> iv_capacity n v
     \<and> iv_capacity n v < kHeapFlag"

lemma unat_kHeapFlag: "unat kHeapFlag = 2 ^ 63"
  by (simp add: kHeapFlag_def)

lemma bit_kHeapFlag: "bit kHeapFlag k \<longleftrightarrow> k = 63"
  unfolding kHeapFlag_def bit_push_bit_iff by (auto simp: bit_1_iff)

lemma small_no_flag: "s < kHeapFlag \<Longrightarrow> \<not> bit s 63" for s :: size_t
proof -
  assume "s < kHeapFlag"
  then have "unat s < 2 ^ 63" by (simp add: word_less_nat_alt unat_kHeapFlag)
  then have "\<not> bit (unat s) 63" by (simp add: bit_iff_odd)
  then show "\<not> bit s 63" by (simp add: bit_unsigned_iff)
qed

lemma heap_bit: "isHeapAllocated v \<longleftrightarrow> bit (iv_size v) 63"
proof -
  have k: "bit (iv_size v AND kHeapFlag) k \<longleftrightarrow> bit (iv_size v) 63 \<and> k = 63" for k by (auto simp: bit_and_iff bit_kHeapFlag)
  show ?thesis
  proof (cases "bit (iv_size v) 63")
    case True
    then have "bit (iv_size v AND kHeapFlag) 63" using k by blast
    then have "iv_size v AND kHeapFlag \<noteq> 0" by (metis bit_0_eq bot_apply bot_bool_def)
    then show ?thesis using True by (simp add: isHeapAllocated_def)
  next
    case False
    then have "iv_size v AND kHeapFlag = 0" by (intro bit_word_eqI) (simp add: k)
    then show ?thesis using False by (simp add: isHeapAllocated_def)
  qed
qed

lemma setSize_fields:
  assumes "s < kHeapFlag"
  shows "iv_count (iv_setSize s v) = s" "isHeapAllocated (iv_setSize s v) = isHeapAllocated v" "iv_data (iv_setSize s v) = iv_data v"
    "iv_capacity n (iv_setSize s v) = iv_capacity n v"
proof -
  show "iv_count (iv_setSize s v) = s"
    unfolding iv_count_def iv_setSize_def using small_no_flag [OF assms]
    by (intro bit_word_eqI) (auto simp: bit_simps bit_kHeapFlag)
  show h: "isHeapAllocated (iv_setSize s v) = isHeapAllocated v"
    using small_no_flag [OF assms] by (simp add: heap_bit iv_setSize_def bit_or_iff bit_and_iff bit_kHeapFlag)
  show "iv_data (iv_setSize s v) = iv_data v" by (simp add: iv_setSize_def)
  show "iv_capacity n (iv_setSize s v) = iv_capacity n v" using h by (simp add: iv_capacity_def) (simp add: iv_setSize_def)
qed

lemma count_update [simp]:
  "iv_count (v\<lparr>iv_data := d\<rparr>) = iv_count v" "iv_capacity n (v\<lparr>iv_data := d\<rparr>) = iv_capacity n v"
  by (simp_all add: iv_count_def iv_capacity_def isHeapAllocated_def)

lemma count_flag: "iv_count (v\<lparr>iv_heapCapacity := c, iv_size := iv_size v OR kHeapFlag\<rparr>) = iv_count v"
  unfolding iv_count_def by (intro bit_word_eqI) (auto simp: bit_simps)

lemma iv_ok_make: "0 < n \<Longrightarrow> n < kHeapFlag \<Longrightarrow> iv_ok n (iv_make outcomes)"
  by (simp add: iv_ok_def iv_make_def iv_count_def iv_capacity_def isHeapAllocated_def)

section \<open>The operations\<close>

lemma reserveExact_spec:
  assumes ok: "iv_ok n v" and c: "c < kHeapFlag" and r: "iv_reserveExact n c v = (status, v')"
  shows "iv_ok n v'" "iv_data v' = iv_data v" "status = OsStatusSuccess \<or> status = OsStatusOutOfMemory"
    "status = OsStatusSuccess \<Longrightarrow> c \<le> iv_capacity n v'" "iv_count v' = iv_count v" "iv_capacity n v \<le> iv_capacity n v'"
    "iv_capacity n v' = iv_capacity n v \<or> iv_capacity n v' = c"
proof -
  have c0: "iv_count (v\<lparr>iv_mem := xs\<rparr>) = iv_count v" "iv_capacity n (v\<lparr>iv_mem := xs\<rparr>) = iv_capacity n v"
    "iv_count (v\<lparr>iv_mem := xs, iv_heapCapacity := c\<rparr>) = iv_count v" for xs
    by (simp_all add: iv_count_def iv_capacity_def isHeapAllocated_def)
  have c1: "iv_capacity n (v\<lparr>iv_mem := xs, iv_heapCapacity := c\<rparr>) = (if isHeapAllocated v then c else n)" for xs
    by (simp add: iv_capacity_def isHeapAllocated_def)
  have c2: "iv_capacity n (v\<lparr>iv_mem := xs, iv_heapCapacity := c, iv_size := iv_size v OR kHeapFlag\<rparr>) = c" for xs
    by (simp add: iv_capacity_def heap_bit bit_or_iff bit_kHeapFlag)
  have c3: "iv_count (v\<lparr>iv_mem := xs, iv_heapCapacity := c, iv_size := iv_size v OR kHeapFlag\<rparr>) = iv_count v" for xs
    using count_flag [of "v\<lparr>iv_mem := xs\<rparr>" c] by (simp add: iv_count_def)
  note d = iv_reserveExact_def iv_request_def Let_def
  show "status = OsStatusSuccess \<or> status = OsStatusOutOfMemory" "iv_data v' = iv_data v" "iv_count v' = iv_count v"
    using r by (auto simp: d c0 c1 c2 c3 split: if_splits list.splits bool.splits)
  show "status = OsStatusSuccess \<Longrightarrow> c \<le> iv_capacity n v'"
    using r by (auto simp: d iv_capacity_def heap_bit bit_or_iff bit_kHeapFlag split: if_splits list.splits bool.splits)
  show m: "iv_capacity n v \<le> iv_capacity n v'"
    using r by (auto simp: d c0 c1 c2 c3 split: if_splits list.splits bool.splits)
  show "iv_capacity n v' = iv_capacity n v \<or> iv_capacity n v' = c"
    using r by (auto simp: d c0 c1 c2 c3 split: if_splits list.splits bool.splits)
  have "iv_capacity n v' < kHeapFlag"
    using r ok c by (auto simp: d c0 c1 c2 c3 iv_ok_def split: if_splits list.splits bool.splits)
  then show "iv_ok n v'" using ok m \<open>iv_data v' = iv_data v\<close> \<open>iv_count v' = iv_count v\<close> by (auto simp: iv_ok_def)
qed

lemma ensureExtra_spec:
  assumes ok: "iv_ok n v" and c: "unat (iv_capacity n v) + unat extra < 2 ^ 63" and r: "iv_ensureExtra n extra v = (status, v')"
  shows "iv_ok n v'" "iv_data v' = iv_data v" "status = OsStatusSuccess \<or> status = OsStatusOutOfMemory" "iv_count v' = iv_count v"
    "status = OsStatusSuccess \<Longrightarrow> unat (iv_count v) + unat extra \<le> unat (iv_capacity n v')"
    "unat (iv_capacity n v') \<le> unat (iv_capacity n v) + unat extra"
proof -
  have u: "unat (iv_capacity n v + extra) = unat (iv_capacity n v) + unat extra" using c by (intro unat_add_small) simp
  have le: "unat (iv_count v) \<le> unat (iv_capacity n v)" using ok by (simp add: iv_ok_def word_le_nat_alt)
  have u': "unat (iv_count v + extra) = unat (iv_count v) + unat extra" using c le by (intro unat_add_small) simp
  have cf: "iv_capacity n v + extra < kHeapFlag" using c u by (simp add: word_less_nat_alt unat_kHeapFlag)
  have "iv_ok n v' \<and> iv_data v' = iv_data v \<and> (status = OsStatusSuccess \<or> status = OsStatusOutOfMemory) \<and> iv_count v' = iv_count v
    \<and> (status = OsStatusSuccess \<longrightarrow> unat (iv_count v) + unat extra \<le> unat (iv_capacity n v'))
    \<and> unat (iv_capacity n v') \<le> unat (iv_capacity n v) + unat extra"
  proof (cases "iv_count v + extra \<ge> iv_capacity n v")
    case True
    then have r': "iv_reserveExact n (iv_capacity n v + extra) v = (status, v')" using r by (simp add: iv_ensureExtra_def)
    show ?thesis using reserveExact_spec [OF ok cf r'] u le by (fastforce simp: word_le_nat_alt)
  next
    case False
    then show ?thesis using r ok u' by (auto simp: iv_ensureExtra_def word_le_nat_alt)
  qed
  then show "iv_ok n v'" "iv_data v' = iv_data v" "status = OsStatusSuccess \<or> status = OsStatusOutOfMemory" "iv_count v' = iv_count v"
    "status = OsStatusSuccess \<Longrightarrow> unat (iv_count v) + unat extra \<le> unat (iv_capacity n v')"
    "unat (iv_capacity n v') \<le> unat (iv_capacity n v) + unat extra" by auto
qed

lemma extend_ok:
  assumes ok: "iv_ok n v" and s: "unat (iv_count v) + length xs \<le> unat (iv_capacity n v)"
  shows "iv_ok n (iv_setSize (iv_count v + of_nat (length xs)) (v\<lparr>iv_data := iv_data v @ xs\<rparr>))"
proof -
  have k: "unat (iv_capacity n v) < 2 ^ 63" using ok by (simp add: iv_ok_def word_less_nat_alt unat_kHeapFlag)
  have "length xs < 2 ^ 64" using s k by simp
  then have u: "unat (iv_count v + of_nat (length xs)) = unat (iv_count v) + length xs"
    using s k by (subst unat_add_small) (simp_all add: unat_of_nat)
  then have f: "iv_count v + of_nat (length xs) < kHeapFlag" using s k by (simp add: word_less_nat_alt unat_kHeapFlag)
  show ?thesis using ok u s by (simp add: iv_ok_def setSize_fields [OF f] word_le_nat_alt)
qed

lemma iv_add_spec:
  assumes ok: "iv_ok n v" and c: "unat (iv_capacity n v) + 1 < 2 ^ 63" and r: "iv_add n x v = (status, v')"
  shows "iv_ok n v'" "status = OsStatusSuccess \<or> status = OsStatusOutOfMemory"
    "iv_data v' = (if status = OsStatusSuccess then iv_data v @ [x] else iv_data v)"
proof -
  obtain s w where w: "iv_ensureExtra n 1 v = (s, w)" by fastforce
  note E = ensureExtra_spec [OF ok _ w]
  show "iv_ok n v'" "status = OsStatusSuccess \<or> status = OsStatusOutOfMemory"
    "iv_data v' = (if status = OsStatusSuccess then iv_data v @ [x] else iv_data v)"
    using r E c extend_ok [of n w "[x]"] by (auto simp: iv_add_def w iv_setSize_def split: if_splits)
qed

lemma iv_remove_spec:
  assumes ok: "iv_ok n v" and i: "unat i < length (iv_data v)"
  shows "\<exists>v'. iv_remove i v = Some v' \<and> iv_ok n v'
    \<and> iv_data v' = take (unat i) (iv_data v) @ drop (Suc (unat i)) (iv_data v) \<and> unat (iv_count v') = unat (iv_count v) - 1"
proof -
  have c: "unat (iv_count v) = length (iv_data v)" "iv_count v \<le> iv_capacity n v" "iv_capacity n v < kHeapFlag"
    using ok by (simp_all add: iv_ok_def)
  have "iv_count v \<noteq> 0" using c(1) i by auto
  then have u: "unat (iv_count v - 1) = unat (iv_count v) - 1" by (simp add: unat_minus_one)
  then have f: "iv_count v - 1 < kHeapFlag" using c by (simp add: word_less_nat_alt word_le_nat_alt)
  show ?thesis using i ok u c by (auto simp: iv_remove_def iv_ok_def setSize_fields [OF f] word_le_nat_alt)
qed

text \<open>\<^verbatim>\<open>remove_if\<close> always returns; it removes every occurrence of the element.\<close>

lemma remove_if_loop_spec:
  assumes "iv_ok n v" and "unat i \<le> length (iv_data v)"
  shows "\<exists>v'. iv_remove_if_loop i x v = Some v' \<and> iv_ok n v'
    \<and> iv_data v' = take (unat i) (iv_data v) @ filter (\<lambda>y. y \<noteq> x) (drop (unat i) (iv_data v))"
  using assms
proof (induction "length (iv_data v) - unat i" arbitrary: i v)
  case 0
  then have "\<not> i < iv_count v" by (simp add: iv_ok_def word_less_nat_alt)
  then show ?case using 0 by (subst iv_remove_if_loop.simps) simp
next
  case (Suc d)
  have i: "unat i < length (iv_data v)" using Suc.hyps(2) by simp
  have lt: "i < iv_count v" using i Suc.prems(1) by (simp add: iv_ok_def word_less_nat_alt)
  have at: "iv_at i v = Some (iv_data v ! unat i)" using i by (simp add: iv_at_def)
  have dr: "drop (unat i) (iv_data v) = iv_data v ! unat i # drop (Suc (unat i)) (iv_data v)" using i by (simp add: Cons_nth_drop_Suc)
  show ?case
  proof (cases "iv_data v ! unat i = x")
    case True
    obtain w where w: "iv_remove i v = Some w" "iv_ok n w" "iv_data w = take (unat i) (iv_data v) @ drop (Suc (unat i)) (iv_data v)"
      using iv_remove_spec [OF Suc.prems(1) i] by blast
    have "d = length (iv_data w) - unat i" "unat i \<le> length (iv_data w)" using w(3) Suc.hyps(2) i by simp_all
    from Suc.hyps(1) [OF this(1) w(2) this(2)] show ?thesis
      using lt at True w dr i by (subst iv_remove_if_loop.simps) simp
  next
    case False
    have "unat (iv_count v) < 2 ^ 64" using unsigned_less [of "iv_count v"] by simp
    then have u: "unat (i + 1) = Suc (unat i)" using lt by (subst unat_add_small) (simp_all add: word_less_nat_alt)
    have "d = length (iv_data v) - unat (i + 1)" "unat (i + 1) \<le> length (iv_data v)" using Suc.hyps(2) u i by simp_all
    from Suc.hyps(1) [OF this(1) Suc.prems(1) this(2)] show ?thesis
      using lt at False dr u i by (subst iv_remove_if_loop.simps) (simp add: take_Suc_conv_app_nth)
  qed
qed


text \<open>The interface of a sequence that can fail to grow.\<close>

locale growable_list =
  fixes ok :: "'s \<Rightarrow> bool" and items :: "'s \<Rightarrow> 'a list" and push :: "'a \<Rightarrow> 's \<Rightarrow> OsStatus \<times> 's"
  assumes push_law: "ok s \<Longrightarrow> push x s = (st, s') \<Longrightarrow>
    items s' = (if st = OsStatusSuccess then items s @ [x] else items s) \<and> (st = OsStatusSuccess \<or> st = OsStatusOutOfMemory)"
begin

lemma push_length: "ok s \<Longrightarrow> push x s = (st, s') \<Longrightarrow> length (items s) \<le> length (items s')"
  using push_law by fastforce

lemma push_prefix: "ok s \<Longrightarrow> push x s = (st, s') \<Longrightarrow> take (length (items s)) (items s') = items s"
  using push_law by fastforce

end

definition iv_room :: "size_t \<Rightarrow> 'a InlinedVector \<Rightarrow> bool" where
  "iv_room n v \<longleftrightarrow> iv_ok n v \<and> unat (iv_capacity n v) + 1 < 2 ^ 63"

interpretation iv8: growable_list "iv_room 8" iv_data "iv_add 8"
proof unfold_locales
  fix s :: "'a InlinedVector" and x st s' assume "iv_room 8 s" "iv_add 8 x s = (st, s')"
  then show "iv_data s' = (if st = OsStatusSuccess then iv_data s @ [x] else iv_data s) \<and> (st = OsStatusSuccess \<or> st = OsStatusOutOfMemory)"
    using iv_add_spec(2,3) [of 8 s x st s'] by (simp add: iv_room_def)
qed

text \<open>
  C22. The vector with inline storage behaves as a list: \<^verbatim>\<open>add\<close> appends the element or, when memory runs out, changes
  nothing; \<^verbatim>\<open>remove\<close> deletes the element at an index; \<^verbatim>\<open>remove_if\<close> always
  returns and deletes every occurrence of an element. The count is always the number of elements and never
  exceeds the capacity.
\<close>

theorem inlined_vector_refines_list:
  assumes "iv_ok n v" and "unat (iv_capacity n v) + 1 < 2 ^ 63" and "unat i < length (iv_data v)"
  shows "(\<exists>v'. iv_add n x v = (OsStatusSuccess, v') \<and> iv_ok n v' \<and> iv_data v' = iv_data v @ [x]
      \<or> iv_add n x v = (OsStatusOutOfMemory, v') \<and> iv_ok n v' \<and> iv_data v' = iv_data v)
    \<and> (\<exists>v'. iv_remove i v = Some v' \<and> iv_ok n v' \<and> iv_data v' = take (unat i) (iv_data v) @ drop (Suc (unat i)) (iv_data v))
    \<and> (\<exists>v'. iv_remove_if x v = Some v' \<and> iv_ok n v' \<and> iv_data v' = filter (\<lambda>y. y \<noteq> x) (iv_data v))"
proof (intro conjI)
  obtain st v' where "iv_add n x v = (st, v')" by fastforce
  with iv_add_spec [OF assms(1,2) this]
  show "\<exists>v'. iv_add n x v = (OsStatusSuccess, v') \<and> iv_ok n v' \<and> iv_data v' = iv_data v @ [x]
      \<or> iv_add n x v = (OsStatusOutOfMemory, v') \<and> iv_ok n v' \<and> iv_data v' = iv_data v" by auto
  show "\<exists>v'. iv_remove i v = Some v' \<and> iv_ok n v' \<and> iv_data v' = take (unat i) (iv_data v) @ drop (Suc (unat i)) (iv_data v)"
    using iv_remove_spec [OF assms(1,3)] by blast
  show "\<exists>v'. iv_remove_if x v = Some v' \<and> iv_ok n v' \<and> iv_data v' = filter (\<lambda>y. y \<noteq> x) (iv_data v)"
    using remove_if_loop_spec [OF assms(1), of 0 x] by (simp add: iv_remove_if_def)
qed

definition example_vector :: "nat InlinedVector" where
  "example_vector = \<lparr>iv_data = [1, 2, 1], iv_size = 3, iv_heapCapacity = 0, iv_mem = [True]\<rparr>"

theorem inlined_vector_refines_list_witness:
  "\<exists>v'. iv_remove_if 1 example_vector = Some v' \<and> iv_data v' = [2]"
proof -
  have "iv_count example_vector = 3" by (simp add: iv_count_def example_vector_def kHeapFlag_def)
  moreover have "\<not> isHeapAllocated example_vector" by (simp add: isHeapAllocated_def example_vector_def kHeapFlag_def)
  ultimately have "iv_ok 4 example_vector" "iv_capacity 4 example_vector = 4"
    by (simp_all add: iv_ok_def iv_capacity_def kHeapFlag_def) (simp_all add: example_vector_def)
  from inlined_vector_refines_list [OF this(1), of 0 1] this(2) show ?thesis by (auto simp: example_vector_def)
qed

end
