(* ===== verification/SystemMemory.thy ===== *)
theory SystemMemory
  imports AddressSpaceStack InlinedVector
begin

text \<open>
  The kernel's memory: \<^verbatim>\<open>km::PageAllocator\<close> of \<^verbatim>\<open>kernel/src/memory/page_allocator.cpp\<close> hands out physical pages from the memory map of the
  boot loader, and \<^verbatim>\<open>km::SystemMemory\<close> of \<^verbatim>\<open>kernel/src/memory.cpp\<close> joins it with the kernel's address space.

  Shown here: a request for memory takes physical pages and addresses of its own and joins them, a request that fails gives the physical pages back,
  and releasing a mapping restores both heaps.
\<close>

section \<open>The memory map\<close>

datatype MemoryRegionType =
    eUsable | eReserved | eAcpiReclaimable | eAcpiNvs | eBadMemory | eBootloaderReclaimable | eKernel | eFrameBuffer
  | eKernelRuntimeData | eKernelStack

record MemoryRegion =
  mr_type :: MemoryRegionType
  mr_range :: range

definition isUsable :: "MemoryRegion \<Rightarrow> bool" where
  "isUsable r = (case mr_type r of eUsable \<Rightarrow> True | eAcpiReclaimable \<Rightarrow> True | eBootloaderReclaimable \<Rightarrow> True | _ \<Rightarrow> False)"

definition isReclaimable :: "MemoryRegion \<Rightarrow> bool" where
  "isReclaimable r = (case mr_type r of eAcpiReclaimable \<Rightarrow> True | eBootloaderReclaimable \<Rightarrow> True | _ \<Rightarrow> False)"

definition isAccessible :: "MemoryRegion \<Rightarrow> bool" where
  "isAccessible r \<longleftrightarrow> mr_type r \<noteq> eBadMemory"

definition kLowMemory :: size_t where "kLowMemory = 0x100000"

definition eData :: PageFlags where "eData = eRead OR eWrite"
definition eAll :: PageFlags where "eAll = eRead OR eWrite OR eExecute"

section \<open>The allocator of physical pages\<close>

record PageAllocator =
  pa_locked :: bool
  pa_heap :: tlsf_heap

definition pa_lock :: "PageAllocator \<Rightarrow> PageAllocator option" where
  "pa_lock A = (if pa_locked A then None else Some (A\<lparr>pa_locked := True\<rparr>))"

definition pa_unlock :: "PageAllocator \<Rightarrow> PageAllocator" where
  "pa_unlock A = A\<lparr>pa_locked := False\<rparr>"

definition pa_aligned_alloc :: "size_t \<Rightarrow> size_t \<Rightarrow> PageAllocator \<Rightarrow> (ptr option \<times> PageAllocator) option" where
  "pa_aligned_alloc align sz A =
     do { A \<leftarrow> pa_lock A; (r, h) \<leftarrow> aligned_alloc align sz (pa_heap A); Some (r, pa_unlock (A\<lparr>pa_heap := h\<rparr>)) }"

definition pageAlloc :: "size_t \<Rightarrow> PageAllocator \<Rightarrow> (ptr option \<times> PageAllocator) option" where
  "pageAlloc cnt A = pa_aligned_alloc kPageSize (cnt * kPageSize) A"

definition pa_splitv ::
  "ptr option \<Rightarrow> size_t list \<Rightarrow> ptr option list \<Rightarrow> PageAllocator \<Rightarrow> (OsStatus \<times> ptr option list \<times> PageAllocator) option" where
  "pa_splitv p points results A =
     do { A \<leftarrow> pa_lock A; (status, results, h) \<leftarrow> splitv p points results (pa_heap A);
          Some (status, results, pa_unlock (A\<lparr>pa_heap := h\<rparr>)) }"

definition pa_split ::
  "ptr option \<Rightarrow> size_t \<Rightarrow> PageAllocator \<Rightarrow> (OsStatus \<times> (ptr \<times> ptr) option \<times> PageAllocator) option" where
  "pa_split p midpoint A =
     do { A \<leftarrow> pa_lock A; (status, r, h) \<leftarrow> TlsfHeap.split p midpoint (pa_heap A);
          Some (status, r, pa_unlock (A\<lparr>pa_heap := h\<rparr>)) }"

definition pa_free :: "ptr option \<Rightarrow> PageAllocator \<Rightarrow> PageAllocator option" where
  "pa_free p A = do { A \<leftarrow> pa_lock A; h \<leftarrow> TlsfHeap.free p (pa_heap A); Some (pa_unlock (A\<lparr>pa_heap := h\<rparr>)) }"

definition pa_reserve :: "range \<Rightarrow> PageAllocator \<Rightarrow> (OsStatus \<times> ptr option \<times> PageAllocator) option" where
  "pa_reserve r A =
     (if \<not> page_range_ok r then Some (OsStatusInvalidInput, None, A)
      else do {
        A \<leftarrow> pa_lock A;
        (status, a, h) \<leftarrow> TlsfHeap.reserve r (pa_heap A);
        let A = pa_unlock (A\<lparr>pa_heap := h\<rparr>);
        if status \<noteq> OsStatusSuccess then Some (status, a, A) else Some (OsStatusSuccess, a, A) })"

text \<open>\<^verbatim>\<open>release\<close> only takes the lock and writes to the log: its call to the heap is commented out.\<close>

definition pa_release :: "range \<Rightarrow> PageAllocator \<Rightarrow> PageAllocator option" where
  "pa_release r A = do { A \<leftarrow> pa_lock A; Some (pa_unlock A) }"

definition pa_stats :: "PageAllocator \<Rightarrow> (TlsfHeapStats \<times> PageAllocator) option" where
  "pa_stats A = do { A \<leftarrow> pa_lock A; st \<leftarrow> TlsfHeap.stats (pa_heap A); Some (st, pa_unlock A) }"

text \<open>The loop over the memory map, which keeps what is above the first megabyte.\<close>

fun usable_memory :: "MemoryRegion list \<Rightarrow> range InlinedVector \<Rightarrow> range InlinedVector option" where
  "usable_memory [] memory = Some memory"
| "usable_memory (region # regions) memory =
     (let add = (\<lambda>r. case iv_add 16 r memory of (status, memory) \<Rightarrow>
                  do { _ \<leftarrow> KM_CHECK (status = OsStatusSuccess); usable_memory regions memory })
      in if \<not> isUsable region then usable_memory regions memory
         else if isAfter_addr (mr_range region) kLowMemory then add (mr_range region)
         else if contains_addr (mr_range region) kLowMemory
         then do { (low, high) \<leftarrow> split_at (mr_range region) kLowMemory; add high }
         else usable_memory regions memory)"

text \<open>\<open>vecs\<close> and \<open>outcomes\<close> are the results of the requests for memory of the vector and of the heap.\<close>

definition pa_create ::
  "bool list \<Rightarrow> bool list \<Rightarrow> MemoryRegion list \<Rightarrow> PageAllocator \<Rightarrow> (OsStatus \<times> PageAllocator) option" where
  "pa_create vecs outcomes memmap A =
     do { memory \<leftarrow> usable_memory memmap (iv_make vecs);
          (status, h) \<leftarrow> create_many outcomes (iv_data memory);
          if status \<noteq> OsStatusSuccess then Some (status, A)
          else do { h \<leftarrow> h; Some (OsStatusSuccess, A\<lparr>pa_heap := h\<rparr>) } }"

section \<open>The system memory\<close>

record SystemMemory =
  sm_pageManager :: PageBuilder
  sm_pageAllocator :: PageAllocator
  sm_tables :: AddressSpace

definition sm_reservePhysical :: "range \<Rightarrow> SystemMemory \<Rightarrow> SystemMemory option" where
  "sm_reservePhysical r M = do { (status, a, A) \<leftarrow> pa_reserve r (sm_pageAllocator M); Some (M\<lparr>sm_pageAllocator := A\<rparr>) }"

definition sm_reserveVirtual :: "range \<Rightarrow> SystemMemory \<Rightarrow> SystemMemory option" where
  "sm_reserveVirtual r M = do { S \<leftarrow> as_reserve_logged r (sm_tables M); Some (M\<lparr>sm_tables := S\<rparr>) }"

definition sm_reserve :: "AddressMapping \<Rightarrow> SystemMemory \<Rightarrow> SystemMemory option" where
  "sm_reserve m M = do { M \<leftarrow> sm_reserveVirtual (virtualRange m) M; sm_reservePhysical (physicalRange m) M }"

definition sm_unmap_range :: "range \<Rightarrow> SystemMemory \<Rightarrow> (OsStatus \<times> SystemMemory) option" where
  "sm_unmap_range r M = do { (status, S) \<leftarrow> as_unmap_range r (sm_tables M); Some (status, M\<lparr>sm_tables := S\<rparr>) }"

definition sm_unmap_ptr :: "u64 \<Rightarrow> size_t \<Rightarrow> SystemMemory \<Rightarrow> (OsStatus \<times> SystemMemory) option" where
  "sm_unmap_ptr p sz M = sm_unmap_range (range_of p sz) M"

definition sm_map_range :: "range \<Rightarrow> PageFlags \<Rightarrow> MemoryType \<Rightarrow> SystemMemory \<Rightarrow> (u64 option \<times> SystemMemory) option" where
  "sm_map_range r flags type M =
     (let offset = rfront r AND 0xFFF
      in do {
        (status, memory, S) \<leftarrow> as_map r flags type (sm_tables M);
        let M = M\<lparr>sm_tables := S\<rparr>;
        if status \<noteq> OsStatusSuccess then Some (None, M)
        else do { base \<leftarrow> ga_address (as_heap S) memory; Some (Some (base + offset), M) } })"

definition sm_mapStack :: "size_t \<Rightarrow> PageFlags \<Rightarrow> SystemMemory \<Rightarrow> (OsStatus \<times> StackMappingAllocation option \<times> SystemMemory) option" where
  "sm_mapStack sz flags M =
     (if sz = 0 \<or> sz mod kPageSize \<noteq> 0 then Some (OsStatusInvalidInput, None, M)
      else do {
        (memory, A) \<leftarrow> pageAlloc (Pages sz) (sm_pageAllocator M);
        let M = M\<lparr>sm_pageAllocator := A\<rparr>;
        if memory = None then Some (OsStatusOutOfMemory, None, M)
        else do {
          (status, mapping, S) \<leftarrow> as_mapStack_memory (pa_heap A) memory flags (sm_tables M);
          let M = M\<lparr>sm_tables := S\<rparr>;
          if status \<noteq> OsStatusSuccess then do {
            A \<leftarrow> pa_free memory (sm_pageAllocator M);
            Some (status, None, M\<lparr>sm_pageAllocator := A\<rparr>) }
          else Some (OsStatusSuccess, mapping, M) } })"

definition sm_map :: "size_t \<Rightarrow> PageFlags \<Rightarrow> MemoryType \<Rightarrow> SystemMemory \<Rightarrow> (OsStatus \<times> MappingAllocation option \<times> SystemMemory) option" where
  "sm_map sz flags type M =
     (if sz = 0 \<or> sz mod kPageSize \<noteq> 0 then Some (OsStatusInvalidInput, None, M)
      else do {
        (memory, A) \<leftarrow> pageAlloc (Pages sz) (sm_pageAllocator M);
        let M = M\<lparr>sm_pageAllocator := A\<rparr>;
        if memory = None then Some (OsStatusOutOfMemory, None, M)
        else do {
          (status, mapping, S) \<leftarrow> as_map_memory (pa_heap A) memory flags type (sm_tables M);
          let M = M\<lparr>sm_tables := S\<rparr>;
          if status \<noteq> OsStatusSuccess then do {
            A \<leftarrow> pa_free memory (sm_pageAllocator M);
            Some (status, None, M\<lparr>sm_pageAllocator := A\<rparr>) }
          else Some (OsStatusSuccess, mapping, M) } })"

definition sm_map_memory :: "range \<Rightarrow> PageFlags \<Rightarrow> MemoryType \<Rightarrow> SystemMemory \<Rightarrow> (OsStatus \<times> ptr option \<times> SystemMemory) option" where
  "sm_map_memory memory flags type M =
     do { (status, a, S) \<leftarrow> as_map memory flags type (sm_tables M); Some (status, a, M\<lparr>sm_tables := S\<rparr>) }"

definition sm_unmap :: "MappingAllocation \<Rightarrow> SystemMemory \<Rightarrow> (OsStatus \<times> SystemMemory) option" where
  "sm_unmap allocation M =
     do { (status, S) \<leftarrow> as_unmap_mapping allocation (sm_tables M);
          let M = M\<lparr>sm_tables := S\<rparr>;
          if status \<noteq> OsStatusSuccess then Some (status, M)
          else do {
            A \<leftarrow> pa_free (ma_memory allocation) (sm_pageAllocator M);
            Some (OsStatusSuccess, M\<lparr>sm_pageAllocator := A\<rparr>) } }"

definition sm_allocate :: "size_t \<Rightarrow> PageFlags \<Rightarrow> MemoryType \<Rightarrow> SystemMemory \<Rightarrow> (u64 option \<times> SystemMemory) option" where
  "sm_allocate sz flags type M =
     do { (status, a, M) \<leftarrow> sm_map sz flags type M;
          if status \<noteq> OsStatusSuccess then Some (None, M)
          else do { a \<leftarrow> a; v \<leftarrow> ma_baseAddress (as_heap (sm_tables M)) a; Some (Some v, M) } }"

definition sm_allocateStack :: "size_t \<Rightarrow> SystemMemory \<Rightarrow> (AddressMapping \<times> SystemMemory) option" where
  "sm_allocateStack sz M =
     do { (status, st, M) \<leftarrow> sm_mapStack sz eData M;
          if status \<noteq> OsStatusSuccess then Some (\<lparr>am_vaddr = 0, am_paddr = 0, am_size = 0\<rparr>, M)
          else do {
            st \<leftarrow> st;
            v \<leftarrow> sma_baseAddress (as_heap (sm_tables M)) st;
            p \<leftarrow> sma_baseMemory (pa_heap (sm_pageAllocator M)) st;
            s \<leftarrow> stackSize (pa_heap (sm_pageAllocator M)) st;
            Some (\<lparr>am_vaddr = v, am_paddr = p, am_size = s\<rparr>, M) } }"

definition sm_create ::
  "bool list \<Rightarrow> bool list \<Rightarrow> bool list \<Rightarrow> MemoryRegion list \<Rightarrow> range \<Rightarrow> PageBuilder \<Rightarrow> AddressMapping \<Rightarrow> SystemMemory
     \<Rightarrow> (OsStatus \<times> SystemMemory) option" where
  "sm_create vouts vecs pouts memmap systemArea pm pteMemory M =
     do { let M = M\<lparr>sm_pageManager := pm\<rparr>;
          (status, S) \<leftarrow> as_create vouts pm pteMemory eAll systemArea (sm_tables M);
          let M = M\<lparr>sm_tables := S\<rparr>;
          if status \<noteq> OsStatusSuccess then Some (status, M)
          else do {
            (status, A) \<leftarrow> pa_create vecs pouts memmap (sm_pageAllocator M);
            Some (status, M\<lparr>sm_pageAllocator := A\<rparr>) } }"

section \<open>Mapping and unmapping\<close>

text \<open>The two heaps and the page tables are well formed, and no lock is held.\<close>

definition sm_inv :: "nat \<Rightarrow> nat \<Rightarrow> SystemMemory \<Rightarrow> bool" where
  "sm_inv pbase base M \<longleftrightarrow> \<not> pa_locked (sm_pageAllocator M) \<and> heap_ok pbase (pa_heap (sm_pageAllocator M)) \<and> as_inv base (sm_tables M)"

abbreviation sm_memory :: "SystemMemory \<Rightarrow> tlsf_heap" where "sm_memory M \<equiv> pa_heap (sm_pageAllocator M)"
abbreviation sm_addresses :: "SystemMemory \<Rightarrow> tlsf_heap" where "sm_addresses M \<equiv> as_heap (sm_tables M)"

lemma whole_size:
  assumes "0 < N" and "N * 4096 + 4096 < 2 ^ 64"
  shows "Pages (of_nat N * kPageSize) * kPageSize = of_nat N * kPageSize" "of_nat N * kPageSize \<noteq> (0 :: u64)" "of_nat N * kPageSize mod kPageSize = (0 :: u64)"
proof -
  let ?s = "of_nat N * kPageSize :: u64"
  have u: "unat ?s = N * 4096" using assms(2) by (intro unat_page_bytes) simp
  have k: "unat (kPageSize :: u64) = 4096" by (simp add: kPageSize_def)
  have r: "roundup ?s kPageSize = ?s" by (rule aligned_unchanged(2)) (use u assms(2) in simp_all)
  have d: "unat (?s div kPageSize) = N" by (simp add: unat_div_distrib u k)
  have "unat (?s div kPageSize * kPageSize) = unat ?s" using assms(2) by (subst unat_mult_small) (simp_all add: d k u)
  then show "Pages ?s * kPageSize = ?s" by (simp add: Pages_def r word_unat_eq_iff)
  show "?s \<noteq> 0" using u assms(1) by (metis mult_is_0 not_gr_zero unat_0 zero_neq_numeral)
  have "unat (?s mod kPageSize) = 0" by (simp add: unat_mod_distrib u k)
  then show "?s mod kPageSize = 0" by (simp add: word_unat_eq_iff)
qed

lemma pageAlloc_exec:
  assumes "\<not> pa_locked A" and "0 < N" and "N * 4096 + 4096 < 2 ^ 64" and "aligned_alloc kPageSize (of_nat N * kPageSize) (pa_heap A) = Some (r, h)"
  shows "pageAlloc (Pages (of_nat N * kPageSize)) A = Some (r, \<lparr>pa_locked = False, pa_heap = h\<rparr>)"
  using assms whole_size(1) [OF assms(2,3)] by (cases A) (simp add: pageAlloc_def pa_aligned_alloc_def pa_lock_def pa_unlock_def)

lemma pa_free_exec:
  assumes "\<not> pa_locked A" and "TlsfHeap.free p (pa_heap A) = Some h"
  shows "pa_free p A = Some \<lparr>pa_locked = False, pa_heap = h\<rparr>"
  using assms by (cases A) (simp add: pa_free_def pa_lock_def pa_unlock_def)

text \<open>What \<^verbatim>\<open>map\<close> finds: memory \<open>m\<close> at \<open>f\<close> in the one heap and addresses \<open>p\<close> at \<open>a\<close> in the other.\<close>

definition sm_ready :: "nat \<Rightarrow> nat \<Rightarrow> SystemMemory \<Rightarrow> nat \<Rightarrow> PageFlags \<Rightarrow> tlsf_heap \<Rightarrow> tlsf_heap \<Rightarrow> ptr \<Rightarrow> u64 \<Rightarrow> ptr \<Rightarrow> u64 \<Rightarrow> bool" where
  "sm_ready pbase base M N flags g h m f p a \<longleftrightarrow> sm_inv pbase base M
     \<and> heap_ready pbase kPageSize (of_nat N * kPageSize) (sm_memory M)
     \<and> aligned_alloc kPageSize (of_nat N * kPageSize) (sm_memory M) = Some (Some m, g) \<and> live g m = Some (f, of_nat N * kPageSize)
     \<and> map_ready base (sm_tables M) f N flags
     \<and> aligned_alloc kPageSize (of_nat N * kPageSize) (sm_addresses M) = Some (Some p, h) \<and> live h p = Some (a, of_nat N * kPageSize)
     \<and> tables_ready (sm_tables M) a N"

lemma sm_map_outcome:
  assumes "sm_ready pbase base M N flags g h m f p a"
  shows "\<exists>M'. sm_map (of_nat N * kPageSize) flags type M = Some (OsStatusSuccess, Some \<lparr>ma_memory = Some m, ma_address = Some p\<rparr>, M')
    \<and> sm_inv pbase base M'
    \<and> live (sm_memory M) m = None \<and> live (sm_memory M') = (live (sm_memory M))(m \<mapsto> (f, of_nat N * kPageSize))
    \<and> live (sm_addresses M) p = None \<and> live (sm_addresses M') = (live (sm_addresses M))(p \<mapsto> (a, of_nat N * kPageSize))
    \<and> translates (as_tables (sm_tables M')) \<lparr>am_vaddr = a, am_paddr = f, am_size = of_nat N * kPageSize\<rparr>
    \<and> all_mapped (as_tables (sm_tables M')) a (of_nat N * kPageSize)
    \<and> (\<forall>v. vpn v \<notin> span a (of_nat N * kPageSize)
          \<longrightarrow> getBackingAddressUnlocked v (as_tables (sm_tables M')) = getBackingAddressUnlocked v (as_tables (sm_tables M)))
    \<and> (\<forall>x \<in> span a (of_nat N * kPageSize). view (as_tables (sm_tables M)) x = None) \<and> same_env (as_tables (sm_tables M)) (as_tables (sm_tables M'))"
proof -
  let ?s = "of_nat N * kPageSize :: u64"
  have R: "sm_inv pbase base M" "heap_ready pbase kPageSize ?s (sm_memory M)" "aligned_alloc kPageSize ?s (sm_memory M) = Some (Some m, g)"
    "live g m = Some (f, ?s)" "map_ready base (sm_tables M) f N flags" "aligned_alloc kPageSize ?s (sm_addresses M) = Some (Some p, h)"
    "live h p = Some (a, ?s)" "tables_ready (sm_tables M) a N" using assms by (simp_all add: sm_ready_def)
  have I: "\<not> pa_locked (sm_pageAllocator M)" "heap_ok pbase (sm_memory M)" "as_inv base (sm_tables M)" using R(1) by (simp_all add: sm_inv_def)
  have fr: "frames (mPageManager (as_tables (sm_tables M))) f N" using R(5) by (simp add: map_ready_def)
  then have N: "0 < N" "N * 4096 + 4096 < 2 ^ 64" by (simp_all add: frames_def)
  obtain x where g: "heap_ok pbase g" "live (sm_memory M) m = None" "live g = (live (sm_memory M))(m \<mapsto> (x, ?s))"
    using tlsf.alloc_law [OF I(2) R(2)] R(3) by auto
  have x: "x = f" using R(4) g(3) by simp
  obtain S' where S': "as_map (pages_at f N) flags type (sm_tables M) = Some (OsStatusSuccess, Some p, S')" "as_inv base S'"
    "live (sm_addresses M) p = None" "live (as_heap S') = (live (sm_addresses M))(p \<mapsto> (a, ?s))"
    "translates (as_tables S') \<lparr>am_vaddr = a, am_paddr = f, am_size = ?s\<rparr>"
    "\<forall>x \<in> span a ?s. view (as_tables (sm_tables M)) x = None \<and> view (as_tables S') x \<noteq> None"
    "\<forall>x < 2 ^ 36. x \<notin> span a ?s \<longrightarrow> view (as_tables S') x = view (as_tables (sm_tables M)) x" "same_env (as_tables (sm_tables M)) (as_tables S')"
    using as_map_outcome [OF R(5,6,7,8), of type] by blast
  have l: "live (as_heap S') p = Some (a, ?s)" using S'(4) by simp
  let ?M = "M\<lparr>sm_pageAllocator := \<lparr>pa_locked = False, pa_heap = g\<rparr>, sm_tables := S'\<rparr>"
  have pa: "range_of f ?s = pages_at f N" by (simp add: pages_at_def)
  have "as_map_memory g (Some m) flags type (sm_tables M) = Some (OsStatusSuccess, Some \<lparr>ma_memory = Some m, ma_address = Some p\<rparr>, S')"
    using S'(1) ga_live(2,3) [OF R(4)] ga_live(2) [OF l] by (simp add: as_map_memory_def ma_unchecked_def KM_CHECK_def pa)
  then have "sm_map ?s flags type M = Some (OsStatusSuccess, Some \<lparr>ma_memory = Some m, ma_address = Some p\<rparr>, ?M)"
    using pageAlloc_exec [OF I(1) N R(3)] whole_size(2,3) [OF N] by (simp add: sm_map_def)
  moreover have "sm_inv pbase base ?M" using g(1) S'(2) by (simp add: sm_inv_def)
  moreover have "getBackingAddressUnlocked v (as_tables S') = getBackingAddressUnlocked v (as_tables (sm_tables M))" if "vpn v \<notin> span a ?s" for v
    using backing_unchanged [OF I(3) S'(2,8)] S'(7) vpn_less [of v] that by simp
  ultimately show ?thesis using g(2,3) x S'(3-6,8) by (intro exI [of _ ?M]) (simp add: all_mapped_def)
qed


text \<open>A request that fails.\<close>

lemma as_map_memory_refuses:
  assumes inv: "as_inv base S" and rdy: "heap_ready base kPageSize s (as_heap S)" and l: "live g m = Some (f, s)"
    and e: "as_map_memory g (Some m) flags type S = Some (status, r, S')" and st: "status \<noteq> OsStatusSuccess"
  shows "as_inv base S' \<and> live (as_heap S') = live (as_heap S) \<and> view (as_tables S') = view (as_tables S) \<and> same_env (as_tables S) (as_tables S')"
proof -
  obtain r' where "as_map (range_of f s) flags type S = Some (status, r', S')"
    using e st ga_live(3) [OF l] by (auto simp: as_map_memory_def bind_eq_Some_conv split: if_splits)
  then show ?thesis using as_map_refuses [OF inv _ _ st, of "range_of f s" flags type r' S'] rdy by (simp add: range_of_def range_size_def)
qed

lemma sm_map_refuses:
  assumes inv: "sm_inv pbase base M" and N: "0 < N" "N * 4096 + 4096 < 2 ^ 64"
    and rdy: "heap_ready pbase kPageSize (of_nat N * kPageSize) (sm_memory M)" "heap_ready base kPageSize (of_nat N * kPageSize) (sm_addresses M)"
    and e: "sm_map (of_nat N * kPageSize) flags type M = Some (status, r, M')" and st: "status \<noteq> OsStatusSuccess"
  shows "r = None \<and> sm_inv pbase base M' \<and> live (sm_memory M') = live (sm_memory M) \<and> live (sm_addresses M') = live (sm_addresses M)
    \<and> view (as_tables (sm_tables M')) = view (as_tables (sm_tables M)) \<and> same_env (as_tables (sm_tables M)) (as_tables (sm_tables M'))"
proof -
  let ?s = "of_nat N * kPageSize :: u64"
  have I: "\<not> pa_locked (sm_pageAllocator M)" "heap_ok pbase (sm_memory M)" "as_inv base (sm_tables M)" using inv by (simp_all add: sm_inv_def)
  obtain x g where g: "aligned_alloc kPageSize ?s (sm_memory M) = Some (x, g)" "heap_ok pbase g"
    "case x of None \<Rightarrow> live g = live (sm_memory M)
     | Some m \<Rightarrow> live (sm_memory M) m = None \<and> (\<exists>f. f mod kPageSize = 0 \<and> live g = (live (sm_memory M))(m \<mapsto> (f, ?s)))"
    using tlsf.alloc_law [OF I(2) rdy(1)] by blast
  note P = pageAlloc_exec [OF I(1) N g(1)] and W = whole_size(2,3) [OF N]
  show ?thesis
  proof (cases x)
    case None
    then have "r = None" "M' = M\<lparr>sm_pageAllocator := \<lparr>pa_locked = False, pa_heap = g\<rparr>\<rparr>" using e P W by (simp_all add: sm_map_def)
    then show ?thesis using None g(2,3) I(3) by (simp add: sm_inv_def same_env_def)
  next
    case (Some m)
    then obtain f where f: "live (sm_memory M) m = None" "live g = (live (sm_memory M))(m \<mapsto> (f, ?s))" using g(3) by auto
    have l: "live g m = Some (f, ?s)" using f(2) by simp
    obtain g' where g': "TlsfHeap.free (Some m) g = Some g'" "heap_ok pbase g'" "live g' = (live g)(m := None)" using tlsf.dealloc_law [OF g(2) l] by blast
    have F: "pa_free (Some m) \<lparr>pa_locked = False, pa_heap = g\<rparr> = Some \<lparr>pa_locked = False, pa_heap = g'\<rparr>"
      by (rule pa_free_exec) (simp_all add: g'(1))
    obtain r' S' where S': "as_map_memory g (Some m) flags type (sm_tables M) = Some (status, r', S')" "r = None"
      "M' = M\<lparr>sm_pageAllocator := \<lparr>pa_locked = False, pa_heap = g'\<rparr>, sm_tables := S'\<rparr>"
      using e st P W F Some by (cases M) (auto simp: sm_map_def bind_eq_Some_conv Let_def split: if_splits)
    note A = as_map_memory_refuses [OF I(3) rdy(2) l S'(1) st]
    have "live g' = live (sm_memory M)" using g'(3) f by (simp add: fun_upd_idem)
    then show ?thesis using A S'(2,3) g'(2) by (simp add: sm_inv_def)
  qed
qed

section \<open>The memory map\<close>

lemma iv_add_small:
  assumes ok: "iv_ok 16 v" and cap: "iv_capacity 16 v = 16" and len: "length (iv_data v) < 15"
  shows "\<exists>v'. iv_add 16 x v = (OsStatusSuccess, v') \<and> iv_ok 16 v' \<and> iv_capacity 16 v' = 16 \<and> iv_data v' = iv_data v @ [x]"
proof -
  have u: "unat (iv_count v) = length (iv_data v)" using ok by (simp add: iv_ok_def)
  have sm: "iv_count v + 1 < 16" using u len unat_add_small [of "iv_count v" 1] by (simp add: word_less_nat_alt)
  also have "(16 :: size_t) < kHeapFlag" by (simp add: kHeapFlag_def)
  finally have flag: "iv_count v + 1 < kHeapFlag" .
  let ?v = "iv_setSize (iv_count v + 1) (v\<lparr>iv_data := iv_data v @ [x]\<rparr>)"
  have "\<not> 16 \<le> iv_count v + 1" using sm by (simp add: not_le)
  then have a: "iv_add 16 x v = (OsStatusSuccess, ?v)" using cap by (simp add: iv_add_def iv_ensureExtra_def)
  have "iv_ok 16 ?v" by (rule iv_add_spec(1) [OF ok _ a]) (simp add: cap)
  moreover have "iv_capacity 16 ?v = 16" "iv_data ?v = iv_data v @ [x]"
    using setSize_fields(4) [OF flag, of 16 "v\<lparr>iv_data := iv_data v @ [x]\<rparr>"] setSize_fields(3) [OF flag, of "v\<lparr>iv_data := iv_data v @ [x]\<rparr>"] cap by simp_all
  ultimately show ?thesis using a by blast
qed

text \<open>
  C4. The page allocator keeps exactly the usable memory above the first megabyte: with fewer than 16 usable regions it never panics, and the
  ranges it builds its heap on cover the addresses of the usable regions from 1 MiB on and no others.
\<close>

theorem usable_memory_exact:
  assumes "length (filter isUsable regions) < 16"
  shows "\<exists>w. usable_memory regions (iv_make vecs) = Some w
    \<and> (\<Union>r \<in> set (iv_data w). addresses r) = (\<Union>r \<in> set (filter isUsable regions). addresses (mr_range r)) \<inter> {kLowMemory..}"
proof -
  have "\<exists>w. usable_memory regions v = Some w
      \<and> (\<Union>r \<in> set (iv_data w). addresses r)
        = (\<Union>r \<in> set (iv_data v). addresses r) \<union> (\<Union>r \<in> set (filter isUsable regions). addresses (mr_range r)) \<inter> {kLowMemory..}"
    if "iv_ok 16 v" "iv_capacity 16 v = 16" "length (iv_data v) + length (filter isUsable regions) < 16" for v :: "range InlinedVector"
    using that
  proof (induction regions arbitrary: v)
    case (Cons region regions)
    let ?r = "mr_range region"
    show ?case
    proof (cases "isUsable region")
      case False
      then show ?thesis using Cons by simp
    next
      case True
      have len: "length (iv_data v) < 15" "length (filter isUsable regions) + length (iv_data v) < 15" using Cons.prems(3) True by simp_all
      have add: "\<exists>w. (case iv_add 16 x v of (status, memory) \<Rightarrow> do { _ \<leftarrow> KM_CHECK (status = OsStatusSuccess); usable_memory regions memory }) = Some w
          \<and> (\<Union>r \<in> set (iv_data w). addresses r) = (\<Union>r \<in> set (iv_data v). addresses r) \<union> addresses x
             \<union> (\<Union>r \<in> set (filter isUsable regions). addresses (mr_range r)) \<inter> {kLowMemory..}" for x
      proof -
        obtain v' where v': "iv_add 16 x v = (OsStatusSuccess, v')" "iv_ok 16 v'" "iv_capacity 16 v' = 16" "iv_data v' = iv_data v @ [x]"
          using iv_add_small [OF Cons.prems(1,2) len(1)] by blast
        from Cons.IH [OF v'(2,3)] len(2) v'(4) obtain w where "usable_memory regions v' = Some w"
          "(\<Union>r \<in> set (iv_data w). addresses r) = (\<Union>r \<in> set (iv_data v'). addresses r)
             \<union> (\<Union>r \<in> set (filter isUsable regions). addresses (mr_range r)) \<inter> {kLowMemory..}" by auto
        then show ?thesis using v'(1,4) by (auto simp: KM_CHECK_def)
      qed
      have split: "addresses ?r \<inter> {kLowMemory..} = (if isAfter_addr ?r kLowMemory then addresses ?r
          else if contains_addr ?r kLowMemory then addresses \<lparr>rfront = kLowMemory, rback = rback ?r\<rparr> else {})"
        by (auto simp: isAfter_addr_def contains_addr_def)
      consider "isAfter_addr ?r kLowMemory" | "\<not> isAfter_addr ?r kLowMemory" "contains_addr ?r kLowMemory"
        | "\<not> isAfter_addr ?r kLowMemory" "\<not> contains_addr ?r kLowMemory" by blast
      then show ?thesis
      proof cases
        case 1
        then show ?thesis using add [of ?r] split True by (simp add: Int_Un_distrib2 Un_assoc)
      next
        case 2
        then show ?thesis using add [of "\<lparr>rfront = kLowMemory, rback = rback ?r\<rparr>"] split True
          by (simp add: split_at_def KM_CHECK_def Int_Un_distrib2 Un_assoc)
      next
        case 3
        then show ?thesis using Cons.IH [OF Cons.prems(1,2)] len(2) split True by (simp add: Int_Un_distrib2)
      qed
    qed
  qed simp
  from this [of "iv_make vecs"] assms iv_ok_make [of 16 vecs] show ?thesis
    by (simp add: iv_make_def iv_capacity_def isHeapAllocated_def kHeapFlag_def)
qed

definition example_memmap :: "MemoryRegion list" where
  "example_memmap = [\<lparr>mr_type = eUsable, mr_range = \<lparr>rfront = 0x9F000, rback = 0x7FE0000\<rparr>\<rparr>,
     \<lparr>mr_type = eReserved, mr_range = \<lparr>rfront = 0x7FE0000, rback = 0x8000000\<rparr>\<rparr>]"

theorem usable_memory_exact_witness:
  "\<exists>w. usable_memory example_memmap (iv_make []) = Some w \<and> (\<Union>r \<in> set (iv_data w). addresses r) = {0x100000 ..< 0x7FE0000}"
proof -
  have f: "filter isUsable example_memmap = [\<lparr>mr_type = eUsable, mr_range = \<lparr>rfront = 0x9F000, rback = 0x7FE0000\<rparr>\<rparr>]"
    by (simp add: example_memmap_def isUsable_def)
  have "{0x9F000 ..< 0x7FE0000} \<inter> {0x100000 ..} = {0x100000 ..< 0x7FE0000 :: size_t}"
    by (auto simp: word_le_nat_alt)
  then show ?thesis using usable_memory_exact [of example_memmap "[]"] unfolding f by (simp add: addresses_atLeastLessThan kLowMemory_def)
qed

section \<open>An example\<close>

definition example_memory_range :: range where
  "example_memory_range = \<lparr>rfront = 0x9000000, rback = 0x9010000\<rparr>"

definition example_system :: SystemMemory where
  "example_system = \<lparr>sm_pageManager = example_pm,
     sm_pageAllocator = \<lparr>pa_locked = False, pa_heap = the (snd (the (create [True, True, True] example_memory_range)))\<rparr>, sm_tables = example_as\<rparr>"

definition example_taken :: tlsf_heap where
  "example_taken = snd (the (aligned_alloc kPageSize 0x3000 (sm_memory example_system)))"

lemma example_system_heap: "heap_ok 0x9000000 (sm_memory example_system)" "live (sm_memory example_system) = Map.empty"
  "mSize (sm_memory example_system) = 0x10000"
proof -
  have "fst (the (create [True, True, True] example_memory_range)) = OsStatusSuccess" by code_simp
  then obtain h where "create [True, True, True] example_memory_range = Some (OsStatusSuccess, Some h)" "tlsf_inv 0x9000000 h [] (\<lambda>_. []) {}"
    "live h = Map.empty" "mSize h = 0x10000"
    using create_inv [of example_memory_range "[True, True, True]"] by (auto simp: example_memory_range_def range_size_def)
  then show "heap_ok 0x9000000 (sm_memory example_system)" "live (sm_memory example_system) = Map.empty" "mSize (sm_memory example_system) = 0x10000"
    unfolding heap_ok_def by (auto simp: example_system_def)
qed

lemma example_system_heap_ready: "heap_ready 0x9000000 kPageSize (of_nat 3 * kPageSize) (sm_memory example_system)"
proof -
  have "nextBlockCapacity (mBlockPool (sm_memory example_system)) = 24" by code_simp
  then show ?thesis using example_system_heap by (simp add: heap_ready_def pool_room_def request_ok_def kPageSize_def)
qed

lemma example_system_ready: "sm_ready 0x9000000 0x7000000 example_system 3 7 example_taken example_mapped (Slot 0 0) 0x9000000 (Slot 0 0) 0x7000000"
proof -
  have "fst (the (aligned_alloc kPageSize 0x3000 (sm_memory example_system))) = Some (Slot 0 0)" by code_simp
  then have t: "aligned_alloc kPageSize (of_nat 3 * kPageSize) (sm_memory example_system) = Some (Some (Slot 0 0), example_taken)"
    using tlsf.alloc_law [OF example_system_heap(1) example_system_heap_ready] by (auto simp: example_taken_def kPageSize_def)
  have l: "live example_taken (Slot 0 0) = Some (0x9000000, 0x3000)" by code_simp
  have as: "sm_tables example_system = example_as" "\<not> pa_locked (sm_pageAllocator example_system)" by (simp_all add: example_system_def)
  show ?thesis using t l as example_system_heap(1) example_system_heap_ready example_map_ready example_mapped example_as_inv
    by (simp add: sm_ready_def sm_inv_def kPageSize_def)
qed

section \<open>Properties\<close>

text \<open>
  C1. A request for memory that finds physical pages, an address range and pages for tables succeeds and never panics: the physical pages and the addresses
  were not in use, meet nothing that is in use, each address translates to its byte of the memory, no other
  address changes its translation, and everything stays well formed.
\<close>

theorem sm_map_correct:
  assumes "sm_ready pbase base M N flags g h m f p a"
  shows "\<exists>M'. sm_map (of_nat N * kPageSize) flags type M = Some (OsStatusSuccess, Some \<lparr>ma_memory = Some m, ma_address = Some p\<rparr>, M')
    \<and> sm_inv pbase base M'
    \<and> live (sm_memory M') = (live (sm_memory M))(m \<mapsto> (f, of_nat N * kPageSize))
    \<and> live (sm_addresses M') = (live (sm_addresses M))(p \<mapsto> (a, of_nat N * kPageSize))
    \<and> (\<forall>q f' s'. live (sm_memory M) q = Some (f', s') \<longrightarrow> unat f + N * 4096 \<le> unat f' \<or> unat f' + unat s' \<le> unat f)
    \<and> translates (as_tables (sm_tables M')) \<lparr>am_vaddr = a, am_paddr = f, am_size = of_nat N * kPageSize\<rparr>
    \<and> (\<forall>v. vpn v \<notin> span a (of_nat N * kPageSize)
          \<longrightarrow> getBackingAddressUnlocked v (as_tables (sm_tables M')) = getBackingAddressUnlocked v (as_tables (sm_tables M)))"
proof -
  let ?s = "of_nat N * kPageSize :: u64"
  obtain M' where M': "sm_map ?s flags type M = Some (OsStatusSuccess, Some \<lparr>ma_memory = Some m, ma_address = Some p\<rparr>, M')" "sm_inv pbase base M'"
    "live (sm_memory M) m = None" "live (sm_memory M') = (live (sm_memory M))(m \<mapsto> (f, ?s))"
    "live (sm_addresses M') = (live (sm_addresses M))(p \<mapsto> (a, ?s))"
    "translates (as_tables (sm_tables M')) \<lparr>am_vaddr = a, am_paddr = f, am_size = ?s\<rparr>"
    "\<forall>v. vpn v \<notin> span a ?s \<longrightarrow> getBackingAddressUnlocked v (as_tables (sm_tables M')) = getBackingAddressUnlocked v (as_tables (sm_tables M))"
    using sm_map_outcome [OF assms, of type] by metis
  have ok: "heap_ok pbase (sm_memory M')" using M'(2) by (simp add: sm_inv_def)
  have "frames (mPageManager (as_tables (sm_tables M))) f N" using assms by (simp add: sm_ready_def map_ready_def)
  then have u: "unat ?s = N * 4096" by (intro unat_page_bytes) (simp add: frames_def)
  have "unat f + N * 4096 \<le> unat f' \<or> unat f' + unat s' \<le> unat f" if q: "live (sm_memory M) q = Some (f', s')" for q f' s'
  proof -
    have "q \<noteq> m" using q M'(3) by auto
    then show ?thesis using tlsf.disjoint_law [OF ok, of m f ?s q f' s'] q M'(4) u by simp
  qed
  then show ?thesis using M' by blast
qed

theorem sm_map_correct_witness:
  "\<exists>M'. sm_map (of_nat 3 * kPageSize) 7 eWriteBack example_system
       = Some (OsStatusSuccess, Some \<lparr>ma_memory = Some (Slot 0 0), ma_address = Some (Slot 0 0)\<rparr>, M')
     \<and> getBackingAddressUnlocked 0x7001234 (as_tables (sm_tables M')) = Some 0x9001234"
proof -
  obtain M' where M': "sm_map (of_nat 3 * kPageSize) 7 eWriteBack example_system
       = Some (OsStatusSuccess, Some \<lparr>ma_memory = Some (Slot 0 0), ma_address = Some (Slot 0 0)\<rparr>, M')"
    "translates (as_tables (sm_tables M')) \<lparr>am_vaddr = 0x7000000, am_paddr = 0x9000000, am_size = of_nat 3 * kPageSize\<rparr>"
    using sm_map_correct [OF example_system_ready, of eWriteBack] by blast
  have "getBackingAddressUnlocked (0x7000000 + of_nat 0x1234) (as_tables (sm_tables M')) = Some (0x9000000 + of_nat 0x1234)"
    using M'(2) by (auto simp: translates_def kPageSize_def dest!: spec [of _ "0x1234"])
  then show ?thesis using M'(1) by auto
qed

text \<open>
  C2. Memory that was mapped and is unmapped again leaves both heaps and all translations as they were.
\<close>

theorem sm_map_unmap_roundtrip:
  assumes "sm_ready pbase base M N flags g h m f p a"
  shows "\<exists>A M1 M2. sm_map (of_nat N * kPageSize) flags type M = Some (OsStatusSuccess, Some A, M1) \<and> sm_unmap A M1 = Some (OsStatusSuccess, M2)
    \<and> sm_inv pbase base M2 \<and> live (sm_memory M2) = live (sm_memory M) \<and> live (sm_addresses M2) = live (sm_addresses M)
    \<and> (\<forall>v. getBackingAddressUnlocked v (as_tables (sm_tables M2)) = getBackingAddressUnlocked v (as_tables (sm_tables M)))"
proof -
  let ?s = "of_nat N * kPageSize :: u64" and ?A = "\<lparr>ma_memory = Some m, ma_address = Some p\<rparr>"
  obtain M1 where M1: "sm_map ?s flags type M = Some (OsStatusSuccess, Some ?A, M1)" "sm_inv pbase base M1"
    "live (sm_memory M) m = None" "live (sm_memory M1) = (live (sm_memory M))(m \<mapsto> (f, ?s))"
    "live (sm_addresses M) p = None" "live (sm_addresses M1) = (live (sm_addresses M))(p \<mapsto> (a, ?s))"
    "all_mapped (as_tables (sm_tables M1)) a ?s"
    "\<forall>v. vpn v \<notin> span a ?s \<longrightarrow> getBackingAddressUnlocked v (as_tables (sm_tables M1)) = getBackingAddressUnlocked v (as_tables (sm_tables M))"
    "\<forall>x \<in> span a ?s. view (as_tables (sm_tables M)) x = None"
    using sm_map_outcome [OF assms, of type] by metis
  have I: "\<not> pa_locked (sm_pageAllocator M1)" "heap_ok pbase (sm_memory M1)" "as_inv base (sm_tables M1)" using M1(2) by (simp_all add: sm_inv_def)
  have inv: "as_inv base (sm_tables M)" using assms by (simp add: sm_ready_def sm_inv_def)
  have l: "live (sm_addresses M1) p = Some (a, ?s)" "live (sm_memory M1) m = Some (f, ?s)" using M1(4,6) by simp_all
  obtain S2 where S2: "as_unmap (Some p) (sm_tables M1) = Some (OsStatusSuccess, S2)" "as_inv base S2" "live (as_heap S2) = (live (sm_addresses M1))(p := None)"
    "same_env (as_tables (sm_tables M1)) (as_tables S2)"
    "\<forall>x < 2 ^ 36. view (as_tables S2) x = (if x \<in> span a ?s then None else view (as_tables (sm_tables M1)) x)"
    using as_unmap_spec [OF I(3) l(1) M1(7)] by blast
  obtain g2 where g2: "TlsfHeap.free (Some m) (sm_memory M1) = Some g2" "heap_ok pbase g2" "live g2 = (live (sm_memory M1))(m := None)"
    using tlsf.dealloc_law [OF I(2) l(2)] by blast
  let ?M2 = "M1\<lparr>sm_tables := S2, sm_pageAllocator := \<lparr>pa_locked = False, pa_heap = g2\<rparr>\<rparr>"
  have "sm_unmap ?A M1 = Some (OsStatusSuccess, ?M2)"
    using S2(1) pa_free_exec [OF I(1) g2(1)] by (simp add: sm_unmap_def as_unmap_mapping_def)
  moreover have "sm_inv pbase base ?M2" using g2(2) S2(2) by (simp add: sm_inv_def)
  moreover have "live g2 = live (sm_memory M)" "live (as_heap S2) = live (sm_addresses M)"
    using g2(3) S2(3) M1(3-6) by (simp_all add: fun_upd_idem)
  moreover have "getBackingAddressUnlocked v (as_tables S2) = getBackingAddressUnlocked v (as_tables (sm_tables M))" for v
  proof (cases "vpn v \<in> span a ?s")
    case True
    then show ?thesis using S2(5) M1(9) vpn_less [of v] backing_gone [OF S2(2), of v] backing_gone [OF inv, of v] by simp
  next
    case False
    then show ?thesis using S2(5) M1(8) vpn_less [of v] backing_unchanged [OF I(3) S2(2,4), of v] by simp
  qed
  ultimately show ?thesis using M1(1) by (intro exI [of _ ?A] exI [of _ M1] exI [of _ ?M2]) simp
qed

theorem sm_map_unmap_roundtrip_witness:
  "\<exists>A M1 M2. sm_map (of_nat 3 * kPageSize) 7 eWriteBack example_system = Some (OsStatusSuccess, Some A, M1)
     \<and> sm_unmap A M1 = Some (OsStatusSuccess, M2) \<and> live (sm_memory M2) = Map.empty"
  using sm_map_unmap_roundtrip [OF example_system_ready, of eWriteBack] example_system_heap(2) by fastforce

text \<open>
  C3. A request for memory that fails, whatever failed, leaks nothing: the physical pages taken for it are free again, and the addresses and all
  translations are as they were.
\<close>

theorem sm_map_failure_releases:
  assumes "sm_inv pbase base M" and "0 < N" and "N * 4096 + 4096 < 2 ^ 64"
    and "heap_ready pbase kPageSize (of_nat N * kPageSize) (sm_memory M)" and "heap_ready base kPageSize (of_nat N * kPageSize) (sm_addresses M)"
    and "sm_map (of_nat N * kPageSize) flags type M = Some (status, r, M')" and "status \<noteq> OsStatusSuccess"
  shows "r = None \<and> sm_inv pbase base M' \<and> live (sm_memory M') = live (sm_memory M) \<and> live (sm_addresses M') = live (sm_addresses M)
    \<and> (\<forall>v. getBackingAddressUnlocked v (as_tables (sm_tables M')) = getBackingAddressUnlocked v (as_tables (sm_tables M)))"
proof -
  have R: "r = None" "sm_inv pbase base M'" "live (sm_memory M') = live (sm_memory M)" "live (sm_addresses M') = live (sm_addresses M)"
    "view (as_tables (sm_tables M')) = view (as_tables (sm_tables M))" "same_env (as_tables (sm_tables M)) (as_tables (sm_tables M'))"
    using sm_map_refuses [OF assms] by blast+
  have I: "as_inv base (sm_tables M)" "as_inv base (sm_tables M')" using assms(1) R(2) by (simp_all add: sm_inv_def)
  then show ?thesis using R(1-5) backing_unchanged [OF I R(6)] by simp
qed

lemma example_system_refused:
  obtains M' where "sm_map (of_nat 3 * kPageSize) eNone eWriteBack example_system = Some (OsStatusInvalidInput, None, M')"
proof -
  note R = example_system_ready [unfolded sm_ready_def]
  have l: "live example_taken (Slot 0 0) = Some (0x9000000, of_nat 3 * kPageSize)" and as: "sm_tables example_system = example_as"
    and al: "aligned_alloc kPageSize (of_nat 3 * kPageSize) (sm_memory example_system) = Some (Some (Slot 0 0), example_taken)"
    and un: "\<not> pa_locked (sm_pageAllocator example_system)"
    using R by (simp_all add: example_system_def)
  have "heap_ok 0x9000000 example_taken" using tlsf.alloc_law [OF example_system_heap(1) example_system_heap_ready] al by auto
  then obtain g where g: "TlsfHeap.free (Some (Slot 0 0)) example_taken = Some g" using tlsf.dealloc_law [OF _ l] by blast
  have "heap_ok 0x7000000 example_mapped" using tlsf.alloc_law [OF example_as_heap(1) example_as_ready] example_mapped(1) by auto
  then obtain h where h: "TlsfHeap.free (Some (Slot 0 0)) example_mapped = Some h" using tlsf.dealloc_law [OF _ example_mapped(2)] by blast
  have pa: "range_of 0x9000000 (of_nat 3 * kPageSize) = pages_at 0x9000000 3" by (simp add: pages_at_def)
  have m: "as_map_memory example_taken (Some (Slot 0 0)) eNone eWriteBack example_as = Some (OsStatusInvalidInput, None, example_as\<lparr>as_heap := h\<rparr>)"
    using example_map_none [OF h] ga_live(3) [OF l, unfolded pa] by (simp add: as_map_memory_def)
  have F: "pa_free (Some (Slot 0 0)) \<lparr>pa_locked = False, pa_heap = example_taken\<rparr> = Some \<lparr>pa_locked = False, pa_heap = g\<rparr>"
    by (rule pa_free_exec) (simp_all add: g)
  have P: "pageAlloc (Pages (of_nat 3 * kPageSize)) (sm_pageAllocator example_system)
      = Some (Some (Slot 0 0), \<lparr>pa_locked = False, pa_heap = example_taken\<rparr>)"
    by (rule pageAlloc_exec [OF un _ _ al]) simp_all
  note W = whole_size(2,3) [of 3]
  have "\<exists>M'. sm_map (of_nat 3 * kPageSize) eNone eWriteBack example_system = Some (OsStatusInvalidInput, None, M')"
    using P m F W as unfolding sm_map_def by simp
  then show ?thesis using that by blast
qed

theorem sm_map_failure_releases_witness:
  "\<exists>M'. sm_map (of_nat 3 * kPageSize) eNone eWriteBack example_system = Some (OsStatusInvalidInput, None, M')
     \<and> live (sm_memory M') = Map.empty"
proof -
  obtain M' where M': "sm_map (of_nat 3 * kPageSize) eNone eWriteBack example_system = Some (OsStatusInvalidInput, None, M')"
    by (rule example_system_refused)
  have inv: "sm_inv 0x9000000 0x7000000 example_system" using example_system_ready by (simp add: sm_ready_def)
  have "heap_ready 0x7000000 kPageSize (of_nat 3 * kPageSize) (sm_addresses example_system)" using example_as_ready by (simp add: example_system_def)
  from sm_map_failure_releases [OF inv _ _ example_system_heap_ready this M'] show ?thesis using M' example_system_heap(2) by auto
qed

end
