(* ===== verification/CommandList.thy ===== *)
theory CommandList
  imports PageSpec InlinedVector
begin

text \<open>
  Batches of page table changes: \<^verbatim>\<open>km::PageTableCommandList\<close> of
  \<^verbatim>\<open>kernel/src/memory/pte_command_list.cpp\<close>. Adding a command reserves the tables it can need,
  so that \<^verbatim>\<open>commit\<close> does not allocate and cannot fail. The page tables that the list points to are a field
  of the model.
\<close>

section \<open>Definitions\<close>

datatype Command = cmd_eMap | cmd_eUnmap

record PageTableCommand =
  pc_command :: Command
  pc_range :: range
  pc_base :: u64
  pc_flags :: PageFlags
  pc_type :: MemoryType

record CommandList =
  cl_tables :: PageTables
  cl_storage :: PageTableList
  cl_commands :: "PageTableCommand InlinedVector"

record CommandListStats =
  cls_commandCount :: size_t
  cls_tableCount :: nat

definition cl_make :: "bool list \<Rightarrow> PageTables \<Rightarrow> CommandList" where
  "cl_make outcomes S = \<lparr>cl_tables = S, cl_storage = [], cl_commands = iv_make outcomes\<rparr>"

definition ValidateCommandRange :: "range \<Rightarrow> OsStatus" where
  "ValidateCommandRange r =
     (if isEmpty r \<or> \<not> isValid r then OsStatusInvalidSpan
      else if r \<noteq> alignedOut r kPageSize then OsStatusInvalidInput
      else OsStatusSuccess)"

definition cl_add :: "PageTableCommand \<Rightarrow> CommandList \<Rightarrow> (OsStatus \<times> CommandList) option" where
  "cl_add command L =
     do { _ \<leftarrow> KM_CHECK (iv_capacity 8 (cl_commands L) > iv_count (cl_commands L));
          let (status, v) = iv_add 8 command (cl_commands L);
          Some (status, L\<lparr>cl_commands := v\<rparr>) }"

definition cl_destroy :: "CommandList \<Rightarrow> PageTables option" where
  "cl_destroy L = drainTableList (cl_storage L) (cl_tables L)"

text \<open>The two loops of \<^verbatim>\<open>validate\<close>, over pairs of index and command.\<close>

fun validate_inner :: "nat \<Rightarrow> PageTableCommand \<Rightarrow> (nat \<times> PageTableCommand) list \<Rightarrow> OsStatus" where
  "validate_inner i command [] = OsStatusSuccess"
| "validate_inner i command ((j, other) # rest) =
     (if i = j then validate_inner i command rest
      else if outerAdjacent (pc_range command) (pc_range other) then validate_inner i command rest
      else if overlaps (pc_range command) (pc_range other) \<or> contains (pc_range command) (pc_range other) then OsStatusInvalidData
      else validate_inner i command rest)"

fun validate_outer :: "(nat \<times> PageTableCommand) list \<Rightarrow> (nat \<times> PageTableCommand) list \<Rightarrow> OsStatus" where
  "validate_outer all [] = OsStatusSuccess"
| "validate_outer all ((i, command) # rest) =
     (if validate_inner i command all \<noteq> OsStatusSuccess then validate_inner i command all
      else validate_outer all rest)"

definition cl_validate :: "CommandList \<Rightarrow> OsStatus" where
  "cl_validate L = (let cs = enumerate 0 (iv_data (cl_commands L)) in validate_outer cs cs)"

definition applyMapping :: "PageTableCommand \<Rightarrow> PageTableList \<Rightarrow> PageTables \<Rightarrow> (PageTableList \<times> PageTables) option" where
  "applyMapping command buffer S =
     (let mapping = MappingOf (rfront (pc_range command)) (pc_base command) (range_size (pc_range command))
      in mapWithList mapping (pc_flags command) (pc_type command) buffer S)"

definition applyUnmapping :: "PageTableCommand \<Rightarrow> PageTableList \<Rightarrow> PageTables \<Rightarrow> (PageTableList \<times> PageTables) option" where
  "applyUnmapping command buffer S = unmapWithList (pc_range command) buffer S"

fun commit_loop :: "PageTableCommand list \<Rightarrow> PageTableList \<Rightarrow> PageTables \<Rightarrow> (PageTableList \<times> PageTables) option" where
  "commit_loop [] buffer S = Some (buffer, S)"
| "commit_loop (command # rest) buffer S =
     do { (buffer, S) \<leftarrow> (case pc_command command of
                           cmd_eMap \<Rightarrow> applyMapping command buffer S
                         | cmd_eUnmap \<Rightarrow> applyUnmapping command buffer S);
          commit_loop rest buffer S }"

definition cl_commit :: "CommandList \<Rightarrow> CommandList option" where
  "cl_commit L =
     do { (buffer, S) \<leftarrow> commit_loop (iv_data (cl_commands L)) (cl_storage L) (cl_tables L);
          Some (L\<lparr>cl_storage := buffer, cl_tables := S\<rparr>) }"

text \<open>
  The end of \<^verbatim>\<open>unmap\<close> and \<^verbatim>\<open>map\<close>: the command is added, or the reserved tables are given back.
\<close>

definition cl_push :: "PageTableCommand \<Rightarrow> PageTableList \<Rightarrow> CommandList \<Rightarrow> (OsStatus \<times> CommandList) option" where
  "cl_push command buffer L =
     do { (status, L) \<leftarrow> cl_add command L;
          if status \<noteq> OsStatusSuccess then do {
            S \<leftarrow> drainTableList buffer (cl_tables L);
            Some (status, L\<lparr>cl_tables := S\<rparr>) }
          else Some (OsStatusSuccess, L\<lparr>cl_storage := pt_list_append buffer (cl_storage L)\<rparr>) }"

definition cl_unmap :: "range \<Rightarrow> CommandList \<Rightarrow> (OsStatus \<times> CommandList) option" where
  "cl_unmap r L =
     (if ValidateCommandRange r \<noteq> OsStatusSuccess then Some (ValidateCommandRange r, L)
      else let (status, v) = iv_ensureExtra 8 1 (cl_commands L); L = L\<lparr>cl_commands := v\<rparr>
      in if status \<noteq> OsStatusSuccess then Some (status, L)
      else do {
        (status, buffer, S) \<leftarrow> reservePageTablesForUnmapping r [] (cl_tables L);
        let L = L\<lparr>cl_tables := S\<rparr>;
        if status \<noteq> OsStatusSuccess then Some (status, L)
        else cl_push \<lparr>pc_command = cmd_eUnmap, pc_range = r, pc_base = 0, pc_flags = 0, pc_type = 0\<rparr> buffer L })"

definition cl_map :: "AddressMapping \<Rightarrow> PageFlags \<Rightarrow> MemoryType \<Rightarrow> CommandList \<Rightarrow> (OsStatus \<times> CommandList) option" where
  "cl_map mapping flags type L =
     (if ValidateCommandRange (virtualRange mapping) \<noteq> OsStatusSuccess then Some (ValidateCommandRange (virtualRange mapping), L)
      else if \<not> verifyMapping mapping (cl_tables L) then Some (OsStatusInvalidInput, L)
      else let (status, v) = iv_ensureExtra 8 1 (cl_commands L); L = L\<lparr>cl_commands := v\<rparr>
      in if status \<noteq> OsStatusSuccess then Some (status, L)
      else do {
        (status, buffer, S) \<leftarrow> reservePageTablesForMapping (virtualRange mapping) [] (cl_tables L);
        let L = L\<lparr>cl_tables := S\<rparr>;
        if status \<noteq> OsStatusSuccess then Some (status, L)
        else cl_push \<lparr>pc_command = cmd_eMap, pc_range = virtualRange mapping, pc_base = am_paddr mapping,
                      pc_flags = flags, pc_type = type\<rparr> buffer L })"

definition cl_stats :: "CommandList \<Rightarrow> CommandListStats" where
  "cl_stats L = \<lparr>cls_commandCount = iv_count (cl_commands L), cls_tableCount = length (cl_storage L)\<rparr>"


section \<open>Committing\<close>

definition cmd_mapping :: "PageTableCommand \<Rightarrow> AddressMapping" where
  "cmd_mapping c = MappingOf (rfront (pc_range c)) (pc_base c) (range_size (pc_range c))"

definition cmd_pages :: "PageTableCommand \<Rightarrow> nat" where
  "cmd_pages c = unat (range_size (pc_range c)) div 4096"

definition cmd_first :: "PageTableCommand \<Rightarrow> nat" where
  "cmd_first c = vpn (rfront (pc_range c))"

definition cmd_span :: "PageTableCommand \<Rightarrow> nat set" where
  "cmd_span c = {cmd_first c ..< cmd_first c + cmd_pages c}"

definition cmd_tables :: "PageTableCommand \<Rightarrow> nat" where
  "cmd_tables c = card (range_tables (cmd_first c) (cmd_pages c))"

text \<open>Commands that map disjoint ranges in which no 2 MiB page is mapped, and a reserve that is enough for all.\<close>

fun ready :: "PageTableCommand list \<Rightarrow> PageTables \<Rightarrow> bool" where
  "ready [] S = True"
| "ready (c # cs) S \<longleftrightarrow> pc_command c = cmd_eMap \<and> mapping_ok (mPageManager S) (cmd_mapping c) (cmd_pages c)
     \<and> (\<forall>n \<in> cmd_span c. \<forall>e. view S n \<noteq> Some (eLarge, e)) \<and> (\<forall>d \<in> set cs. cmd_span c \<inter> cmd_span d = {}) \<and> ready cs S"

lemma ready_cong:
  assumes "ready cs S" and "mPageManager S' = mPageManager S" and "\<forall>c \<in> set cs. \<forall>n \<in> cmd_span c. view S' n = view S n"
  shows "ready cs S'"
  using assms by (induction cs) auto

lemma cmd_span_less: "ready cs S \<Longrightarrow> c \<in> set cs \<Longrightarrow> n \<in> cmd_span c \<Longrightarrow> n < 2 ^ 36"
  by (induction cs) (auto simp: mapping_ok_def page_aligned_def cmd_span_def cmd_mapping_def MappingOf_def cmd_first_def)

definition committed :: "PageTables \<Rightarrow> PageTables \<Rightarrow> PageTableCommand list \<Rightarrow> bool" where
  "committed S S' cs \<longleftrightarrow> (\<forall>c \<in> set cs. \<forall>j < cmd_pages c.
        mapped S' (cmd_first c + j) (pc_flags c) (pc_base c + of_nat j * kPageSize))
     \<and> (\<forall>x < 2 ^ 36. (\<forall>c \<in> set cs. x \<notin> cmd_span c) \<longrightarrow> view S' x = view S x)"

lemma committed_Cons:
  assumes rd: "ready (c # cs) S" and r: "range_mapped S S1 (cmd_mapping c) (pc_flags c) 0 (cmd_pages c)"
    and k: "committed S1 S2 cs" and pm: "mPageManager S2 = mPageManager S1"
  shows "committed S S2 (c # cs)"
proof -
  have f: "vpn (am_vaddr (cmd_mapping c)) = cmd_first c" "am_paddr (cmd_mapping c) = pc_base c"
    by (simp_all add: cmd_mapping_def MappingOf_def cmd_first_def)
  have "mapped S2 (cmd_first c + j) (pc_flags c) (pc_base c + of_nat j * kPageSize)" if j: "j < cmd_pages c" for j
  proof -
    have n: "cmd_first c + j \<in> cmd_span c" using j by (simp add: cmd_span_def)
    then have "cmd_first c + j \<notin> cmd_span d" if "d \<in> set cs" for d using rd that by auto
    moreover have "cmd_first c + j < 2 ^ 36" by (rule cmd_span_less [OF rd _ n]) simp
    ultimately have "view S2 (cmd_first c + j) = view S1 (cmd_first c + j)" using k by (simp add: committed_def)
    moreover have "mapped S1 (cmd_first c + j) (pc_flags c) (pc_base c + of_nat j * kPageSize)"
      using r j by (simp add: range_mapped_def f)
    ultimately show ?thesis using mapped_cong pm by blast
  qed
  moreover have "view S2 x = view S x" if "x < 2 ^ 36" "\<forall>d \<in> set (c # cs). x \<notin> cmd_span d" for x
  proof -
    have "view S2 x = view S1 x" using k that by (simp add: committed_def)
    also have "\<dots> = view S x" using r that by (auto simp: range_mapped_def f cmd_span_def)
    finally show ?thesis .
  qed
  ultimately show ?thesis using k by (auto simp: committed_def)
qed

lemma commit_loop_spec:
  assumes "pt_inv S l" and "ready cs S" and "sum_list (map cmd_tables cs) \<le> length l"
  shows "\<exists>l' S'. commit_loop cs l S = Some (l', S') \<and> pt_inv S' l' \<and> same_env S S' \<and> committed S S' cs"
  using assms
proof (induction cs arbitrary: S l)
  case Nil
  then show ?case by (simp add: committed_def)
next
  case (Cons c cs)
  have f: "vpn (am_vaddr (cmd_mapping c)) = cmd_first c" by (simp add: cmd_mapping_def MappingOf_def cmd_first_def)
  have mo: "mapping_ok (mPageManager S) (cmd_mapping c) (cmd_pages c)" using Cons.prems(2) by simp
  have small: "\<forall>j < cmd_pages c. \<forall>e. view S (vpn (am_vaddr (cmd_mapping c)) + j) \<noteq> Some (eLarge, e)"
    using Cons.prems(2) by (auto simp: f cmd_span_def)
  have mc: "missing S (range_tables (cmd_first c) (cmd_pages c)) \<le> cmd_tables c"
    unfolding cmd_tables_def by (rule missing_le) simp
  then have "missing S (range_tables (vpn (am_vaddr (cmd_mapping c))) (cmd_pages c)) \<le> length l" using Cons.prems(3) by (simp add: f)
  then obtain l1 S1 where 1: "mapWithList (cmd_mapping c) (pc_flags c) (pc_type c) l S = Some (l1, S1)"
    "map_result S l S1 l1 (cmd_mapping c) (pc_flags c) (cmd_pages c)"
    using mapWithList_spec [OF mo Cons.prems(1) small, of "pc_flags c" "pc_type c"] by blast
  have R: "pt_inv S1 l1" "same_env S S1" "range_mapped S S1 (cmd_mapping c) (pc_flags c) 0 (cmd_pages c)"
    using 1(2) by (simp_all add: map_result_def)
  obtain k where k0: "k \<le> missing S (range_tables (cmd_first c) (cmd_pages c))" "l1 = drop k l"
    using 1(2) unfolding map_result_def f by blast
  then have k: "k \<le> cmd_tables c" "l1 = drop k l" using mc by simp_all
  have "view S1 n = view S n" if "d \<in> set cs" "n \<in> cmd_span d" for d n
  proof -
    have "n \<notin> cmd_span c" using Cons.prems(2) that by auto
    moreover have "n < 2 ^ 36" using cmd_span_less [OF Cons.prems(2) _ that(2)] that(1) by simp
    ultimately show ?thesis using R(3) by (auto simp: range_mapped_def f cmd_span_def)
  qed
  then have rd: "ready cs S1" using Cons.prems(2) R(2) by (intro ready_cong [of cs S S1]) (auto simp: same_env_def)
  have room: "sum_list (map cmd_tables cs) \<le> length l1" using Cons.prems(3) k by simp
  obtain l2 S2 where 2: "commit_loop cs l1 S1 = Some (l2, S2)" "pt_inv S2 l2" "same_env S1 S2" "committed S1 S2 cs"
    using Cons.IH [OF R(1) rd room] by blast
  have "committed S S2 (c # cs)"
    using committed_Cons [OF Cons.prems(2) R(3) 2(4)] 2(3) by (simp add: same_env_def)
  moreover have "commit_loop (c # cs) l S = Some (l2, S2)"
    using Cons.prems(2) 1(1) 2(1) by (simp add: applyMapping_def cmd_mapping_def)
  ultimately show ?case using 2(2) same_env_trans [OF R(2) 2(3)] by blast
qed


definition cl_ready :: "CommandList \<Rightarrow> bool" where
  "cl_ready L \<longleftrightarrow> pt_inv (cl_tables L) (cl_storage L) \<and> ready (iv_data (cl_commands L)) (cl_tables L)
     \<and> sum_list (map cmd_tables (iv_data (cl_commands L))) \<le> length (cl_storage L)"

lemma committed_translates:
  assumes ok: "tree_ok S'" and mo: "mapping_ok pb (cmd_mapping c) (cmd_pages c)"
    and m: "\<And>j. j < cmd_pages c \<Longrightarrow> mapped S' (cmd_first c + j) (pc_flags c) (pc_base c + of_nat j * kPageSize)"
  shows "translates S' (cmd_mapping c)"
proof (rule range_mapped_translates [OF _ ok])
  show "page_aligned (cmd_mapping c) (cmd_pages c)" using mo by (simp add: mapping_ok_def)
  show "range_mapped S' S' (cmd_mapping c) (pc_flags c) 0 (cmd_pages c)"
    using m by (simp add: range_mapped_def cmd_mapping_def MappingOf_def cmd_first_def)
qed

lemma ready_ok: "ready cs S \<Longrightarrow> c \<in> set cs \<Longrightarrow> mapping_ok (mPageManager S) (cmd_mapping c) (cmd_pages c)"
  by (induction cs) auto

lemma outside_span: "outside (cmd_mapping c) v \<Longrightarrow> vpn v \<notin> cmd_span c"
  by (auto simp: outside_def cmd_span_def cmd_mapping_def MappingOf_def cmd_first_def cmd_pages_def)

section \<open>Adding a mapping\<close>

lemma pt_list_append_rev: "pt_list_append src l = rev src @ l"
  by (induction src arbitrary: l) (simp_all add: list_push_def)

lemma ready_snoc:
  "ready (cs @ [c]) S \<longleftrightarrow> ready cs S \<and> pc_command c = cmd_eMap \<and> mapping_ok (mPageManager S) (cmd_mapping c) (cmd_pages c)
     \<and> (\<forall>n \<in> cmd_span c. \<forall>e. view S n \<noteq> Some (eLarge, e)) \<and> (\<forall>d \<in> set cs. cmd_span d \<inter> cmd_span c = {})"
  by (induction cs) auto

definition map_command :: "AddressMapping \<Rightarrow> PageFlags \<Rightarrow> MemoryType \<Rightarrow> PageTableCommand" where
  "map_command m flags type = \<lparr>pc_command = cmd_eMap, pc_range = virtualRange m, pc_base = am_paddr m, pc_flags = flags, pc_type = type\<rparr>"

lemma map_command_mapping: "cmd_mapping (map_command m flags type) = m"
  by (simp add: cmd_mapping_def map_command_def MappingOf_def virtualRange_def range_size_def)

lemma reserve_for_mapping:
  assumes al: "allocateList (MaxPagesForMapping r) (mAllocator S) = Some (Some l, A)" and pos: "0 < unat (MaxPagesForMapping r)"
  shows "reservePageTablesForMapping r [] S = Some (OsStatusSuccess, rev l, S\<lparr>mAllocator := A\<rparr>)"
proof -
  have "MaxPagesForMapping r \<noteq> 0" using pos by auto
  then show ?thesis using al
    by (simp add: reservePageTablesForMapping_def maxPagesForMapping_def pt_allocateExtra_def allocateExtra_def Let_def pt_list_append_rev)
qed


lemma vector_step:
  assumes ok: "iv_ok 8 v" "unat (iv_capacity 8 v) + 2 < 2 ^ 63" and e: "iv_ensureExtra 8 1 v = (OsStatusSuccess, w)"
  shows "iv_capacity 8 w > iv_count w" "iv_ok 8 w" "iv_data w = iv_data v" "unat (iv_capacity 8 w) + 1 < 2 ^ 63"
proof -
  note E = ensureExtra_spec [OF ok(1) _ e]
  have c: "unat (iv_capacity 8 v) + unat (1 :: size_t) < 2 ^ 63" using ok(2) by simp
  show "iv_ok 8 w" "iv_data w = iv_data v" using E(1,2) [OF c] .
  show "unat (iv_capacity 8 w) + 1 < 2 ^ 63" using E(6) [OF c] ok(2) by simp
  show "iv_capacity 8 w > iv_count w" using E(4,5) [OF c] by (simp add: word_less_nat_alt)
qed

lemma cl_push_spec:
  assumes rd: "cl_ready L" and inv: "pt_inv S (buffer @ cl_storage L)" and env: "view S = view (cl_tables L)" "mPageManager S = mPageManager (cl_tables L)"
    and sup: "supply_ok S" and v: "iv_capacity 8 v > iv_count v" "iv_ok 8 v" "iv_data v = iv_data (cl_commands L)" "unat (iv_capacity 8 v) + 1 < 2 ^ 63"
    and c: "ready (iv_data v @ [c]) S" and room: "cmd_tables c \<le> length buffer"
  shows "\<exists>st L'. cl_push c buffer (L\<lparr>cl_commands := v, cl_tables := S\<rparr>) = Some (st, L') \<and> cl_ready L' \<and> supply_ok (cl_tables L')
    \<and> iv_ok 8 (cl_commands L')
    \<and> (st = OsStatusSuccess \<and> iv_data (cl_commands L') = iv_data (cl_commands L) @ [c]
       \<or> st = OsStatusOutOfMemory \<and> iv_data (cl_commands L') = iv_data (cl_commands L))"
proof -
  obtain st w where w: "iv_add 8 c v = (st, w)" by fastforce
  note W = iv_add_spec [OF v(2,4) w]
  have sum: "sum_list (map cmd_tables (iv_data v)) \<le> length (cl_storage L)" using rd v(3) by (simp add: cl_ready_def)
  show ?thesis
  proof (cases "st = OsStatusSuccess")
    case True
    have "distinct (map mBlock (buffer @ cl_storage L))" using pt_invD(4) [OF inv] by (simp add: reserve_ok_def)
    then have "distinct (map mBlock (rev buffer @ cl_storage L))" by (auto simp: rev_map [symmetric])
    then have "pt_inv S (rev buffer @ cl_storage L)" by (intro reserve_perm [OF inv]) simp_all
    then show ?thesis using True W w v(1,3) c sum room
      by (simp add: cl_push_def cl_add_def KM_CHECK_def cl_ready_def pt_list_append_rev sup)
  next
    case False
    obtain S' where S': "drainTableList buffer S = Some S'" "pt_inv S' (cl_storage L)" "same_env S S'" "at S' = at S"
      "free_mem (mAllocator S') = free_mem (mAllocator S) \<union> (\<Union>a \<in> set buffer. page_span a \<times> {mSlide a})"
      using drain_part [OF inv] by blast
    have "pt_inv S buffer" using inv by (auto simp: pt_inv_def reserve_ok_def)
    then have "supply_ok S'" using drain_supply [OF _ sup S'(3,5)] by blast
    moreover have "ready (iv_data v) S'" using c view_same_at [OF S'(4)] S'(3) unfolding ready_snoc
      by (intro ready_cong [of _ S S']) (simp_all add: same_env_def)
    ultimately show ?thesis using False W w v(1,3) S'(1,2) sum
      by (simp add: cl_push_def cl_add_def KM_CHECK_def cl_ready_def)
  qed
qed

lemma cl_map_spec:
  assumes rd: "cl_ready L" and sup: "supply_ok (cl_tables L)" and iv: "iv_ok 8 (cl_commands L)" "unat (iv_capacity 8 (cl_commands L)) + 2 < 2 ^ 63"
    and valid: "ValidateCommandRange (virtualRange m) = OsStatusSuccess" "verifyMapping m (cl_tables L)"
    and mo: "mapping_ok (mPageManager (cl_tables L)) m N" and N: "0 < N"
    and small: "\<forall>j < N. \<forall>e. view (cl_tables L) (vpn (am_vaddr m) + j) \<noteq> Some (eLarge, e)"
    and apart: "\<forall>c \<in> set (iv_data (cl_commands L)). cmd_span c \<inter> {vpn (am_vaddr m) ..< vpn (am_vaddr m) + N} = {}"
    and al: "allocateList (MaxPagesForMapping (virtualRange m)) (mAllocator (cl_tables L)) = Some (Some l, A)"
    and few: "unat (MaxPagesForMapping (virtualRange m)) * 4096 < 2 ^ 64"
  shows "\<exists>st L'. cl_map m flags type L = Some (st, L') \<and> cl_ready L' \<and> supply_ok (cl_tables L') \<and> iv_ok 8 (cl_commands L')
    \<and> (st = OsStatusSuccess \<and> iv_data (cl_commands L') = iv_data (cl_commands L) @ [map_command m flags type]
       \<or> st = OsStatusOutOfMemory \<and> iv_data (cl_commands L') = iv_data (cl_commands L))"
proof -
  let ?S = "cl_tables L" and ?c = "map_command m flags type" and ?M = "MaxPagesForMapping (virtualRange m)"
  have m: "page_aligned m N" "unat (am_vaddr m) + N * 4096 < 2 ^ 64" using mo by (simp_all add: mapping_ok_def)
  have cp: "cmd_pages ?c = N" "cmd_first ?c = vpn (am_vaddr m)"
    using pages_end(1) [OF m] by (simp_all add: cmd_pages_def cmd_first_def map_command_def virtualRange_def range_size_def)
  have bd: "cmd_tables ?c \<le> unat ?M" unfolding cmd_tables_def cp by (rule range_tables_bound [OF m N])
  have "range_tables (vpn (am_vaddr m)) N \<noteq> {}" using N by (auto simp: range_tables_def tables_def)
  then have "0 < cmd_tables ?c" unfolding cmd_tables_def cp by (simp add: card_gt_0_iff)
  then have pos: "0 < unat ?M" using bd by linarith
  obtain s v where v: "iv_ensureExtra 8 1 (cl_commands L) = (s, v)" by fastforce
  show ?thesis
  proof (cases "s = OsStatusSuccess")
    case False
    have c1: "unat (iv_capacity 8 (cl_commands L)) + unat (1 :: size_t) < 2 ^ 63" using iv(2) by simp
    note E = ensureExtra_spec [OF iv(1) c1 v]
    show ?thesis using False E rd sup valid v by (simp add: cl_map_def cl_ready_def)
  next
    case True
    note V = vector_step [OF iv v [unfolded True]]
    define S1 where "S1 = ?S\<lparr>mAllocator := A\<rparr>"
    have inv: "pt_inv ?S (cl_storage L)" using rd by (simp add: cl_ready_def)
    note T = take_more [OF inv sup pos few al, folded S1_def]
    have vw: "view S1 = view ?S" by (rule view_same_at [OF T(5)])
    have pm: "mPageManager S1 = mPageManager ?S" by (simp add: S1_def)
    have "distinct (map mBlock (l @ cl_storage L))" using pt_invD(4) [OF T(1)] by (simp add: reserve_ok_def)
    then have inv1: "pt_inv S1 (rev l @ cl_storage L)" by (intro reserve_perm [OF T(1)]) (auto simp: rev_map [symmetric])
    have sup1: "supply_ok S1" using supply_ok_env [OF sup T(3)] T(6) by (simp add: S1_def)
    have "ready (iv_data v) S1" using rd vw pm by (intro ready_cong [of _ ?S S1]) (simp_all add: cl_ready_def V(3))
    moreover have "view ?S n \<noteq> Some (eLarge, e)" if "n \<in> cmd_span ?c" for n e
    proof -
      have "n = vpn (am_vaddr m) + (n - vpn (am_vaddr m))" "n - vpn (am_vaddr m) < N" using that by (auto simp: cmd_span_def cp)
      then show ?thesis using small by metis
    qed
    moreover have "cmd_span d \<inter> cmd_span ?c = {}" if "d \<in> set (iv_data v)" for d using apart that by (simp add: V(3) cmd_span_def [of ?c] cp)
    moreover have "pc_command ?c = cmd_eMap" by (simp add: map_command_def)
    ultimately have "ready (iv_data v @ [?c]) S1" using mo by (simp add: ready_snoc pm vw map_command_mapping cp)
    then obtain st L' where "cl_push ?c (rev l) (L\<lparr>cl_commands := v, cl_tables := S1\<rparr>) = Some (st, L')"
      "cl_ready L'" "supply_ok (cl_tables L')" "iv_ok 8 (cl_commands L')"
      "st = OsStatusSuccess \<and> iv_data (cl_commands L') = iv_data (cl_commands L) @ [?c]
       \<or> st = OsStatusOutOfMemory \<and> iv_data (cl_commands L') = iv_data (cl_commands L)"
      using cl_push_spec [OF rd inv1 vw pm sup1 V] bd T(2) by (metis length_rev)
    then show ?thesis using valid v True reserve_for_mapping [OF al pos]
      by (auto simp: cl_map_def map_command_def S1_def [symmetric])
  qed
qed

section \<open>Properties\<close>

definition example_list :: CommandList where
  "example_list = cl_make [] example_pt"

lemma example_list_ready: "cl_ready example_list" "iv_ok 8 (cl_commands example_list)" "iv_capacity 8 (cl_commands example_list) = 8"
  using example_ok(1) iv_ok_make [of 8 "[]"]
  by (simp_all add: example_list_def cl_make_def cl_ready_def iv_make_def kHeapFlag_def iv_capacity_def isHeapAllocated_def)

lemma example_list_fields: "cl_tables example_list = example_pt" "iv_data (cl_commands example_list) = []"
  by (simp_all add: example_list_def cl_make_def iv_make_def)

lemma example_list_valid: "ValidateCommandRange (virtualRange example_pages) = OsStatusSuccess" "verifyMapping example_pages (cl_tables example_list)"
proof -
  show "ValidateCommandRange (virtualRange example_pages) = OsStatusSuccess" by code_simp
  have "isCanonicalAddress example_pm (am_vaddr example_pages)" by code_simp
  then show "verifyMapping example_pages (cl_tables example_list)"
    by (simp add: verifyMapping_def example_list_def cl_make_def example_ok) (simp add: example_pages_def kPageSize_def)
qed

lemma example_list_status: "fst (the (cl_map example_pages 7 eWriteBack example_list)) = OsStatusSuccess"
  by code_simp

text \<open>
  C19. Committing a list of mappings of disjoint ranges whose tables are reserved always returns: every
  mapping of the list is in effect afterwards, whatever their order and whichever tables they share, no other
  translation changes, and what is left of the reserve still belongs to the list.
\<close>

theorem commit_correct:
  assumes "cl_ready L"
  shows "\<exists>L'. cl_commit L = Some L' \<and> pt_inv (cl_tables L') (cl_storage L')
    \<and> (\<forall>c \<in> set (iv_data (cl_commands L)). translates (cl_tables L') (cmd_mapping c))
    \<and> (\<forall>v. (\<forall>c \<in> set (iv_data (cl_commands L)). outside (cmd_mapping c) v) \<longrightarrow>
         getBackingAddressUnlocked v (cl_tables L') = getBackingAddressUnlocked v (cl_tables L))"
proof -
  let ?cs = "iv_data (cl_commands L)" and ?S = "cl_tables L"
  have L: "pt_inv ?S (cl_storage L)" "ready ?cs ?S" "sum_list (map cmd_tables ?cs) \<le> length (cl_storage L)"
    using assms by (simp_all add: cl_ready_def)
  obtain l' S' where c: "commit_loop ?cs (cl_storage L) ?S = Some (l', S')" "pt_inv S' l'" "same_env ?S S'" "committed ?S S' ?cs"
    using commit_loop_spec [OF L] by blast
  note ok = pt_invD(2) [OF L(1)] pt_invD(2) [OF c(2)]
  have "translates S' (cmd_mapping d)" if "d \<in> set ?cs" for d
    using committed_translates [OF ok(2) ready_ok [OF L(2) that]] c(4) that by (simp add: committed_def)
  moreover have "getBackingAddressUnlocked v S' = getBackingAddressUnlocked v ?S" if "\<forall>d \<in> set ?cs. outside (cmd_mapping d) v" for v
  proof (rule backing_cong [OF ok c(3)])
    show "view S' (vpn v) = view ?S (vpn v)" using c(4) that outside_span vpn_less [of v] by (auto simp: committed_def)
  qed
  moreover have "cl_commit L = Some (L\<lparr>cl_storage := l', cl_tables := S'\<rparr>)" using c(1) by (simp add: cl_commit_def)
  ultimately show ?thesis using c(2) by auto
qed

theorem commit_correct_witness:
  "\<exists>L L'. cl_map example_pages 7 eWriteBack example_list = Some (OsStatusSuccess, L) \<and> cl_commit L = Some L'
     \<and> translates (cl_tables L') example_pages"
proof -
  obtain l A where al: "allocateList (MaxPagesForMapping (virtualRange example_pages)) (mAllocator example_pt) = Some (Some l, A)"
    using example_reserve by (auto split: option.splits prod.splits)
  obtain L where L: "cl_map example_pages 7 eWriteBack example_list = Some (OsStatusSuccess, L)" "cl_ready L"
    "iv_data (cl_commands L) = [map_command example_pages 7 eWriteBack]"
    using cl_map_spec [OF example_list_ready(1) _ example_list_ready(2) _ example_list_valid, of 3 l A 7 eWriteBack]
      al example_list_status example_mapping_ok
    by (auto simp: example_list_ready(3) example_list_fields example_ok example_max)
  then show ?thesis using commit_correct [OF L(2)] by (auto simp: map_command_mapping)
qed

text \<open>
  C20. Adding a mapping to a list reserves enough tables for it: if the mapping is valid, disjoint from the
  mappings of the list and touches no 2 MiB page, and the allocator can give the worst case number of tables, then the
  list stays ready to be committed, with the new command at its end or, when the list itself cannot grow,
  unchanged with the tables given back.
\<close>

theorem cl_map_keeps_ready:
  assumes rd: "cl_ready L" and sup: "supply_ok (cl_tables L)" and iv: "iv_ok 8 (cl_commands L)" "unat (iv_capacity 8 (cl_commands L)) + 2 < 2 ^ 63"
    and valid: "ValidateCommandRange (virtualRange m) = OsStatusSuccess" "verifyMapping m (cl_tables L)"
    and mo: "mapping_ok (mPageManager (cl_tables L)) m N" and N: "0 < N"
    and small: "\<forall>j < N. \<forall>e. view (cl_tables L) (vpn (am_vaddr m) + j) \<noteq> Some (eLarge, e)"
    and apart: "\<forall>c \<in> set (iv_data (cl_commands L)). cmd_span c \<inter> {vpn (am_vaddr m) ..< vpn (am_vaddr m) + N} = {}"
    and al: "allocateList (MaxPagesForMapping (virtualRange m)) (mAllocator (cl_tables L)) = Some (Some l, A)"
    and few: "unat (MaxPagesForMapping (virtualRange m)) * 4096 < 2 ^ 64"
  shows "\<exists>st L'. cl_map m flags type L = Some (st, L') \<and> cl_ready L' \<and> supply_ok (cl_tables L') \<and> iv_ok 8 (cl_commands L')
    \<and> (st = OsStatusSuccess \<and> iv_data (cl_commands L') = iv_data (cl_commands L) @ [map_command m flags type]
       \<or> st = OsStatusOutOfMemory \<and> iv_data (cl_commands L') = iv_data (cl_commands L))"
  by (rule cl_map_spec [OF assms])

theorem cl_map_keeps_ready_witness:
  "\<exists>L. cl_map example_pages 7 eWriteBack example_list = Some (OsStatusSuccess, L) \<and> cl_ready L"
proof -
  obtain l A where al: "allocateList (MaxPagesForMapping (virtualRange example_pages)) (mAllocator example_pt) = Some (Some l, A)"
    using example_reserve by (auto split: option.splits prod.splits)
  then show ?thesis
    using cl_map_keeps_ready [OF example_list_ready(1) _ example_list_ready(2) _ example_list_valid, of 3 l A 7 eWriteBack]
      example_list_status example_mapping_ok
    by (auto simp: example_list_ready(3) example_list_fields example_ok example_max)
qed

text \<open>
  C21. Adding an unmapping for which tables have to be reserved does the opposite of what it should: when the
  tables are there, it reports that memory ran out, adds no command, and the tables are lost; when they are not
  there, the command is added without them.
\<close>

theorem cl_unmap_inverts_reservation:
  assumes "ValidateCommandRange r = OsStatusSuccess" and "iv_ensureExtra 8 1 (cl_commands L) = (OsStatusSuccess, v)"
    and "countRequiredPageTables r (cl_tables L) = Some k" and "k \<noteq> 0"
    and "allocateList k (mAllocator (cl_tables L)) = Some (res, A)"
  shows "case res of
      Some l \<Rightarrow> cl_unmap r L = Some (OsStatusOutOfMemory, L\<lparr>cl_commands := v, cl_tables := (cl_tables L)\<lparr>mAllocator := A\<rparr>\<rparr>)
    | None \<Rightarrow> cl_unmap r L = cl_push \<lparr>pc_command = cmd_eUnmap, pc_range = r, pc_base = 0, pc_flags = 0, pc_type = 0\<rparr> []
        (L\<lparr>cl_commands := v, cl_tables := (cl_tables L)\<lparr>mAllocator := A\<rparr>\<rparr>)"
  using assms by (auto simp: cl_unmap_def reservePageTablesForUnmapping_def pt_allocateExtra_def allocateExtra_def bool_status_def
      Let_def split: option.splits)

theorem cl_unmap_inverts_reservation_witness:
  "\<exists>S L'. getPageSize 0x40001000 S = Some eLarge
     \<and> cl_unmap \<lparr>rfront = 0x40001000, rback = 0x40002000\<rparr> (cl_make [] S) = Some (OsStatusOutOfMemory, L')"
proof -
  let ?r = "\<lparr>rfront = 0x40001000, rback = 0x40002000\<rparr> :: range"
  obtain x l S e where S: "pt_inv S (x # l)" "view S (2 ^ 18 + 1) = Some (eLarge, e)"
    "mAllocator S = snd (the (allocateList 4 (mAllocator example_pt)))" using example_large by metis
  have n: "vpn 0x40001000 = 2 ^ 18 + 1" by (simp add: vpn_def)
  have ok: "tree_ok S" by (rule pt_invD(2) [OF S(1)])
  have sz: "getPageSize 0x40001000 S = Some eLarge" unfolding getPageSize_view [OF ok] n using S(2) by simp
  have al: "case allocateList 1 (snd (the (allocateList 4 (mAllocator example_pt)))) of Some (Some l, A) \<Rightarrow> True | _ \<Rightarrow> False" by code_simp
  then obtain l A where "allocateList 1 (mAllocator S) = Some (Some l, A)" unfolding S(3) by (auto split: option.splits prod.splits)
  moreover have "countRequiredPageTables ?r S = Some 1"
    using S(2) n by (simp add: countRequiredPageTables_def Let_def walk_large [OF ok] rounddown_def kLargePageSize_def)
  moreover have "ValidateCommandRange ?r = OsStatusSuccess" by code_simp
  moreover have "iv_ensureExtra 8 1 (iv_make [] :: PageTableCommand InlinedVector) = (OsStatusSuccess, iv_make [])"
    by code_simp
  ultimately show ?thesis
    using cl_unmap_inverts_reservation [of ?r "cl_make [] S" "iv_make []" 1 "Some l" A] sz by (auto simp: cl_make_def)
qed

end
