(* ===== verification/RingQueue.thy ===== *)
theory RingQueue
  imports Prelude
begin

text \<open>
  The lock-free queue of \<^verbatim>\<open>kernel/include/std/ringbuffer.hpp\<close>, \<^verbatim>\<open>sm::AtomicRingQueue<T>\<close>, from which the
  scheduler hands out threads.

  An operation is a program of atomic accesses: the program counters \<open>push_pc\<close> and \<open>pop_pc\<close> carry the local
  variables of \<^verbatim>\<open>tryPush\<close> and \<^verbatim>\<open>tryPop\<close>, and one step performs one atomic load, store or
  compare-and-exchange, or one access to the storage. A system has any number of producers and one
  consumer, and a schedule interleaves their steps. The histories \<open>rs_sent\<close> and \<open>rs_received\<close> record
  the values of the calls that returned \<^verbatim>\<open>true\<close>. Elements are trivially movable: reading a slot leaves it
  unchanged. An access outside the storage and a remainder by zero are \<open>None\<close>.

  Shown here: operations that are not interrupted implement a bounded first-in first-out queue; with one producer
  every interleaving delivers the values in order; with two producers a value that was never pushed can be
  popped and pushed values can be lost.
\<close>

section \<open>The queue\<close>

record 'a AtomicRingQueue =
  rq_storage :: "'a list option"
  rq_capacity :: u32
  rq_producerHead :: u32
  rq_consumerTail :: u32
  rq_producerTail :: u32
  rq_consumerHead :: u32

definition rq_default :: "'a AtomicRingQueue" where
  "rq_default = \<lparr>rq_storage = None, rq_capacity = 0, rq_producerHead = 0, rq_consumerTail = 0,
     rq_producerTail = 0, rq_consumerHead = 0\<rparr>"

definition rq_reset :: "'a list \<Rightarrow> u32 \<Rightarrow> 'a AtomicRingQueue \<Rightarrow> 'a AtomicRingQueue" where
  "rq_reset storage capacity q =
     q\<lparr>rq_storage := Some storage, rq_capacity := capacity + 1, rq_producerHead := 0, rq_producerTail := 0,
       rq_consumerHead := 0, rq_consumerTail := 0\<rparr>"

text \<open>\<open>ok\<close> is the outcome of \<^verbatim>\<open>new\<close>, \<open>d\<close> the default constructed element.\<close>

definition rq_create :: "bool \<Rightarrow> 'a \<Rightarrow> u32 \<Rightarrow> 'a AtomicRingQueue \<Rightarrow> OsStatus \<times> 'a AtomicRingQueue" where
  "rq_create ok d capacity q =
     (if capacity = 0 then (OsStatusInvalidInput, q)
      else if ok then (OsStatusSuccess, rq_reset (replicate (unat (capacity + 1)) d) capacity q)
      else (OsStatusOutOfMemory, q))"

definition rq_count :: "'a AtomicRingQueue \<Rightarrow> u32 option" where
  "rq_count q =
     (if rq_capacity q = 0 then None
      else Some ((rq_capacity q + rq_producerTail q - rq_consumerTail q) mod rq_capacity q))"

definition rq_maxCount :: "'a AtomicRingQueue \<Rightarrow> u32" where
  "rq_maxCount q = rq_capacity q - 1"

definition isSetup :: "'a AtomicRingQueue \<Rightarrow> bool" where
  "isSetup q \<longleftrightarrow> rq_storage q \<noteq> None"

definition rq_move :: "'a AtomicRingQueue \<Rightarrow> 'a AtomicRingQueue \<times> 'a AtomicRingQueue" where
  "rq_move other = (other, other\<lparr>rq_storage := None, rq_capacity := 0\<rparr>)"

definition slot_read :: "u32 \<Rightarrow> 'a AtomicRingQueue \<Rightarrow> 'a option" where
  "slot_read i q =
     do { storage \<leftarrow> rq_storage q;
          if unat i < length storage then Some (storage ! unat i) else None }"

definition slot_write :: "u32 \<Rightarrow> 'a \<Rightarrow> 'a AtomicRingQueue \<Rightarrow> 'a AtomicRingQueue option" where
  "slot_write i v q =
     do { storage \<leftarrow> rq_storage q;
          if unat i < length storage then Some (q\<lparr>rq_storage := Some (storage[unat i := v])\<rparr>) else None }"

section \<open>The operations, one atomic access per step\<close>

datatype 'a push_pc =
    PushLoadHead 'a
  | PushLoadTail 'a u32
  | PushReserve 'a u32 u32
  | PushStore 'a u32
  | PushLoadProducerTail 'a
  | PushPublish 'a u32 u32
  | PushReturn bool

fun push_step :: "'a push_pc \<Rightarrow> 'a AtomicRingQueue \<Rightarrow> ('a push_pc \<times> 'a AtomicRingQueue) option" where
  "push_step (PushLoadHead v) q = Some (PushLoadTail v (rq_producerHead q), q)"
| "push_step (PushLoadTail v producerHead) q =
     (if rq_capacity q = 0 then None
      else let consumerTail = rq_consumerTail q; producerNext = (producerHead + 1) mod rq_capacity q
      in if producerNext = consumerTail then Some (PushReturn False, q)
         else Some (PushReserve v producerHead producerNext, q))"
| "push_step (PushReserve v producerHead producerNext) q =
     (if rq_producerHead q = producerHead
      then Some (PushStore v producerHead, q\<lparr>rq_producerHead := producerNext\<rparr>)
      else Some (PushLoadHead v, q))"
| "push_step (PushStore v producerHead) q =
     do { q \<leftarrow> slot_write producerHead v q; Some (PushLoadProducerTail v, q) }"
| "push_step (PushLoadProducerTail v) q =
     (if rq_capacity q = 0 then None
      else Some (PushPublish v (rq_producerTail q) ((rq_producerTail q + 1) mod rq_capacity q), q))"
| "push_step (PushPublish v producerTail producerTailNext) q =
     (if rq_producerTail q = producerTail then Some (PushReturn True, q\<lparr>rq_producerTail := producerTailNext\<rparr>)
      else Some (PushLoadProducerTail v, q))"
| "push_step (PushReturn r) q = Some (PushReturn r, q)"

datatype 'a pop_pc =
    PopLoadHead
  | PopLoadTail u32
  | PopStoreHead u32 u32
  | PopRead u32 u32
  | PopStoreTail 'a u32
  | PopReturn "'a option"

fun pop_step :: "'a pop_pc \<Rightarrow> 'a AtomicRingQueue \<Rightarrow> ('a pop_pc \<times> 'a AtomicRingQueue) option" where
  "pop_step PopLoadHead q = Some (PopLoadTail (rq_consumerHead q), q)"
| "pop_step (PopLoadTail consumerHead) q =
     (if rq_capacity q = 0 then None
      else let producerTail = rq_producerTail q; consumerNext = (consumerHead + 1) mod rq_capacity q
      in if consumerHead = producerTail then Some (PopReturn None, q)
         else Some (PopStoreHead consumerHead consumerNext, q))"
| "pop_step (PopStoreHead consumerHead consumerNext) q =
     Some (PopRead consumerHead consumerNext, q\<lparr>rq_consumerHead := consumerNext\<rparr>)"
| "pop_step (PopRead consumerHead consumerNext) q =
     do { v \<leftarrow> slot_read consumerHead q; Some (PopStoreTail v consumerNext, q) }"
| "pop_step (PopStoreTail v consumerNext) q =
     Some (PopReturn (Some v), q\<lparr>rq_consumerTail := consumerNext\<rparr>)"
| "pop_step (PopReturn r) q = Some (PopReturn r, q)"

text \<open>An operation that no other thread interrupts.\<close>

partial_function (option) push_run :: "'a push_pc \<Rightarrow> 'a AtomicRingQueue \<Rightarrow> (bool \<times> 'a AtomicRingQueue) option" where
  "push_run pc q =
     (case pc of
        PushReturn r \<Rightarrow> Some (r, q)
      | _ \<Rightarrow> Option.bind (push_step pc q) (\<lambda>x. push_run (fst x) (snd x)))"

definition tryPush :: "'a \<Rightarrow> 'a AtomicRingQueue \<Rightarrow> (bool \<times> 'a AtomicRingQueue) option" where
  "tryPush v q = push_run (PushLoadHead v) q"

partial_function (option) pop_run :: "'a pop_pc \<Rightarrow> 'a AtomicRingQueue \<Rightarrow> ('a option \<times> 'a AtomicRingQueue) option" where
  "pop_run pc q =
     (case pc of
        PopReturn r \<Rightarrow> Some (r, q)
      | _ \<Rightarrow> Option.bind (pop_step pc q) (\<lambda>x. pop_run (fst x) (snd x)))"

definition tryPop :: "'a AtomicRingQueue \<Rightarrow> ('a option \<times> 'a AtomicRingQueue) option" where
  "tryPop q = pop_run PopLoadHead q"

declare push_run.simps [code] pop_run.simps [code]

section \<open>Threads\<close>

record 'a ring_system =
  rs_queue :: "'a AtomicRingQueue"
  rs_producers :: "'a push_pc list"
  rs_consumer :: "'a pop_pc"
  rs_sent :: "'a list"
  rs_received :: "'a list"

datatype 'a ring_action = CallPush nat 'a | StepPush nat | CallPop | StepPop

fun pushed :: "'a push_pc \<Rightarrow> 'a push_pc \<Rightarrow> 'a list" where
  "pushed (PushPublish v a b) (PushReturn r) = [v]"
| "pushed _ _ = []"

fun popped :: "'a pop_pc \<Rightarrow> 'a list" where
  "popped (PopStoreTail v a) = [v]"
| "popped _ = []"

fun push_done :: "'a push_pc \<Rightarrow> bool" where
  "push_done (PushReturn r) = True" | "push_done _ = False"

fun pop_done :: "'a pop_pc \<Rightarrow> bool" where
  "pop_done (PopReturn r) = True" | "pop_done _ = False"

fun exec :: "'a ring_action \<Rightarrow> 'a ring_system \<Rightarrow> 'a ring_system option" where
  "exec (CallPush p v) s =
     (if p < length (rs_producers s) \<and> push_done (rs_producers s ! p)
      then Some (s\<lparr>rs_producers := (rs_producers s)[p := PushLoadHead v]\<rparr>) else None)"
| "exec (StepPush p) s =
     (if p < length (rs_producers s) then
        do { (pc, q) \<leftarrow> push_step (rs_producers s ! p) (rs_queue s);
             Some (s\<lparr>rs_queue := q, rs_producers := (rs_producers s)[p := pc],
                     rs_sent := rs_sent s @ pushed (rs_producers s ! p) pc\<rparr>) }
      else None)"
| "exec CallPop s = (if pop_done (rs_consumer s) then Some (s\<lparr>rs_consumer := PopLoadHead\<rparr>) else None)"
| "exec StepPop s =
     do { (pc, q) \<leftarrow> pop_step (rs_consumer s) (rs_queue s);
          Some (s\<lparr>rs_queue := q, rs_consumer := pc, rs_received := rs_received s @ popped (rs_consumer s)\<rparr>) }"

fun exec_all :: "'a ring_action list \<Rightarrow> 'a ring_system \<Rightarrow> 'a ring_system option" where
  "exec_all [] s = Some s"
| "exec_all (a # as) s = Option.bind (exec a s) (exec_all as)"

definition ring_start :: "nat \<Rightarrow> 'a AtomicRingQueue \<Rightarrow> 'a ring_system" where
  "ring_start producers q =
     \<lparr>rs_queue = q, rs_producers = replicate producers (PushReturn False), rs_consumer = PopReturn None,
      rs_sent = [], rs_received = []\<rparr>"

inductive ring_reachable :: "nat \<Rightarrow> 'a AtomicRingQueue \<Rightarrow> 'a ring_system \<Rightarrow> bool" for k q where
  start: "ring_reachable k q (ring_start k q)"
| step: "ring_reachable k q s \<Longrightarrow> exec a s = Some s' \<Longrightarrow> ring_reachable k q s'"

section \<open>Slot numbers\<close>

text \<open>The index of the \<open>i\<close>-th element ever pushed, in a storage of \<open>n\<close> slots.\<close>

definition idx :: "nat \<Rightarrow> nat \<Rightarrow> u32" where "idx n i = of_nat (i mod n)"

lemma unat_idx: "0 < n \<Longrightarrow> n < 2 ^ 32 \<Longrightarrow> unat (idx n i) = i mod n"
  unfolding idx_def by (rule unat_of_nat_small) (simp add: order.strict_trans [OF mod_less_divisor])

lemma idx_0 [simp]: "idx n 0 = 0" by (simp add: idx_def)

lemma slot_apart:
  fixes i j n :: nat
  assumes "i \<le> j" "j < i + n" "i mod n = j mod n"
  shows "i = j"
proof -
  have "n dvd j - i" using assms by (metis mod_eq_dvd_iff_nat)
  then show ?thesis using assms(1,2) by (cases "j - i = 0") (auto dest: dvd_imp_le)
qed

lemma idx_eq_iff:
  assumes "n < 2 ^ 32" "i \<le> j" "j < i + n"
  shows "idx n i = idx n j \<longleftrightarrow> i = j"
proof
  assume "idx n i = idx n j"
  then have "unat (idx n i) = unat (idx n j)" by simp
  then have "i mod n = j mod n" using assms by (simp add: unat_idx)
  then show "i = j" using slot_apart assms by blast
qed simp

lemma idx_next:
  assumes n: "0 < n" "n < 2 ^ 32" and c: "unat c = n"
  shows "(idx n i + 1) mod c = idx n (Suc i)"
proof -
  have "i mod n < n" using n(1) by simp
  then have bound: "Suc (i mod n) < 2 ^ 32" using n(2) by linarith
  have u: "unat (idx n i + 1) = Suc (i mod n)"
    using bound by (subst unat_add_small) (simp_all add: unat_idx [OF n])
  have "unat ((idx n i + 1) mod c) = unat (idx n (Suc i))"
    by (simp add: unat_mod_distrib u c unat_idx [OF n] mod_Suc_eq)
  then show ?thesis by (simp only: word_unat_eq_iff)
qed

lemma idx_wrap: "n < 2 ^ 32 \<Longrightarrow> 0 < n \<Longrightarrow> idx n (i + n) = idx n i" by (simp add: idx_def)

section \<open>One producer and one consumer\<close>

text \<open>
  The four indices read as counts: \<open>c\<close> calls of \<^verbatim>\<open>tryPop\<close> and \<open>length sent\<close> calls of \<^verbatim>\<open>tryPush\<close> are done,
  \<open>g\<close> and \<open>h\<close> are begun.
\<close>

definition ring_counts :: "nat \<Rightarrow> 'a AtomicRingQueue \<Rightarrow> 'a list \<Rightarrow> nat \<Rightarrow> nat \<Rightarrow> nat \<Rightarrow> bool" where
  "ring_counts n q sent h g c \<longleftrightarrow> 1 < n \<and> n < 2 ^ 32 \<and> unat (rq_capacity q) = n
     \<and> rq_producerHead q = idx n h \<and> rq_producerTail q = idx n (length sent)
     \<and> rq_consumerHead q = idx n g \<and> rq_consumerTail q = idx n c
     \<and> c \<le> g \<and> g \<le> length sent \<and> length sent \<le> h \<and> h < c + n
     \<and> (\<exists>st. rq_storage q = Some st \<and> length st = n \<and> (\<forall>i. c \<le> i \<and> i < length sent \<longrightarrow> st ! (i mod n) = sent ! i))"

fun push_at :: "nat \<Rightarrow> 'a AtomicRingQueue \<Rightarrow> nat \<Rightarrow> nat \<Rightarrow> nat \<Rightarrow> 'a push_pc \<Rightarrow> bool" where
  "push_at n q t h c (PushLoadHead v) \<longleftrightarrow> h = t"
| "push_at n q t h c (PushLoadTail v a) \<longleftrightarrow> h = t \<and> a = idx n h"
| "push_at n q t h c (PushReserve v a b) \<longleftrightarrow> h = t \<and> a = idx n h \<and> b = idx n (Suc h) \<and> Suc h < c + n"
| "push_at n q t h c (PushStore v a) \<longleftrightarrow> h = Suc t \<and> a = idx n t"
| "push_at n q t h c (PushLoadProducerTail v) \<longleftrightarrow> h = Suc t \<and> slot_read (idx n t) q = Some v"
| "push_at n q t h c (PushPublish v a b) \<longleftrightarrow>
     h = Suc t \<and> slot_read (idx n t) q = Some v \<and> a = idx n t \<and> b = idx n (Suc t)"
| "push_at n q t h c (PushReturn r) \<longleftrightarrow> h = t"

fun pop_at :: "nat \<Rightarrow> 'a list \<Rightarrow> nat \<Rightarrow> nat \<Rightarrow> 'a pop_pc \<Rightarrow> bool" where
  "pop_at n sent g c PopLoadHead \<longleftrightarrow> g = c"
| "pop_at n sent g c (PopLoadTail a) \<longleftrightarrow> g = c \<and> a = idx n c"
| "pop_at n sent g c (PopStoreHead a b) \<longleftrightarrow> g = c \<and> a = idx n c \<and> b = idx n (Suc c) \<and> c < length sent"
| "pop_at n sent g c (PopRead a b) \<longleftrightarrow> g = Suc c \<and> a = idx n c \<and> b = idx n (Suc c) \<and> c < length sent"
| "pop_at n sent g c (PopStoreTail v b) \<longleftrightarrow> g = Suc c \<and> b = idx n (Suc c) \<and> c < length sent \<and> v = sent ! c"
| "pop_at n sent g c (PopReturn r) \<longleftrightarrow> g = c"

definition ring_inv :: "nat \<Rightarrow> 'a AtomicRingQueue \<Rightarrow> 'a push_pc \<Rightarrow> 'a pop_pc \<Rightarrow> 'a list \<Rightarrow> nat \<Rightarrow> bool" where
  "ring_inv n q pp cp sent c \<longleftrightarrow>
     (\<exists>h g. ring_counts n q sent h g c \<and> push_at n q (length sent) h c pp \<and> pop_at n sent g c cp)"

lemma slot_read_idx: "ring_counts n q sent h g c \<Longrightarrow> c \<le> i \<Longrightarrow> i < length sent \<Longrightarrow> slot_read (idx n i) q = Some (sent ! i)"
  by (auto simp: ring_counts_def slot_read_def unat_idx)

lemma slot_read_head [simp]:
  "slot_read i (q\<lparr>rq_producerHead := x\<rparr>) = slot_read i q" "slot_read i (q\<lparr>rq_producerTail := x\<rparr>) = slot_read i q"
  "slot_read i (q\<lparr>rq_consumerHead := x\<rparr>) = slot_read i q" "slot_read i (q\<lparr>rq_consumerTail := x\<rparr>) = slot_read i q"
  by (simp_all add: slot_read_def)

lemma ring_write:
  assumes "ring_counts n q sent (Suc (length sent)) g c"
  obtains q' where "slot_write (idx n (length sent)) v q = Some q'" "ring_counts n q' sent (Suc (length sent)) g c"
    "slot_read (idx n (length sent)) q' = Some v"
proof -
  obtain st where st: "rq_storage q = Some st" "length st = n"
    "\<And>i. c \<le> i \<Longrightarrow> i < length sent \<Longrightarrow> st ! (i mod n) = sent ! i" and n: "0 < n" "n < 2 ^ 32"
    and b: "Suc (length sent) < c + n"
    using assms by (auto simp: ring_counts_def)
  let ?u = "length sent mod n"
  have l: "?u < length st" using n st(2) by simp
  define q' where "q' = q\<lparr>rq_storage := Some (st[?u := v])\<rparr>"
  have w: "slot_write (idx n (length sent)) v q = Some q'" using l st(1) n by (simp add: slot_write_def unat_idx q'_def)
  have "st[?u := v] ! (i mod n) = sent ! i" if "c \<le> i" "i < length sent" for i
  proof -
    have "i mod n \<noteq> ?u" using slot_apart [of i "length sent" n] b that by auto
    then show ?thesis using st(3) [OF that] by simp
  qed
  then have "ring_counts n q' sent (Suc (length sent)) g c" using assms st(2) by (auto simp: ring_counts_def q'_def)
  moreover have "slot_read (idx n (length sent)) q' = Some v" using l n by (simp add: slot_read_def unat_idx q'_def)
  ultimately show ?thesis using that w by blast
qed


lemma push_step_inv:
  assumes inv: "ring_inv n q pp cp sent c"
  shows "\<exists>pp' q'. push_step pp q = Some (pp', q') \<and> ring_inv n q' pp' cp (sent @ pushed pp pp') c"
proof -
  obtain h g where rc: "ring_counts n q sent h g c" and at: "push_at n q (length sent) h c pp" and po: "pop_at n sent g c cp"
    using inv by (auto simp: ring_inv_def)
  note n = rc [unfolded ring_counts_def]
  have cap: "rq_capacity q \<noteq> 0" using n by auto
  have nxt: "(idx n i + 1) mod rq_capacity q = idx n (Suc i)" for i using n by (intro idx_next) auto
  show ?thesis
  proof (cases pp)
    case (PushLoadTail v a)
    have "idx n c = idx n (Suc h) \<longleftrightarrow> Suc h = c + n"
    proof (cases "Suc h = c + n")
      case True then show ?thesis using n by (simp add: idx_wrap)
    next
      case False then show ?thesis using n idx_eq_iff [of n c "Suc h"] by auto
    qed
    then show ?thesis using PushLoadTail at rc po cap n by (auto simp: nxt ring_inv_def)
  next
    case (PushReserve v a b)
    then have "ring_counts n (q\<lparr>rq_producerHead := b\<rparr>) sent (Suc h) g c" using rc at by (auto simp: ring_counts_def)
    then show ?thesis using PushReserve at po n by (auto simp: ring_inv_def)
  next
    case (PushStore v a)
    then have h: "h = Suc (length sent)" "a = idx n (length sent)" using at by auto
    obtain q' where "slot_write a v q = Some q'" "ring_counts n q' sent h g c" "slot_read a q' = Some v"
      using ring_write [of n q sent g c v] rc h by blast
    then show ?thesis using PushStore h po by (auto simp: ring_inv_def)
  next
    case (PushPublish v a b)
    then have h: "h = Suc (length sent)" "a = idx n (length sent)" "b = idx n (Suc (length sent))" "slot_read a q = Some v"
      using at by auto
    have "ring_counts n (q\<lparr>rq_producerTail := b\<rparr>) (sent @ [v]) h g c"
      using rc h by (auto simp: ring_counts_def nth_append slot_read_def unat_idx less_Suc_eq split: if_splits)
    moreover have "pop_at n (sent @ [v]) g c cp" using po by (cases cp) (auto simp: nth_append)
    ultimately show ?thesis using PushPublish h n by (auto simp: ring_inv_def)
  qed (use at rc po cap n nxt in \<open>auto simp: ring_inv_def\<close>)
qed

lemma pop_step_inv:
  assumes inv: "ring_inv n q pp cp sent c"
  shows "\<exists>cp' q'. pop_step cp q = Some (cp', q') \<and> ring_inv n q' pp cp' sent (c + length (popped cp))
     \<and> popped cp = take (length (popped cp)) (drop c sent)"
proof -
  obtain h g where rc: "ring_counts n q sent h g c" and at: "push_at n q (length sent) h c pp" and po: "pop_at n sent g c cp"
    using inv by (auto simp: ring_inv_def)
  note n = rc [unfolded ring_counts_def]
  have cap: "rq_capacity q \<noteq> 0" using n by auto
  have nxt: "(idx n i + 1) mod rq_capacity q = idx n (Suc i)" for i using n by (intro idx_next) auto
  have at': "push_at n (q\<lparr>rq_consumerHead := x\<rparr>) (length sent) h c pp" "push_at n (q\<lparr>rq_consumerTail := x\<rparr>) (length sent) h (Suc c) pp" for x
    using at by (cases pp; simp)+
  show ?thesis
  proof (cases cp)
    case (PopLoadTail a)
    have "idx n c = idx n (length sent) \<longleftrightarrow> c = length sent" using n by (intro idx_eq_iff) auto
    then show ?thesis using PopLoadTail at rc po cap n by (auto simp: nxt ring_inv_def)
  next
    case (PopStoreHead a b)
    then have "ring_counts n (q\<lparr>rq_consumerHead := b\<rparr>) sent h (Suc c) c" using rc po by (auto simp: ring_counts_def)
    then show ?thesis using PopStoreHead at' po by (auto simp: ring_inv_def)
  next
    case (PopRead a b)
    then show ?thesis using slot_read_idx [OF rc, of c] rc at po by (auto simp: ring_inv_def)
  next
    case (PopStoreTail v b)
    then have "ring_counts n (q\<lparr>rq_consumerTail := b\<rparr>) sent h (Suc c) (Suc c)" using rc po by (auto simp: ring_counts_def)
    then show ?thesis using PopStoreTail at' po by (auto simp: ring_inv_def take_Suc hd_drop_conv_nth)
  qed (use at rc po cap n in \<open>auto simp: ring_inv_def\<close>)
qed


lemma push_refused:
  assumes "ring_inv n q pp cp sent c" and "push_step pp q = Some (PushReturn False, q')" and "\<not> push_done pp"
  shows "length sent + 1 = c + n"
proof -
  obtain h g where rc: "ring_counts n q sent h g c" and at: "push_at n q (length sent) h c pp" using assms(1) by (auto simp: ring_inv_def)
  obtain v where pp: "pp = PushLoadTail v (idx n (length sent))" and h: "h = length sent"
    using assms(2,3) at by (cases pp) (auto simp: bind_Some_iff split: if_splits)
  note n = rc [unfolded ring_counts_def]
  have "(idx n h + 1) mod rq_capacity q = idx n (Suc h)" using n by (intro idx_next) auto
  then have "idx n (Suc h) = idx n c" using assms(2) n pp h by (auto simp: Let_def split: if_splits)
  then show ?thesis using idx_eq_iff [of n c "Suc h"] n h by (cases "Suc h < c + n") auto
qed

lemma pop_refused:
  assumes "ring_inv n q pp cp sent c" and "pop_step cp q = Some (PopReturn None, q')" and "\<not> pop_done cp"
  shows "c = length sent"
proof -
  obtain h g where rc: "ring_counts n q sent h g c" and at: "pop_at n sent g c cp" using assms(1) by (auto simp: ring_inv_def)
  have cp: "cp = PopLoadTail (idx n c)" using assms(2,3) at by (cases cp) (auto simp: bind_Some_iff split: if_splits)
  note n = rc [unfolded ring_counts_def]
  have "idx n c = idx n (length sent)" using assms(2) n cp by (auto simp: Let_def split: if_splits)
  then show ?thesis using idx_eq_iff [of n c "length sent"] n by auto
qed

lemma rq_create_inv:
  assumes "rq_create True d capacity q0 = (OsStatusSuccess, q)" and "capacity + 1 \<noteq> 0"
  shows "ring_inv (Suc (unat capacity)) q (PushReturn r) (PopReturn None) [] 0" "unat (rq_capacity q) = Suc (unat capacity)"
proof -
  have c0: "capacity \<noteq> 0" and q: "q = rq_reset (replicate (unat (capacity + 1)) d) capacity q0"
    using assms(1) by (auto simp: rq_create_def split: if_splits)
  have "unat (capacity + 1) \<noteq> 0" using assms(2) by (simp add: unat_eq_0)
  then have "unat capacity \<noteq> 2 ^ 32 - 1" by (auto simp: unat_word_ariths)
  moreover have "unat capacity < 2 ^ 32" using unsigned_less [of capacity] by simp
  ultimately have b: "Suc (unat capacity) < 2 ^ 32" by simp
  have u: "unat (capacity + 1) = Suc (unat capacity)" using b by (subst unat_add_small) simp_all
  have p: "0 < unat capacity" using c0 by (simp add: unat_gt_0)
  show "ring_inv (Suc (unat capacity)) q (PushReturn r) (PopReturn None) [] 0" "unat (rq_capacity q) = Suc (unat capacity)"
    using b p by (simp_all add: ring_inv_def ring_counts_def q rq_reset_def u)
qed

lemma reachable_inv:
  assumes cr: "rq_create True d capacity q0 = (OsStatusSuccess, q)" "capacity + 1 \<noteq> 0" and "ring_reachable 1 q s"
  shows "\<exists>pp. rs_producers s = [pp] \<and> rs_received s = take (length (rs_received s)) (rs_sent s)
    \<and> ring_inv (Suc (unat capacity)) (rs_queue s) pp (rs_consumer s) (rs_sent s) (length (rs_received s))"
  using assms(3)
proof induction
  case start
  then show ?case using rq_create_inv [OF cr] by (simp add: ring_start_def)
next
  case (step s a s')
  let ?n = "Suc (unat capacity)"
  obtain pp where p: "rs_producers s = [pp]" "rs_received s = take (length (rs_received s)) (rs_sent s)"
    and inv: "ring_inv ?n (rs_queue s) pp (rs_consumer s) (rs_sent s) (length (rs_received s))" using step.IH by blast
  have le: "length (rs_received s) \<le> length (rs_sent s)" by (metis p(2) length_take min.cobounded1)
  show ?case
  proof (cases a)
    case (CallPush k v)
    have "ring_inv ?n (rs_queue s) (PushLoadHead v) (rs_consumer s) (rs_sent s) (length (rs_received s))" if "push_done pp"
      using inv that by (cases pp) (auto simp: ring_inv_def)
    then show ?thesis using step.hyps(2) CallPush p by (auto split: if_splits)
  next
    case (StepPush k)
    obtain pp' q' where st: "push_step pp (rs_queue s) = Some (pp', q')"
      "ring_inv ?n q' pp' (rs_consumer s) (rs_sent s @ pushed pp pp') (length (rs_received s))"
      using push_step_inv [OF inv] by blast
    then have "s' = s\<lparr>rs_queue := q', rs_producers := [pp'], rs_sent := rs_sent s @ pushed pp pp'\<rparr>"
      using step.hyps(2) StepPush p by (auto split: if_splits)
    then show ?thesis using st(2) p(2) le by simp
  next
    case CallPop
    have "ring_inv ?n (rs_queue s) pp PopLoadHead (rs_sent s) (length (rs_received s))" if "pop_done (rs_consumer s)"
      using inv that by (cases "rs_consumer s") (auto simp: ring_inv_def)
    then show ?thesis using step.hyps(2) CallPop p by (auto split: if_splits)
  next
    case StepPop
    obtain cp' q' where st: "pop_step (rs_consumer s) (rs_queue s) = Some (cp', q')"
      "ring_inv ?n q' pp cp' (rs_sent s) (length (rs_received s) + length (popped (rs_consumer s)))"
      "popped (rs_consumer s) = take (length (popped (rs_consumer s))) (drop (length (rs_received s)) (rs_sent s))"
      using pop_step_inv [OF inv] by blast
    then have s': "s' = s\<lparr>rs_queue := q', rs_consumer := cp', rs_received := rs_received s @ popped (rs_consumer s)\<rparr>"
      using step.hyps(2) StepPop by auto
    have "rs_received s' = take (length (rs_received s')) (rs_sent s')"
      by (simp add: s', subst take_add) (simp only: p(2) [symmetric] st(3) [symmetric])
    moreover have "ring_inv ?n (rs_queue s') pp (rs_consumer s') (rs_sent s') (length (rs_received s'))" using st(2) by (simp add: s')
    moreover have "rs_producers s' = [pp]" using p(1) by (simp add: s')
    ultimately show ?thesis by blast
  qed
qed

section \<open>Operations that are not interrupted\<close>

lemma push_run_step: "push_step pc q = Some (pc', q') \<Longrightarrow> \<not> push_done pc \<Longrightarrow> push_run pc q = push_run pc' q'"
  by (subst push_run.simps) (cases pc; auto)

lemma pop_run_step: "pop_step pc q = Some (pc', q') \<Longrightarrow> \<not> pop_done pc \<Longrightarrow> pop_run pc q = pop_run pc' q'"
  by (subst pop_run.simps) (cases pc; auto)

lemma run_return [simp]: "push_run (PushReturn r) q = Some (r, q)" "pop_run (PopReturn x) q = Some (x, q)"
  by (subst push_run.simps, simp) (subst pop_run.simps, simp)

lemma push_run_published:
  assumes "ring_inv n q (PushStore v a) cp sent c"
  shows "\<exists>q'. push_run (PushStore v a) q = Some (True, q') \<and> ring_inv n q' (PushReturn True) cp (sent @ [v]) c"
proof -
  obtain q1 where s1: "push_step (PushStore v a) q = Some (PushLoadProducerTail v, q1)" and i1: "ring_inv n q1 (PushLoadProducerTail v) cp sent c"
    using push_step_inv [OF assms] by (auto simp: bind_Some_iff)
  obtain x y where s2: "push_step (PushLoadProducerTail v) q1 = Some (PushPublish v x y, q1)" and i2: "ring_inv n q1 (PushPublish v x y) cp sent c"
    using push_step_inv [OF i1] by (auto split: if_splits)
  have "rq_producerTail q1 = x" using i2 by (auto simp: ring_inv_def ring_counts_def)
  then obtain q2 where s3: "push_step (PushPublish v x y) q1 = Some (PushReturn True, q2)" and i3: "ring_inv n q2 (PushReturn True) cp (sent @ [v]) c"
    using push_step_inv [OF i2] by auto
  show ?thesis using s1 s2 s3 i3 by (simp add: push_run_step)
qed

lemma tryPush_inv:
  assumes inv: "ring_inv n q (PushReturn r) cp sent c"
  shows "if length sent + 1 < c + n then \<exists>q'. tryPush v q = Some (True, q') \<and> ring_inv n q' (PushReturn True) cp (sent @ [v]) c
    else tryPush v q = Some (False, q) \<and> length sent + 1 = c + n"
proof -
  have i0: "ring_inv n q (PushLoadHead v) cp sent c" using inv by (auto simp: ring_inv_def)
  obtain x where s1: "push_step (PushLoadHead v) q = Some (PushLoadTail v x, q)" and i1: "ring_inv n q (PushLoadTail v x) cp sent c"
    using push_step_inv [OF i0] by auto
  obtain h g where rc: "ring_counts n q sent h g c" and h: "h = length sent" "x = idx n h" using i1 by (auto simp: ring_inv_def)
  note n = rc [unfolded ring_counts_def]
  have cap: "rq_capacity q \<noteq> 0" using n by auto
  have nxt: "(idx n i + 1) mod rq_capacity q = idx n (Suc i)" for i using n by (intro idx_next) auto
  show ?thesis
  proof (cases "length sent + 1 < c + n")
    case True
    then have "idx n (Suc h) \<noteq> rq_consumerTail q" using n h idx_eq_iff [of n c "Suc h"] by auto
    then have s2: "push_step (PushLoadTail v x) q = Some (PushReserve v x (idx n (Suc h)), q)" using cap h nxt by simp
    then have i2: "ring_inv n q (PushReserve v x (idx n (Suc h))) cp sent c" using push_step_inv [OF i1] by simp
    obtain q1 where s3: "push_step (PushReserve v x (idx n (Suc h))) q = Some (PushStore v x, q1)" and "ring_inv n q1 (PushStore v x) cp sent c"
      using push_step_inv [OF i2] n h by auto
    then obtain q' where "push_run (PushStore v x) q1 = Some (True, q')" "ring_inv n q' (PushReturn True) cp (sent @ [v]) c"
      using push_run_published by metis
    then show ?thesis using s1 s2 s3 True by (simp add: tryPush_def push_run_step)
  next
    case False
    then have e: "Suc h = c + n" using n h by auto
    then have "idx n (Suc h) = rq_consumerTail q" using n by (simp add: idx_wrap)
    then have "push_step (PushLoadTail v x) q = Some (PushReturn False, q)" using cap h nxt by simp
    then show ?thesis using s1 False e h by (simp add: tryPush_def push_run_step)
  qed
qed

lemma tryPop_inv:
  assumes inv: "ring_inv n q pp (PopReturn r) sent c"
  shows "if c < length sent then \<exists>q'. tryPop q = Some (Some (sent ! c), q') \<and> ring_inv n q' pp (PopReturn (Some (sent ! c))) sent (Suc c)
    else tryPop q = Some (None, q) \<and> c = length sent"
proof -
  have i0: "ring_inv n q pp PopLoadHead sent c" using inv by (auto simp: ring_inv_def)
  obtain x where s1: "pop_step PopLoadHead q = Some (PopLoadTail x, q)" and i1: "ring_inv n q pp (PopLoadTail x) sent c"
    using pop_step_inv [OF i0] by auto
  obtain h g where rc: "ring_counts n q sent h g c" and x: "x = idx n c" using i1 by (auto simp: ring_inv_def)
  note n = rc [unfolded ring_counts_def]
  have cap: "rq_capacity q \<noteq> 0" using n by auto
  have emp: "x = rq_producerTail q \<longleftrightarrow> c = length sent" using n x idx_eq_iff [of n c "length sent"] by auto
  show ?thesis
  proof (cases "c < length sent")
    case True
    obtain y where s2: "pop_step (PopLoadTail x) q = Some (PopStoreHead x y, q)" and i2: "ring_inv n q pp (PopStoreHead x y) sent c"
      using pop_step_inv [OF i1] True emp cap by auto
    obtain q1 where s3: "pop_step (PopStoreHead x y) q = Some (PopRead x y, q1)" and i3: "ring_inv n q1 pp (PopRead x y) sent c"
      using pop_step_inv [OF i2] by auto
    obtain v where s4: "pop_step (PopRead x y) q1 = Some (PopStoreTail v y, q1)" and i4: "ring_inv n q1 pp (PopStoreTail v y) sent c"
      using pop_step_inv [OF i3] by (auto simp: bind_Some_iff)
    have v: "v = sent ! c" using i4 by (auto simp: ring_inv_def)
    obtain q2 where s5: "pop_step (PopStoreTail v y) q1 = Some (PopReturn (Some v), q2)" and "ring_inv n q2 pp (PopReturn (Some v)) sent (Suc c)"
      using pop_step_inv [OF i4] by auto
    then show ?thesis using s1 s2 s3 s4 s5 True v by (simp add: tryPop_def pop_run_step)
  next
    case False
    then have "c = length sent" using n by auto
    moreover have "pop_step (PopLoadTail x) q = Some (PopReturn None, q)" using \<open>c = length sent\<close> emp cap by simp
    ultimately show ?thesis using s1 by (simp add: tryPop_def pop_run_step)
  qed
qed


text \<open>The elements of the queue, from the oldest to the newest.\<close>

definition rq_contents :: "'a AtomicRingQueue \<Rightarrow> 'a list" where
  "rq_contents q =
     (let n = unat (rq_capacity q); c = unat (rq_consumerTail q)
      in map (\<lambda>i. the (rq_storage q) ! ((c + i) mod n)) [0 ..< (n + unat (rq_producerTail q) - c) mod n])"

definition rq_ok :: "'a AtomicRingQueue \<Rightarrow> bool" where
  "rq_ok q \<longleftrightarrow> (\<exists>n sent c r x. ring_inv n q (PushReturn r) (PopReturn x) sent c)"

lemma distance_mod:
  fixes c t n :: nat
  assumes "c \<le> t" "t < c + n"
  shows "(n + t mod n - c mod n) mod n = t - c"
proof -
  have n: "0 < n" using assms by simp
  have "c mod n \<le> n + t mod n" using n by (meson less_imp_le mod_less_divisor trans_le_add1)
  then have "int ((n + t mod n - c mod n) mod n) = (int n + int (t mod n) - int (c mod n)) mod int n" by (simp add: zmod_int)
  also have "\<dots> = ((int n + int (t mod n)) mod int n - int (c mod n) mod int n) mod int n" by (simp only: mod_diff_eq)
  also have "\<dots> = (int t mod int n - int c mod int n) mod int n" by (simp add: zmod_int)
  also have "\<dots> = (int t - int c) mod int n" by (rule mod_diff_eq)
  also have "\<dots> = int (t - c)" using assms by (subst mod_pos_pos_trivial) auto
  finally show ?thesis by simp
qed

lemma contents_counts:
  assumes rc: "ring_counts n q sent h g c"
  shows "rq_contents q = drop c sent"
proof (rule nth_equalityI)
  note n = rc [unfolded ring_counts_def]
  have n': "0 < n" "n < 2 ^ 32" using n by auto
  have k: "(n + unat (rq_producerTail q) - unat (rq_consumerTail q)) mod n = length sent - c"
    using n distance_mod [of c "length sent" n] by (simp add: unat_idx [OF n'])
  show "length (rq_contents q) = length (drop c sent)" using n k by (simp add: rq_contents_def Let_def)
  fix i assume "i < length (rq_contents q)"
  then have i: "i < length sent - c" using n k by (simp add: rq_contents_def Let_def)
  have "rq_contents q ! i = the (rq_storage q) ! ((unat (rq_consumerTail q) + i) mod n)" using n k i by (simp add: rq_contents_def Let_def)
  also have "(unat (rq_consumerTail q) + i) mod n = (c + i) mod n" using n by (simp add: unat_idx [OF n'] mod_add_left_eq)
  finally show "rq_contents q ! i = drop c sent ! i" using n i by auto
qed

lemma count_counts:
  assumes rc: "ring_counts n q sent h g c" and small: "n \<le> 2 ^ 31"
  shows "rq_count q = Some (of_nat (length sent - c))"
proof -
  note n = rc [unfolded ring_counts_def]
  have n': "0 < n" "n < 2 ^ 32" using n by auto
  let ?p = "unat (rq_producerTail q)" and ?c = "unat (rq_consumerTail q)"
  have p: "?p = length sent mod n" "?c = c mod n" using n by (simp_all add: unat_idx [OF n'])
  have b: "?p < n" "?c < n" using p n' by simp_all
  have a: "unat (rq_capacity q + rq_producerTail q) = n + ?p" using n b small by (subst unat_add_small) auto
  have "unat (rq_capacity q + rq_producerTail q - rq_consumerTail q) = n + ?p - ?c" using a b by (subst unat_sub_le) auto
  then have u: "unat ((rq_capacity q + rq_producerTail q - rq_consumerTail q) mod rq_capacity q) = length sent - c"
    using n distance_mod [of c "length sent" n] by (simp add: unat_mod_distrib unat_idx [OF n'])
  have "rq_capacity q \<noteq> 0" using n by auto
  then show ?thesis by (simp add: rq_count_def u [symmetric])
qed

section \<open>The interface of a bounded queue\<close>

datatype 'a queue_op = Push 'a | Pop

datatype 'a queue_answer = Pushed bool | Popped "'a option"

fun fifo_run :: "nat \<Rightarrow> 'a queue_op list \<Rightarrow> 'a list \<Rightarrow> 'a queue_answer list \<times> 'a list" where
  "fifo_run b [] xs = ([], xs)"
| "fifo_run b (Push v # ops) xs =
     (if length xs < b then let (as, ys) = fifo_run b ops (xs @ [v]) in (Pushed True # as, ys)
      else let (as, ys) = fifo_run b ops xs in (Pushed False # as, ys))"
| "fifo_run b (Pop # ops) [] = (let (as, ys) = fifo_run b ops [] in (Popped None # as, ys))"
| "fifo_run b (Pop # ops) (x # xs) = (let (as, ys) = fifo_run b ops xs in (Popped (Some x) # as, ys))"

fun queue_run :: "('a \<Rightarrow> 'q \<Rightarrow> (bool \<times> 'q) option) \<Rightarrow> ('q \<Rightarrow> ('a option \<times> 'q) option) \<Rightarrow> 'a queue_op list \<Rightarrow> 'q
    \<Rightarrow> ('a queue_answer list \<times> 'q) option" where
  "queue_run push pop [] q = Some ([], q)"
| "queue_run push pop (Push v # ops) q =
     do { (ok, q) \<leftarrow> push v q; (as, q) \<leftarrow> queue_run push pop ops q; Some (Pushed ok # as, q) }"
| "queue_run push pop (Pop # ops) q =
     do { (x, q) \<leftarrow> pop q; (as, q) \<leftarrow> queue_run push pop ops q; Some (Popped x # as, q) }"

locale bounded_queue =
  fixes push :: "'a \<Rightarrow> 'q \<Rightarrow> (bool \<times> 'q) option"
    and pop :: "'q \<Rightarrow> ('a option \<times> 'q) option"
    and contents :: "'q \<Rightarrow> 'a list"
    and bound :: "'q \<Rightarrow> nat"
    and ok :: "'q \<Rightarrow> bool"
  assumes push_room: "ok q \<Longrightarrow> length (contents q) < bound q \<Longrightarrow>
      \<exists>q'. push v q = Some (True, q') \<and> ok q' \<and> bound q' = bound q \<and> contents q' = contents q @ [v]"
    and push_full: "ok q \<Longrightarrow> \<not> length (contents q) < bound q \<Longrightarrow> push v q = Some (False, q)"
    and pop_some: "ok q \<Longrightarrow> contents q = x # xs \<Longrightarrow>
      \<exists>q'. pop q = Some (Some x, q') \<and> ok q' \<and> bound q' = bound q \<and> contents q' = xs"
    and pop_none: "ok q \<Longrightarrow> contents q = [] \<Longrightarrow> pop q = Some (None, q)"
begin

lemma run_fifo:
  assumes "ok q"
  shows "\<exists>q'. queue_run push pop ops q = Some (fst (fifo_run (bound q) ops (contents q)), q')
    \<and> ok q' \<and> contents q' = snd (fifo_run (bound q) ops (contents q))"
  using assms
proof (induction ops arbitrary: q)
  case (Cons a ops)
  show ?case
  proof (cases a)
    case (Push v)
    show ?thesis
    proof (cases "length (contents q) < bound q")
      case True
      then obtain q1 where "push v q = Some (True, q1)" "ok q1" "bound q1 = bound q" "contents q1 = contents q @ [v]"
        using push_room Cons.prems by blast
      then show ?thesis using Cons.IH [of q1] True Push by (auto split: prod.splits)
    next
      case False
      then show ?thesis using Cons.IH [of q] push_full Cons.prems Push by (auto split: prod.splits)
    qed
  next
    case Pop
    show ?thesis
    proof (cases "contents q")
      case Nil
      then show ?thesis using Cons.IH [of q] pop_none Cons.prems Pop by (auto split: prod.splits)
    next
      case (Cons x xs)
      then obtain q1 where "pop q = Some (Some x, q1)" "ok q1" "bound q1 = bound q" "contents q1 = xs"
        using pop_some Cons.prems by blast
      then show ?thesis using Cons.IH [of q1] Cons Pop by (auto split: prod.splits)
    qed
  qed
qed simp

end


definition rq_bound :: "'a AtomicRingQueue \<Rightarrow> nat" where "rq_bound q = unat (rq_capacity q) - 1"

lemma rq_okE:
  assumes "rq_ok q"
  obtains n sent c r x where "ring_inv n q (PushReturn r) (PopReturn x) sent c" "rq_contents q = drop c sent" "rq_bound q = n - 1"
    "c \<le> length sent" "1 < n"
proof -
  obtain n sent c r x where i: "ring_inv n q (PushReturn r) (PopReturn x) sent c" using assms by (auto simp: rq_ok_def)
  then obtain h g where rc: "ring_counts n q sent h g c" by (auto simp: ring_inv_def)
  show ?thesis using that [OF i contents_counts [OF rc]] rc by (auto simp: ring_counts_def rq_bound_def)
qed

lemma inv_contents:
  assumes "ring_inv n q (PushReturn r) (PopReturn x) sent c"
  shows "rq_ok q" "rq_contents q = drop c sent" "rq_bound q = n - 1"
proof -
  obtain h g where "ring_counts n q sent h g c" using assms by (auto simp: ring_inv_def)
  then show "rq_contents q = drop c sent" "rq_bound q = n - 1" by (rule contents_counts, simp add: rq_bound_def ring_counts_def)
  show "rq_ok q" unfolding rq_ok_def using assms by blast
qed

interpretation ring: bounded_queue tryPush tryPop rq_contents rq_bound rq_ok
proof
  fix q :: "'a AtomicRingQueue" and v
  assume ok: "rq_ok q" and room: "length (rq_contents q) < rq_bound q"
  obtain n sent c r x where i: "ring_inv n q (PushReturn r) (PopReturn x) sent c" "rq_contents q = drop c sent" "rq_bound q = n - 1"
    "c \<le> length sent" "1 < n" by (rule rq_okE [OF ok])
  then obtain q' where "tryPush v q = Some (True, q')" "ring_inv n q' (PushReturn True) (PopReturn x) (sent @ [v]) c"
    using tryPush_inv [OF i(1), of v] room by (auto split: if_splits)
  then show "\<exists>q'. tryPush v q = Some (True, q') \<and> rq_ok q' \<and> rq_bound q' = rq_bound q \<and> rq_contents q' = rq_contents q @ [v]"
    using inv_contents i by (metis diff_is_0_eq drop0 drop_append)
next
  fix q :: "'a AtomicRingQueue" and v
  assume ok: "rq_ok q" and full: "\<not> length (rq_contents q) < rq_bound q"
  obtain n sent c r x where i: "ring_inv n q (PushReturn r) (PopReturn x) sent c" "rq_contents q = drop c sent" "rq_bound q = n - 1"
    "c \<le> length sent" "1 < n" by (rule rq_okE [OF ok])
  then show "tryPush v q = Some (False, q)" using tryPush_inv [OF i(1), of v] full by (auto split: if_splits)
next
  fix q :: "'a AtomicRingQueue" and y ys
  assume ok: "rq_ok q" and some: "rq_contents q = y # ys"
  obtain n sent c r x where i: "ring_inv n q (PushReturn r) (PopReturn x) sent c" "rq_contents q = drop c sent" "rq_bound q = n - 1"
    "c \<le> length sent" "1 < n" by (rule rq_okE [OF ok])
  have c: "c < length sent" "sent ! c = y" "drop (Suc c) sent = ys" using i(2) some
    by (metis drop_eq_Nil leI list.distinct(1), metis hd_drop_conv_nth drop_eq_Nil leI list.distinct(1) list.sel(1), metis drop_Suc list.sel(3) tl_drop)
  then obtain q' where "tryPop q = Some (Some y, q')" "ring_inv n q' (PushReturn r) (PopReturn (Some y)) sent (Suc c)"
    using tryPop_inv [OF i(1)] by auto
  then show "\<exists>q'. tryPop q = Some (Some y, q') \<and> rq_ok q' \<and> rq_bound q' = rq_bound q \<and> rq_contents q' = ys"
    using inv_contents i c by metis
next
  fix q :: "'a AtomicRingQueue"
  assume ok: "rq_ok q" and none: "rq_contents q = []"
  obtain n sent c r x where i: "ring_inv n q (PushReturn r) (PopReturn x) sent c" "rq_contents q = drop c sent" "rq_bound q = n - 1"
    "c \<le> length sent" "1 < n" by (rule rq_okE [OF ok])
  then show "tryPop q = Some (None, q)" using tryPop_inv [OF i(1)] none by (auto split: if_splits)
qed

section \<open>Properties\<close>

text \<open>
  C10. With one producer and one consumer every interleaving of the atomic accesses is safe: no step faults, the values
  received are the first of the values sent, in order, at most the capacity of the queue is in flight, a push is
  refused only when the queue is full and a pop finds nothing only when everything sent was received.
\<close>

theorem single_producer_fifo:
  assumes "rq_create True d capacity q0 = (OsStatusSuccess, q)" and "capacity + 1 \<noteq> 0" and "ring_reachable 1 q s"
  shows "rs_received s = take (length (rs_received s)) (rs_sent s)
    \<and> length (rs_sent s) \<le> length (rs_received s) + unat capacity
    \<and> (\<exists>s'. exec (StepPush 0) s = Some s'
         \<and> (\<not> push_done (rs_producers s ! 0) \<and> rs_producers s' ! 0 = PushReturn False
            \<longrightarrow> length (rs_sent s) = length (rs_received s) + unat capacity))
    \<and> (\<exists>s'. exec StepPop s = Some s'
         \<and> (\<not> pop_done (rs_consumer s) \<and> rs_consumer s' = PopReturn None \<longrightarrow> rs_received s = rs_sent s))"
proof -
  let ?n = "Suc (unat capacity)" and ?c = "length (rs_received s)"
  obtain pp where p: "rs_producers s = [pp]" "rs_received s = take ?c (rs_sent s)"
    and inv: "ring_inv ?n (rs_queue s) pp (rs_consumer s) (rs_sent s) ?c" using reachable_inv [OF assms] by blast
  have b: "length (rs_sent s) \<le> ?c + unat capacity" using inv by (auto simp: ring_inv_def ring_counts_def)
  have full: "length (rs_sent s) = ?c + unat capacity"
    if "push_step pp (rs_queue s) = Some (PushReturn False, q')" "\<not> push_done pp" for q'
    using push_refused [OF inv that] by simp
  have emp: "rs_received s = rs_sent s" if "pop_step (rs_consumer s) (rs_queue s) = Some (PopReturn None, q')" "\<not> pop_done (rs_consumer s)" for q'
    using pop_refused [OF inv that] p(2) by (metis take_all_iff order_refl)
  have "\<exists>s'. exec (StepPush 0) s = Some s' \<and> (\<not> push_done (rs_producers s ! 0) \<and> rs_producers s' ! 0 = PushReturn False
            \<longrightarrow> length (rs_sent s) = ?c + unat capacity)"
    using push_step_inv [OF inv] full p(1) by auto
  moreover have "\<exists>s'. exec StepPop s = Some s' \<and> (\<not> pop_done (rs_consumer s) \<and> rs_consumer s' = PopReturn None \<longrightarrow> rs_received s = rs_sent s)"
    using pop_step_inv [OF inv] emp by auto
  ultimately show ?thesis using p(2) b by blast
qed


definition example_ring :: "nat AtomicRingQueue" where "example_ring = snd (rq_create True 0 2 rq_default)"

definition example_schedule :: "nat ring_action list" where
  "example_schedule = [CallPush 0 7] @ replicate 3 (StepPush 0) @ [CallPop, StepPop] @ replicate 3 (StepPush 0) @ replicate 4 StepPop"

definition two_producers :: "u32 \<Rightarrow> nat ring_system" where
  "two_producers capacity = ring_start 2 (snd (rq_create True 0 capacity rq_default))"

definition unwritten_schedule :: "nat ring_action list" where
  "unwritten_schedule = [CallPush 0 7] @ replicate 3 (StepPush 0) @ [CallPush 1 8] @ replicate 6 (StepPush 1) @ [CallPop] @ replicate 5 StepPop"

definition lost_schedule :: "nat ring_action list" where
  "lost_schedule = [CallPush 0 7] @ replicate 2 (StepPush 0) @ [CallPush 1 8] @ replicate 6 (StepPush 1) @ [CallPop] @ replicate 5 StepPop
     @ [CallPush 1 9] @ replicate 6 (StepPush 1) @ replicate 4 (StepPush 0) @ [CallPop] @ replicate 2 StepPop"

lemma example_ring_create: "rq_create True 0 2 rq_default = (OsStatusSuccess, example_ring)"
  by (simp add: example_ring_def rq_create_def)

lemma exec_all_reachable: "ring_reachable k q s \<Longrightarrow> exec_all as s = Some s' \<Longrightarrow> ring_reachable k q s'"
  by (induction as arbitrary: s) (auto simp: bind_Some_iff intro: ring_reachable.step)

lemma schedule_reachable: "exec_all as (ring_start k q) = Some s \<Longrightarrow> ring_reachable k q s"
  by (rule exec_all_reachable [OF ring_reachable.start])

lemma two_producers_reachable:
  "exec_all as (two_producers capacity) = Some s \<Longrightarrow> ring_reachable 2 (rs_queue (two_producers capacity)) s"
  using schedule_reachable [of as 2 "rs_queue (two_producers capacity)" s] by (simp add: two_producers_def ring_start_def)

theorem single_producer_fifo_witness:
  "\<exists>s. exec_all example_schedule (ring_start 1 example_ring) = Some s \<and> rs_received s = [7] \<and> rs_received s = take 1 (rs_sent s)"
proof -
  have "case exec_all example_schedule (ring_start 1 example_ring) of Some s \<Rightarrow> rs_received s = [7] | None \<Rightarrow> False" by code_simp
  then obtain s where s: "exec_all example_schedule (ring_start 1 example_ring) = Some s" "rs_received s = [7]" by (auto split: option.splits)
  have "rs_received s = take (length (rs_received s)) (rs_sent s)"
    using single_producer_fifo [OF example_ring_create _ schedule_reachable [OF s(1)]] by simp
  then show ?thesis using s by auto
qed

text \<open>
  C11. Calls that are not interrupted always return and answer as a first-in first-out queue bounded by
  the capacity, for every sequence of operations on a queue that was created.
\<close>

theorem ring_queue_refines_fifo:
  assumes "rq_create True d capacity q0 = (OsStatusSuccess, q)" and "capacity + 1 \<noteq> 0"
  shows "\<exists>q'. queue_run tryPush tryPop ops q = Some (fst (fifo_run (unat capacity) ops []), q')
    \<and> rq_contents q' = snd (fifo_run (unat capacity) ops [])"
proof -
  have "rq_contents q = []" "rq_bound q = unat capacity" "rq_ok q" using inv_contents [OF rq_create_inv(1) [OF assms, of False]] by simp_all
  then show ?thesis using ring.run_fifo [of q ops] by auto
qed

theorem ring_queue_refines_fifo_witness:
  "\<exists>q'. queue_run tryPush tryPop [Push 5, Push 6, Push 8, Pop, Push 9, Pop, Pop, Pop] example_ring
      = Some ([Pushed True, Pushed True, Pushed False, Popped (Some 5), Pushed True, Popped (Some 6), Popped (Some 9), Popped None], q')"
  using ring_queue_refines_fifo [OF example_ring_create, of "[Push 5, Push 6, Push 8, Pop, Push 9, Pop, Pop, Pop]"] by auto

text \<open>
  C12. Two producers break the queue. In one interleaving the consumer receives a value that nobody pushed, because the
  second producer announces the slot that the first has reserved and not yet written. In another a producer
  that was held up between its check and its exchange goes on after the indices have come round: its
  push succeeds on a full queue, and although three pushes and one pop succeeded the queue reads as empty.
\<close>

theorem two_producers_unsafe:
  "(\<exists>s. ring_reachable 2 (rs_queue (two_producers 2)) s \<and> rs_sent s = [8] \<and> rs_received s = [0])
   \<and> (\<exists>s. ring_reachable 2 (rs_queue (two_producers 1)) s \<and> rs_sent s = [8, 9, 7] \<and> rs_received s = [8]
        \<and> rs_producers s = [PushReturn True, PushReturn True] \<and> rs_consumer s = PopReturn None)"
proof
  have "case exec_all unwritten_schedule (two_producers 2) of Some s \<Rightarrow> rs_sent s = [8] \<and> rs_received s = [0] | None \<Rightarrow> False" by code_simp
  then obtain s where "exec_all unwritten_schedule (two_producers 2) = Some s" "rs_sent s = [8] \<and> rs_received s = [0]" by (auto split: option.splits)
  then show "\<exists>s. ring_reachable 2 (rs_queue (two_producers 2)) s \<and> rs_sent s = [8] \<and> rs_received s = [0]"
    using two_producers_reachable by blast
next
  let ?P = "\<lambda>s. rs_sent s = [8, 9, 7] \<and> rs_received s = [8] \<and> rs_producers s = [PushReturn True, PushReturn True] \<and> rs_consumer s = PopReturn None"
  have "case exec_all lost_schedule (two_producers 1) of Some s \<Rightarrow> ?P s | None \<Rightarrow> False" by code_simp
  then obtain s where "exec_all lost_schedule (two_producers 1) = Some s" "?P s" by (auto split: option.splits)
  then show "\<exists>s. ring_reachable 2 (rs_queue (two_producers 1)) s \<and> ?P s"
    using two_producers_reachable by blast
qed

end
