(* ===== verification/FixedDeque.thy ===== *)
theory FixedDeque
  imports RingQueue
begin

text \<open>
  The double ended queue on a fixed array, \<^verbatim>\<open>stdx::FixedSizeDeque\<close> of \<^verbatim>\<open>kernel/include/std/fixed_deque.hpp\<close>, on which the
  character devices keep their input.

  The array is a list whose length is the capacity. Indices are natural numbers; the one sum that could leave the
  64-bit range is reduced where the code forms it. An access outside of the array is \<open>None\<close>. An iterator is its
  index, so that \<open>*it\<close> is \<open>fd_get\<close>.

  Shown here: the operations act as those on a list whose first element is the back of the queue, for every position of the two ends
  in the array, also the removal of an element in the middle.
\<close>

section \<open>Definitions\<close>

record 'a FixedSizeDeque =
  fd_count :: nat
  fd_front :: nat
  fd_back :: nat
  fd_entries :: "'a list"

definition fd_make :: "'a list \<Rightarrow> 'a FixedSizeDeque" where
  "fd_make entries = \<lparr>fd_count = 0, fd_front = 0, fd_back = 0, fd_entries = entries\<rparr>"

definition fd_capacity :: "'a FixedSizeDeque \<Rightarrow> nat" where "fd_capacity d = length (fd_entries d)"
definition fd_isEmpty :: "'a FixedSizeDeque \<Rightarrow> bool" where "fd_isEmpty d \<longleftrightarrow> fd_count d = 0"
definition fd_isFull :: "'a FixedSizeDeque \<Rightarrow> bool" where "fd_isFull d \<longleftrightarrow> fd_count d = fd_capacity d"

definition arr_set :: "nat \<Rightarrow> 'a \<Rightarrow> 'a list \<Rightarrow> 'a list option" where
  "arr_set i v xs = (if i < length xs then Some (xs[i := v]) else None)"

definition arr_get :: "nat \<Rightarrow> 'a list \<Rightarrow> 'a option" where
  "arr_get i xs = (if i < length xs then Some (xs ! i) else None)"

definition addFront :: "'a \<Rightarrow> 'a FixedSizeDeque \<Rightarrow> (bool \<times> 'a FixedSizeDeque) option" where
  "addFront e d =
     (if fd_count d = fd_capacity d then Some (False, d)
      else do {
        xs \<leftarrow> arr_set (fd_front d) e (fd_entries d);
        Some (True, d\<lparr>fd_entries := xs, fd_front := (fd_front d + 1) mod fd_capacity d, fd_count := fd_count d + 1\<rparr>) })"

definition popFront :: "'a FixedSizeDeque \<Rightarrow> bool \<times> 'a FixedSizeDeque" where
  "popFront d =
     (if fd_count d = 0 then (False, d)
      else (True, d\<lparr>fd_count := fd_count d - 1,
                    fd_front := (if fd_front d = 0 then fd_capacity d - 1 else fd_front d - 1)\<rparr>))"

definition addBack :: "'a \<Rightarrow> 'a FixedSizeDeque \<Rightarrow> (bool \<times> 'a FixedSizeDeque) option" where
  "addBack e d =
     (if fd_count d = fd_capacity d then Some (False, d)
      else do {
        let b = (if fd_back d = 0 then fd_capacity d - 1 else fd_back d - 1);
        xs \<leftarrow> arr_set b e (fd_entries d);
        Some (True, d\<lparr>fd_back := b, fd_entries := xs, fd_count := fd_count d + 1\<rparr>) })"

definition popBack :: "'a FixedSizeDeque \<Rightarrow> bool \<times> 'a FixedSizeDeque" where
  "popBack d =
     (if fd_count d = 0 then (False, d)
      else (True, d\<lparr>fd_count := fd_count d - 1, fd_back := (fd_back d + 1) mod fd_capacity d\<rparr>))"

definition fd_get :: "nat \<Rightarrow> 'a FixedSizeDeque \<Rightarrow> 'a option" where
  "fd_get index d =
     (if fd_count d = 0 \<or> index > fd_count d then arr_get 0 (fd_entries d)
      else arr_get ((fd_back d + index) mod 2 ^ 64 mod fd_capacity d) (fd_entries d))"

text \<open>\<^verbatim>\<open>std::copy\<close> of \<open>[lo, hi)\<close> to \<open>dest\<close> inside the array, element by element; a range that ends before it begins is undefined.\<close>

fun copy_loop :: "nat \<Rightarrow> nat \<Rightarrow> nat \<Rightarrow> 'a list \<Rightarrow> 'a list option" where
  "copy_loop 0 lo dest xs = Some xs"
| "copy_loop (Suc n) lo dest xs =
     do { v \<leftarrow> arr_get lo xs; xs \<leftarrow> arr_set dest v xs; copy_loop n (Suc lo) (Suc dest) xs }"

definition std_copy :: "nat \<Rightarrow> nat \<Rightarrow> nat \<Rightarrow> 'a list \<Rightarrow> 'a list option" where
  "std_copy lo hi dest xs = (if lo \<le> hi then copy_loop (hi - lo) lo dest xs else None)"

definition fd_remove :: "nat \<Rightarrow> 'a FixedSizeDeque \<Rightarrow> (bool \<times> 'a FixedSizeDeque) option" where
  "fd_remove index d =
     (if fd_count d = 0 \<or> index > fd_count d then Some (False, d)
      else let i = (fd_back d + index) mod 2 ^ 64 mod fd_capacity d; xs = fd_entries d; f = fd_front d; n = fd_capacity d
      in do {
        xs \<leftarrow> (if fd_back d < f then std_copy (i + 1) f i xs
              else if i \<ge> fd_back d then do {
                xs \<leftarrow> std_copy (i + 1) n i xs;
                xs \<leftarrow> std_copy 0 1 (n - 1) xs;
                let (h, t) = (if 1 > f then (f, 1) else (1, f));
                std_copy h t 0 xs }
              else std_copy (i + 1) f i xs);
        Some (True, snd (popFront (d\<lparr>fd_entries := xs\<rparr>))) })"

definition fd_erase :: "nat \<Rightarrow> 'a FixedSizeDeque \<Rightarrow> (nat \<times> 'a FixedSizeDeque) option" where
  "fd_erase it d = do { (_, d) \<leftarrow> fd_remove it d; Some (it, d) }"

text \<open>The ends: \<^verbatim>\<open>*--end()\<close> and \<^verbatim>\<open>*begin()\<close>; the index of the former wraps on an empty queue.\<close>

definition fd_frontElement :: "'a FixedSizeDeque \<Rightarrow> 'a option" where
  "fd_frontElement d = fd_get ((fd_count d + (2 ^ 64 - 1)) mod 2 ^ 64) d"

definition fd_backElement :: "'a FixedSizeDeque \<Rightarrow> 'a option" where
  "fd_backElement d = fd_get 0 d"

definition pollFront :: "'a FixedSizeDeque \<Rightarrow> ('a \<times> 'a FixedSizeDeque) option" where
  "pollFront d = do { r \<leftarrow> fd_frontElement d; Some (r, snd (popFront d)) }"

definition pollBack :: "'a FixedSizeDeque \<Rightarrow> ('a \<times> 'a FixedSizeDeque) option" where
  "pollBack d = do { r \<leftarrow> fd_backElement d; Some (r, snd (popBack d)) }"

definition tryPollFront :: "'a FixedSizeDeque \<Rightarrow> ('a option \<times> 'a FixedSizeDeque) option" where
  "tryPollFront d = (if \<not> fd_isEmpty d then do { (r, d) \<leftarrow> pollFront d; Some (Some r, d) } else Some (None, d))"

definition tryPollBack :: "'a FixedSizeDeque \<Rightarrow> ('a option \<times> 'a FixedSizeDeque) option" where
  "tryPollBack d = (if \<not> fd_isEmpty d then do { (r, d) \<leftarrow> pollBack d; Some (Some r, d) } else Some (None, d))"

section \<open>The list a queue stands for\<close>

definition pos :: "nat \<Rightarrow> nat \<Rightarrow> nat \<Rightarrow> nat" where
  "pos n b i = (if b + i < n then b + i else b + i - n)"

definition fd_list :: "'a FixedSizeDeque \<Rightarrow> 'a list" where
  "fd_list d = map (\<lambda>i. fd_entries d ! pos (fd_capacity d) (fd_back d) i) [0 ..< fd_count d]"

definition fd_ok :: "'a FixedSizeDeque \<Rightarrow> bool" where
  "fd_ok d \<longleftrightarrow> fd_back d < fd_capacity d \<and> fd_capacity d \<le> 2 ^ 63 \<and> fd_count d \<le> fd_capacity d
     \<and> fd_front d = (fd_back d + fd_count d) mod fd_capacity d"

lemma pos_mod: "b < (n :: nat) \<Longrightarrow> i \<le> n \<Longrightarrow> (b + i) mod n = (if b + i < n then b + i else b + i - n)"
  by (simp add: le_mod_geq)

lemma pos_mod64: "b < n \<Longrightarrow> i \<le> n \<Longrightarrow> n \<le> 2 ^ 63 \<Longrightarrow> (b + i) mod 2 ^ 64 mod n = pos n b i"
  by (simp add: pos_mod pos_def)

lemma fd_list_simps [simp]: "length (fd_list d) = fd_count d" "i < fd_count d \<Longrightarrow> fd_list d ! i = fd_entries d ! pos (fd_capacity d) (fd_back d) i"
  by (simp_all add: fd_list_def)

lemma copy_loop_spec:
  assumes "dest \<le> lo" and "lo + n \<le> length xs"
  shows "\<exists>ys. copy_loop n lo dest xs = Some ys \<and> length ys = length xs
    \<and> (\<forall>j < length xs. ys ! j = (if dest \<le> j \<and> j < dest + n then xs ! (j + (lo - dest)) else xs ! j))"
  using assms
proof (induction n arbitrary: lo dest xs)
  case (Suc n)
  let ?x = "xs[dest := xs ! lo]"
  obtain ys where "copy_loop n (Suc lo) (Suc dest) ?x = Some ys" "length ys = length xs"
    "\<forall>j < length xs. ys ! j = (if Suc dest \<le> j \<and> j < Suc dest + n then ?x ! (j + (lo - dest)) else ?x ! j)"
    using Suc.IH [of "Suc dest" "Suc lo" ?x] Suc.prems by auto
  moreover have "ys ! j = (if dest \<le> j \<and> j < dest + Suc n then xs ! (j + (lo - dest)) else xs ! j)" if j: "j < length xs" for j
    using calculation(3) Suc.prems j by (cases "j = dest") (auto simp: nth_list_update)
  ultimately show ?case using Suc.prems by (auto simp: arr_get_def arr_set_def)
qed simp

lemma std_copy_spec:
  assumes "dest \<le> lo" and "lo \<le> hi" and "hi \<le> length xs"
  shows "\<exists>ys. std_copy lo hi dest xs = Some ys \<and> length ys = length xs
    \<and> (\<forall>j < length xs. ys ! j = (if dest \<le> j \<and> j < dest + (hi - lo) then xs ! (j + (lo - dest)) else xs ! j))"
  using copy_loop_spec [of dest lo "hi - lo" xs] assms by (simp add: std_copy_def)


section \<open>The operations on lists\<close>

lemma fd_okD:
  assumes "fd_ok d"
  shows "fd_back d < fd_capacity d" "fd_capacity d \<le> 2 ^ 63" "fd_count d \<le> fd_capacity d" "fd_front d = pos (fd_capacity d) (fd_back d) (fd_count d)"
    "fd_front d < fd_capacity d" "fd_capacity d = length (fd_entries d)"
  using assms pos_mod [of "fd_back d" "fd_capacity d" "fd_count d"] by (auto simp: fd_ok_def pos_def fd_capacity_def)

lemma fd_okI:
  assumes "fd_back d < fd_capacity d" "fd_capacity d \<le> 2 ^ 63" "fd_count d \<le> fd_capacity d" "fd_front d = pos (fd_capacity d) (fd_back d) (fd_count d)"
  shows "fd_ok d"
  using assms pos_mod [of "fd_back d" "fd_capacity d" "fd_count d"] by (auto simp: fd_ok_def pos_def)

lemma addFront_spec:
  assumes ok: "fd_ok d" and room: "fd_count d < fd_capacity d"
  shows "\<exists>d'. addFront e d = Some (True, d') \<and> fd_ok d' \<and> fd_capacity d' = fd_capacity d \<and> fd_list d' = fd_list d @ [e]"
proof -
  note D = fd_okD [OF ok]
  let ?d = "d\<lparr>fd_entries := (fd_entries d)[fd_front d := e], fd_front := (fd_front d + 1) mod fd_capacity d, fd_count := fd_count d + 1\<rparr>"
  have cap: "fd_capacity ?d = fd_capacity d" by (simp add: fd_capacity_def)
  have f: "(fd_front d + 1) mod fd_capacity d = pos (fd_capacity d) (fd_back d) (fd_count d + 1)"
    using D room pos_mod [OF D(5), of 1] by (auto simp: pos_def)
  have "fd_ok ?d" using D room f cap by (intro fd_okI) simp_all
  moreover have "fd_list ?d = fd_list d @ [e]"
  proof (rule nth_equalityI)
    fix i assume "i < length (fd_list ?d)"
    then have i: "i \<le> fd_count d" by simp
    have "pos (fd_capacity d) (fd_back d) i \<noteq> fd_front d" if "i < fd_count d" using that D room by (auto simp: pos_def split: if_splits)
    then show "fd_list ?d ! i = (fd_list d @ [e]) ! i"
      using i D cap by (cases "i = fd_count d") (auto simp: nth_append)
  qed simp
  ultimately show ?thesis using D room cap by (intro exI [of _ ?d]) (simp add: addFront_def arr_set_def)
qed

lemma addBack_spec:
  assumes ok: "fd_ok d" and room: "fd_count d < fd_capacity d"
  shows "\<exists>d'. addBack e d = Some (True, d') \<and> fd_ok d' \<and> fd_capacity d' = fd_capacity d \<and> fd_list d' = e # fd_list d"
proof -
  note D = fd_okD [OF ok]
  define b where "b = (if fd_back d = 0 then fd_capacity d - 1 else fd_back d - 1)"
  let ?d = "d\<lparr>fd_back := b, fd_entries := (fd_entries d)[b := e], fd_count := fd_count d + 1\<rparr>"
  have cap: "fd_capacity ?d = fd_capacity d" by (simp add: fd_capacity_def)
  have b: "b < fd_capacity d" "pos (fd_capacity d) b (Suc i) = pos (fd_capacity d) (fd_back d) i" if "i < fd_capacity d" for i
    using D(1) that by (auto simp: b_def pos_def)
  have bl: "b < fd_capacity d" using D(1) by (auto simp: b_def)
  have "fd_ok ?d" using D room bl b(2) [of "fd_count d"] cap by (intro fd_okI) simp_all
  moreover have "fd_list ?d = e # fd_list d"
  proof (rule nth_equalityI)
    fix i assume "i < length (fd_list ?d)"
    then have i: "i < Suc (fd_count d)" by simp
    show "fd_list ?d ! i = (e # fd_list d) ! i"
    proof (cases i)
      case 0
      then show ?thesis using bl D(6) cap by (simp add: pos_def)
    next
      case (Suc k)
      have "pos (fd_capacity d) (fd_back d) k \<noteq> b" using Suc i room D by (auto simp: b_def pos_def split: if_splits)
      then show ?thesis using Suc i b(2) [of k] room cap by simp
    qed
  qed simp
  ultimately show ?thesis using D(6) room cap bl by (intro exI [of _ ?d]) (simp add: addBack_def arr_set_def b_def [symmetric])
qed

lemma popFront_spec:
  assumes ok: "fd_ok d" and some: "0 < fd_count d"
  shows "fst (popFront d)" "fd_ok (snd (popFront d))" "fd_list (snd (popFront d)) = butlast (fd_list d)" "fd_capacity (snd (popFront d)) = fd_capacity d"
proof -
  note D = fd_okD [OF ok]
  let ?d = "snd (popFront d)"
  show "fst (popFront d)" using some by (simp add: popFront_def)
  show cap: "fd_capacity ?d = fd_capacity d" by (simp add: popFront_def fd_capacity_def)
  show "fd_ok ?d" using D some cap by (intro fd_okI) (auto simp: popFront_def pos_def split: if_splits)
  show "fd_list ?d = butlast (fd_list d)"
    using some cap by (intro nth_equalityI) (auto simp: popFront_def nth_butlast fd_capacity_def)
qed

lemma popBack_spec:
  assumes ok: "fd_ok d" and some: "0 < fd_count d"
  shows "fst (popBack d)" "fd_ok (snd (popBack d))" "fd_list (snd (popBack d)) = tl (fd_list d)" "fd_capacity (snd (popBack d)) = fd_capacity d"
proof -
  note D = fd_okD [OF ok]
  let ?d = "snd (popBack d)"
  show "fst (popBack d)" using some by (simp add: popBack_def)
  show cap: "fd_capacity ?d = fd_capacity d" by (simp add: popBack_def fd_capacity_def)
  have b: "fd_back ?d = pos (fd_capacity d) (fd_back d) 1" using some D pos_mod [OF D(1), of 1] by (simp add: popBack_def pos_def)
  have p: "pos (fd_capacity d) (fd_back ?d) i = pos (fd_capacity d) (fd_back d) (Suc i)" if "i < fd_capacity d" for i
    using that D(1) unfolding b by (auto simp: pos_def)
  have c: "fd_count ?d = fd_count d - 1" "fd_front ?d = fd_front d" "fd_entries ?d = fd_entries d" using some by (simp_all add: popBack_def)
  show "fd_ok ?d" using D some cap p [of "fd_count d - 1"] c b by (intro fd_okI) (auto simp: pos_def)
  show "fd_list ?d = tl (fd_list d)"
  proof (rule nth_equalityI)
    fix i assume "i < length (fd_list ?d)"
    then have i: "i < fd_count d - 1" using c by simp
    then have "Suc i < fd_count d" "i < fd_capacity d" using D(3) by simp_all
    then show "fd_list ?d ! i = tl (fd_list d) ! i" using c cap p [of i] i by (simp add: nth_tl)
  qed (simp add: c)
qed

lemma get_spec:
  assumes ok: "fd_ok d" and i: "i < fd_count d"
  shows "fd_get i d = Some (fd_list d ! i)"
proof -
  note D = fd_okD [OF ok]
  have "pos (fd_capacity d) (fd_back d) i < length (fd_entries d)" using D i by (auto simp: pos_def)
  then show ?thesis using i D pos_mod64 [OF D(1) _ D(2), of i] by (simp add: fd_get_def arr_get_def)
qed

text \<open>Removing: the elements behind the removed one move up by one, in the two pieces of the array when the queue wraps.\<close>

definition shifted :: "'a FixedSizeDeque \<Rightarrow> nat \<Rightarrow> 'a list \<Rightarrow> bool" where
  "shifted d k ys \<longleftrightarrow> length ys = fd_capacity d
     \<and> (\<forall>i < fd_count d - 1. ys ! pos (fd_capacity d) (fd_back d) i
          = fd_entries d ! pos (fd_capacity d) (fd_back d) (if i < k then i else Suc i))"

lemma shift_plain:
  assumes ok: "fd_ok d" and k: "k < fd_count d" and i: "i = pos (fd_capacity d) (fd_back d) k" and f: "i < fd_front d"
    and w: "fd_back d < fd_front d \<or> i < fd_back d"
  shows "\<exists>ys. std_copy (i + 1) (fd_front d) i (fd_entries d) = Some ys \<and> shifted d k ys"
proof -
  note D = fd_okD [OF ok]
  obtain ys where ys: "std_copy (i + 1) (fd_front d) i (fd_entries d) = Some ys" "length ys = length (fd_entries d)"
    "\<forall>j < length (fd_entries d). ys ! j = (if i \<le> j \<and> j < i + (fd_front d - (i + 1)) then fd_entries d ! (j + 1) else fd_entries d ! j)"
    using std_copy_spec [of i "i + 1" "fd_front d" "fd_entries d"] f D by auto
  have "ys ! pos (fd_capacity d) (fd_back d) x = fd_entries d ! pos (fd_capacity d) (fd_back d) (if x < k then x else Suc x)" if x: "x < fd_count d - 1" for x
  proof -
    have l: "pos (fd_capacity d) (fd_back d) x < length (fd_entries d)" using D x by (auto simp: pos_def)
    show ?thesis using ys(3) [rule_format, OF l] D k w f x unfolding i by (auto simp: pos_def Suc_diff_le split: if_splits)
  qed
  then show ?thesis using ys D by (auto simp: shifted_def)
qed

lemma shift_wrapped:
  assumes ok: "fd_ok d" and k: "k < fd_count d" and i: "i = pos (fd_capacity d) (fd_back d) k"
    and w: "\<not> fd_back d < fd_front d" "fd_back d \<le> i"
  shows "\<exists>ys. (do { xs \<leftarrow> std_copy (i + 1) (fd_capacity d) i (fd_entries d);
                   xs \<leftarrow> std_copy 0 1 (fd_capacity d - 1) xs;
                   let (h, t) = (if 1 > fd_front d then (fd_front d, 1) else (1, fd_front d));
                   std_copy h t 0 xs }) = Some ys \<and> shifted d k ys"
proof -
  note D = fd_okD [OF ok]
  let ?n = "length (fd_entries d)" and ?e = "fd_entries d" and ?f = "fd_front d"
  have i': "i = fd_back d + k" "i < ?n" using i w(2) D k by (auto simp: pos_def split: if_splits)
  have fi: "?f \<le> i" using w by simp
  obtain xs where xs: "std_copy (i + 1) ?n i ?e = Some xs" "length xs = ?n"
    "\<forall>j < ?n. xs ! j = (if i \<le> j \<and> j < i + (?n - (i + 1)) then ?e ! (j + 1) else ?e ! j)"
    using std_copy_spec [of i "i + 1" ?n ?e] i'(2) by auto
  define zs where "zs = xs[?n - 1 := xs ! 0]"
  have zs: "std_copy 0 1 (?n - 1) xs = Some zs" "length zs = ?n" using xs(2) i'(2) by (auto simp: std_copy_def arr_get_def arr_set_def zs_def)
  have n0: "0 < ?n" using i'(2) by linarith
  have x0: "xs ! 0 = ?e ! 0" if "0 < ?f" using xs(3) [rule_format, OF n0] that fi by simp
  obtain ys where ys: "(let (h, t) = (if 1 > ?f then (?f, 1) else (1, ?f)) in std_copy h t 0 zs) = Some ys" "length ys = ?n"
    "\<forall>j < ?n. ys ! j = (if j < ?f - 1 then zs ! (j + 1) else zs ! j)"
  proof (cases "?f = 0")
    case True
    have "0 < length zs" using zs(2) n0 by linarith
    then have "std_copy 0 1 0 zs = Some zs" by (simp add: std_copy_def arr_get_def arr_set_def)
    then show ?thesis using that [of zs] True zs(2) by simp
  next
    case False
    then have "\<not> 1 > ?f" by simp
    moreover obtain ys where "std_copy 1 ?f 0 zs = Some ys" "length ys = ?n"
      "\<forall>j < ?n. ys ! j = (if j < ?f - 1 then zs ! (j + 1) else zs ! j)"
      using std_copy_spec [of 0 1 ?f zs] zs(2) False D(5,6) by auto
    ultimately show ?thesis using that [of ys] by simp
  qed
  have "ys ! pos (fd_capacity d) (fd_back d) x = ?e ! pos (fd_capacity d) (fd_back d) (if x < k then x else Suc x)" if x: "x < fd_count d - 1" for x
  proof -
    have l: "pos (fd_capacity d) (fd_back d) x < ?n" using D x by (auto simp: pos_def)
    show ?thesis
    proof (cases "fd_back d + x < ?n")
      case True
      then have p: "pos (fd_capacity d) (fd_back d) x = fd_back d + x" using D(6) by (simp add: pos_def)
      have nf: "\<not> fd_back d + x < ?f - 1" using w by simp
      show ?thesis using ys(3) xs(3) True p nf i' x0 w D k x unfolding zs_def by (auto simp: pos_def nth_list_update xs(2))
    next
      case False
      then have p: "pos (fd_capacity d) (fd_back d) x = fd_back d + x - ?n" using D(6) by (simp add: pos_def)
      have nf: "fd_back d + x - ?n < ?f - 1" using D x False by (auto simp: pos_def split: if_splits)
      then have "Suc (fd_back d + x - ?n) < ?f" by simp
      then have "Suc (fd_back d + x - ?n) < i" "Suc (fd_back d + x - ?n) \<noteq> ?n - 1" using fi i'(2) by simp_all
      then have "ys ! (fd_back d + x - ?n) = ?e ! Suc (fd_back d + x - ?n)"
        using ys(3) [rule_format, of "fd_back d + x - ?n"] xs(3) [rule_format, of "Suc (fd_back d + x - ?n)"] nf i'(2) l p by (simp add: zs_def)
      moreover have "\<not> x < k" using False i' by simp
      ultimately show ?thesis using p False D(6) by (simp add: pos_def Suc_diff_le)
    qed
  qed
  then have "shifted d k ys" using ys(2) D(6) by (simp add: shifted_def)
  then show ?thesis using xs(1) zs(1) ys(1) D(6) by simp
qed

lemma remove_spec:
  assumes ok: "fd_ok d" and k: "k < fd_count d"
  shows "\<exists>d'. fd_remove k d = Some (True, d') \<and> fd_ok d' \<and> fd_capacity d' = fd_capacity d
    \<and> fd_list d' = take k (fd_list d) @ drop (Suc k) (fd_list d)"
proof -
  note D = fd_okD [OF ok]
  define i where "i = pos (fd_capacity d) (fd_back d) k"
  have i: "(fd_back d + k) mod 2 ^ 64 mod fd_capacity d = i" using pos_mod64 [OF D(1) _ D(2), of k] k D(3) by (simp add: i_def)
  have c: "\<not> (fd_count d = 0 \<or> k > fd_count d)" using k by simp
  obtain ys where ys: "shifted d k ys" "fd_remove k d = Some (True, snd (popFront (d\<lparr>fd_entries := ys\<rparr>)))"
  proof (cases "\<not> fd_back d < fd_front d \<and> fd_back d \<le> i")
    case True
    then show ?thesis using shift_wrapped [OF ok k i_def] that c i by (auto simp: fd_remove_def Let_def bind_eq_Some_conv)
  next
    case False
    then have "fd_back d < fd_front d \<or> i < fd_back d" "i < fd_front d" using D k by (auto simp: i_def pos_def split: if_splits)
    then show ?thesis using shift_plain [OF ok k i_def] that c i by (auto simp: fd_remove_def Let_def)
  qed
  let ?d = "d\<lparr>fd_entries := ys\<rparr>"
  have cap: "fd_capacity ?d = fd_capacity d" using ys(1) by (simp add: shifted_def fd_capacity_def)
  have okd: "fd_ok ?d" using D cap by (intro fd_okI) simp_all
  note P = popFront_spec [OF okd]
  have "butlast (fd_list ?d) = take k (fd_list d) @ drop (Suc k) (fd_list d)"
  proof (rule nth_equalityI)
    fix x assume "x < length (butlast (fd_list ?d))"
    then have x: "x < fd_count d - 1" by simp
    then show "butlast (fd_list ?d) ! x = (take k (fd_list d) @ drop (Suc k) (fd_list d)) ! x"
      using ys(1) k cap by (auto simp: shifted_def nth_butlast nth_append min_def)
  qed (use k in simp)
  then show ?thesis using ys(2) P k cap by simp
qed

lemma tryPollFront_spec:
  assumes ok: "fd_ok d"
  shows "if fd_list d = [] then tryPollFront d = Some (None, d)
    else \<exists>d'. tryPollFront d = Some (Some (last (fd_list d)), d') \<and> fd_ok d' \<and> fd_capacity d' = fd_capacity d
      \<and> fd_list d' = butlast (fd_list d)"
proof (cases "fd_count d = 0")
  case True
  then show ?thesis by (simp add: tryPollFront_def fd_isEmpty_def fd_list_def)
next
  case False
  note D = fd_okD [OF ok]
  have l: "fd_list d \<noteq> []" using False by (metis fd_list_simps(1) list.size(3))
  have "fd_count d - 1 + 2 ^ 64 = fd_count d + (2 ^ 64 - 1)" using False by simp
  moreover have "fd_count d - 1 < 2 ^ 64" using D(2,3) by simp
  ultimately have "(fd_count d + (2 ^ 64 - 1)) mod 2 ^ 64 = fd_count d - 1" by (metis mod_add_self2 mod_less)
  then have "fd_frontElement d = Some (last (fd_list d))"
    unfolding fd_frontElement_def last_conv_nth [OF l] using get_spec [OF ok, of "fd_count d - 1"] False by simp
  then show ?thesis using popFront_spec [OF ok] False l by (simp add: tryPollFront_def pollFront_def fd_isEmpty_def)
qed

lemma tryPollBack_spec:
  assumes ok: "fd_ok d"
  shows "if fd_list d = [] then tryPollBack d = Some (None, d)
    else \<exists>d'. tryPollBack d = Some (Some (hd (fd_list d)), d') \<and> fd_ok d' \<and> fd_capacity d' = fd_capacity d
      \<and> fd_list d' = tl (fd_list d)"
proof (cases "fd_count d = 0")
  case True
  then show ?thesis by (simp add: tryPollBack_def fd_isEmpty_def fd_list_def)
next
  case False
  have l: "fd_list d \<noteq> []" using False by (metis fd_list_simps(1) list.size(3))
  have "fd_backElement d = Some (hd (fd_list d))"
    unfolding fd_backElement_def hd_conv_nth [OF l] using get_spec [OF ok, of 0] False by simp
  then show ?thesis using popBack_spec [OF ok] False l by (simp add: tryPollBack_def pollBack_def fd_isEmpty_def)
qed

text \<open>The index after the last element passes the check of \<^verbatim>\<open>remove\<close>, which then copies a range that ends before it begins.\<close>

lemma remove_at_count:
  assumes ok: "fd_ok d" and "fd_back d < fd_front d"
  shows "fd_remove (fd_count d) d = None"
proof -
  note D = fd_okD [OF ok]
  have "fd_count d \<noteq> 0" using D(1,4) assms(2) by (auto simp: pos_def split: if_splits)
  moreover have "(fd_back d + fd_count d) mod 2 ^ 64 mod fd_capacity d = fd_front d"
    using pos_mod64 [OF D(1,3,2)] D(4) by simp
  ultimately show ?thesis using assms(2) by (simp add: fd_remove_def std_copy_def Let_def)
qed

section \<open>Refinement\<close>

text \<open>An operation of the queue with its answer, on the array and on the list of elements from the back to the front.\<close>

datatype 'a deque_op = AddFront 'a | AddBack 'a | PollFront | PollBack | Remove nat

fun fd_do :: "'a deque_op \<Rightarrow> 'a FixedSizeDeque \<Rightarrow> ((bool \<times> 'a option) \<times> 'a FixedSizeDeque) option" where
  "fd_do (AddFront e) d = do { (r, d) \<leftarrow> addFront e d; Some ((r, None), d) }"
| "fd_do (AddBack e) d = do { (r, d) \<leftarrow> addBack e d; Some ((r, None), d) }"
| "fd_do PollFront d = do { (v, d) \<leftarrow> tryPollFront d; Some ((v \<noteq> None, v), d) }"
| "fd_do PollBack d = do { (v, d) \<leftarrow> tryPollBack d; Some ((v \<noteq> None, v), d) }"
| "fd_do (Remove k) d = do { (r, d) \<leftarrow> fd_remove k d; Some ((r, None), d) }"

fun list_do :: "nat \<Rightarrow> 'a deque_op \<Rightarrow> 'a list \<Rightarrow> (bool \<times> 'a option) \<times> 'a list" where
  "list_do n (AddFront e) xs = (if length xs < n then ((True, None), xs @ [e]) else ((False, None), xs))"
| "list_do n (AddBack e) xs = (if length xs < n then ((True, None), e # xs) else ((False, None), xs))"
| "list_do n PollFront xs = (if xs = [] then ((False, None), xs) else ((True, Some (last xs)), butlast xs))"
| "list_do n PollBack xs = (if xs = [] then ((False, None), xs) else ((True, Some (hd xs)), tl xs))"
| "list_do n (Remove k) xs = (if k < length xs then ((True, None), take k xs @ drop (Suc k) xs) else ((False, None), xs))"

lemma add_full:
  assumes "fd_ok d" and "\<not> fd_count d < fd_capacity d"
  shows "addFront e d = Some (False, d)" "addBack e d = Some (False, d)"
  using assms fd_okD(3) [OF assms(1)] by (simp_all add: addFront_def addBack_def)

lemma remove_none: "fd_list d = [] \<or> fd_count d < k \<Longrightarrow> fd_remove k d = Some (False, d)"
  by (metis fd_list_simps(1) fd_remove_def list.size(3))

lemma fd_do_refines:
  assumes ok: "fd_ok d" and last: "op = Remove (length (fd_list d)) \<Longrightarrow> fd_list d = []"
  shows "\<exists>r d'. fd_do op d = Some (r, d') \<and> fd_ok d' \<and> fd_capacity d' = fd_capacity d
    \<and> list_do (fd_capacity d) op (fd_list d) = (r, fd_list d')"
proof (cases op)
  case (AddFront e)
  then show ?thesis using ok addFront_spec [OF ok, of e] add_full(1) [OF ok, of e] by (cases "fd_count d < fd_capacity d") auto
next
  case (AddBack e)
  then show ?thesis using ok addBack_spec [OF ok, of e] add_full(2) [OF ok, of e] by (cases "fd_count d < fd_capacity d") auto
next
  case PollFront
  then show ?thesis using ok tryPollFront_spec [OF ok] by (auto split: if_splits)
next
  case PollBack
  then show ?thesis using ok tryPollBack_spec [OF ok] by (auto split: if_splits)
next
  case (Remove k)
  show ?thesis
  proof (cases "k < fd_count d")
    case True
    then show ?thesis using remove_spec [OF ok, of k] Remove by auto
  next
    case False
    then have "fd_list d = [] \<or> fd_count d < k" using last Remove by auto
    then show ?thesis using remove_none [of d k] ok Remove False by auto
  qed
qed

text \<open>
  Sequences of operations with their answers. A removal at the index after the last element of a queue that is not
  empty is left out: the code does not reject it.
\<close>

fun fd_run :: "'a deque_op list \<Rightarrow> 'a FixedSizeDeque \<Rightarrow> ((bool \<times> 'a option) list \<times> 'a FixedSizeDeque) option" where
  "fd_run [] d = Some ([], d)"
| "fd_run (op # ops) d = do { (r, d) \<leftarrow> fd_do op d; (rs, d) \<leftarrow> fd_run ops d; Some (r # rs, d) }"

fun list_run :: "nat \<Rightarrow> 'a deque_op list \<Rightarrow> 'a list \<Rightarrow> (bool \<times> 'a option) list \<times> 'a list" where
  "list_run n [] xs = ([], xs)"
| "list_run n (op # ops) xs = (let (r, xs) = list_do n op xs; (rs, xs) = list_run n ops xs in (r # rs, xs))"

fun in_range :: "nat \<Rightarrow> 'a deque_op list \<Rightarrow> 'a list \<Rightarrow> bool" where
  "in_range n [] xs \<longleftrightarrow> True"
| "in_range n (op # ops) xs \<longleftrightarrow> (op = Remove (length xs) \<longrightarrow> xs = []) \<and> in_range n ops (snd (list_do n op xs))"

lemma fd_run_refines:
  assumes "fd_ok d" and "in_range (fd_capacity d) ops (fd_list d)"
  shows "\<exists>d'. fd_run ops d = Some (fst (list_run (fd_capacity d) ops (fd_list d)), d')
    \<and> fd_ok d' \<and> fd_list d' = snd (list_run (fd_capacity d) ops (fd_list d))"
  using assms
proof (induction ops arbitrary: d)
  case (Cons op ops)
  obtain r d1 where d1: "fd_do op d = Some (r, d1)" "fd_ok d1" "fd_capacity d1 = fd_capacity d"
    "list_do (fd_capacity d) op (fd_list d) = (r, fd_list d1)"
    using fd_do_refines [OF Cons.prems(1), of op] Cons.prems(2) by auto
  then show ?case using Cons.IH [OF d1(2)] Cons.prems(2) by (auto split: prod.splits)
qed simp

lemma fd_make_ok:
  assumes "entries \<noteq> []" and "length entries \<le> 2 ^ 63"
  shows "fd_ok (fd_make entries)" "fd_list (fd_make entries) = []" "fd_capacity (fd_make entries) = length entries"
  using assms by (simp_all add: fd_make_def fd_ok_def fd_list_def fd_capacity_def)

text \<open>As a queue that is filled at the back and read at the front.\<close>

interpretation pipe: bounded_queue addBack tryPollFront "\<lambda>d. rev (fd_list d)" fd_capacity fd_ok
proof
  fix d :: "'a FixedSizeDeque" and v
  assume ok: "fd_ok d"
  show "length (rev (fd_list d)) < fd_capacity d \<Longrightarrow>
      \<exists>d'. addBack v d = Some (True, d') \<and> fd_ok d' \<and> fd_capacity d' = fd_capacity d \<and> rev (fd_list d') = rev (fd_list d) @ [v]"
    using addBack_spec [OF ok, of v] by auto
  show "\<not> length (rev (fd_list d)) < fd_capacity d \<Longrightarrow> addBack v d = Some (False, d)"
    using add_full(2) [OF ok] by simp
  show "rev (fd_list d) = [] \<Longrightarrow> tryPollFront d = Some (None, d)" using tryPollFront_spec [OF ok] by simp
  fix x xs
  assume "rev (fd_list d) = x # xs"
  then have "fd_list d = rev xs @ [x]" by (metis rev.simps(2) rev_rev_ident)
  then show "\<exists>d'. tryPollFront d = Some (Some x, d') \<and> fd_ok d' \<and> fd_capacity d' = fd_capacity d \<and> rev (fd_list d') = xs"
    using tryPollFront_spec [OF ok] by auto
qed

section \<open>The stream device\<close>

text \<open>
  \<^verbatim>\<open>StreamDevice::read\<close> and \<^verbatim>\<open>StreamDevice::write\<close> of \<^verbatim>\<open>kernel/src/devices/stream.cpp\<close>, under the lock that makes
  each of them one step. The answer is the number of bytes together with the bytes read.
\<close>

fun poll_bytes :: "nat \<Rightarrow> 'a FixedSizeDeque \<Rightarrow> ('a list \<times> 'a FixedSizeDeque) option" where
  "poll_bytes 0 d = Some ([], d)"
| "poll_bytes (Suc n) d = do { (b, d) \<leftarrow> pollFront d; (bs, d) \<leftarrow> poll_bytes n d; Some (b # bs, d) }"

fun add_bytes :: "'a list \<Rightarrow> 'a FixedSizeDeque \<Rightarrow> 'a FixedSizeDeque option" where
  "add_bytes [] d = Some d"
| "add_bytes (b # bs) d = do { (_, d) \<leftarrow> addBack b d; add_bytes bs d }"

definition stream_read :: "nat \<Rightarrow> 'a FixedSizeDeque \<Rightarrow> (OsStatus \<times> nat \<times> 'a list \<times> 'a FixedSizeDeque) option" where
  "stream_read sz d =
     (let count = min sz (fd_count d)
      in do { (bs, d) \<leftarrow> poll_bytes count d; Some (OsStatusSuccess, count, bs, d) })"

definition stream_write :: "'a list \<Rightarrow> 'a FixedSizeDeque \<Rightarrow> (OsStatus \<times> nat \<times> 'a FixedSizeDeque) option" where
  "stream_write request d =
     (let count = min (length request) (fd_capacity d - fd_count d)
      in do { d \<leftarrow> add_bytes (take count request) d; Some (OsStatusSuccess, count, d) })"

lemma poll_bytes_spec:
  assumes "fd_ok d" and "n \<le> fd_count d"
  shows "\<exists>d'. poll_bytes n d = Some (take n (rev (fd_list d)), d') \<and> fd_ok d' \<and> fd_capacity d' = fd_capacity d
    \<and> rev (fd_list d') = drop n (rev (fd_list d))"
  using assms
proof (induction n arbitrary: d)
  case (Suc n)
  obtain x xs where l: "rev (fd_list d) = x # xs" using Suc.prems(2) by (cases "rev (fd_list d)") (auto simp: fd_list_def)
  obtain d1 where d1: "tryPollFront d = Some (Some x, d1)" "fd_ok d1" "fd_capacity d1 = fd_capacity d" "rev (fd_list d1) = xs"
    using pipe.pop_some [OF Suc.prems(1) l] by blast
  have "pollFront d = Some (x, d1)" using d1(1) by (auto simp: tryPollFront_def bind_Some_iff split: if_splits)
  moreover have "n \<le> fd_count d1" using arg_cong [OF l, of length] arg_cong [OF d1(4), of length] Suc.prems(2) by simp
  ultimately show ?case using Suc.IH [OF d1(2)] d1 l by auto
qed simp

lemma add_bytes_spec:
  assumes "fd_ok d" and "fd_count d + length bs \<le> fd_capacity d"
  shows "\<exists>d'. add_bytes bs d = Some d' \<and> fd_ok d' \<and> fd_capacity d' = fd_capacity d \<and> rev (fd_list d') = rev (fd_list d) @ bs"
  using assms
proof (induction bs arbitrary: d)
  case (Cons b bs)
  obtain d1 where d1: "addBack b d = Some (True, d1)" "fd_ok d1" "fd_capacity d1 = fd_capacity d" "rev (fd_list d1) = rev (fd_list d) @ [b]"
    using pipe.push_room [OF Cons.prems(1), of b] Cons.prems(2) by auto
  have "fd_count d1 = Suc (fd_count d)" using arg_cong [OF d1(4), of length] by simp
  then show ?case using Cons.IH [OF d1(2)] d1 Cons.prems(2) by auto
qed simp

lemma stream_device_pipe:
  assumes ok: "fd_ok d"
  shows "(\<exists>d'. stream_read n d = Some (OsStatusSuccess, min n (fd_count d), take n (rev (fd_list d)), d') \<and> fd_ok d'
      \<and> rev (fd_list d') = drop n (rev (fd_list d)))
    \<and> (let k = min (length bs) (fd_capacity d - fd_count d) in
        \<exists>d'. stream_write bs d = Some (OsStatusSuccess, k, d') \<and> fd_ok d' \<and> rev (fd_list d') = rev (fd_list d) @ take k bs)"
proof -
  have t: "take (min n (fd_count d)) (rev (fd_list d)) = take n (rev (fd_list d))"
    "drop (min n (fd_count d)) (rev (fd_list d)) = drop n (rev (fd_list d))" by (simp_all add: min_def)
  define k where "k = min (length bs) (fd_capacity d - fd_count d)"
  have "fd_count d + length (take k bs) \<le> fd_capacity d" using fd_okD(3) [OF ok] by (simp add: k_def)
  then show ?thesis
    using poll_bytes_spec [OF ok, of "min n (fd_count d)", unfolded t] add_bytes_spec [OF ok, of "take k bs"]
    by (auto simp: stream_read_def stream_write_def Let_def k_def [symmetric])
qed

lemma fixed_deque_refines_fifo:
  assumes "entries \<noteq> []" and "length entries \<le> 2 ^ 63"
  shows "\<exists>d'. queue_run addBack tryPollFront ops (fd_make entries) = Some (fst (fifo_run (length entries) ops []), d')"
  using pipe.run_fifo [OF fd_make_ok(1) [OF assms], of ops] fd_make_ok(2,3) [OF assms] by auto

text \<open>
  C18. For every sequence of operations on a new queue, the queue on the array answers as a list of bounded
  length: elements are added and taken at both ends and removed in the middle, wherever the two ends of the
  queue lie in the array. The one call that is left out is the removal at the index just after the last
  element, which the code does not reject.
\<close>

theorem fixed_deque_refines_list:
  assumes "entries \<noteq> []" and "length entries \<le> 2 ^ 63" and "in_range (length entries) ops []"
  shows "\<exists>d'. fd_run ops (fd_make entries) = Some (fst (list_run (length entries) ops []), d')
    \<and> fd_list d' = snd (list_run (length entries) ops [])"
  using fd_run_refines [OF fd_make_ok(1) [OF assms(1,2)], of ops] fd_make_ok(2,3) [OF assms(1,2)] assms(3) by auto

theorem fixed_deque_refines_list_witness:
  "\<exists>d'. fd_run [AddBack 1, AddBack 2, AddFront 3, AddFront 4, PollFront, AddBack 5, Remove 1, PollBack, PollFront, PollFront]
      (fd_make [0, 0, 0 :: int])
    = Some ([(True, None), (True, None), (True, None), (False, None), (True, Some 3), (True, None), (True, None),
        (True, Some 5), (True, Some 1), (False, None)], d')"
  using fixed_deque_refines_list [of "[0, 0, 0 :: int]"
      "[AddBack 1, AddBack 2, AddFront 3, AddFront 4, PollFront, AddBack 5, Remove 1, PollBack, PollFront, PollFront]"] by auto

end
