(* ===== verification/TlsfSmall.thy ===== *)
theory TlsfSmall
  imports TlsfContract
begin

text \<open>
  Heaps of at most 256 bytes: \<^verbatim>\<open>TlsfHeap::create\<close> accepts such a range but gives it an array of free lists of
  length zero. No operation changes the length of that array, so the first block that has to be filed in a
  free list is written out of its bounds.
\<close>

section \<open>What an operation keeps when it returns\<close>

definition returns_only :: "'a option \<Rightarrow> ('a \<Rightarrow> bool) \<Rightarrow> bool" where
  "returns_only m Q \<longleftrightarrow> (\<forall>x. m = Some x \<longrightarrow> Q x)"

lemma returns_onlyD: "returns_only m Q \<Longrightarrow> m = Some x \<Longrightarrow> Q x"
  by (simp add: returns_only_def)

lemma returns_only_rules:
  "Q x \<Longrightarrow> returns_only (Some x) Q"
  "returns_only None Q"
  "(c \<Longrightarrow> returns_only m1 Q) \<Longrightarrow> (\<not> c \<Longrightarrow> returns_only m2 Q) \<Longrightarrow> returns_only (if c then m1 else m2) Q"
  "returns_only m0 Q \<Longrightarrow> (\<And>y. returns_only (f1 y) Q) \<Longrightarrow> returns_only (case a of None \<Rightarrow> m0 | Some y \<Rightarrow> f1 y) Q"
  "(\<And>y z. returns_only (f2 y z) Q) \<Longrightarrow> returns_only (case b of (y, z) \<Rightarrow> f2 y z) Q"
  "(c \<Longrightarrow> returns_only m1 Q) \<Longrightarrow> (\<not> c \<Longrightarrow> returns_only m2 Q) \<Longrightarrow> returns_only (case c of True \<Rightarrow> m1 | False \<Rightarrow> m2) Q"
  by (auto simp: returns_only_def split: option.splits prod.splits bool.splits)

lemma returns_only_bind:
  "returns_only m P \<Longrightarrow> (\<And>x. P x \<Longrightarrow> returns_only (f x) Q) \<Longrightarrow> returns_only (Option.bind m f) Q"
  by (fastforce simp: returns_only_def bind_Some_iff)

lemma returns_only_any: "returns_only m (\<lambda>_. True)"
  by (simp add: returns_only_def)

section \<open>No operation changes the length of the array of free lists\<close>

definition lists_len :: "nat \<Rightarrow> tlsf_heap \<Rightarrow> bool" where
  "lists_len n h \<longleftrightarrow> length (mFreeList h) = n"

lemma lists_update:
  "lists_len n h \<Longrightarrow> lists_len n (h\<lparr>blocks := bs\<rparr>)" "lists_len n h \<Longrightarrow> lists_len n (h\<lparr>mBlockPool := bp\<rparr>)"
  "lists_len n h \<Longrightarrow> lists_len n (h\<lparr>mTopLevelFreeMap := t\<rparr>)" "lists_len n h \<Longrightarrow> lists_len n (h\<lparr>mNullBlock := q\<rparr>)"
  "lists_len n h \<Longrightarrow> lists_len n (h\<lparr>mFreeCount := c\<rparr>)"
  by (simp_all add: lists_len_def)

lemma lists_basic:
  assumes "lists_len n h"
  shows "returns_only (upd_block p f h) (lists_len n)" and "returns_only (upd_opt q f h) (lists_len n)"
    and "returns_only (set_list i v h) (lists_len n)" and "returns_only (set_inner mc w h) (lists_len n)"
    and "returns_only (destroy p h) (lists_len n)" and "returns_only (markTaken p h) (lists_len n)"
    and "returns_only (markFree p h) (lists_len n)" and "returns_only (set_propNextFree p v h) (lists_len n)"
    and "returns_only (buffer_take b buf h) (\<lambda>(_, _, h'). lists_len n h')"
  using assms by (auto simp: returns_only_def lists_len_def upd_block_def upd_opt_def set_list_def set_inner_def destroy_def
      markTaken_def markFree_def set_propNextFree_def buffer_take_def bind_Some_iff split: option.splits if_splits)

lemma construct_lists: "lists_len n h \<Longrightarrow> lists_len n (snd (construct b h))"
  by (auto simp: lists_len_def construct_def split: prod.splits option.splits)

lemma destroy_all_lists: "lists_len n h \<Longrightarrow> returns_only (destroy_all qs h) (lists_len n)"
proof (induction qs arbitrary: h)
  case Nil
  then show ?case by (simp add: returns_only_def)
next
  case (Cons q qs)
  show ?case unfolding destroy_all.simps by (rule returns_only_bind [OF lists_basic(5) [OF Cons.prems]]) (rule Cons.IH)
qed

lemma buffer_reserve_lists: "lists_len n h \<Longrightarrow> returns_only (buffer_reserve k buf h) (\<lambda>(_, _, h'). lists_len n h')"
proof (induction k arbitrary: buf h)
  case 0
  then show ?case by (simp add: returns_only_def)
next
  case (Suc k)
  obtain r h1 where c: "construct zero_block h = (r, h1)" by fastforce
  have "lists_len n h1" using construct_lists [OF Suc.prems, of zero_block] c by simp
  then show ?case using Suc.IH [of h1] by (auto simp: c returns_only_def bind_Some_iff split: option.splits)
qed

text \<open>
  The steps of an operation: one that returns a heap, one that returns a heap with other results, and one that
  reads.
\<close>

lemma lists_bind:
  "returns_only m1 (lists_len n) \<Longrightarrow> (\<And>h. lists_len n h \<Longrightarrow> returns_only (f1 h) Q) \<Longrightarrow> returns_only (Option.bind m1 f1) Q"
  "returns_only m2 (\<lambda>(_, h). lists_len n h) \<Longrightarrow> (\<And>r h. lists_len n h \<Longrightarrow> returns_only (f2 r h) Q)
    \<Longrightarrow> returns_only (Option.bind m2 (\<lambda>(r, h). f2 r h)) Q"
  "returns_only m3 (\<lambda>(_, _, h). lists_len n h) \<Longrightarrow> (\<And>r s h. lists_len n h \<Longrightarrow> returns_only (f3 r s h) Q)
    \<Longrightarrow> returns_only (Option.bind m3 (\<lambda>(r, s, h). f3 r s h)) Q"
  "(\<And>x. returns_only (f4 x) Q) \<Longrightarrow> returns_only (Option.bind m4 f4) Q"
  by (fastforce simp: returns_only_def bind_Some_iff)+

lemma lists_Some:
  "lists_len n h \<Longrightarrow> returns_only (Some (r, h)) (\<lambda>(_, h). lists_len n h)"
  "lists_len n h \<Longrightarrow> returns_only (Some (r, s, h)) (\<lambda>(_, _, h). lists_len n h)"
  by (simp_all add: returns_only_def)

lemmas lists_basics = lists_basic destroy_all_lists buffer_reserve_lists lists_update lists_Some
lemmas lists_steps = lists_basics returns_only_rules lists_bind

lemma takeBlockFromFreeList_lists: "lists_len n h \<Longrightarrow> returns_only (takeBlockFromFreeList p h) (lists_len n)"
  unfolding takeBlockFromFreeList_def Let_def by (assumption | rule lists_steps)+

lemma releaseBlockToFreeList_lists: "lists_len n h \<Longrightarrow> returns_only (releaseBlockToFreeList p h) (lists_len n)"
  unfolding releaseBlockToFreeList_def Let_def by (assumption | rule lists_steps)+

lemma detachBlock_lists: "lists_len n h \<Longrightarrow> returns_only (detachBlock p i h) (lists_len n)"
  unfolding detachBlock_def Let_def
  by (assumption | rule lists_steps)+

lemma mergeBlock_lists: "lists_len n h \<Longrightarrow> returns_only (mergeBlock p q h) (lists_len n)"
  unfolding mergeBlock_def Let_def by (assumption | rule lists_steps)+

lemmas lists_moves = takeBlockFromFreeList_lists releaseBlockToFreeList_lists detachBlock_lists mergeBlock_lists

lemma resizeBlock_lists: "lists_len n h \<Longrightarrow> returns_only (resizeBlock p k h) (lists_len n)"
  unfolding resizeBlock_def Let_def by (assumption | rule lists_moves lists_steps)+

lemma free_lists: "lists_len n h \<Longrightarrow> returns_only (free p h) (lists_len n)"
  unfolding free_def Let_def by (assumption | rule lists_moves lists_steps)+

lemma reserveBlock_lists:
  "lists_len n h \<Longrightarrow> returns_only (reserveBlock block sz a i h) (\<lambda>(_, h'). lists_len n h')"
  unfolding reserveBlock_def Let_def by (assumption | rule lists_moves resizeBlock_lists lists_steps)+

lemma checkBlock_lists: "lists_len n h \<Longrightarrow> returns_only (checkBlock block i sz al h) (\<lambda>(_, h'). lists_len n h')"
  unfolding checkBlock_def Let_def by (assumption | rule reserveBlock_lists lists_steps)+

lemma construct_step:
  "lists_len n h \<Longrightarrow> (\<And>r h'. lists_len n h' \<Longrightarrow> returns_only (f r h') Q) \<Longrightarrow> returns_only (case construct b h of (r, h') \<Rightarrow> f r h') Q"
  using construct_lists [of n h b] by (auto split: prod.splits)

lemma split_lists: "lists_len n h \<Longrightarrow> returns_only (split p m h) (\<lambda>(_, _, h'). lists_len n h')"
  unfolding split_def splitBlock_def Let_def by (assumption | rule construct_step lists_moves lists_steps)+

lemma shrink_lists: "lists_len n h \<Longrightarrow> returns_only (shrink p k h) (\<lambda>(_, _, h'). lists_len n h')"
  unfolding shrink_def Let_def by (assumption | rule split_lists free_lists lists_steps)+

lemma search_list_lists:
  assumes "lists_len n h"
  shows "returns_only (search_list lb i sz al h) (\<lambda>(_, h'). lists_len n h')"
proof -
  have "lists_len n h \<longrightarrow> (case y of (_, h') \<Rightarrow> lists_len n h')" if "search_list lb i sz al h = Some y" for y
    using that
  proof (rule search_list.raw_induct [rotated])
    fix search lb i sz al h y
    assume IH: "\<And>lb i sz al h y. search lb i sz al h = Some y \<Longrightarrow> lists_len n h \<longrightarrow> (case y of (_, h') \<Rightarrow> lists_len n h')"
      and y: "(case lb of None \<Rightarrow> Some (None, h) | Some block \<Rightarrow>
          Option.bind (checkBlock block i sz al h) (\<lambda>(r, h).
            case r of Some a \<Rightarrow> Some (Some a, h)
            | None \<Rightarrow> Option.bind (propNextFree h block) (\<lambda>nf. search nf i sz al h))) = Some y"
    have IH': "lists_len n h \<Longrightarrow> returns_only (search lb i sz al h) (\<lambda>(_, h'). lists_len n h')" for lb i sz al h
      using IH by (auto simp: returns_only_def)
    have "lists_len n h \<Longrightarrow> returns_only (case lb of None \<Rightarrow> Some (None, h) | Some block \<Rightarrow>
          Option.bind (checkBlock block i sz al h) (\<lambda>(r, h).
            case r of Some a \<Rightarrow> Some (Some a, h)
            | None \<Rightarrow> Option.bind (propNextFree h block) (\<lambda>nf. search nf i sz al h))) (\<lambda>(_, h'). lists_len n h')"
      by (assumption | rule IH' checkBlock_lists lists_steps)+
    then show "lists_len n h \<longrightarrow> (case y of (_, h') \<Rightarrow> lists_len n h')"
      unfolding y by (simp add: returns_only_def)
  qed
  then show ?thesis using assms by (simp add: returns_only_def)
qed

lemma aligned_alloc_lists: "lists_len n h \<Longrightarrow> returns_only (aligned_alloc al sz h) (\<lambda>(_, h'). lists_len n h')"
proof -
  have m: "lists_len n h \<Longrightarrow> lists_len n (if c then h\<lparr>mMallocCount := k\<rparr> else h)" for h c k by (simp add: lists_len_def)
  show "lists_len n h \<Longrightarrow> ?thesis" unfolding aligned_alloc_def allocBestFit_def
    by (assumption | rule m search_list_lists checkBlock_lists lists_steps)+
qed

section \<open>A heap of at most 256 bytes\<close>

inductive heap_call :: "tlsf_heap \<Rightarrow> tlsf_heap \<Rightarrow> bool" where
  call_alloc: "aligned_alloc al sz h = Some (r, h') \<Longrightarrow> heap_call h h'"
| call_free: "free p h = Some h' \<Longrightarrow> heap_call h h'"
| call_split: "split p m h = Some (st, x, h') \<Longrightarrow> heap_call h h'"
| call_shrink: "shrink p sz h = Some (st, y, h') \<Longrightarrow> heap_call h h'"

lemma heap_call_lists: "heap_call h h' \<Longrightarrow> lists_len n h \<Longrightarrow> lists_len n h'"
  by (induction rule: heap_call.induct)
    (auto dest: returns_onlyD [OF aligned_alloc_lists] returns_onlyD [OF free_lists] returns_onlyD [OF split_lists]
      returns_onlyD [OF shrink_lists])

lemma heap_calls_lists: "heap_call\<^sup>*\<^sup>* h h' \<Longrightarrow> lists_len n h \<Longrightarrow> lists_len n h'"
  by (induction rule: rtranclp_induct) (auto intro: heap_call_lists)

lemma small_heap_lists:
  assumes "create outcomes r = Some (OsStatusSuccess, Some h)" and "range_size r \<le> 256"
  shows "lists_len 0 h"
proof -
  have "SizeToMemoryClass (range_size r) = 0"
    using assms(2) by (auto simp: SizeToMemoryClass_def tlsf_constants dest: leD)
  then show ?thesis
    using assms(1) by (auto simp: create_def lists_len_def make_heap_def GetFreeListSize_def Let_def split: prod.splits option.splits if_splits)
qed

lemma release_needs_lists: "lists_len 0 h \<Longrightarrow> releaseBlockToFreeList p h = None"
  by (auto simp: releaseBlockToFreeList_def lists_len_def markFree_def upd_block_def get_list_def bind_eq_None_conv Let_def)

lemma free_between_used:
  assumes "lists_len 0 h" and "blocks h p = Some b" and "blk_next b = Some n" and "blocks h n = Some nb" and "\<not> isFree n nb"
    and "pred_option (\<lambda>q. \<exists>qb. blocks h q = Some qb \<and> \<not> isFree q qb) (blk_prev b)"
  shows "free (Some p) h = None"
proof -
  have "(case blk_prev b of None \<Rightarrow> Some h | Some q \<Rightarrow> Option.bind (blocks h q) (\<lambda>qb.
      if isFree q qb then Option.bind (takeBlockFromFreeList q h) (mergeBlock p q) else Some h)) = Some h"
    using assms(6) by (auto split: option.splits)
  then show ?thesis using assms(2-5) release_needs_lists [OF assms(1)] by (auto simp: free_def Let_def bind_eq_None_conv)
qed

text \<open>
  C39. A heap on a range of at most 256 bytes has an empty array of free lists, and keeps it through every
  sequence of allocations, frees, splits and shrinks. Filing any block in a free list accesses that array out of its
  bounds; so does freeing an allocation that lies between blocks in use.
\<close>

theorem small_heap_free_out_of_bounds:
  assumes "create outcomes r = Some (OsStatusSuccess, Some h0)" and "range_size r \<le> 256" and "heap_call\<^sup>*\<^sup>* h0 h"
  shows "mFreeList h = [] \<and> releaseBlockToFreeList block h = None
    \<and> (\<forall>p b n nb. blocks h p = Some b \<longrightarrow> blk_next b = Some n \<longrightarrow> blocks h n = Some nb \<longrightarrow> \<not> isFree n nb
         \<longrightarrow> pred_option (\<lambda>q. \<exists>qb. blocks h q = Some qb \<and> \<not> isFree q qb) (blk_prev b)
         \<longrightarrow> free (Some p) h = None)"
proof -
  have "lists_len 0 h" using heap_calls_lists [OF assms(3) small_heap_lists [OF assms(1,2)]] .
  then show ?thesis using release_needs_lists free_between_used by (simp add: lists_len_def)
qed

definition small_range :: range where
  "small_range = \<lparr>rfront = 0x100, rback = 0x180\<rparr>"

definition small_heap :: "nat \<Rightarrow> tlsf_heap" where
  "small_heap n = ((\<lambda>h. snd (the (aligned_alloc 16 32 h))) ^^ n) (the (snd (the (create [True, True, True] small_range))))"

lemma small_heap_create: "create [True, True, True] small_range = Some (OsStatusSuccess, Some (small_heap 0))"
proof -
  have "fst (the (create [True, True, True] small_range)) = OsStatusSuccess"
    "\<not> Option.is_none (create [True, True, True] small_range)"
    "\<not> Option.is_none (snd (the (create [True, True, True] small_range)))" by code_simp+
  then show ?thesis by (auto simp: small_heap_def Option.is_none_def)
qed

lemma small_heap_alloc:
  "aligned_alloc 16 32 (small_heap 0) = Some (Some (Slot 0 0), small_heap 1)"
  "aligned_alloc 16 32 (small_heap 1) = Some (Some (Slot 0 1), small_heap 2)"
proof -
  have "fst (the (aligned_alloc 16 32 (small_heap 0))) = Some (Slot 0 0)" "\<not> Option.is_none (aligned_alloc 16 32 (small_heap 0))"
    "fst (the (aligned_alloc 16 32 (small_heap 1))) = Some (Slot 0 1)" "\<not> Option.is_none (aligned_alloc 16 32 (small_heap 1))"
    by code_simp+
  then show "aligned_alloc 16 32 (small_heap 0) = Some (Some (Slot 0 0), small_heap 1)"
    "aligned_alloc 16 32 (small_heap 1) = Some (Some (Slot 0 1), small_heap 2)"
    by (auto simp: small_heap_def Option.is_none_def numeral_2_eq_2)
qed

theorem small_heap_free_out_of_bounds_witness:
  "aligned_alloc 16 32 (small_heap 0) = Some (Some (Slot 0 0), small_heap 1)
    \<and> aligned_alloc 16 32 (small_heap 1) = Some (Some (Slot 0 1), small_heap 2) \<and> free (Some (Slot 0 0)) (small_heap 2) = None"
proof -
  have "heap_call\<^sup>*\<^sup>* (small_heap 0) (small_heap 2)"
    using small_heap_alloc by (meson call_alloc converse_rtranclp_into_rtranclp rtranclp.rtrancl_refl)
  moreover have "range_size small_range \<le> 256" by (simp add: small_range_def range_size_def)
  moreover have "blocks (small_heap 2) (Slot 0 0) = Some (the (blocks (small_heap 2) (Slot 0 0)))"
    "blk_next (the (blocks (small_heap 2) (Slot 0 0))) = Some (Slot 0 1)"
    "blk_prev (the (blocks (small_heap 2) (Slot 0 0))) = None"
    "blocks (small_heap 2) (Slot 0 1) = Some (the (blocks (small_heap 2) (Slot 0 1)))"
    "\<not> isFree (Slot 0 1) (the (blocks (small_heap 2) (Slot 0 1)))" by code_simp+
  ultimately show ?thesis
    using small_heap_free_out_of_bounds [OF small_heap_create, of "small_heap 2"] small_heap_alloc by simp
qed

end
