(* ===== verification/Spec2Isabelle.thy ===== *)
theory Spec2Isabelle
  imports SystemMemory CommandList FixedDeque TlsfSmall
begin

text \<open>
  A verification development for the memory management of the BezOS kernel, a C++ operating system kernel for
  x86-64. Paths below are relative to \<^verbatim>\<open>src/sources/\<close>; \<^verbatim>\<open>kernel/\<close> is the kernel, \<^verbatim>\<open>common/\<close> the library it shares with
  user programs.

  \<^bold>\<open>The program.\<close> A kernel client asks \<^verbatim>\<open>SystemMemory\<close> (\<^verbatim>\<open>kernel/src/memory.cpp\<close>) for memory. It takes physical pages from
  \<^verbatim>\<open>PageAllocator\<close>, virtual addresses from the \<^verbatim>\<open>AddressSpace\<close>, and joins them in the \<^verbatim>\<open>PageTables\<close> of the address space.
  Page allocator and address space each keep their ranges in a \<^verbatim>\<open>TlsfHeap\<close>, a two-level segregated-fit heap whose control
  blocks come from a pool. The page tables take the memory of their tables from a \<^verbatim>\<open>PageTableAllocator\<close>, an intrusive
  list inside the memory it hands out, and find a table by its physical address in a \<^verbatim>\<open>MappingLookupTable\<close>. A
  \<^verbatim>\<open>PageTableCommandList\<close> collects changes whose tables are reserved in advance. Containers of the kernel that
  are used here or by the devices are verified on their own.

  \<^bold>\<open>Conventions.\<close> (theory \<open>Prelude\<close>) Machine integers are words of their width; where the code computes on \<^verbatim>\<open>size_t\<close> so does the
  model, with its wrap-around, and the bounds that exclude it are hypotheses or parts of an invariant. \<open>OsStatus\<close> is the
  status enumeration; an operation returns its status with its other results and the new state. The option
  around the result is for the executions that do not return a value: \<open>None\<close> stands for a failed \<^verbatim>\<open>KM_CHECK\<close>, \<^verbatim>\<open>KM_ASSERT\<close> or
  panic, a null or dangling dereference, an access out of bounds, an undefined shift, a loop that
  does not end, and a lock that is taken twice. Theorems that state \<open>Some\<close> exclude all of these. Loops whose end
  is not evident are partial functions into the option type, without fuel; each use of them in a theorem
  comes with the proof that they return. Loops over fixed tables of 512 entries and over lists are structural.
  Pointers are addresses (\<open>u64\<close>) or names of pool slots (\<open>ptr\<close>), and the memory behind them is a partial map, so that
  aliasing and use after free are visible. The outcome of requests to the C++ allocator is a list of
  booleans that the operations consume; every theorem holds for all such lists.

  \<^bold>\<open>Helpers.\<close> \<open>Bits\<close>: rounding, alignment, bit scans and powers of two of \<^verbatim>\<open>common/include/common/util/util.hpp\<close> and the bit scans of
  the heap; \<open>nextPowerOf2\<close> is the least power of two not below its argument. \<open>Range\<close>: \<^verbatim>\<open>AnyRange\<close> and its functions
  (\<^verbatim>\<open>kernel/include/memory/range.hpp\<close>) as sets of addresses, with the cases in which \<^verbatim>\<open>overlaps\<close> and \<^verbatim>\<open>intersects\<close>
  differ from them. \<open>Linked\<close>: doubly linked lists in a store.

  \<^bold>\<open>Pool.\<close> \<open>Pool\<close> models \<^verbatim>\<open>kernel/include/memory/detail/pool.hpp\<close>: magazines with a free list threaded through their slots. The
  locale \<open>object_pool\<close> is its contract, interpreted on \<open>allocate\<close> and \<open>release\<close>: an allocation gives a slot that
  was not live, releasing a live slot never reaches the unreachable end.

  \<^bold>\<open>Heap.\<close> \<open>TlsfIndex\<close> (\<^verbatim>\<open>kernel/include/memory/detail/tlsf.hpp\<close>) has the size classes; \<open>TlsfHeap\<close> every operation of
  \<^verbatim>\<open>kernel/src/memory/heap.cpp\<close>: blocks with address links and free links, the array of free lists and both bitmaps. \<open>TlsfLists\<close>
  shows that the free list operations keep list, links and bitmaps in step, \<open>TlsfInv\<close> states the
  invariant (the blocks tile the managed range, no two free blocks are neighbours, every free block is in the
  list of its size, spare blocks are apart), \<open>TlsfAlloc\<close>, \<open>TlsfMalloc\<close> and \<open>TlsfSplitv\<close> that allocation, freeing and splitting
  keep it. \<open>TlsfContract\<close> has the locale \<open>region_allocator\<close>, its interpretation on the heap, the theorems on
  the map \<open>live\<close> from allocations to their ranges, and the inductive relation of client calls with its
  reachable states. \<open>TlsfFind\<close> treats the search for an allocation by its address. \<open>TlsfSmall\<close> shows that a heap of at
  most 256 bytes, which is outside the invariant, has no free lists and that filing a block in one is
  out of bounds. The bounds of the contract are a managed range of more than 256 bytes and less than 512 GiB, for which
  every class fits the bitmaps, and a base that the alignment divides, without which the code reads through a null pointer.

  \<^bold>\<open>Page table memory.\<close> \<open>TableAlloc\<close> models \<^verbatim>\<open>kernel/src/memory/table_allocator.cpp\<close> with its control blocks and lists
  (\<^verbatim>\<open>detail/control_block.cpp\<close>, \<^verbatim>\<open>detail/table_list.cpp\<close>). \<open>TableAllocSort\<close> shows that the quicksort of the linked blocks ends and
  sorts; \<open>TableAllocInv\<close> that sorting and merging keep the set of free bytes with their slides; \<open>TableAllocList\<close> has the
  locale \<open>page_supply\<close>, its interpretation, the exact outcome of list requests, and the loss of all free memory by
  \<open>releaseMemory\<close>.

  \<^bold>\<open>Lookup.\<close> \<open>FlatMap\<close> models \<^verbatim>\<open>StaticFlatMap\<close> (\<^verbatim>\<open>kernel/include/std/container/static_flat_map.hpp\<close>) as a refinement of a
  bounded map (locale \<open>bounded_map\<close>), and \<^verbatim>\<open>MappingLookupTable\<close> on it, with the exact set of addresses that it resolves.

  \<^bold>\<open>Page tables.\<close> \<open>PageEntry\<close>: entry bits and address mappings (\<^verbatim>\<open>kernel/include/arch/paging.hpp\<close>, \<^verbatim>\<open>memory/paging.hpp\<close>,
  \<^verbatim>\<open>memory/layout.hpp\<close>, \<^verbatim>\<open>memory/memory.hpp\<close>). \<open>PageTables\<close>: every operation of \<^verbatim>\<open>kernel/src/memory/page_tables.cpp\<close> over a store of
  table pages. \<open>PageTree\<close> reads the store as a tree, and its invariant \<open>pt_inv\<close> says that tables are distinct, not free
  and not in the reserve; \<open>PageView\<close> abstracts the tree to the function from page numbers to frames that \<^verbatim>\<open>getBackingAddress\<close>
  computes. \<open>PageMap\<close> and \<open>PageSplit\<close> prove what mapping one page does to that function, \<open>PageRange\<close> the loops over ranges,
  \<open>PageReserve\<close> that \<^verbatim>\<open>MaxPagesForMapping\<close> is enough for every range, \<open>PageCompact\<close> compaction, \<open>PageUnmap\<close> unmapping.
  \<open>PageOps\<close>, \<open>PageUnmap\<close> and \<open>PageSpec\<close> have the theorems on the public operations.

  \<^bold>\<open>Command lists.\<close> \<open>InlinedVector\<close> models \<^verbatim>\<open>kernel/include/std/inlined_vector.hpp\<close> as a refinement of lists (locale
  \<open>growable_list\<close>); \<open>CommandList\<close> models \<^verbatim>\<open>kernel/src/memory/pte_command_list.cpp\<close>: a list that is ready commits, and adding a mapping
  keeps it ready.

  \<^bold>\<open>Address spaces.\<close> \<open>MappingAllocation\<close> has the handles (\<^verbatim>\<open>kernel/include/memory/allocator.hpp\<close>, \<^verbatim>\<open>stack_mapping.cpp\<close>), \<open>AddressSpace\<close> the
  operations of \<^verbatim>\<open>kernel/src/memory/address_space.cpp\<close> with the lock that each takes. \<open>AddressSpaceInv\<close> ties heap and page tables
  together: a page of the managed range is mapped only inside an allocation. \<open>AddressSpaceSpec\<close> and \<open>AddressSpaceStack\<close>
  show what mapping, unmapping and stacks do, and the error paths that go wrong.

  \<^bold>\<open>System memory.\<close> \<open>SystemMemory\<close> models \<^verbatim>\<open>kernel/src/memory/page_allocator.cpp\<close>, the memory map it starts from, and
  \<^verbatim>\<open>kernel/src/memory.cpp\<close>: a request joins fresh pages and fresh addresses, giving it back restores the state,
  a failure changes nothing.

  \<^bold>\<open>Queues.\<close> \<open>RingQueue\<close> models \<^verbatim>\<open>kernel/include/std/ringbuffer.hpp\<close> as programs of atomic steps, with the reachable states of
  several producers and a consumer in all interleavings: with one producer it is a queue, with two it is not.
  Memory is sequentially consistent there. The locale \<open>bounded_queue\<close> is interpreted on it and, in \<open>FixedDeque\<close>, on
  \<^verbatim>\<open>FixedSizeDeque\<close> (\<^verbatim>\<open>kernel/include/std/fixed_deque.hpp\<close>), which also carries the reads and writes of the
  stream device (\<^verbatim>\<open>kernel/src/devices/stream.cpp\<close>).

  \<^bold>\<open>Not modelled.\<close> Logging and formatting (no effect on the state), invalidation of the processor's translation cache, and the copying
  of elements between vectors. An \<^verbatim>\<open>InlinedVector\<close> holds trivially destructible elements, which is how the modelled code uses it.
  The operations of the heap outside the contract (growing, reserving a range, resetting, adding a pool) and the 1 GiB page
  operations are defined but have no theorem. Outside the development are the boot protocols, interrupts, timers, drivers, the
  file system, processes and the scheduler, reference counting and read-copy-update, and user programs: device
  access, or parts that rest on code that is not in the repository, or not reached yet.
\<close>

end
